(* ===== verification/Prelude.thy ===== *)
theory Prelude
  imports Main "HOL-Library.Word" "HOL-Library.List_Lexorder" "HOL-Library.Sublist"
begin

text \<open>
  Shared vocabulary of the development: the machine types of the code, the values that stand
  for its exceptions (\<^verbatim>\<open>include/exceptions.h\<close>), results that may fail, the constants of
  \<^verbatim>\<open>include/constants.h\<close>, and the generic lemmas on lists and results that
  the component theories share.
\<close>

unbundle bit_operations_syntax

named_theorems const_simps \<open>the constants of include/constants.h as numerals\<close>
named_theorems res_simps \<open>evaluation of fallible computations\<close>

section \<open>Machine types\<close>

type_synonym u8 = "8 word"
type_synonym u16 = "16 word"
type_synonym u32 = "32 word"
type_synonym u64 = "64 word"

text \<open>The contents of a \<^verbatim>\<open>Slice\<close>, of a \<^verbatim>\<open>ByteBuffer\<close> and of a file.\<close>

type_synonym bytes = "u8 list"

section \<open>Exceptions\<close>

text \<open>
  One constructor per exception class of the code. \<open>StdException\<close> is what is left of an exception that
  is caught by reference and thrown again by value. The last four stand for what the C++
  library and the machine raise: a failed stream operation (\<^verbatim>\<open>std::ios_base::failure\<close>), a
  failed file-system operation (\<^verbatim>\<open>std::filesystem::filesystem_error\<close>), an access the
  language leaves undefined (reading or writing outside an object), and a loop that does not end.
\<close>

datatype error =
    DatabaseException string
  | DatabaseNotFound
  | DatabaseClosed
  | SnapshotClosed
  | DatabaseInUse
  | DatabaseOpenFailed string
  | EndOfIterator
  | IllegalState string
  | DatabaseCorrupted
  | InvalidDatabase
  | EmptyKey
  | KeyTooLong
  | StdException
  | IosFailure
  | FilesystemError
  | UndefinedBehaviour
  | NoReturn

text \<open>The message each exception carries.\<close>

fun what :: "error \<Rightarrow> string" where
  "what (DatabaseException w) = w"
| "what DatabaseNotFound = ''no database found''"
| "what DatabaseClosed = ''database closed''"
| "what SnapshotClosed = ''snapshot closed''"
| "what DatabaseInUse = ''database in use''"
| "what (DatabaseOpenFailed w) = w"
| "what EndOfIterator = ''end of iterator''"
| "what (IllegalState w) = w"
| "what DatabaseCorrupted = ''database corrupted, run repair''"
| "what InvalidDatabase = ''path is not a valid database''"
| "what EmptyKey = ''key is empty''"
| "what KeyTooLong = ''key too long, max 1024''"
| "what StdException = ''std::exception''"
| "what IosFailure = ''ios failure''"
| "what FilesystemError = ''filesystem error''"
| "what UndefinedBehaviour = ''undefined behaviour''"
| "what NoReturn = ''no return''"

text \<open>
  What a \<^verbatim>\<open>catch (std::exception&)\<close> handler catches: every exception, but
  neither undefined behaviour nor a loop that does not end.
\<close>

definition catchable :: "error \<Rightarrow> bool" where
  "catchable e \<longleftrightarrow> e \<noteq> UndefinedBehaviour \<and> e \<noteq> NoReturn"

section \<open>Results that may fail\<close>

type_synonym 'a res = "error + 'a"

definition bind_res :: "'a res \<Rightarrow> ('a \<Rightarrow> 'b res) \<Rightarrow> 'b res" where
  "bind_res m f = (case m of Inl e \<Rightarrow> Inl e | Inr x \<Rightarrow> f x)"

text \<open>An out-of-range access: \<open>None\<close> is undefined behaviour.\<close>

definition access :: "'a option \<Rightarrow> 'a res" where
  "access x = (case x of None \<Rightarrow> Inl UndefinedBehaviour | Some y \<Rightarrow> Inr y)"

lemma bind_res_Inr [simp, res_simps]: "bind_res (Inr x) f = f x"
  by (simp add: bind_res_def)

lemma bind_res_Inl [simp, res_simps]: "bind_res (Inl e) f = Inl e"
  by (simp add: bind_res_def)

lemma bind_res_eq_Inr:
  "bind_res m f = Inr y \<longleftrightarrow> (\<exists>x. m = Inr x \<and> f x = Inr y)"
  by (cases m) simp_all

lemma bind_res_cong [fundef_cong]:
  assumes "m = m'" and "\<And>x. m' = Inr x \<Longrightarrow> f x = g x"
  shows "bind_res m f = bind_res m' g"
  using assms by (cases m') simp_all

lemma access_Some [simp, res_simps]: "access (Some x) = Inr x"
  by (simp add: access_def)

lemma access_None [simp, res_simps]: "access None = Inl UndefinedBehaviour"
  by (simp add: access_def)

lemma access_eq_Inr: "access x = Inr y \<longleftrightarrow> x = Some y"
  by (cases x) simp_all

section \<open>The constants of the code\<close>

definition keyBlockSize :: nat where "keyBlockSize = 4096"
definition maxKeySize :: nat where "maxKeySize = 1000"
definition endOfBlock :: u16 where "endOfBlock = 0x8000"
definition compressedBit :: u16 where "compressedBit = 0x8000"
definition maxPrefixLen :: u16 where "maxPrefixLen = 0xFF XOR 0x80"
definition maxCompressedLen :: u16 where "maxCompressedLen = 0xFF"
definition keyIndexInterval :: nat where "keyIndexInterval = 16"

lemma maxPrefixLen_eq: "maxPrefixLen = 127"
  by (simp add: maxPrefixLen_def)

lemmas consts_num [const_simps] =
  keyBlockSize_def maxKeySize_def endOfBlock_def compressedBit_def maxPrefixLen_eq
  maxCompressedLen_def keyIndexInterval_def

section \<open>Lists\<close>

lemma take_concat_block:
  assumes "\<And>x. x \<in> set xs \<Longrightarrow> length x = n" and "i < length xs"
  shows "take n (drop (i * n) (concat xs)) = xs ! i"
  using assms
proof (induction xs arbitrary: i)
  case Nil
  then show ?case by simp
next
  case (Cons x xs)
  have x: "length x = n" using Cons.prems by simp
  show ?case
  proof (cases i)
    case 0
    then show ?thesis using x by simp
  next
    case (Suc j)
    have "take n (drop (j * n) (concat xs)) = xs ! j"
      using Cons.prems Suc by (intro Cons.IH) auto
    then show ?thesis using x Suc by simp
  qed
qed

lemma length_concat_block:
  assumes "\<And>x. x \<in> set xs \<Longrightarrow> length x = n"
  shows "length (concat xs) = length xs * n"
  using assms by (induction xs) auto

lemma sorted_wrt_appendD:
  assumes "sorted_wrt r (xs @ ys)"
  shows "sorted_wrt r xs" and "sorted_wrt r ys"
    and "x \<in> set xs \<Longrightarrow> y \<in> set ys \<Longrightarrow> r x y"
  using assms by (auto simp: sorted_wrt_append)

text \<open>Splitting a list sorted by a transitive relation at a predicate its order respects.\<close>

lemma takeWhile_sorted_split:
  assumes "sorted_wrt r xs" and "\<And>x y. r x y \<Longrightarrow> P y \<Longrightarrow> P x"
  shows "takeWhile P xs = filter P xs" and "dropWhile P xs = filter (\<lambda>x. \<not> P x) xs"
proof -
  have "takeWhile P xs = filter P xs \<and> dropWhile P xs = filter (\<lambda>x. \<not> P x) xs"
    using assms
  proof (induction xs)
    case Nil
    then show ?case by simp
  next
    case (Cons x xs)
    have IH: "takeWhile P xs = filter P xs \<and> dropWhile P xs = filter (\<lambda>x. \<not> P x) xs"
      using Cons by simp
    have no: "\<not> P x \<Longrightarrow> y \<in> set xs \<Longrightarrow> \<not> P y" for y
      using Cons.prems by auto
    have "\<not> P x \<Longrightarrow> filter P xs = []" and "\<not> P x \<Longrightarrow> filter (\<lambda>x. \<not> P x) xs = xs"
      using no by (auto simp: filter_empty_conv filter_id_conv)
    with IH show ?case by simp
  qed
  then show "takeWhile P xs = filter P xs" and "dropWhile P xs = filter (\<lambda>x. \<not> P x) xs"
    by simp_all
qed

end
