(* ===== verification/LittleEndian.thy ===== *)
theory LittleEndian
  imports Prelude
begin

text \<open>
  The little-endian integers of the files: the readers and writers at the top of
  \<^verbatim>\<open>diskio.cpp\<close>. A reader of a buffer takes the bytes from the position read; \<open>None\<close> is a read
  past the end of the buffer.
\<close>

fun readLEuint16 :: "bytes \<Rightarrow> u16 option" where
  "readLEuint16 (b0 # b1 # _) = Some (ucast b0 + push_bit 8 (ucast b1))"
| "readLEuint16 _ = None"

fun readLEuint32 :: "bytes \<Rightarrow> u32 option" where
  "readLEuint32 (b0 # b1 # b2 # b3 # _) =
     Some (ucast b0 + push_bit 8 (ucast b1) + push_bit 16 (ucast b2) + push_bit 24 (ucast b3))"
| "readLEuint32 _ = None"

definition readLEuint64 :: "bytes \<Rightarrow> u64 option" where
  "readLEuint64 b =
     (case readLEuint32 b of
        None \<Rightarrow> None
      | Some lo \<Rightarrow>
          (case readLEuint32 (drop 4 b) of
             None \<Rightarrow> None
           | Some hi \<Rightarrow> Some (ucast lo + push_bit 32 (ucast hi))))"

definition writeLEuint16 :: "u16 \<Rightarrow> bytes" where
  "writeLEuint16 v = [ucast v, ucast (drop_bit 8 v)]"

definition writeLEuint32 :: "u32 \<Rightarrow> bytes" where
  "writeLEuint32 v = [ucast v, ucast (drop_bit 8 v), ucast (drop_bit 16 v), ucast (drop_bit 24 v)]"

definition writeLEuint64 :: "u64 \<Rightarrow> bytes" where
  "writeLEuint64 v = writeLEuint32 (ucast v) @ writeLEuint32 (ucast (drop_bit 32 v))"

lemma length_writeLE [simp]:
  "length (writeLEuint16 x) = 2" "length (writeLEuint32 y) = 4" "length (writeLEuint64 z) = 8"
  by (simp_all add: writeLEuint16_def writeLEuint32_def writeLEuint64_def)

section \<open>Round trips\<close>

lemma word16_bytes: "(ucast (ucast v :: u8) :: u16) + push_bit 8 (ucast (ucast (drop_bit 8 v) :: u8)) = v"
proof -
  have "(ucast (ucast v :: u8) :: u16) + push_bit 8 (ucast (ucast (drop_bit 8 v) :: u8)) =
      (ucast (ucast v :: u8) :: u16) OR push_bit 8 (ucast (ucast (drop_bit 8 v) :: u8))"
    by (rule disjunctive_add) (auto simp: bit_simps)
  also have "\<dots> = v"
    by (rule bit_word_eqI) (auto simp: bit_simps)
  finally show ?thesis .
qed

lemma word32_bytes:
  "(ucast (ucast v :: u8) :: u32) + push_bit 8 (ucast (ucast (drop_bit 8 v) :: u8)) +
     push_bit 16 (ucast (ucast (drop_bit 16 v) :: u8)) +
     push_bit 24 (ucast (ucast (drop_bit 24 v) :: u8)) = v"
    (is "?a + ?b + ?c + ?d = v")
proof -
  have "?a + ?b = ?a OR ?b"
    by (rule disjunctive_add) (auto simp: bit_simps)
  moreover have "(?a OR ?b) + ?c = (?a OR ?b) OR ?c"
    by (rule disjunctive_add) (auto simp: bit_simps)
  moreover have "((?a OR ?b) OR ?c) + ?d = ((?a OR ?b) OR ?c) OR ?d"
    by (rule disjunctive_add) (auto simp: bit_simps)
  moreover have "((?a OR ?b) OR ?c) OR ?d = v"
  proof (rule bit_word_eqI)
    fix n :: nat
    assume "n < LENGTH(32)"
    then consider "n < 8" | "8 \<le> n" "n < 16" | "16 \<le> n" "n < 24" | "24 \<le> n" "n < 32"
      by fastforce
    then show "bit (((?a OR ?b) OR ?c) OR ?d) n \<longleftrightarrow> bit v n"
      by cases (auto simp: bit_simps)
  qed
  ultimately show ?thesis by simp
qed

lemma word64_halves: "(ucast (ucast v :: u32) :: u64) + push_bit 32 (ucast (ucast (drop_bit 32 v) :: u32)) = v"
proof -
  have "(ucast (ucast v :: u32) :: u64) + push_bit 32 (ucast (ucast (drop_bit 32 v) :: u32)) =
      (ucast (ucast v :: u32) :: u64) OR push_bit 32 (ucast (ucast (drop_bit 32 v) :: u32))"
    by (rule disjunctive_add) (auto simp: bit_simps)
  also have "\<dots> = v"
    by (rule bit_word_eqI) (auto simp: bit_simps)
  finally show ?thesis .
qed

lemma readLE16_write [simp]: "readLEuint16 (writeLEuint16 v @ r) = Some v"
  using word16_bytes [of v] by (simp add: writeLEuint16_def)

lemma readLE32_write [simp]: "readLEuint32 (writeLEuint32 v @ r) = Some v"
  using word32_bytes [of v] by (simp add: writeLEuint32_def)

lemma readLE64_write [simp]: "readLEuint64 (writeLEuint64 v @ r) = Some v"
proof -
  have "drop 4 (writeLEuint64 v @ r) = writeLEuint32 (ucast (drop_bit 32 v)) @ r"
    by (simp add: writeLEuint64_def)
  then show ?thesis
    using word64_halves [of v] by (simp add: readLEuint64_def) (simp add: writeLEuint64_def)
qed

lemma readLE16_None_iff: "readLEuint16 b = None \<longleftrightarrow> length b < 2"
  by (cases b rule: readLEuint16.cases) auto

lemma readLE16_SomeD: "readLEuint16 b = Some v \<Longrightarrow> 2 \<le> length b"
  using readLE16_None_iff [of b] by (cases "length b < 2") auto

lemma readLE32_None_iff: "readLEuint32 b = None \<longleftrightarrow> length b < 4"
  by (cases b rule: readLEuint32.cases) auto

lemma readLE32_SomeD: "readLEuint32 b = Some v \<Longrightarrow> 4 \<le> length b"
  using readLE32_None_iff [of b] by (cases "length b < 4") auto

section \<open>Properties\<close>

text \<open>The little-endian readers return the value the writers wrote, whatever follows it, and each
  writer produces as many bytes as its type has.\<close>

theorem little_endian_roundtrip:
  "readLEuint16 (writeLEuint16 a @ r) = Some a \<and> length (writeLEuint16 a) = 2 \<and>
   readLEuint32 (writeLEuint32 b @ r) = Some b \<and> length (writeLEuint32 b) = 4 \<and>
   readLEuint64 (writeLEuint64 c @ r) = Some c \<and> length (writeLEuint64 c) = 8"
proof -
  have "length (writeLEuint16 a) = 2" "length (writeLEuint32 b) = 4" "length (writeLEuint64 c) = 8"
    by (simp_all add: writeLEuint16_def writeLEuint32_def writeLEuint64_def)
  then show ?thesis by simp
qed

end
