(* ===== verification/Slice.thy ===== *)
theory Slice
  imports Prelude
begin

text \<open>
  \<^verbatim>\<open>include/slice.h\<close>: the byte-wise comparison every component orders its keys by, and the
  contract of a three-way comparison function (\<open>comparator\<close>), which the skip list asks of the
  function it is built with. A slice is modelled by the bytes it views; the null slice and a
  slice of length 0 are both the empty list.
\<close>

section \<open>Comparison\<close>

text \<open>
  The C library's \<^verbatim>\<open>memcmp\<close> on the first \<open>n\<close> bytes. The standard fixes only the sign of
  the result, and the code uses only its sign; the model returns the difference of the first
  two bytes that differ.
\<close>

fun memcmp :: "bytes \<Rightarrow> bytes \<Rightarrow> nat \<Rightarrow> int" where
  "memcmp (x # xs) (y # ys) (Suc n) =
     (if x = y then memcmp xs ys n else uint x - uint y)"
| "memcmp _ _ _ = 0"

text \<open>
  \<^verbatim>\<open>Slice::compareTo\<close>. Its first line returns 0 for two views of the same memory with the
  same length, which the rest computes too.
\<close>

definition compareTo :: "bytes \<Rightarrow> bytes \<Rightarrow> int" where
  "compareTo a b =
     (let m = min (length a) (length b);
          result = memcmp a b m
      in if result \<noteq> 0 then result else int (length a) - int (length b))"

definition slice_less :: "bytes \<Rightarrow> bytes \<Rightarrow> bool" where
  "slice_less a b \<longleftrightarrow> compareTo a b < 0"

definition slice_eq :: "bytes \<Rightarrow> bytes \<Rightarrow> bool" where
  "slice_eq a b \<longleftrightarrow> compareTo a b = 0"

definition slice_empty :: "bytes \<Rightarrow> bool" where
  "slice_empty a \<longleftrightarrow> length a = 0"

text \<open>
  \<^verbatim>\<open>Slice::slice\<close>: the view from an offset, and the view of a given length; neither checks
  its bounds, so a view that leaves the memory viewed is undefined.
\<close>

definition slice_from :: "bytes \<Rightarrow> nat \<Rightarrow> bytes res" where
  "slice_from a off = (if off \<le> length a then Inr (drop off a) else Inl UndefinedBehaviour)"

definition slice_sub :: "bytes \<Rightarrow> nat \<Rightarrow> nat \<Rightarrow> bytes res" where
  "slice_sub a off len =
     (if off + len \<le> length a then Inr (take len (drop off a)) else Inl UndefinedBehaviour)"

text \<open>
  The constructors from a C string and from \<^verbatim>\<open>std::string\<close> (through \<^verbatim>\<open>c_str()\<close>) measure with
  \<^verbatim>\<open>strlen\<close>: the view ends before the first zero byte.
\<close>

definition slice_of_cstr :: "bytes \<Rightarrow> bytes" where
  "slice_of_cstr s = takeWhile (\<lambda>b. b \<noteq> 0) s"

lemma slice_empty_iff [simp]: "slice_empty a \<longleftrightarrow> a = []"
  by (simp add: slice_empty_def)

section \<open>The order is the lexicographic order of the bytes\<close>

lemma compareTo_simps [simp]:
  "compareTo [] [] = 0"
  "compareTo [] (y # ys) = - (1 + int (length ys))"
  "compareTo (x # xs) [] = 1 + int (length xs)"
  "compareTo (x # xs) (y # ys) = (if x = y then compareTo xs ys else uint x - uint y)"
  by (simp_all add: compareTo_def Let_def word_uint_eq_iff)

lemma compareTo_less_iff: "compareTo a b < 0 \<longleftrightarrow> a < b"
proof (induction a arbitrary: b)
  case Nil
  then show ?case by (cases b) simp_all
next
  case (Cons x xs)
  then show ?case
    by (cases b) (auto simp: word_less_def)
qed

lemma compareTo_eq_iff: "compareTo a b = 0 \<longleftrightarrow> a = b"
proof (induction a arbitrary: b)
  case Nil
  then show ?case by (cases b) simp_all
next
  case (Cons x xs)
  then show ?case
    by (cases b) (auto simp: word_uint_eq_iff)
qed

lemma compareTo_greater_iff: "compareTo a b > 0 \<longleftrightarrow> b < a"
  using less_linear [of a b] order.asym [of a b] compareTo_less_iff [of a b] compareTo_eq_iff [of a b] by auto

lemma compareTo_le_iff: "compareTo a b \<le> 0 \<longleftrightarrow> a \<le> b"
  using compareTo_greater_iff [of a b] by (simp add: not_less [symmetric])

lemma compareTo_ge_iff: "0 \<le> compareTo a b \<longleftrightarrow> b \<le> a"
  using compareTo_less_iff [of a b] by (simp add: not_less [symmetric])

lemma slice_less_iff: "slice_less a b \<longleftrightarrow> a < b"
  by (simp add: slice_less_def compareTo_less_iff)

lemma slice_eq_iff: "slice_eq a b \<longleftrightarrow> a = b"
  by (simp add: slice_eq_def compareTo_eq_iff)

lemmas compareTo_order =
  compareTo_less_iff compareTo_eq_iff compareTo_greater_iff compareTo_le_iff compareTo_ge_iff
  slice_less_iff slice_eq_iff

section \<open>The contract of a comparison function\<close>

locale comparator =
  fixes cmp :: "'k \<Rightarrow> 'k \<Rightarrow> int"
  assumes cmp_flip: "cmp a b < 0 \<longleftrightarrow> 0 < cmp b a"
    and cmp_le_trans: "cmp a b \<le> 0 \<Longrightarrow> cmp b c \<le> 0 \<Longrightarrow> cmp a c \<le> 0"
begin

lemma cmp_refl [simp]: "cmp a a = 0"
  using cmp_flip [of a a] by linarith

lemma cmp_flip2: "0 < cmp a b \<longleftrightarrow> cmp b a < 0"
  using cmp_flip [of b a] by blast

lemma cmp_zero_sym: "cmp a b = 0 \<longleftrightarrow> cmp b a = 0"
  using cmp_flip [of a b] cmp_flip2 [of a b] by linarith

lemma cmp_le_less_trans:
  assumes "cmp a b \<le> 0" and "cmp b c < 0"
  shows "cmp a c < 0"
proof (rule ccontr)
  assume "\<not> cmp a c < 0"
  then have "cmp c a \<le> 0" using cmp_flip2 [of c a] by linarith
  then have "cmp c b \<le> 0" using assms(1) by (rule cmp_le_trans)
  then show False using assms(2) cmp_flip [of b c] by linarith
qed

lemma cmp_less_le_trans:
  assumes "cmp a b < 0" and "cmp b c \<le> 0"
  shows "cmp a c < 0"
proof (rule ccontr)
  assume "\<not> cmp a c < 0"
  then have "cmp c a \<le> 0" using cmp_flip2 [of c a] by linarith
  with assms(2) have "cmp b a \<le> 0" by (rule cmp_le_trans)
  then show False using assms(1) cmp_flip [of a b] by linarith
qed

lemma cmp_less_trans: "cmp a b < 0 \<Longrightarrow> cmp b c < 0 \<Longrightarrow> cmp a c < 0"
  using cmp_le_less_trans [of a b c] by simp

lemma cmp_zero_cong: "cmp a b = 0 \<Longrightarrow> cmp a c < 0 \<longleftrightarrow> cmp b c < 0"
  using cmp_le_less_trans [of a b c] cmp_le_less_trans [of b a c] cmp_zero_sym [of a b] by auto

lemma cmp_zero_cong2: "cmp a b = 0 \<Longrightarrow> cmp c a < 0 \<longleftrightarrow> cmp c b < 0"
  using cmp_less_le_trans [of c a b] cmp_less_le_trans [of c b a] cmp_zero_sym [of a b] by auto

text \<open>Lists strictly ordered by the comparison.\<close>

abbreviation ordered :: "'k list \<Rightarrow> bool" where
  "ordered \<equiv> sorted_wrt (\<lambda>a b. cmp a b < 0)"

lemma ordered_distinct: "ordered xs \<Longrightarrow> distinct xs"
  by (induction xs) auto

end

interpretation slice: comparator compareTo
  by unfold_locales (auto simp: compareTo_order)

text \<open>A comparison of keys compares the records that hold them.\<close>

locale keyed_comparator = comparator cmp
  for cmp :: "'k \<Rightarrow> 'k \<Rightarrow> int" +
  fixes proj :: "'r \<Rightarrow> 'k"
begin

lemma keyed: "comparator (\<lambda>a b. cmp (proj a) (proj b))"
  by unfold_locales (auto simp: cmp_flip intro: cmp_le_trans)

end

section \<open>Properties\<close>

text \<open>\<^verbatim>\<open>Slice::compareTo\<close> is the lexicographic order of the contents as unsigned bytes, a proper prefix
  being smaller; \<^verbatim>\<open>less\<close> and \<^verbatim>\<open>==\<close> agree with it.\<close>

theorem slice_compare_order:
  "(compareTo a b < 0 \<longleftrightarrow> a < b) \<and> (compareTo a b = 0 \<longleftrightarrow> a = b) \<and> (0 < compareTo a b \<longleftrightarrow> b < a) \<and>
   (slice_less a b \<longleftrightarrow> a < b) \<and> (slice_eq a b \<longleftrightarrow> a = b)"
  by (simp add: compareTo_order)

end
