(* ===== verification/KeyValue.thy ===== *)
theory KeyValue
  imports Slice
begin

text \<open>
  \<^verbatim>\<open>include/keyvalue.h\<close>, \<^verbatim>\<open>include/options.h\<close> and \<^verbatim>\<open>include/writebatch.h\<close>: the key/value
  pair that the skip list stores and the iterators return, the options of a database, the choice
  of the comparison function, and the batch of writes. A byte buffer is modelled by its visible
  contents.
\<close>

section \<open>Key/value pairs\<close>

record keyvalue =
  kv_key :: bytes
  kv_value :: bytes

definition kv_EMPTY :: keyvalue where
  "kv_EMPTY = \<lparr>kv_key = [], kv_value = []\<rparr>"

definition mk_kv :: "bytes \<Rightarrow> bytes \<Rightarrow> keyvalue" where
  "mk_kv k v = \<lparr>kv_key = k, kv_value = v\<rparr>"

text \<open>The macro \<^verbatim>\<open>Key(x)\<close>: a pair used to search for a key.\<close>

definition Key :: "bytes \<Rightarrow> keyvalue" where
  "Key x = \<lparr>kv_key = x, kv_value = []\<rparr>"

definition kv_eq :: "keyvalue \<Rightarrow> keyvalue \<Rightarrow> bool" where
  "kv_eq a b \<longleftrightarrow> compareTo (kv_key a) (kv_key b) = 0 \<and> compareTo (kv_value a) (kv_value b) = 0"

text \<open>The conversion to \<^verbatim>\<open>std::string\<close> and the stream output of a pair.\<close>

definition kv_string :: "keyvalue \<Rightarrow> bytes" where
  "kv_string kv = kv_key kv @ [0x2F] @ kv_value kv"

lemma kv_sel [simp]:
  "kv_key kv_EMPTY = []" "kv_value kv_EMPTY = []" "kv_key (mk_kv k v) = k"
  "kv_value (mk_kv k v) = v" "kv_key (Key k) = k" "kv_value (Key k) = []"
  by (simp_all add: kv_EMPTY_def mk_kv_def Key_def)

lemma kv_eq_iff: "kv_eq a b \<longleftrightarrow> a = b"
  by (auto simp: kv_eq_def compareTo_order)

lemma mk_kv_eta [simp]: "mk_kv (kv_key kv) (kv_value kv) = kv"
  by (simp add: mk_kv_def)

section \<open>Options\<close>

datatype BatchReadMode = discardPartial | applyPartial | returnOpenError

record options =
  createIfNeeded :: bool
  disableAutoMerge :: bool
  maxSegments :: int
  maxMemoryBytes :: int
  disableWriteFlush :: bool
  enableSyncWrite :: bool
  batchReadMode :: BatchReadMode
  userKeyCompare :: "(bytes \<Rightarrow> bytes \<Rightarrow> int) option"

text \<open>\<^verbatim>\<open>Options(bool createIfNeeded)\<close>; with \<open>False\<close> also the default constructor.\<close>

definition mk_options :: "bool \<Rightarrow> options" where
  "mk_options create =
     \<lparr>createIfNeeded = create, disableAutoMerge = False, maxSegments = 0, maxMemoryBytes = 0,
      disableWriteFlush = False, enableSyncWrite = False, batchReadMode = discardPartial,
      userKeyCompare = None\<rparr>"

section \<open>The comparison function\<close>

type_synonym key_compare = "bytes \<Rightarrow> bytes \<Rightarrow> int"
type_synonym kv_compare = "keyvalue \<Rightarrow> keyvalue \<Rightarrow> int"

text \<open>
  \<^verbatim>\<open>keyValueCompare\<close>: the byte order, or the user's comparison. The user's function is kept in a
  function-local \<^verbatim>\<open>static auto f\<close>, which is initialised by the first call only: the static is the
  first argument and the second result.
\<close>

definition keyValueCompare :: "key_compare option \<Rightarrow> options \<Rightarrow> kv_compare \<times> key_compare option" where
  "keyValueCompare f opts =
     (case userKeyCompare opts of
        None \<Rightarrow> (\<lambda>a b. compareTo (kv_key a) (kv_key b), f)
      | Some g \<Rightarrow>
          (case f of
             None \<Rightarrow> (\<lambda>a b. g (kv_key a) (kv_key b), Some g)
           | Some h \<Rightarrow> (\<lambda>a b. h (kv_key a) (kv_key b), Some h)))"

text \<open>The comparison of the default options, by name.\<close>

definition kv_cmp :: kv_compare where
  "kv_cmp a b = compareTo (kv_key a) (kv_key b)"

lemma keyValueCompare_default:
  "userKeyCompare opts = None \<Longrightarrow> keyValueCompare f opts = (kv_cmp, f)"
  by (simp add: keyValueCompare_def kv_cmp_def fun_eq_iff)

interpretation keyed: keyed_comparator compareTo kv_key
  by unfold_locales

interpretation kv: comparator kv_cmp
  using keyed.keyed by (simp add: kv_cmp_def [abs_def])

lemma kv_cmp_order:
  "kv_cmp a b < 0 \<longleftrightarrow> kv_key a < kv_key b"
  "kv_cmp a b = 0 \<longleftrightarrow> kv_key a = kv_key b"
  "0 < kv_cmp a b \<longleftrightarrow> kv_key b < kv_key a"
  "kv_cmp a b \<le> 0 \<longleftrightarrow> kv_key a \<le> kv_key b"
  by (simp_all add: kv_cmp_def compareTo_order)

section \<open>Sorted runs of pairs\<close>

text \<open>
  What a segment holds, seen from outside: pairs in strictly ascending order of their keys. The
  look-up function of such a run is the specification of \<^verbatim>\<open>get\<close>.
\<close>

abbreviation sorted_kvs :: "keyvalue list \<Rightarrow> bool" where
  "sorted_kvs \<equiv> sorted_wrt (\<lambda>a b. kv_key a < kv_key b)"

fun find_kv :: "keyvalue list \<Rightarrow> bytes \<Rightarrow> bytes option" where
  "find_kv [] k = None"
| "find_kv (kv # kvs) k = (if kv_key kv = k then Some (kv_value kv) else find_kv kvs k)"

lemma find_kv_append:
  "find_kv (xs @ ys) k = (case find_kv xs k of None \<Rightarrow> find_kv ys k | Some v \<Rightarrow> Some v)"
  by (induction xs) auto

lemma find_kv_None_iff: "find_kv kvs k = None \<longleftrightarrow> (\<forall>kv \<in> set kvs. kv_key kv \<noteq> k)"
  by (induction kvs) auto

lemma find_kv_SomeD: "find_kv kvs k = Some v \<Longrightarrow> mk_kv k v \<in> set kvs"
  by (induction kvs) (auto split: if_splits)

lemma find_kv_sorted:
  "sorted_kvs kvs \<Longrightarrow> find_kv kvs k = Some v \<longleftrightarrow> mk_kv k v \<in> set kvs"
proof (induction kvs)
  case Nil
  then show ?case by simp
next
  case (Cons kv kvs)
  then show ?case
    by (cases kv) (auto simp: mk_kv_def)
qed

lemma find_kv_less: "\<forall>kv \<in> set kvs. k < kv_key kv \<Longrightarrow> find_kv kvs k = None"
  by (auto simp: find_kv_None_iff)

lemma find_kv_greater: "\<forall>kv \<in> set kvs. kv_key kv < k \<Longrightarrow> find_kv kvs k = None"
  by (auto simp: find_kv_None_iff)

section \<open>Write batches\<close>

record write_batch =
  entries :: "keyvalue list"

definition batch_put :: "write_batch \<Rightarrow> bytes \<Rightarrow> bytes \<Rightarrow> write_batch" where
  "batch_put b k v = b\<lparr>entries := entries b @ [mk_kv k v]\<rparr>"

text \<open>The loop of \<^verbatim>\<open>WriteBatch::remove\<close>: erase the first entry with the key, then stop.\<close>

fun erase_first :: "keyvalue list \<Rightarrow> bytes \<Rightarrow> keyvalue list" where
  "erase_first [] k = []"
| "erase_first (e # es) k = (if compareTo (kv_key e) k = 0 then es else e # erase_first es k)"

definition batch_remove :: "write_batch \<Rightarrow> bytes \<Rightarrow> write_batch" where
  "batch_remove b k = b\<lparr>entries := erase_first (entries b) k\<rparr>"

definition batch_size :: "write_batch \<Rightarrow> nat" where
  "batch_size b = length (entries b)"

lemma erase_first_split:
  "(\<forall>e \<in> set es. kv_key e \<noteq> k) \<and> erase_first es k = es \<or>
   (\<exists>xs e ys. es = xs @ e # ys \<and> kv_key e = k \<and> (\<forall>x \<in> set xs. kv_key x \<noteq> k) \<and>
      erase_first es k = xs @ ys)"
proof (induction es)
  case Nil
  then show ?case by simp
next
  case (Cons e es)
  show ?case
  proof (cases "kv_key e = k")
    case True
    then have "e # es = [] @ e # es \<and> kv_key e = k \<and> (\<forall>x \<in> set []. kv_key x \<noteq> k) \<and>
        erase_first (e # es) k = [] @ es"
      by (simp add: compareTo_order)
    then show ?thesis by blast
  next
    case False
    from Cons.IH show ?thesis
    proof (elim disjE exE conjE)
      assume "\<forall>x \<in> set es. kv_key x \<noteq> k" and "erase_first es k = es"
      with False show ?thesis by (simp add: compareTo_order)
    next
      fix xs y ys
      assume "es = xs @ y # ys" and "kv_key y = k" and "\<forall>x \<in> set xs. kv_key x \<noteq> k"
        and "erase_first es k = xs @ ys"
      with False have "e # es = (e # xs) @ y # ys \<and> kv_key y = k \<and>
          (\<forall>x \<in> set (e # xs). kv_key x \<noteq> k) \<and> erase_first (e # es) k = (e # xs) @ ys"
        by (simp add: compareTo_order)
      then show ?thesis by blast
    qed
  qed
qed

section \<open>Properties\<close>

text \<open>\<^verbatim>\<open>WriteBatch::remove\<close> takes out the first entry with the key, if there is one, and keeps all
  other entries in their order.\<close>

theorem batch_remove_first:
  "(\<forall>e \<in> set (entries b). kv_key e \<noteq> k) \<and> batch_remove b k = b \<or>
   (\<exists>xs e ys. entries b = xs @ e # ys \<and> kv_key e = k \<and> (\<forall>x \<in> set xs. kv_key x \<noteq> k) \<and>
      entries (batch_remove b k) = xs @ ys \<and> batch_size (batch_remove b k) + 1 = batch_size b)"
  using erase_first_split [of "entries b" k]
proof (elim disjE exE conjE)
  assume "\<forall>e \<in> set (entries b). kv_key e \<noteq> k" "erase_first (entries b) k = entries b"
  then show ?thesis by (simp add: batch_remove_def)
next
  fix xs e ys
  assume "entries b = xs @ e # ys" "kv_key e = k" "\<forall>x \<in> set xs. kv_key x \<noteq> k"
    "erase_first (entries b) k = xs @ ys"
  moreover have "entries (batch_remove b k) = erase_first (entries b) k" by (simp add: batch_remove_def)
  ultimately show ?thesis
    by (intro disjI2 exI [of _ xs] exI [of _ e] exI [of _ ys]) (simp add: batch_size_def)
qed

theorem batch_remove_first_witness:
  "(\<forall>e \<in> set (entries \<lparr>entries = [mk_kv [1] [2], mk_kv [3] [4], mk_kv [3] [5]]\<rparr>). kv_key e \<noteq> [3]) \<and>
     batch_remove \<lparr>entries = [mk_kv [1] [2], mk_kv [3] [4], mk_kv [3] [5]]\<rparr> [3] = \<lparr>entries = [mk_kv [1] [2], mk_kv [3] [4], mk_kv [3] [5]]\<rparr> \<or>
   (\<exists>xs e ys. entries \<lparr>entries = [mk_kv [1] [2], mk_kv [3] [4], mk_kv [3] [5]]\<rparr> = xs @ e # ys \<and> kv_key e = [3] \<and>
      (\<forall>x \<in> set xs. kv_key x \<noteq> [3]) \<and>
      entries (batch_remove \<lparr>entries = [mk_kv [1] [2], mk_kv [3] [4], mk_kv [3] [5]]\<rparr> [3]) = xs @ ys \<and>
      batch_size (batch_remove \<lparr>entries = [mk_kv [1] [2], mk_kv [3] [4], mk_kv [3] [5]]\<rparr> [3]) + 1 =
        batch_size \<lparr>entries = [mk_kv [1] [2], mk_kv [3] [4], mk_kv [3] [5]]\<rparr>)"
  by (rule batch_remove_first)

end
