(* ===== verification/LookupIterator.thy ===== *)
theory LookupIterator
  imports KeyValue
begin

text \<open>
  \<^verbatim>\<open>include/lookupiterator.h\<close>: the iterator interface. Its two virtual methods are state-passing
  functions; their contract is stated over the relation \<open>yields\<close> between an iterator and the pairs it
  has still to return: \<open>kv_source\<close> for an object of which only \<^verbatim>\<open>next\<close> is called, and \<open>lookup_iterator\<close>
  where \<^verbatim>\<open>peekKey\<close> is called too. The clients (the file writer and the merging iterator) take the methods
  as arguments, as the C++ takes them from the object's virtual table.
\<close>

locale kv_source =
  fixes nextKv :: "'it \<Rightarrow> (keyvalue \<times> 'it) res"
    and yields :: "'it \<Rightarrow> keyvalue list \<Rightarrow> bool"
  assumes next_Nil: "yields it [] \<Longrightarrow>
      \<exists>kv it'. nextKv it = Inr (kv, it') \<and> kv_key kv = [] \<and> yields it' []"
    and next_Cons: "yields it (kv # kvs) \<Longrightarrow> \<exists>it'. nextKv it = Inr (kv, it') \<and> yields it' kvs"
    and yields_sorted: "yields it kvs \<Longrightarrow> sorted_kvs kvs"
    and yields_keys: "yields it kvs \<Longrightarrow> kv \<in> set kvs \<Longrightarrow> kv_key kv \<noteq> []"

locale lookup_iterator = kv_source nextKv yields
  for peekKey :: "'it \<Rightarrow> (bytes \<times> 'it) res"
    and nextKv :: "'it \<Rightarrow> (keyvalue \<times> 'it) res"
    and yields :: "'it \<Rightarrow> keyvalue list \<Rightarrow> bool" +
  assumes peek_Nil: "yields it [] \<Longrightarrow> \<exists>it'. peekKey it = Inr ([], it') \<and> yields it' []"
    and peek_Cons: "yields it (kv # kvs) \<Longrightarrow>
      \<exists>it'. peekKey it = Inr (kv_key kv, it') \<and> yields it' (kv # kvs)"
begin

lemma peek_key:
  "yields it kvs \<Longrightarrow>
     \<exists>it'. peekKey it = Inr (case kvs of [] \<Rightarrow> [] | kv # _ \<Rightarrow> kv_key kv, it') \<and> yields it' kvs"
  using peek_Nil peek_Cons by (cases kvs) auto

end

section \<open>The empty iterator\<close>

datatype empty_iterator = EmptyIterator

fun empty_peekKey :: "empty_iterator \<Rightarrow> (bytes \<times> empty_iterator) res" where
  "empty_peekKey EmptyIterator = Inr ([], EmptyIterator)"

fun empty_next :: "empty_iterator \<Rightarrow> (keyvalue \<times> empty_iterator) res" where
  "empty_next EmptyIterator = Inr (kv_EMPTY, EmptyIterator)"

fun empty_yields :: "empty_iterator \<Rightarrow> keyvalue list \<Rightarrow> bool" where
  "empty_yields EmptyIterator kvs = (kvs = [])"

lemma empty_it_simps [simp]:
  "empty_yields it kvs \<longleftrightarrow> kvs = []"
  "empty_peekKey it = Inr ([], it)" "empty_next it = Inr (kv_EMPTY, it)"
  by (cases it; simp)+

interpretation empty_it: lookup_iterator empty_peekKey empty_next empty_yields
  by unfold_locales auto

section \<open>Draining an iterator\<close>

text \<open>
  The loop that every reader of an iterator runs: call \<^verbatim>\<open>next\<close> until the key is empty.
  \<open>None\<close> is a loop that does not end, \<open>Inl\<close> an exception.
\<close>

partial_function (option) drain ::
  "('it \<Rightarrow> (keyvalue \<times> 'it) res) \<Rightarrow> 'it \<Rightarrow> keyvalue list res option" where
  "drain nxt it =
     (case nxt it of
        Inl e \<Rightarrow> Some (Inl e)
      | Inr (kv, it') \<Rightarrow>
          if kv_key kv = [] then Some (Inr [])
          else Option.bind (drain nxt it') (\<lambda>r. Some (bind_res r (\<lambda>kvs. Inr (kv # kvs)))))"

context kv_source
begin

lemma drain_yields: "yields it kvs \<Longrightarrow> drain nextKv it = Some (Inr kvs)"
proof (induction kvs arbitrary: it)
  case Nil
  then show ?case using next_Nil [of it] by (auto simp: drain.simps [of nextKv it])
next
  case (Cons kv kvs)
  then obtain it' where "nextKv it = Inr (kv, it')" "yields it' kvs"
    using next_Cons by blast
  moreover have "kv_key kv \<noteq> []" using yields_keys [OF Cons.prems] by simp
  ultimately show ?case using Cons.IH by (simp add: drain.simps [of nextKv it])
qed

end

end
