(* ===== verification/DiskIO.thy ===== *)
theory DiskIO
  imports LittleEndian LookupIterator
begin

text \<open>
  The writer of \<^verbatim>\<open>diskio.cpp\<close>: the prefix compression of keys, and \<^verbatim>\<open>writeSegmentFiles\<close>, which
  drains an iterator into a key file of 4096-byte blocks and a data file of values. The last
  section says what a key file written by it is: the concatenation of the encodings of its blocks.
\<close>

section \<open>Keys on disk\<close>

record disk_key =
  keylen :: u16
  compressedKey :: bytes

text \<open>The loop of \<^verbatim>\<open>calculatePrefixLen\<close>: the first position where the keys differ.\<close>

fun prefix_loop :: "bytes \<Rightarrow> bytes \<Rightarrow> nat" where
  "prefix_loop (x # xs) (y # ys) = (if x \<noteq> y then 0 else Suc (prefix_loop xs ys))"
| "prefix_loop _ _ = 0"

definition calculatePrefixLen :: "bytes \<Rightarrow> bytes \<Rightarrow> nat" where
  "calculatePrefixLen prevKey k =
     (if slice_empty prevKey then 0
      else let len = prefix_loop prevKey k
           in if unat maxPrefixLen < len \<or> unat maxCompressedLen < length k - len then 0 else len)"

definition encodeKey :: "bytes \<Rightarrow> bytes \<Rightarrow> disk_key" where
  "encodeKey k prevKey =
     (let prefixLen = calculatePrefixLen prevKey k
      in if prefixLen > 0
         then let suffix = drop prefixLen k
              in \<lparr>keylen = compressedBit OR push_bit 8 (of_nat prefixLen) OR of_nat (length suffix),
                  compressedKey = suffix\<rparr>
         else \<lparr>keylen = of_nat (length k), compressedKey = k\<rparr>)"

section \<open>Writing a segment\<close>

text \<open>The local variables of \<^verbatim>\<open>writeSegmentFiles\<close>; the two streams are the bytes written so far.\<close>

record wstate =
  keyF :: bytes
  dataF :: bytes
  dataOffset :: u64
  keyBlockLen :: nat
  block :: nat
  prevKey :: bytes
  keyIndex :: "bytes list"

definition wstate_init :: wstate where
  "wstate_init =
     \<lparr>keyF = [], dataF = [], dataOffset = 0, keyBlockLen = 0, block = 0, prevKey = [],
      keyIndex = []\<rparr>"

definition zeros :: "nat \<Rightarrow> bytes" where
  "zeros n = replicate n 0"

text \<open>Closing a full block: the end mark, the padding, and a fresh \<^verbatim>\<open>prevKey\<close>.\<close>

definition close_full_block :: "wstate \<Rightarrow> bytes \<Rightarrow> wstate" where
  "close_full_block w k =
     (if keyBlockLen w + 2 + length k + 8 + 4 \<ge> keyBlockSize - 2
      then let f = keyF w @ writeLEuint16 endOfBlock; len = keyBlockLen w + 2
           in w\<lparr>keyF := f @ zeros (keyBlockSize - len), keyBlockLen := 0, prevKey := []\<rparr>
      else w)"

text \<open>Starting a block: every sixteenth block enters its first key into the index.\<close>

definition start_block :: "wstate \<Rightarrow> bytes \<Rightarrow> wstate" where
  "start_block w k =
     (if keyBlockLen w = 0
      then w\<lparr>keyIndex := (if block w mod keyIndexInterval = 0 then keyIndex w @ [k] else keyIndex w),
             block := block w + 1\<rparr>
      else w)"

text \<open>The rest of the loop body: the key, its offset and the length of its value.\<close>

definition append_key :: "wstate \<Rightarrow> keyvalue \<Rightarrow> wstate" where
  "append_key w kv =
     (let dk = encodeKey (kv_key kv) (prevKey w)
      in w\<lparr>prevKey := kv_key kv,
           keyF := keyF w @ writeLEuint16 (keylen dk) @ compressedKey dk
                     @ writeLEuint64 (dataOffset w) @ writeLEuint32 (of_nat (length (kv_value kv))),
           dataOffset := dataOffset w + of_nat (length (kv_value kv)),
           keyBlockLen := keyBlockLen w + (2 + length (compressedKey dk) + 8 + 4)\<rparr>)"

definition write_entry :: "wstate \<Rightarrow> keyvalue \<Rightarrow> wstate" where
  "write_entry w kv =
     (let w0 = w\<lparr>dataF := dataF w @ kv_value kv\<rparr>;
          w1 = close_full_block w0 (kv_key kv);
          w2 = start_block w1 (kv_key kv)
      in append_key w2 kv)"

partial_function (option) write_loop ::
  "('it \<Rightarrow> (keyvalue \<times> 'it) res) \<Rightarrow> bool \<Rightarrow> 'it \<Rightarrow> wstate \<Rightarrow> wstate res option" where
  "write_loop nxt purgeDeleted it w =
     (case nxt it of
        Inl e \<Rightarrow> Some (Inl e)
      | Inr (kv, it') \<Rightarrow>
          if kv_key kv = [] then Some (Inr w)
          else if purgeDeleted \<and> kv_value kv = [] then write_loop nxt purgeDeleted it' w
          else write_loop nxt purgeDeleted it' (write_entry w kv))"

definition finish_block :: "wstate \<Rightarrow> wstate" where
  "finish_block w =
     (if keyBlockLen w > 0 \<and> keyBlockLen w < keyBlockSize
      then w\<lparr>keyF := keyF w @ writeLEuint16 endOfBlock @ zeros (keyBlockSize - (keyBlockLen w + 2)),
             keyBlockLen := keyBlockLen w + 2\<rparr>
      else w)"

text \<open>The two files and the key index, for an iterator given by its \<^verbatim>\<open>next\<close>.\<close>

record segment_files =
  key_bytes :: bytes
  data_bytes :: bytes
  index_keys :: "bytes list"

definition files_of :: "wstate \<Rightarrow> segment_files" where
  "files_of w = \<lparr>key_bytes = keyF w, data_bytes = dataF w, index_keys = keyIndex w\<rparr>"

definition writeSegmentFiles ::
  "('it \<Rightarrow> (keyvalue \<times> 'it) res) \<Rightarrow> bool \<Rightarrow> 'it \<Rightarrow> segment_files res option" where
  "writeSegmentFiles nxt purgeDeleted it =
     map_option (\<lambda>r. bind_res r (\<lambda>w. Inr (files_of (finish_block w))))
       (write_loop nxt purgeDeleted it wstate_init)"

text \<open>The same files as a function of the list of pairs the iterator returns.\<close>

definition written :: "keyvalue list \<Rightarrow> segment_files" where
  "written kvs = files_of (finish_block (foldl write_entry wstate_init kvs))"

definition purged :: "bool \<Rightarrow> keyvalue list \<Rightarrow> keyvalue list" where
  "purged purgeDeleted kvs = (if purgeDeleted then filter (\<lambda>kv. kv_value kv \<noteq> []) kvs else kvs)"

context kv_source
begin

lemma write_loop_yields:
  "yields it kvs \<Longrightarrow> write_loop nextKv p it w = Some (Inr (foldl write_entry w (purged p kvs)))"
proof (induction kvs arbitrary: it w)
  case Nil
  then show ?case
    using next_Nil [of it] by (auto simp: write_loop.simps [of nextKv p it] purged_def)
next
  case (Cons kv kvs)
  then obtain it' where "nextKv it = Inr (kv, it')" "yields it' kvs"
    using next_Cons by blast
  moreover have "kv_key kv \<noteq> []" using yields_keys [OF Cons.prems] by simp
  ultimately show ?case
    using Cons.IH by (cases p) (simp_all add: write_loop.simps [of nextKv _ it] purged_def)
qed

lemma writeSegmentFiles_yields:
  "yields it kvs \<Longrightarrow> writeSegmentFiles nextKv p it = Some (Inr (written (purged p kvs)))"
  by (simp add: writeSegmentFiles_def write_loop_yields written_def)

end

end
