(* ===== verification/KeyFile.thy ===== *)
theory KeyFile
  imports DiskIO
begin

text \<open>
  The format of a key file: what \<^verbatim>\<open>writeSegmentFiles\<close> writes, described as a list of blocks, and
  the proof that its loop writes exactly that. A block is a list of entries (key, offset and length
  of the value); its encoding is the compressed entries, the end mark and zeros up to 4096 bytes.
\<close>

section \<open>The format\<close>

record dentry =
  de_key :: bytes
  de_off :: u64
  de_len :: u32

definition encode_entry :: "bytes \<Rightarrow> dentry \<Rightarrow> bytes" where
  "encode_entry prev e =
     (let dk = encodeKey (de_key e) prev
      in writeLEuint16 (keylen dk) @ compressedKey dk
           @ writeLEuint64 (de_off e) @ writeLEuint32 (de_len e))"

fun encode_entries :: "bytes \<Rightarrow> dentry list \<Rightarrow> bytes" where
  "encode_entries prev [] = []"
| "encode_entries prev (e # es) = encode_entry prev e @ encode_entries (de_key e) es"

definition encode_block :: "dentry list \<Rightarrow> bytes" where
  "encode_block es =
     (let b = encode_entries [] es @ writeLEuint16 endOfBlock in b @ zeros (keyBlockSize - length b))"

definition fits :: "dentry list \<Rightarrow> bool" where
  "fits es \<longleftrightarrow> length (encode_entries [] es) + 2 \<le> keyBlockSize"

text \<open>The entries of a run of pairs whose values are laid out one after the other.\<close>

fun entries_from :: "u64 \<Rightarrow> keyvalue list \<Rightarrow> dentry list" where
  "entries_from off [] = []"
| "entries_from off (kv # kvs) =
     \<lparr>de_key = kv_key kv, de_off = off, de_len = of_nat (length (kv_value kv))\<rparr>
       # entries_from (off + of_nat (length (kv_value kv))) kvs"

definition values_of :: "keyvalue list \<Rightarrow> bytes" where
  "values_of kvs = concat (map kv_value kvs)"

text \<open>The first keys of the blocks 0, 16, 32, ...\<close>

definition index_of :: "dentry list list \<Rightarrow> bytes list" where
  "index_of bs =
     map (\<lambda>i. de_key (hd (bs ! i))) (filter (\<lambda>i. i mod keyIndexInterval = 0) [0..<length bs])"

definition layout_ok :: "dentry list list \<Rightarrow> keyvalue list \<Rightarrow> bool" where
  "layout_ok bs kvs \<longleftrightarrow> concat bs = entries_from 0 kvs \<and> (\<forall>b \<in> set bs. b \<noteq> [] \<and> fits b)"

section \<open>Facts about the format\<close>

lemma length_zeros [simp]: "length (zeros n) = n"
  by (simp add: zeros_def)

lemma length_encode_block: "fits es \<Longrightarrow> length (encode_block es) = keyBlockSize"
  by (simp add: fits_def encode_block_def Let_def)

lemma prefix_loop_le: "prefix_loop xs ys \<le> length xs" "prefix_loop xs ys \<le> length ys"
  by (induction xs ys rule: prefix_loop.induct) auto

lemma prefix_loop_take: "take (prefix_loop xs ys) xs = take (prefix_loop xs ys) ys"
  by (induction xs ys rule: prefix_loop.induct) auto

lemma prefix_loop_less: "xs < ys \<Longrightarrow> prefix_loop xs ys < length ys"
  by (induction xs ys rule: prefix_loop.induct) auto

lemma calculatePrefixLen_cases:
  obtains "calculatePrefixLen prev k = 0"
  | "prev \<noteq> []" "calculatePrefixLen prev k = prefix_loop prev k"
    "prefix_loop prev k \<le> 127" "length k - prefix_loop prev k \<le> 255"
  unfolding calculatePrefixLen_def Let_def
  by (cases "prev = []"; cases "127 < prefix_loop prev k \<or> 255 < length k - prefix_loop prev k")
     (auto simp: const_simps)

lemma calculatePrefixLen_take:
  "calculatePrefixLen prev k \<le> length prev" "calculatePrefixLen prev k \<le> length k"
  "take (calculatePrefixLen prev k) prev = take (calculatePrefixLen prev k) k"
  by (cases rule: calculatePrefixLen_cases [of prev k];
      simp add: prefix_loop_le prefix_loop_take)+

lemma compressedKey_eq: "compressedKey (encodeKey k prev) = drop (calculatePrefixLen prev k) k"
  by (simp add: encodeKey_def Let_def)

lemma encodeKey_nil [simp]: "encodeKey k [] = \<lparr>keylen = of_nat (length k), compressedKey = k\<rparr>"
  by (simp add: encodeKey_def calculatePrefixLen_def)

lemma length_encode_entry:
  "length (encode_entry prev e) = 14 + length (compressedKey (encodeKey (de_key e) prev))"
  by (simp add: encode_entry_def Let_def)

lemma length_encode_entry_le: "length (encode_entry prev e) \<le> 14 + length (de_key e)"
  by (simp add: length_encode_entry compressedKey_eq)

definition last_key :: "bytes \<Rightarrow> dentry list \<Rightarrow> bytes" where
  "last_key prev es = (if es = [] then prev else de_key (last es))"

lemma last_key_simps [simp]:
  "last_key p [] = p" "last_key p (es @ [e]) = de_key e"
  "last_key p (e # es) = last_key (de_key e) es"
  by (simp_all add: last_key_def)

lemma encode_entries_append:
  "encode_entries p (xs @ ys) = encode_entries p xs @ encode_entries (last_key p xs) ys"
  by (induction xs arbitrary: p) simp_all

lemma entries_from_append:
  "entries_from off (xs @ ys) =
     entries_from off xs @ entries_from (off + of_nat (length (values_of xs))) ys"
  by (induction xs arbitrary: off) (simp_all add: values_of_def algebra_simps)

lemma index_of_Nil [simp]: "index_of [] = []"
  by (simp add: index_of_def)

lemma index_of_single [simp]: "index_of [b] = [de_key (hd b)]"
  by (simp add: index_of_def keyIndexInterval_def)

lemma index_of_snoc:
  "index_of (bs @ [b]) =
     index_of bs @ (if length bs mod keyIndexInterval = 0 then [de_key (hd b)] else [])"
  by (simp add: index_of_def nth_append)

section \<open>The writer writes the format\<close>

definition winv :: "wstate \<Rightarrow> dentry list list \<Rightarrow> dentry list \<Rightarrow> keyvalue list \<Rightarrow> bool" where
  "winv w bs cur kvs \<longleftrightarrow>
     keyF w = concat (map encode_block bs) @ encode_entries [] cur \<and>
     keyBlockLen w = length (encode_entries [] cur) \<and>
     concat bs @ cur = entries_from 0 kvs \<and>
     prevKey w = last_key [] cur \<and>
     dataF w = values_of kvs \<and>
     dataOffset w = of_nat (length (values_of kvs)) \<and>
     (\<forall>b \<in> set bs. b \<noteq> [] \<and> fits b) \<and>
     (cur = [] \<longrightarrow> bs = []) \<and>
     length (encode_entries [] cur) < keyBlockSize - 2 \<and>
     block w = length bs + (if cur = [] then 0 else 1) \<and>
     keyIndex w = index_of (bs @ (if cur = [] then [] else [cur]))"

lemma encode_entry_not_Nil [simp]: "encode_entry p e \<noteq> []"
  using length_encode_entry [of p e] by (cases "encode_entry p e") auto

lemma encode_entries_empty_iff [simp]: "encode_entries p es = [] \<longleftrightarrow> es = []"
  by (cases es) auto

lemma winv_init: "winv wstate_init [] [] []"
  by (simp add: winv_def wstate_init_def values_of_def keyBlockSize_def)

lemma winv_room: "winv w bs cur kvs \<Longrightarrow> length (encode_entries [] cur) + 2 < keyBlockSize"
  unfolding winv_def by linarith

definition entry_of :: "wstate \<Rightarrow> keyvalue \<Rightarrow> dentry" where
  "entry_of w kv =
     \<lparr>de_key = kv_key kv, de_off = dataOffset w, de_len = of_nat (length (kv_value kv))\<rparr>"

text \<open>Appending to the open block, once it has room for the entry.\<close>

lemma append_key_winv:
  assumes "keyF w = concat (map encode_block bs) @ encode_entries [] cur"
    and "keyBlockLen w = length (encode_entries [] cur)"
    and "prevKey w = last_key [] cur"
  shows "keyF (append_key w kv) =
           concat (map encode_block bs) @ encode_entries [] (cur @ [entry_of w kv])"
    and "keyBlockLen (append_key w kv) = length (encode_entries [] (cur @ [entry_of w kv]))"
    and "prevKey (append_key w kv) = kv_key kv"
    and "dataOffset (append_key w kv) = dataOffset w + of_nat (length (kv_value kv))"
    and "dataF (append_key w kv) = dataF w" "block (append_key w kv) = block w"
    and "keyIndex (append_key w kv) = keyIndex w"
  using assms
  by (simp_all add: append_key_def Let_def encode_entries_append encode_entry_def entry_of_def)

lemma write_entry_winv:
  assumes inv: "winv w bs cur kvs" and len: "length (kv_key kv) + 14 < keyBlockSize - 2"
  shows "\<exists>bs' cur'. winv (write_entry w kv) bs' cur' (kvs @ [kv])"
proof -
  let ?e = "entry_of w kv"
  note D = inv [unfolded winv_def]
  have ents: "entries_from 0 (kvs @ [kv]) = (concat bs @ cur) @ [?e]"
    using inv by (simp add: entries_from_append winv_def entry_of_def)
  show ?thesis
  proof (cases "keyBlockLen w + 2 + length (kv_key kv) + 8 + 4 \<ge> keyBlockSize - 2")
    case full: True
    define w1 where "w1 = close_full_block (w\<lparr>dataF := dataF w @ kv_value kv\<rparr>) (kv_key kv)"
    define w2 where "w2 = start_block w1 (kv_key kv)"
    have cur: "cur \<noteq> []"
      using full len D by (cases cur) simp_all
    have fit: "fits cur"
      using winv_room [OF inv] by (simp add: fits_def)
    have w1: "w1 = w\<lparr>dataF := dataF w @ kv_value kv,
        keyF := keyF w @ writeLEuint16 endOfBlock @ zeros (keyBlockSize - (keyBlockLen w + 2)),
        keyBlockLen := 0, prevKey := []\<rparr>"
      using full by (simp add: w1_def close_full_block_def Let_def)
    have k1: "keyF w2 = concat (map encode_block (bs @ [cur])) @ encode_entries [] []"
      using inv by (simp add: w2_def w1 start_block_def winv_def encode_block_def Let_def)
    have k2: "keyBlockLen w2 = length (encode_entries [] [])" "prevKey w2 = last_key [] []"
      by (simp_all add: w2_def w1 start_block_def)
    have eq: "write_entry w kv = append_key w2 kv"
      by (simp add: write_entry_def Let_def w2_def w1_def)
    have e: "entry_of w2 kv = ?e"
      by (simp add: w2_def w1 start_block_def entry_of_def)
    note ak = append_key_winv [OF k1 k2, of kv, unfolded e]
    have "keyIndex w2 = index_of ((bs @ [cur]) @ [[?e]])"
      using inv cur
      unfolding index_of_snoc [of "bs @ [cur]"] by (simp add: w2_def w1 start_block_def winv_def entry_of_def)
    moreover have "block w2 = length (bs @ [cur]) + 1"
      using inv cur by (simp add: w2_def w1 start_block_def winv_def)
    moreover have "length (encode_entries [] [?e]) < keyBlockSize - 2"
      using len length_encode_entry_le [of "[]" ?e] by (simp add: entry_of_def)
    moreover have "dataF w2 = values_of (kvs @ [kv])" "dataOffset w2 = dataOffset w"
      using inv by (simp_all add: w2_def w1 start_block_def winv_def values_of_def)
    ultimately have "winv (write_entry w kv) (bs @ [cur]) [?e] (kvs @ [kv])"
      unfolding winv_def eq using inv fit cur ents ak
      by (simp add: winv_def values_of_def entry_of_def)
    then show ?thesis by blast
  next
    case room: False
    define w2 where "w2 = start_block (w\<lparr>dataF := dataF w @ kv_value kv\<rparr>) (kv_key kv)"
    have k1: "keyF w2 = concat (map encode_block bs) @ encode_entries [] cur"
      "keyBlockLen w2 = length (encode_entries [] cur)" "prevKey w2 = last_key [] cur"
      using D by (simp_all add: w2_def start_block_def)
    have w2_sel: "dataF w2 = dataF w @ kv_value kv" "dataOffset w2 = dataOffset w"
      by (simp_all add: w2_def start_block_def)
    have eq: "write_entry w kv = append_key w2 kv"
      using room by (simp add: write_entry_def Let_def w2_def close_full_block_def)
    have e: "entry_of w2 kv = ?e"
      by (simp add: w2_def start_block_def entry_of_def)
    note ak = append_key_winv [OF k1, of kv, unfolded e]
    have "keyIndex w2 = index_of (bs @ [cur @ [?e]])"
      using D by (cases cur) (simp_all add: w2_def start_block_def index_of_snoc entry_of_def)
    moreover have "length (encode_entries [] (cur @ [?e])) < keyBlockSize - 2"
      using room D length_encode_entry_le [of "last_key [] cur" ?e]
      by (simp add: encode_entries_append entry_of_def)
    moreover have "block w2 = length bs + 1"
      using D by (simp add: w2_def start_block_def)
    ultimately have "winv (write_entry w kv) bs (cur @ [?e]) (kvs @ [kv])"
      unfolding winv_def eq
      using inv [unfolded winv_def] ents ak
      by (simp add: values_of_def entry_of_def w2_sel)
    then show ?thesis by blast
  qed
qed

definition keys_fit :: "keyvalue list \<Rightarrow> bool" where
  "keys_fit kvs \<longleftrightarrow> (\<forall>kv \<in> set kvs. length (kv_key kv) + 14 < keyBlockSize - 2)"

lemma foldl_write_winv:
  "keys_fit kvs \<Longrightarrow> \<exists>bs cur. winv (foldl write_entry wstate_init kvs) bs cur kvs"
proof (induction kvs rule: rev_induct)
  case Nil
  then show ?case using winv_init by auto
next
  case (snoc kv kvs)
  then obtain bs cur where "winv (foldl write_entry wstate_init kvs) bs cur kvs"
    by (auto simp: keys_fit_def)
  then show ?case
    using write_entry_winv [of _ bs cur kvs kv] snoc.prems by (simp add: keys_fit_def)
qed

theorem written_layout:
  assumes "keys_fit kvs"
  shows "\<exists>bs. layout_ok bs kvs \<and> key_bytes (written kvs) = concat (map encode_block bs) \<and>
           data_bytes (written kvs) = values_of kvs \<and> index_keys (written kvs) = index_of bs"
proof -
  define w where "w = foldl write_entry wstate_init kvs"
  obtain bs cur where inv: "winv w bs cur kvs"
    using foldl_write_winv [OF assms] by (auto simp: w_def)
  have wr: "written kvs = files_of (finish_block w)"
    by (simp add: written_def w_def)
  show ?thesis
  proof (cases "cur = []")
    case True
    note D = inv [unfolded winv_def]
    have bs: "bs = []" using True D by simp
    have "finish_block w = w" using True D by (simp add: finish_block_def)
    with True D wr show ?thesis unfolding bs
      by (intro exI [of _ "[]"]) (simp add: layout_ok_def files_of_def)
  next
    case False
    note D = inv [unfolded winv_def]
    have "keyBlockLen w > 0" "keyBlockLen w < keyBlockSize"
      using False D winv_room [OF inv] by simp_all
    then have "keyF (finish_block w) = concat (map encode_block (bs @ [cur]))"
      using D by (simp add: finish_block_def encode_block_def Let_def)
    moreover have "dataF (finish_block w) = dataF w" "keyIndex (finish_block w) = keyIndex w"
      by (simp_all add: finish_block_def)
    moreover have "layout_ok (bs @ [cur]) kvs"
      using False D winv_room [OF inv] by (simp add: layout_ok_def fits_def)
    ultimately show ?thesis
      using False D wr by (intro exI [of _ "bs @ [cur]"]) (simp add: files_of_def)
  qed
qed

end
