(* ===== verification/DiskSegment.thy ===== *)
theory DiskSegment
  imports KeyFile
begin

text \<open>
  \<^verbatim>\<open>include/memorymapped.h\<close>, \<^verbatim>\<open>include/disksegment.h\<close> and the reading half of
  \<^verbatim>\<open>disksegment.cpp\<close>: the memory-mapped file, the search of a key (index, binary search over the
  blocks, scan of one block) and \<^verbatim>\<open>get\<close>; and the proof that on files written by the writer \<^verbatim>\<open>get\<close>
  is look-up in the run that was written.
\<close>

named_theorems disk_simps \<open>reading back what the writer wrote\<close>

section \<open>Memory-mapped files\<close>

text \<open>
  A mapping covers whole pages: the bytes of the last page past the end of the file read as
  zero (POSIX), and any access beyond is a fault. An empty file is not mapped at all.
\<close>

definition pageSize :: nat where "pageSize = 4096"

definition mapped :: "bytes \<Rightarrow> bytes" where
  "mapped f = f @ zeros ((pageSize - length f mod pageSize) mod pageSize)"

text \<open>\<^verbatim>\<open>MemoryMappedFile::readAt\<close>: the bytes copied and the number it returns.\<close>

definition readAt :: "bytes \<Rightarrow> nat \<Rightarrow> nat \<Rightarrow> (bytes \<times> nat) res" where
  "readAt f position len =
     (if position + len \<le> length (mapped f)
      then Inr (take len (drop position (mapped f)),
                if position \<le> length f then min len (length f - position) else len)
      else Inl UndefinedBehaviour)"

lemma readAt_inside:
  "position + len \<le> length f \<Longrightarrow> readAt f position len = Inr (take len (drop position f), len)"
  by (auto simp: readAt_def mapped_def)

section \<open>The segment\<close>

record disk_segment =
  ds_keyFile :: bytes
  ds_dataFile :: bytes
  ds_keyBlocks :: nat
  ds_keyIndex :: "bytes list"
  ds_lowerID :: u64
  ds_upperID :: u64
  ds_names :: "string list"

text \<open>
  The initialiser of \<^verbatim>\<open>keyBlocks\<close>, in the 64-bit unsigned arithmetic of \<^verbatim>\<open>length()\<close>: an
  empty key file wraps around.
\<close>

definition keyBlocks_of :: "bytes \<Rightarrow> nat" where
  "keyBlocks_of f = unat ((of_nat (length f) - 1 :: u64) div of_nat keyBlockSize + 1)"

text \<open>\<^verbatim>\<open>loadKeyIndex\<close>: the first key of every sixteenth block.\<close>

function load_index_loop :: "bytes \<Rightarrow> nat \<Rightarrow> nat \<Rightarrow> bytes list res" where
  "load_index_loop f keyBlocks b =
     (if b < keyBlocks
      then bind_res (readAt f (b * keyBlockSize) keyBlockSize) (\<lambda>(buffer, n).
           bind_res (access (readLEuint16 buffer)) (\<lambda>klen.
             if klen = endOfBlock then Inr []
             else bind_res (slice_sub buffer 2 (unat klen)) (\<lambda>k.
                  bind_res (load_index_loop f keyBlocks (b + keyIndexInterval)) (\<lambda>rest.
                    Inr (k # rest)))))
      else Inr [])"
  by pat_completeness auto
termination
  by (relation "measure (\<lambda>(f, n, b). n - b)") (auto simp: keyIndexInterval_def)

declare load_index_loop.simps [simp del]

definition loadKeyIndex :: "bytes \<Rightarrow> nat \<Rightarrow> bytes list res" where
  "loadKeyIndex f keyBlocks = (if length f = 0 then Inr [] else load_index_loop f keyBlocks 0)"

text \<open>The constructor, given the contents of the two files and the ids in their names.\<close>

definition newDiskSegment ::
  "string list \<Rightarrow> u64 \<Rightarrow> u64 \<Rightarrow> bytes \<Rightarrow> bytes \<Rightarrow> bytes list \<Rightarrow> disk_segment res" where
  "newDiskSegment names lo hi kf df idx =
     bind_res (if idx = [] then loadKeyIndex kf (keyBlocks_of kf) else Inr idx) (\<lambda>index.
       Inr \<lparr>ds_keyFile = kf, ds_dataFile = df, ds_keyBlocks = keyBlocks_of kf,
            ds_keyIndex = index, ds_lowerID = lo, ds_upperID = hi, ds_names = names\<rparr>)"

definition ds_size :: "disk_segment \<Rightarrow> u64" where
  "ds_size ds = of_nat (length (ds_keyFile ds)) + of_nat (length (ds_dataFile ds))"

definition ds_put :: "disk_segment \<Rightarrow> bytes \<Rightarrow> bytes \<Rightarrow> bytes res" where
  "ds_put ds k v = Inl (IllegalState ''disk segments are immutable, put is not allowed'')"

definition ds_remove :: "disk_segment \<Rightarrow> bytes \<Rightarrow> bytes res" where
  "ds_remove ds k = Inl (IllegalState ''disk segments are immutable, remove is not allowed'')"

section \<open>Searching a key\<close>

text \<open>
  \<^verbatim>\<open>std::upper_bound\<close> over the key index, and the step back to the last entry that is not
  greater than the key.
\<close>

definition upper_bound :: "bytes list \<Rightarrow> bytes \<Rightarrow> nat" where
  "upper_bound idx k = length (takeWhile (\<lambda>e. \<not> slice_less k e) idx)"

definition index_position :: "bytes list \<Rightarrow> bytes \<Rightarrow> nat" where
  "index_position idx k = (let itr = upper_bound idx k in if itr \<noteq> 0 then itr - 1 else itr)"

text \<open>
  The first key of a block, read into the buffer of \<^verbatim>\<open>maxKeySize+2\<close> bytes: the memory behind the pointer of the
  slice, and its length, which nothing compares with the size of the buffer.
\<close>

definition block_first_key :: "bytes \<Rightarrow> nat \<Rightarrow> (bytes \<times> nat) res" where
  "block_first_key f b =
     bind_res (readAt f (b * keyBlockSize) (maxKeySize + 2)) (\<lambda>(buffer, n).
     bind_res (access (readLEuint16 buffer)) (\<lambda>klen. Inr (drop 2 buffer, unat klen)))"

text \<open>\<^verbatim>\<open>Slice::less(key,skey)\<close>: \<^verbatim>\<open>memcmp\<close> reads as many bytes as the shorter slice is said to have.\<close>

definition less_first_key :: "bytes \<Rightarrow> bytes \<times> nat \<Rightarrow> bool res" where
  "less_first_key k skey =
     (case skey of (mem, len) \<Rightarrow>
        let m = min (length k) len
        in if m > length mem then Inl UndefinedBehaviour
           else let result = memcmp k mem m in Inr (if result \<noteq> 0 then result < 0 else length k < len))"

lemma memcmp_prefix: "n \<le> len \<Longrightarrow> memcmp x (take len y) n = memcmp x y n"
  by (induction x y n arbitrary: len rule: memcmp.induct) (auto simp: take_Cons' gr0_conv_Suc)

lemma less_first_key_inside: "len \<le> length mem \<Longrightarrow> less_first_key k (mem, len) = Inr (slice_less k (take len mem))"
  by (auto simp: less_first_key_def slice_less_def compareTo_def Let_def memcmp_prefix)

function binarySearch0 :: "bytes \<Rightarrow> nat \<Rightarrow> nat \<Rightarrow> bytes \<Rightarrow> nat res" where
  "binarySearch0 f lowBlock highBlock k =
     (if highBlock - lowBlock \<le> 1
      then bind_res (bind_res (block_first_key f highBlock) (less_first_key k)) (\<lambda>less.
             if less then Inr lowBlock else Inr highBlock)
      else let b = (highBlock - lowBlock) div 2 + lowBlock
           in bind_res (bind_res (block_first_key f b) (less_first_key k)) (\<lambda>less.
                if less then binarySearch0 f lowBlock b k
                else binarySearch0 f b highBlock k))"
  by pat_completeness auto
termination
  by (relation "measure (\<lambda>(f, lo, hi, k). hi - lo)") auto

declare binarySearch0.simps [simp del]

text \<open>The prefix length and the suffix length in the length word of an entry.\<close>

definition split_keylen :: "u16 \<Rightarrow> nat \<times> nat" where
  "split_keylen klen =
     (if klen AND compressedBit \<noteq> 0
      then (unat (drop_bit 8 klen AND maxPrefixLen), unat (klen AND maxCompressedLen))
      else (0, unat klen))"

text \<open>
  The loop of \<^verbatim>\<open>scanBlock\<close>. \<open>tmpKey\<close> is the stack array of \<^verbatim>\<open>maxKeySize\<close> bytes that holds the
  previous key. The result is the out parameters \<^verbatim>\<open>offset\<close> and \<^verbatim>\<open>length\<close>; \<open>None\<close> is a \<^verbatim>\<open>length\<close> that
  was not written. A copy past the end of \<open>tmpKey\<close> and a read past the end of the buffer are undefined.
\<close>

function scan_loop :: "bytes \<Rightarrow> bytes \<Rightarrow> bytes \<Rightarrow> nat \<Rightarrow> (u64 \<times> u32 option) res" where
  "scan_loop buffer tmpKey k index =
     (if index + 2 > keyBlockSize then Inl (IllegalState ''buffer overrun'')
      else bind_res (access (readLEuint16 (drop index buffer))) (\<lambda>klen.
        if klen = endOfBlock then Inr (- 1, None)
        else
          let (prefixLen, compressedLen) = split_keylen klen;
              endOfKey = index + 2 + compressedLen
          in if endOfKey > keyBlockSize then Inl (IllegalState ''buffer overrun'')
             else if prefixLen + compressedLen > length tmpKey then Inl UndefinedBehaviour
             else
               let tmpKey' = take prefixLen tmpKey @ take compressedLen (drop (index + 2) buffer)
                               @ drop (prefixLen + compressedLen) tmpKey;
                   candidate = take (prefixLen + compressedLen) tmpKey'
               in if compareTo candidate k = 0
                  then bind_res (access (readLEuint64 (drop endOfKey buffer))) (\<lambda>offset.
                       bind_res (access (readLEuint32 (drop (endOfKey + 8) buffer))) (\<lambda>len.
                         Inr (offset, Some len)))
                  else if \<not> slice_less candidate k then Inr (- 1, None)
                  else scan_loop buffer tmpKey' k (endOfKey + 12)))"
  by pat_completeness auto
termination
  by (relation "measure (\<lambda>(buffer, tmpKey, k, index). keyBlockSize - index)") auto

declare scan_loop.simps [simp del]

text \<open>\<open>uninit\<close> is the content of the stack array before the scan.\<close>

definition scanBlock :: "bytes \<Rightarrow> bytes \<Rightarrow> nat \<Rightarrow> bytes \<Rightarrow> (u64 \<times> u32 option) res" where
  "scanBlock uninit f b k =
     bind_res (readAt f (b * keyBlockSize) keyBlockSize) (\<lambda>(buffer, n).
       scan_loop buffer uninit k 0)"

definition binarySearch :: "bytes \<Rightarrow> disk_segment \<Rightarrow> bytes \<Rightarrow> (u64 \<times> u32 option) res" where
  "binarySearch uninit ds k =
     (let index = index_position (ds_keyIndex ds) k;
          lowBlock = index * keyIndexInterval;
          highBlock0 = lowBlock + keyIndexInterval;
          highBlock = (if highBlock0 \<ge> ds_keyBlocks ds then ds_keyBlocks ds - 1 else highBlock0)
      in bind_res (binarySearch0 (ds_keyFile ds) lowBlock highBlock k) (\<lambda>b.
           scanBlock uninit (ds_keyFile ds) b k))"

text \<open>\<^verbatim>\<open>DiskSegment::get\<close>: the contents of \<^verbatim>\<open>value\<close> afterwards.\<close>

definition ds_get :: "bytes \<Rightarrow> disk_segment \<Rightarrow> bytes \<Rightarrow> bytes res" where
  "ds_get uninit ds k =
     bind_res (binarySearch uninit ds k) (\<lambda>(offset, len).
       if sint offset < 0 then Inr []
       else bind_res (access len) (\<lambda>l.
         if l = 0 then Inr []
         else if sint l < 0 then Inl UndefinedBehaviour
         else bind_res (readAt (ds_dataFile ds) (unat offset) (unat l)) (\<lambda>(b, n). Inr b)))"

end
