(* ===== verification/DiskGet.thy ===== *)
theory DiskGet
  imports DiskSegment
begin

text \<open>
  Correctness of \<^verbatim>\<open>DiskSegment::get\<close>: the index, the binary search and the scan of one block
  together compute the look-up in the run the files were written from.
\<close>

section \<open>Runs and their representation\<close>

definition run_ok :: "keyvalue list \<Rightarrow> bool" where
  "run_ok kvs \<longleftrightarrow>
     sorted_kvs kvs \<and>
     (\<forall>kv \<in> set kvs. kv_key kv \<noteq> [] \<and> length (kv_key kv) \<le> maxKeySize \<and>
        length (kv_value kv) < 2 ^ 31) \<and>
     length (values_of kvs) < 2 ^ 63 \<and> length kvs < 2 ^ 50"

definition disk_repr :: "disk_segment \<Rightarrow> keyvalue list \<Rightarrow> dentry list list \<Rightarrow> bool" where
  "disk_repr ds kvs bs \<longleftrightarrow>
     run_ok kvs \<and> layout_ok bs kvs \<and> bs \<noteq> [] \<and>
     ds_keyFile ds = concat (map encode_block bs) \<and> ds_dataFile ds = values_of kvs \<and>
     ds_keyIndex ds = index_of bs \<and> ds_keyBlocks ds = length bs"

section \<open>Decoding one length word\<close>

lemma unat_of_nat_le: "p \<le> 255 \<Longrightarrow> unat (of_nat p :: u16) = p"
  by (simp add: unat_of_nat)

lemma bit_small_word:
  fixes x :: u16
  assumes "unat x < 2 ^ n" and "bit x m"
  shows "m < n"
proof (rule ccontr)
  assume "\<not> m < n"
  then have "unat x < 2 ^ m"
    using assms(1) by (meson less_le_trans not_less one_le_numeral power_increasing)
  then have "unat x div 2 ^ m = 0" by simp
  moreover have "odd (unat x div 2 ^ m)"
    using assms(2) by (simp add: bit_unsigned_iff flip: bit_iff_odd)
  ultimately show False by simp
qed

lemma bit_compressedBit: "bit compressedBit m \<longleftrightarrow> m = 15"
proof -
  have "compressedBit = 2 ^ 15" by (simp add: const_simps)
  then have "bit compressedBit m = bit (2 ^ 15 :: u16) m" by (rule arg_cong)
  also have "\<dots> \<longleftrightarrow> m = 15" by (simp only: bit_exp_iff) auto
  finally show ?thesis .
qed

lemma split_compressed:
  assumes "0 < p" "p \<le> 127" "s \<le> 255"
  defines "w \<equiv> compressedBit OR push_bit 8 (of_nat p) OR of_nat s"
  shows "split_keylen w = (p, s)" and "w \<noteq> endOfBlock"
proof -
  define P where "P = (of_nat p :: u16)"
  define S where "S = (of_nat s :: u16)"
  have P: "unat P = p" and S: "unat S = s"
    using assms by (simp_all add: P_def S_def unat_of_nat_le)
  have bP: "m < 7" if "bit P m" for m
    using bit_small_word [of P 7 m] that P assms by simp
  have bS: "m < 8" if "bit S m" for m
    using bit_small_word [of S 8 m] that S assms by simp
  have w: "w = compressedBit OR push_bit 8 P OR S"
    by (simp add: w_def P_def S_def)
  have "bit (w AND compressedBit) 15" by (simp add: w bit_compressedBit bit_simps)
  then have "w AND compressedBit \<noteq> 0" by force
  moreover have "drop_bit 8 w AND maxPrefixLen = P"
  proof (rule bit_word_eqI)
    fix n :: nat assume "n < LENGTH(16)"
    have m: "maxPrefixLen = mask 7" by (simp add: const_simps mask_eq_exp_minus_1)
    show "bit (drop_bit 8 w AND maxPrefixLen) n \<longleftrightarrow> bit P n"
      using bP [of n] bS [of "8 + n"] by (auto simp: w m bit_compressedBit bit_simps)
  qed
  moreover have "w AND maxCompressedLen = S"
  proof (rule bit_word_eqI)
    fix n :: nat assume "n < LENGTH(16)"
    have m: "maxCompressedLen = mask 8" by (simp add: const_simps mask_eq_exp_minus_1)
    show "bit (w AND maxCompressedLen) n \<longleftrightarrow> bit S n"
      using bS [of n] by (auto simp: w m bit_compressedBit bit_simps)
  qed
  ultimately show "split_keylen w = (p, s)"
    using P S by (simp add: split_keylen_def)
  show "w \<noteq> endOfBlock"
  proof
    assume "w = endOfBlock"
    then have "drop_bit 8 w AND maxPrefixLen = 0" by (simp add: const_simps)
    then have "P = 0" using \<open>drop_bit 8 w AND maxPrefixLen = P\<close> by simp
    then show False using P assms by simp
  qed
qed

lemma split_plain:
  assumes "s \<le> 1024"
  shows "split_keylen (of_nat s) = (0, s)" and "(of_nat s :: u16) \<noteq> endOfBlock"
proof -
  have u: "unat (of_nat s :: u16) = s" using assms by (simp add: unat_of_nat)
  have "m < 11" if "bit (of_nat s :: u16) m" for m
    using bit_small_word [of "of_nat s" 11 m] that u assms by simp
  then have "\<not> bit (of_nat s :: u16) 15" by fastforce
  then have "(of_nat s :: u16) AND compressedBit = 0"
    by (intro bit_word_eqI) (auto simp: bit_compressedBit bit_and_iff)
  then show "split_keylen (of_nat s) = (0, s)"
    using u by (simp add: split_keylen_def)
  show "(of_nat s :: u16) \<noteq> endOfBlock"
    using u assms by (auto simp: endOfBlock_def dest: arg_cong [where f = unat])
qed

text \<open>What the scan needs of an encoded key.\<close>

lemma encodeKey_decode:
  assumes "k \<noteq> []" "length k \<le> 1024" "prev < k"
  shows "split_keylen (keylen (encodeKey k prev)) =
           (calculatePrefixLen prev k, length (compressedKey (encodeKey k prev)))"
    and "keylen (encodeKey k prev) \<noteq> endOfBlock"
    and "compressedKey (encodeKey k prev) \<noteq> []"
proof -
  let ?p = "calculatePrefixLen prev k"
  have "split_keylen (keylen (encodeKey k prev)) =
           (?p, length (compressedKey (encodeKey k prev))) \<and>
        keylen (encodeKey k prev) \<noteq> endOfBlock"
  proof (cases "?p = 0")
    case True
    then have "encodeKey k prev = \<lparr>keylen = of_nat (length k), compressedKey = k\<rparr>"
      by (simp add: encodeKey_def)
    then show ?thesis
      using True split_plain [OF assms(2)] by simp
  next
    case False
    then have p: "?p \<le> 127" "length k - ?p \<le> 255"
      by (cases rule: calculatePrefixLen_cases [of prev k]; simp)+
    have "keylen (encodeKey k prev) = compressedBit OR push_bit 8 (of_nat ?p) OR of_nat (length k - ?p)"
      "compressedKey (encodeKey k prev) = drop ?p k"
      using False by (simp_all add: encodeKey_def Let_def)
    then show ?thesis
      using False split_compressed [of ?p "length k - ?p"] p by simp
  qed
  then show "split_keylen (keylen (encodeKey k prev)) =
           (?p, length (compressedKey (encodeKey k prev)))"
    and "keylen (encodeKey k prev) \<noteq> endOfBlock" by simp_all
  have "?p < length k"
    using prefix_loop_less [OF assms(3)] assms(1)
    by (cases rule: calculatePrefixLen_cases [of prev k]) auto
  then show "compressedKey (encodeKey k prev) \<noteq> []"
    by (simp add: compressedKey_eq)
qed


section \<open>Blocks of a key file\<close>

abbreviation first_key :: "dentry list list \<Rightarrow> nat \<Rightarrow> bytes" where
  "first_key bs i \<equiv> de_key (hd (bs ! i))"

lemma Nil_less_iff: "([] :: bytes) < x \<longleftrightarrow> x \<noteq> []"
  by (cases x) simp_all

lemma entries_from_keys: "map de_key (entries_from off kvs) = map kv_key kvs"
  by (induction kvs arbitrary: off) simp_all

lemma layout_keys: "layout_ok bs kvs \<Longrightarrow> map de_key (concat bs) = map kv_key kvs"
  by (simp add: layout_ok_def entries_from_keys)

text \<open>What a run gives for the entries of its blocks.\<close>

lemma layout_entries:
  assumes "layout_ok bs kvs" "run_ok kvs"
  shows "sorted_wrt (\<lambda>a b. de_key a < de_key b) (concat bs)"
    and "\<forall>e \<in> set (concat bs). de_key e \<noteq> [] \<and> length (de_key e) \<le> maxKeySize"
proof -
  have keys: "map de_key (concat bs) = map kv_key kvs" by (rule layout_keys [OF assms(1)])
  have "sorted_wrt (<) (map kv_key kvs)"
    using assms(2) by (simp add: run_ok_def sorted_wrt_map)
  then show "sorted_wrt (\<lambda>a b. de_key a < de_key b) (concat bs)"
    unfolding keys [symmetric] by (simp add: sorted_wrt_map)
  show "\<forall>e \<in> set (concat bs). de_key e \<noteq> [] \<and> length (de_key e) \<le> maxKeySize"
  proof
    fix e assume "e \<in> set (concat bs)"
    then have "de_key e \<in> set (map kv_key kvs)" unfolding keys [symmetric] by simp
    then show "de_key e \<noteq> [] \<and> length (de_key e) \<le> maxKeySize"
      using assms(2) by (auto simp: run_ok_def)
  qed
qed

lemma block_subset: "i < length bs \<Longrightarrow> set (bs ! i) \<subseteq> set (concat bs)"
  using nth_mem by fastforce

lemma nth_block:
  assumes "layout_ok bs kvs" "i < length bs"
  shows "bs ! i \<noteq> []" "fits (bs ! i)" "set (bs ! i) \<subseteq> set (concat bs)"
  using assms nth_mem [OF assms(2)] block_subset [OF assms(2)] unfolding layout_ok_def by blast+

lemma sorted_concat_blocks:
  assumes "sorted_wrt r (concat bs)" "i < j" "j < length bs" "x \<in> set (bs ! i)" "y \<in> set (bs ! j)"
  shows "r x y"
proof -
  have "concat bs = concat (take j bs) @ concat (drop j bs)"
    by (metis append_take_drop_id concat_append)
  moreover have "x \<in> set (concat (take j bs))"
  proof -
    have "take j bs ! i \<in> set (take j bs)" using assms(2,3) by (intro nth_mem) simp
    then show ?thesis using assms(2,4) by auto
  qed
  moreover have "y \<in> set (concat (drop j bs))"
    using assms by (auto simp: Cons_nth_drop_Suc [symmetric])
  ultimately show ?thesis
    using assms(1) sorted_wrt_append [of r "concat (take j bs)" "concat (drop j bs)"] by metis
qed

lemma sorted_block:
  assumes "sorted_wrt r (concat bs)" "i < length bs"
  shows "sorted_wrt r (bs ! i)"
proof -
  have "concat bs = concat (take i bs) @ bs ! i @ concat (drop (Suc i) bs)"
    using id_take_nth_drop [OF assms(2)] by (metis concat.simps(2) concat_append)
  then show ?thesis using assms(1) by (simp add: sorted_wrt_append)
qed

lemma first_key_less:
  assumes "layout_ok bs kvs" "run_ok kvs" "i < j" "j < length bs"
  shows "first_key bs i < first_key bs j"
  using sorted_concat_blocks [OF layout_entries(1) [OF assms(1,2)] assms(3,4)]
    nth_block(1) [OF assms(1)] assms(3,4) by simp

lemma read_block:
  assumes "layout_ok bs kvs" "i < length bs"
  shows "readAt (concat (map encode_block bs)) (i * keyBlockSize) keyBlockSize =
           Inr (encode_block (bs ! i), keyBlockSize)"
proof -
  have len: "\<And>x. x \<in> set (map encode_block bs) \<Longrightarrow> length x = keyBlockSize"
    using assms(1) by (auto simp: layout_ok_def length_encode_block)
  have "i * keyBlockSize + keyBlockSize \<le> length bs * keyBlockSize"
    using assms(2) by (metis Suc_leI add.commute mult_Suc mult_le_mono1)
  moreover have "length (concat (map encode_block bs)) = length bs * keyBlockSize"
    using length_concat_block [of "map encode_block bs" keyBlockSize] len by simp
  ultimately have "i * keyBlockSize + keyBlockSize \<le> length (concat (map encode_block bs))"
    by simp
  then show ?thesis
    using take_concat_block [of "map encode_block bs" keyBlockSize i] len assms(2) by (simp add: readAt_inside)
qed

text \<open>The beginning of a block: the first key is stored whole.\<close>

lemma encode_block_hd:
  assumes "es \<noteq> []"
  shows "\<exists>r. encode_block es = writeLEuint16 (of_nat (length (de_key (hd es)))) @ de_key (hd es) @ r"
  using assms
  by (cases es) (auto simp: encode_block_def Let_def encode_entry_def)

lemma block_first_key_eq:
  assumes "layout_ok bs kvs" "run_ok kvs" "i < length bs"
  shows "bind_res (block_first_key (concat (map encode_block bs)) i) (less_first_key k) = Inr (slice_less k (first_key bs i))"
proof -
  let ?f = "concat (map encode_block bs)"
  let ?k = "first_key bs i"
  obtain r where r: "encode_block (bs ! i) = writeLEuint16 (of_nat (length ?k)) @ ?k @ r"
    using encode_block_hd [of "bs ! i"] nth_block(1) [OF assms(1,3)] by auto
  have k: "length ?k \<le> maxKeySize"
    using layout_entries(2) [OF assms(1,2)] nth_block [OF assms(1,3)] by (auto dest: hd_in_set)
  have "i * keyBlockSize + keyBlockSize \<le> length (mapped ?f)"
    "take keyBlockSize (drop (i * keyBlockSize) (mapped ?f)) = encode_block (bs ! i)"
    using read_block [OF assms(1,3)] by (simp_all add: readAt_def split: if_splits)
  then have "i * keyBlockSize + (maxKeySize + 2) \<le> length (mapped ?f)"
    and t: "take (maxKeySize + 2) (drop (i * keyBlockSize) (mapped ?f)) =
              take (maxKeySize + 2) (encode_block (bs ! i))"
  proof -
    have "take (maxKeySize + 2) (take keyBlockSize xs) = take (maxKeySize + 2) xs" for xs :: bytes
      by (simp add: const_simps)
    then show "take (maxKeySize + 2) (drop (i * keyBlockSize) (mapped ?f)) =
        take (maxKeySize + 2) (encode_block (bs ! i))"
      using \<open>take keyBlockSize (drop (i * keyBlockSize) (mapped ?f)) = encode_block (bs ! i)\<close>
      by metis
  qed (simp add: const_simps)
  have "take (maxKeySize + 2) (encode_block (bs ! i)) =
          writeLEuint16 (of_nat (length ?k)) @ ?k @ take (maxKeySize - length ?k) r"
    using k by (simp add: r)
  moreover have "unat (of_nat (length ?k) :: u16) = length ?k"
    using k by (simp add: unat_of_nat const_simps)
  ultimately show ?thesis
    using \<open>i * keyBlockSize + (maxKeySize + 2) \<le> length (mapped ?f)\<close> t
    by (simp add: block_first_key_def readAt_def less_first_key_inside)
qed

section \<open>The binary search over the blocks\<close>

lemma binarySearch0_block:
  assumes "layout_ok bs kvs" "run_ok kvs" "lo \<le> hi" "hi < length bs"
  shows "\<exists>r. binarySearch0 (concat (map encode_block bs)) lo hi k = Inr r \<and> lo \<le> r \<and> r \<le> hi \<and>
           (r = lo \<or> first_key bs r \<le> k) \<and> (\<forall>j. r < j \<and> j \<le> hi \<longrightarrow> k < first_key bs j)"
  using assms(3,4)
proof (induction "hi - lo" arbitrary: lo hi rule: less_induct)
  case less
  let ?f = "concat (map encode_block bs)"
  note fk = block_first_key_eq [OF assms(1,2)]
  show ?case
  proof (cases "hi - lo \<le> 1")
    case True
    then have eq: "binarySearch0 ?f lo hi k = (if k < first_key bs hi then Inr lo else Inr hi)"
      using less.prems fk [of hi]
      by (subst binarySearch0.simps) (simp add: slice_less_iff)
    have "j = hi" if "lo < j" "j \<le> hi" for j
      using that True by linarith
    then show ?thesis
      using less.prems(1) eq by (cases "k < first_key bs hi") auto
  next
    case False
    define b where "b = (hi - lo) div 2 + lo"
    have b: "lo < b" "b < hi" using False by (auto simp: b_def)
    have mono: "first_key bs i < first_key bs j" if "i < j" "j < length bs" for i j
      using first_key_less [OF assms(1,2)] that .
    have eq: "binarySearch0 ?f lo hi k =
        (if k < first_key bs b then binarySearch0 ?f lo b k else binarySearch0 ?f b hi k)"
      using False fk [of b] b less.prems
      by (subst binarySearch0.simps) (simp add: b_def [symmetric] slice_less_iff)
    show ?thesis
    proof (cases "k < first_key bs b")
      case True
      obtain r where r: "binarySearch0 ?f lo b k = Inr r" "lo \<le> r" "r \<le> b"
        "r = lo \<or> first_key bs r \<le> k" "\<forall>j. r < j \<and> j \<le> b \<longrightarrow> k < first_key bs j"
        using less.hyps [of b lo] b less.prems diff_less_mono [of b hi lo] by auto
      have "k < first_key bs j" if "b < j" "j \<le> hi" for j
        using True mono [of b j] that less.prems by simp
      then have "\<forall>j. r < j \<and> j \<le> hi \<longrightarrow> k < first_key bs j"
        using r(5) by (meson not_le)
      then show ?thesis using r b True eq by auto
    next
      case False
      obtain r where r: "binarySearch0 ?f b hi k = Inr r" "b \<le> r" "r \<le> hi"
        "r = b \<or> first_key bs r \<le> k" "\<forall>j. r < j \<and> j \<le> hi \<longrightarrow> k < first_key bs j"
        using less.hyps [of hi b] b less.prems diff_less_mono2 [of lo b hi] by auto
      then show ?thesis using b False eq by auto
    qed
  qed
qed


section \<open>The scan of one block\<close>

definition found :: "dentry list \<Rightarrow> bytes \<Rightarrow> u64 \<times> u32 option" where
  "found es k =
     (case find (\<lambda>e. de_key e = k) es of
        None \<Rightarrow> (- 1, None)
      | Some e \<Rightarrow> (de_off e, Some (de_len e)))"

lemma found_greater: "\<forall>e \<in> set es. k < de_key e \<Longrightarrow> found es k = (- 1, None)"
proof -
  assume "\<forall>e \<in> set es. k < de_key e"
  then have "find (\<lambda>e. de_key e = k) es = None" by (auto simp: find_None_iff)
  then show ?thesis by (simp add: found_def)
qed

text \<open>The suffix copied over the previous key gives the key.\<close>

lemma decode_suffix:
  fixes k :: bytes
  assumes "take (length prev) tmp = prev"
  defines "p \<equiv> calculatePrefixLen prev k" and "c \<equiv> compressedKey (encodeKey k prev)"
  shows "take p tmp @ c = k" and "length (take p tmp) = p" and "p + length c = length k"
proof -
  have p: "p \<le> length prev" "p \<le> length k" "take p prev = take p k"
    unfolding p_def by (rule calculatePrefixLen_take)+
  have c: "c = drop p k" by (simp add: c_def p_def compressedKey_eq)
  have "take p tmp = take p prev"
    using p(1) by (subst assms(1) [symmetric]) simp
  then show "take p tmp @ c = k" by (simp add: p(3) c)
  have "length prev \<le> length tmp"
    using arg_cong [OF assms(1), of length] by (simp add: min_def split: if_splits)
  then show "length (take p tmp) = p" using p(1) by simp
  show "p + length c = length k" using p(2) by (simp add: c)
qed

text \<open>One turn of the loop, on an entry whose words can be read.\<close>

lemma scan_loop_step:
  assumes "index + 2 + c + 12 \<le> keyBlockSize"
    and "readLEuint16 (drop index buffer) = Some klen" and "klen \<noteq> endOfBlock"
    and "split_keylen klen = (p, c)" and "p + c \<le> length tmpKey"
    and "take p tmpKey @ take c (drop (index + 2) buffer) @ drop (p + c) tmpKey = tmp'"
    and "take (p + c) tmp' = candidate"
    and "readLEuint64 (drop (index + 2 + c) buffer) = Some offset"
    and "readLEuint32 (drop (index + 2 + c + 8) buffer) = Some len"
  shows "scan_loop buffer tmpKey k index =
      (if candidate = k then Inr (offset, Some len)
       else if \<not> candidate < k then Inr (- 1, None)
       else scan_loop buffer tmp' k (index + 2 + c + 12))"
proof -
  have "\<not> index + 2 > keyBlockSize" "\<not> index + 2 + c > keyBlockSize" "\<not> p + c > length tmpKey"
    using assms(1,5) by simp_all
  with assms(2-4,6-9) show ?thesis
    by (subst scan_loop.simps) (simp only: Let_def access_Some bind_res_Inr if_False prod.case
        compareTo_order slice_less_iff)
qed

lemma scan_loop_entries:
  assumes "length buffer = keyBlockSize" and "index \<le> keyBlockSize"
    and "drop index buffer = encode_entries prev es @ writeLEuint16 endOfBlock @ rest"
    and "length tmpKey = maxKeySize" and "take (length prev) tmpKey = prev"
    and "sorted_wrt (\<lambda>a b. de_key a < de_key b) es"
    and "\<forall>e \<in> set es. prev < de_key e \<and> de_key e \<noteq> [] \<and> length (de_key e) \<le> maxKeySize"
  shows "scan_loop buffer tmpKey k index = Inr (found es k)"
  using assms(2-)
proof (induction es arbitrary: index prev tmpKey)
  case Nil
  have "keyBlockSize - index = length (writeLEuint16 endOfBlock @ rest)"
    using Nil(2) assms(1) by (metis append_Nil encode_entries.simps(1) length_drop)
  then have "index + 2 \<le> keyBlockSize" by simp
  then show ?case
    using Nil(2) by (subst scan_loop.simps) (simp add: found_def)
next
  case (Cons e es)
  let ?k = "de_key e"
  let ?dk = "encodeKey ?k prev"
  let ?c = "compressedKey ?dk"
  let ?p = "calculatePrefixLen prev ?k"
  define tail where "tail = encode_entries ?k es @ writeLEuint16 endOfBlock @ rest"
  have e: "prev < ?k" "?k \<noteq> []" "length ?k \<le> maxKeySize" using Cons.prems(6) by simp_all
  note dec = encodeKey_decode [OF e(2) _ e(1)]
  have k1024: "length ?k \<le> 1024" using e(3) by (simp add: const_simps)
  have d0: "drop index buffer =
      writeLEuint16 (keylen ?dk) @ ?c @ writeLEuint64 (de_off e) @ writeLEuint32 (de_len e) @ tail"
    using Cons.prems(2) by (simp add: encode_entry_def Let_def tail_def)
  have "keyBlockSize - index = 2 + length ?c + 12 + length tail"
    using arg_cong [OF d0, of length] assms(1) by simp
  then have room: "index + 2 + length ?c + 12 \<le> keyBlockSize" by linarith
  have d2: "drop (index + 2) buffer = ?c @ writeLEuint64 (de_off e) @ writeLEuint32 (de_len e) @ tail"
    using arg_cong [OF d0, of "drop 2"] by (simp add: add.commute)
  have d3: "drop (index + 2 + length ?c) buffer = writeLEuint64 (de_off e) @ writeLEuint32 (de_len e) @ tail"
    using arg_cong [OF d2, of "drop (length ?c)"] by (simp add: add.commute add.left_commute)
  have d4: "drop (index + 2 + length ?c + 8) buffer = writeLEuint32 (de_len e) @ tail"
    using arg_cong [OF d3, of "drop 8"] by (simp add: add.commute add.left_commute)
  have d5: "drop (index + 2 + length ?c + 12) buffer = tail"
    using arg_cong [OF d4, of "drop 4"] by (simp add: add.commute add.left_commute)
  note suf = decode_suffix [OF Cons.prems(4), of ?k]
  define tmp' where "tmp' = take ?p tmpKey @ ?c @ drop (?p + length ?c) tmpKey"
  have tmp': "take (length ?k) tmp' = ?k" "length tmp' = maxKeySize"
  proof -
    have "tmp' = ?k @ drop (length ?k) tmpKey"
      using suf by (simp add: tmp'_def flip: append_assoc)
    then show "take (length ?k) tmp' = ?k" "length tmp' = maxKeySize"
      using e(3) Cons.prems(3) by simp_all
  qed
  have step: "scan_loop buffer tmpKey k index =
      (if ?k = k then Inr (de_off e, Some (de_len e))
       else if \<not> ?k < k then Inr (- 1, None)
       else scan_loop buffer tmp' k (index + 2 + length ?c + 12))"
  proof (rule scan_loop_step [where p = ?p and klen = "keylen ?dk"])
    show "split_keylen (keylen ?dk) = (?p, length ?c)" "keylen ?dk \<noteq> endOfBlock"
      using dec [OF k1024] by simp_all
    show "take ?p tmpKey @ take (length ?c) (drop (index + 2) buffer) @ drop (?p + length ?c) tmpKey = tmp'"
      by (simp only: d2 tmp'_def) simp
    show "take (?p + length ?c) tmp' = ?k" using tmp'(1) by (simp only: suf(3))
    show "?p + length ?c \<le> length tmpKey" using e(3) Cons.prems(3) by (simp only: suf(3))
  qed (use d0 d3 d4 room in simp_all)
  have IH: "scan_loop buffer tmp' k (index + 2 + length ?c + 12) = Inr (found es k)"
    using Cons.prems(5,6) room d5 tmp' by (intro Cons.IH [of _ ?k]) (simp_all add: tail_def)
  show ?case
  proof (cases "?k < k \<or> ?k = k")
    case True
    then show ?thesis using step IH by (auto simp: found_def)
  next
    case False
    then have "k < ?k" by auto
    then have "\<forall>x \<in> set (e # es). k < de_key x"
      using Cons.prems(5) by auto
    then have "found (e # es) k = (- 1, None)" by (rule found_greater)
    then show ?thesis using step False by simp
  qed
qed


lemma scanBlock_found:
  assumes "layout_ok bs kvs" "run_ok kvs" "i < length bs" "length uninit = maxKeySize"
  shows "scanBlock uninit (concat (map encode_block bs)) i k = Inr (found (bs ! i) k)"
proof -
  let ?es = "bs ! i"
  note ents = layout_entries [OF assms(1,2)]
  have "drop 0 (encode_block ?es) = encode_entries [] ?es @ writeLEuint16 endOfBlock @
      zeros (keyBlockSize - length (encode_entries [] ?es @ writeLEuint16 endOfBlock))"
    by (simp add: encode_block_def Let_def)
  moreover have "length (encode_block ?es) = keyBlockSize"
    using nth_block(2) [OF assms(1,3)] by (rule length_encode_block)
  moreover have "\<forall>e \<in> set ?es. [] < de_key e \<and> de_key e \<noteq> [] \<and> length (de_key e) \<le> maxKeySize"
    using ents(2) block_subset [OF assms(3)] by (auto simp: Nil_less_iff)
  ultimately have "scan_loop (encode_block ?es) uninit k 0 = Inr (found ?es k)"
    using assms(4) sorted_block [OF ents(1) assms(3)]
    by (intro scan_loop_entries [where prev = "[]"]) simp_all
  then show ?thesis
    using read_block [OF assms(1,3)] by (simp add: scanBlock_def)
qed

section \<open>The block that can hold a key\<close>

lemma multiples_upt:
  "filter (\<lambda>i. i mod 16 = 0) [0..<n] = map (\<lambda>m. 16 * m) [0..<(n + 15) div (16::nat)]"
proof (induction n)
  case 0
  then show ?case by simp
next
  case (Suc n)
  show ?case
  proof (cases "n mod 16 = 0")
    case True
    then have "16 dvd n" by (rule mod_eq_0_iff_dvd [THEN iffD1])
    then obtain q where q: "n = 16 * q" by (rule dvdE)
    then have "(Suc n + 15) div 16 = Suc q" "(n + 15) div 16 = q" by simp_all
    then show ?thesis using Suc q by simp
  next
    case False
    define q where "q = n div 16"
    have "n = 16 * q + n mod 16" "n mod 16 < 16" "0 < n mod 16" using False by (simp_all add: q_def)
    then have "16 * q < n" "n < 16 * q + 16" by linarith+
    then have "(n + 15) div 16 = Suc q" "(Suc n + 15) div 16 = Suc q"
      by (intro div_nat_eqI; simp)+
    then have "(Suc n + 15) div 16 = (n + 15) div 16" by simp
    then show ?thesis using Suc False by simp
  qed
qed

lemma index_of_nth:
  "length (index_of bs) = (length bs + 15) div 16"
  "m < length (index_of bs) \<Longrightarrow> index_of bs ! m = first_key bs (16 * m)"
  by (simp_all add: index_of_def keyIndexInterval_def multiples_upt)

lemma upper_bound_bounds:
  "m < upper_bound idx k \<Longrightarrow> idx ! m \<le> k"
  "upper_bound idx k < length idx \<Longrightarrow> k < idx ! upper_bound idx k"
  "upper_bound idx k \<le> length idx"
proof -
  show "idx ! m \<le> k" if "m < upper_bound idx k"
  proof -
    have "takeWhile (\<lambda>e. \<not> slice_less k e) idx ! m \<in> set (takeWhile (\<lambda>e. \<not> slice_less k e) idx)"
      using that by (intro nth_mem) (simp add: upper_bound_def)
    then show ?thesis
      using that by (auto simp: upper_bound_def slice_less_iff takeWhile_nth dest!: set_takeWhileD)
  qed
  show "k < idx ! upper_bound idx k" if "upper_bound idx k < length idx"
    using nth_length_takeWhile [of "\<lambda>e. \<not> slice_less k e" idx] that
    by (simp add: upper_bound_def slice_less_iff)
  show "upper_bound idx k \<le> length idx"
    by (simp add: upper_bound_def length_takeWhile_le)
qed

definition holds_key :: "dentry list list \<Rightarrow> nat \<Rightarrow> bytes \<Rightarrow> bool" where
  "holds_key bs r k \<longleftrightarrow>
     r < length bs \<and> (r = 0 \<or> first_key bs r \<le> k) \<and>
     (\<forall>j. r < j \<and> j < length bs \<longrightarrow> k < first_key bs j)"

lemma index_search:
  fixes k :: bytes
  assumes "layout_ok bs kvs" "run_ok kvs" "bs \<noteq> []"
  defines "lo \<equiv> index_position (index_of bs) k * keyIndexInterval"
  defines "hi \<equiv> (if lo + keyIndexInterval \<ge> length bs then length bs - 1 else lo + keyIndexInterval)"
  shows "\<exists>r. binarySearch0 (concat (map encode_block bs)) lo hi k = Inr r \<and> holds_key bs r k"
proof -
  let ?idx = "index_of bs"
  define u where "u = upper_bound ?idx k"
  have len: "length bs > 0" using assms(3) by simp
  note ub = upper_bound_bounds(1) [of _ ?idx k, folded u_def]
    upper_bound_bounds(2) [of ?idx k, folded u_def] upper_bound_bounds(3) [of ?idx k, folded u_def]
  have lo: "lo = 16 * (u - 1)"
    by (simp add: lo_def index_position_def keyIndexInterval_def u_def Let_def)
  have loidx: "u - 1 < length ?idx"
    using ub(3) len by (cases u) (auto simp: index_of_nth div_greater_zero_iff Suc_le_eq)
  have lo_less: "lo < length bs"
    using loidx by (simp add: lo index_of_nth)
  have hi: "lo \<le> hi" "hi < length bs"
    using lo_less by (auto simp: hi_def keyIndexInterval_def)
  have fk_lo: "lo = 0 \<or> first_key bs lo \<le> k"
    using ub(1) [of "u - 1"] index_of_nth(2) [OF loidx] by (cases u) (simp_all add: lo)
  have mono: "first_key bs i \<le> first_key bs j" if "i \<le> j" "j < length bs" for i j
    using first_key_less [OF assms(1,2), of i j] that by (cases "i = j") auto
  have fk_hi: "k < first_key bs j" if j: "hi < j" "j < length bs" for j
  proof -
    have h: "hi = lo + 16" "lo + 16 < length bs"
      using j by (auto simp: hi_def keyIndexInterval_def split: if_splits)
    have "u < length ?idx"
      using h loidx by (cases u) (auto simp: index_of_nth lo)
    then have "k < first_key bs (16 * u)" using ub(2) index_of_nth(2) by metis
    moreover have "16 * u \<le> j" using h j by (cases u) (auto simp: lo)
    ultimately show ?thesis using mono [of "16 * u" j] j by simp
  qed
  obtain r where r: "binarySearch0 (concat (map encode_block bs)) lo hi k = Inr r" "lo \<le> r" "r \<le> hi"
    "r = lo \<or> first_key bs r \<le> k" "\<forall>j. r < j \<and> j \<le> hi \<longrightarrow> k < first_key bs j"
    using binarySearch0_block [OF assms(1,2) hi] by blast
  have "holds_key bs r k"
    unfolding holds_key_def
  proof (intro conjI allI impI)
    show "r < length bs" using r(3) hi(2) by simp
    show "r = 0 \<or> first_key bs r \<le> k" using r(4) fk_lo by blast
    fix j assume "r < j \<and> j < length bs"
    then show "k < first_key bs j" using r(5) fk_hi [of j] by (cases "j \<le> hi") auto
  qed
  with r(1) show ?thesis by blast
qed

lemma found_append:
  "(\<forall>e \<in> set xs. de_key e \<noteq> k) \<Longrightarrow> found (xs @ ys) k = found ys k"
  "(\<forall>e \<in> set ys. de_key e \<noteq> k) \<Longrightarrow> found (xs @ ys) k = found xs k"
proof -
  show "(\<forall>e \<in> set xs. de_key e \<noteq> k) \<Longrightarrow> found (xs @ ys) k = found ys k"
    by (induction xs) (auto simp: found_def)
  assume ys: "\<forall>e \<in> set ys. de_key e \<noteq> k"
  then have "find (\<lambda>e. de_key e = k) ys = None" by (auto simp: find_None_iff)
  then show "found (xs @ ys) k = found xs k"
    by (induction xs) (auto simp: found_def)
qed

lemma holds_key_found:
  assumes "layout_ok bs kvs" "run_ok kvs" "holds_key bs r k"
  shows "found (bs ! r) k = found (concat bs) k"
proof -
  note ents = layout_entries [OF assms(1,2)]
  have r: "r < length bs" "r = 0 \<or> first_key bs r \<le> k"
    "\<And>j. r < j \<Longrightarrow> j < length bs \<Longrightarrow> k < first_key bs j"
    using assms(3) by (auto simp: holds_key_def)
  have before: "de_key e \<noteq> k" if e: "e \<in> set (concat (take r bs))" for e
  proof -
    obtain b where b: "b \<in> set (take r bs)" "e \<in> set b" using e by auto
    then obtain i where i: "i < r" "e \<in> set (bs ! i)"
      using in_set_conv_nth [of b "take r bs"] by auto
    have "de_key e < first_key bs r"
      using sorted_concat_blocks [OF ents(1) i(1) r(1) i(2)] nth_block(1) [OF assms(1) r(1)] by simp
    then show ?thesis using r(2) i(1) by auto
  qed
  have after: "de_key e \<noteq> k" if e: "e \<in> set (concat (drop (Suc r) bs))" for e
  proof -
    obtain b where b: "b \<in> set (drop (Suc r) bs)" "e \<in> set b" using e by auto
    then obtain i where i: "i < length (drop (Suc r) bs)" "drop (Suc r) bs ! i = b"
      using in_set_conv_nth [of b "drop (Suc r) bs"] by blast
    define j where "j = Suc r + i"
    have j: "r < j" "j < length bs" "b = bs ! j" using i by (auto simp: j_def)
    have "first_key bs j \<le> de_key e"
    proof -
      have "sorted_wrt (\<lambda>a b. de_key a < de_key b) (bs ! j)" by (rule sorted_block [OF ents(1) j(2)])
      then show ?thesis using b(2) j(3) by (cases "bs ! j") auto
    qed
    then show ?thesis using r(3) [OF j(1,2)] by auto
  qed
  have "concat bs = concat (take r bs) @ bs ! r @ concat (drop (Suc r) bs)"
    using id_take_nth_drop [OF r(1)] by (metis concat.simps(2) concat_append)
  then show ?thesis
    using before after by (simp add: found_append)
qed

section \<open>From the entry to the value\<close>

lemma found_entries_from:
  "case find_kv kvs k of
     None \<Rightarrow> found (entries_from off kvs) k = (- 1, None)
   | Some v \<Rightarrow> \<exists>pre post. values_of kvs = pre @ v @ post \<and>
       found (entries_from off kvs) k = (off + of_nat (length pre), Some (of_nat (length v)))"
proof (induction kvs arbitrary: off)
  case Nil
  then show ?case by (simp add: found_def)
next
  case (Cons kv kvs)
  show ?case
  proof (cases "kv_key kv = k")
    case True
    then show ?thesis
      by (simp add: found_def values_of_def) (rule exI [of _ "[]"], simp)
  next
    case False
    let ?off = "off + of_nat (length (kv_value kv))"
    have step: "found (entries_from off (kv # kvs)) k = found (entries_from ?off kvs) k"
      using False by (simp add: found_def)
    show ?thesis
    proof (cases "find_kv kvs k")
      case None
      then show ?thesis using Cons.IH [of ?off] False step by simp
    next
      case (Some v)
      then obtain pre post where pp: "values_of kvs = pre @ v @ post"
        "found (entries_from ?off kvs) k = (?off + of_nat (length pre), Some (of_nat (length v)))"
        using Cons.IH [of ?off] by auto
      have "values_of (kv # kvs) = (kv_value kv @ pre) @ v @ post"
        using pp(1) by (simp add: values_of_def)
      moreover have "found (entries_from off (kv # kvs)) k =
          (off + of_nat (length (kv_value kv @ pre)), Some (of_nat (length v)))"
        unfolding step using pp(2) by (simp add: algebra_simps)
      moreover have "find_kv (kv # kvs) k = Some v" using Some False by simp
      ultimately show ?thesis by (simp only: option.case) blast
    qed
  qed
qed

lemma sint_of_nat:
  "n < 2 ^ 63 \<Longrightarrow> sint (of_nat n :: u64) = int n"
  "m < 2 ^ 31 \<Longrightarrow> sint (of_nat m :: u32) = int m"
  by (simp_all add: sint_uint uint_nat unat_of_nat signed_take_bit_eq_if_positive
      take_bit_nat_eq_self take_bit_int_eq_self bit_iff_odd)

lemma disk_get_repr:
  assumes "disk_repr ds kvs bs" and "length uninit = maxKeySize"
  shows "ds_get uninit ds k = Inr (case find_kv kvs k of None \<Rightarrow> [] | Some v \<Rightarrow> v)"
proof -
  have d: "run_ok kvs" "layout_ok bs kvs" "bs \<noteq> []" "ds_keyFile ds = concat (map encode_block bs)"
    "ds_dataFile ds = values_of kvs" "ds_keyIndex ds = index_of bs" "ds_keyBlocks ds = length bs"
    using assms(1) by (simp_all add: disk_repr_def)
  let ?lo = "index_position (index_of bs) k * keyIndexInterval"
  let ?hi = "if ?lo + keyIndexInterval \<ge> length bs then length bs - 1 else ?lo + keyIndexInterval"
  obtain r where r: "binarySearch0 (ds_keyFile ds) ?lo ?hi k = Inr r" "holds_key bs r k"
    using index_search [OF d(2,1,3), of k] d(4) by auto
  have rl: "r < length bs" using r(2) by (simp add: holds_key_def)
  have "concat bs = entries_from 0 kvs" using d(2) by (simp add: layout_ok_def)
  then have "found (bs ! r) k = found (entries_from 0 kvs) k"
    using holds_key_found [OF d(2,1) r(2)] by simp
  then have bsr: "binarySearch uninit ds k = Inr (found (entries_from 0 kvs) k)"
  proof -
    have "binarySearch uninit ds k =
        bind_res (binarySearch0 (ds_keyFile ds) ?lo ?hi k) (\<lambda>b. scanBlock uninit (ds_keyFile ds) b k)"
      by (simp only: binarySearch_def Let_def d(6,7))
    also have "\<dots> = scanBlock uninit (ds_keyFile ds) r k" by (simp only: r(1) bind_res_Inr)
    finally show ?thesis
      using scanBlock_found [OF d(2,1) rl assms(2)] \<open>found (bs ! r) k = found (entries_from 0 kvs) k\<close>
      by (simp only: d(4))
  qed
  show ?thesis
  proof (cases "find_kv kvs k")
    case None
    then have "found (entries_from 0 kvs) k = (- 1, None)"
      using found_entries_from [where kvs = kvs and k = k and off = 0] by simp
    then show ?thesis using bsr None by (simp add: ds_get_def)
  next
    case (Some v)
    then obtain pre post where pp: "values_of kvs = pre @ v @ post"
      "found (entries_from 0 kvs) k = (of_nat (length pre), Some (of_nat (length v)))"
      using found_entries_from [where kvs = kvs and k = k and off = 0] by auto
    have v: "length v < 2 ^ 31"
      using find_kv_SomeD [OF Some] d(1) by (auto simp: run_ok_def mk_kv_def)
    have p: "length pre < 2 ^ 63"
      using d(1) pp(1) by (simp add: run_ok_def)
    have u: "unat (of_nat (length pre) :: u64) = length pre" "unat (of_nat (length v) :: u32) = length v"
      using p v by (simp_all add: unat_of_nat)
    have "(of_nat (length v) :: u32) = 0 \<longleftrightarrow> v = []"
      by (simp only: word_unat_eq_iff u(2) unsigned_0 length_0_conv)
    moreover have "readAt (ds_dataFile ds) (length pre) (length v) = Inr (v, length v)"
      using pp(1) d(5) by (simp add: readAt_inside)
    moreover have "\<not> sint (of_nat (length pre) :: u64) < 0" "\<not> sint (of_nat (length v) :: u32) < 0"
      unfolding sint_of_nat(1) [OF p] sint_of_nat(2) [OF v] by simp_all
    ultimately show ?thesis
      using Some by (simp only: ds_get_def bsr pp(2) u bind_res_Inr access_Some prod.case if_False
          option.case) simp
  qed
qed

end
