(* ===== verification/DiskIterator.thy ===== *)
theory DiskIterator
  imports DiskGet
begin

text \<open>
  \<^verbatim>\<open>DiskSegment::Iterator\<close> and \<^verbatim>\<open>DiskSegment::lookup\<close>: the decoding iterator over the key file,
  with its one-entry look-ahead and its range. The last section interprets the iterator contract:
  on files written by the writer, the iterator returns the pairs of the run in the range.
\<close>

section \<open>Decoding keys\<close>

definition decodeKeyLen :: "u16 \<Rightarrow> (nat \<times> nat) res" where
  "decodeKeyLen klen =
     (let dk = split_keylen klen
      in if klen AND compressedBit \<noteq> 0 then
           (if fst dk > unat maxPrefixLen \<or> snd dk > unat maxCompressedLen
            then Inl (IllegalState ''invalid prefix/compressed length'')
            else if snd dk = 0 then Inl (IllegalState ''compressed lkey length = 0'') else Inr dk)
         else
           (if unat klen > maxKeySize then Inl (IllegalState ''key > 1024'')
            else if snd dk = 0 then Inl (IllegalState ''compressed lkey length = 0'') else Inr dk))"

definition decodeKey :: "bytes \<Rightarrow> bytes \<Rightarrow> nat \<Rightarrow> bytes res" where
  "decodeKey k prev prefixLen = bind_res (slice_sub prev 0 prefixLen) (\<lambda>p. Inr (p @ k))"

text \<open>\<^verbatim>\<open>ByteBuffer::slice(offset,length)\<close>, which does check its bounds.\<close>

definition buffer_slice :: "bytes \<Rightarrow> nat \<Rightarrow> nat \<Rightarrow> bytes res" where
  "buffer_slice b off len =
     (if off + len > length b then Inl (IllegalState ''slice outside of bounds'')
      else Inr (take len (drop off b)))"

section \<open>The iterator\<close>

record disk_iterator =
  di_ds :: disk_segment
  di_valid :: bool
  di_finished :: bool
  di_currentKey :: bytes
  di_currentValue :: bytes
  di_block :: nat
  di_lower :: bytes
  di_upper :: bytes
  di_buffer :: bytes
  di_prevKey :: bytes
  di_bufferOffset :: nat

text \<open>Reaching the end of the range or of the file.\<close>

definition di_finish :: "disk_iterator \<Rightarrow> disk_iterator" where
  "di_finish it = it\<lparr>di_finished := True, di_currentKey := [], di_valid := True\<rparr>"

text \<open>The label \<^verbatim>\<open>found\<close>: fetching the value.\<close>

definition di_found :: "disk_iterator \<Rightarrow> u64 \<Rightarrow> u32 \<Rightarrow> disk_iterator res" where
  "di_found it dataoffset datalen =
     (if datalen = 0 then Inr (it\<lparr>di_currentValue := [], di_valid := True\<rparr>)
      else if sint datalen < 0 then Inl UndefinedBehaviour
      else bind_res (readAt (ds_dataFile (di_ds it)) (unat dataoffset) (unat datalen)) (\<lambda>(b, n).
             Inr (it\<lparr>di_currentValue := b, di_valid := True\<rparr>)))"

text \<open>The loop of \<^verbatim>\<open>nextKeyValue\<close>.\<close>

function next_loop :: "disk_iterator \<Rightarrow> disk_iterator res" where
  "next_loop it =
     bind_res (access (readLEuint16 (drop (di_bufferOffset it) (di_buffer it)))) (\<lambda>klen.
       if klen = endOfBlock then
         let b = di_block it + 1;
             it1 = it\<lparr>di_bufferOffset := di_bufferOffset it + 2, di_block := b\<rparr>
         in if b = ds_keyBlocks (di_ds it) then Inr (di_finish it1)
            else bind_res (readAt (ds_keyFile (di_ds it)) (b * keyBlockSize) keyBlockSize) (\<lambda>(buf, n).
                   if n \<noteq> keyBlockSize then Inl (IllegalState ''did not read key block size'')
                   else next_loop (it1\<lparr>di_buffer := buf, di_bufferOffset := 0, di_prevKey := []\<rparr>))
       else
         bind_res (decodeKeyLen klen) (\<lambda>(prefixLen, compressedLen).
         bind_res (buffer_slice (di_buffer it) (di_bufferOffset it + 2) compressedLen) (\<lambda>keySlice.
         bind_res (decodeKey keySlice (di_prevKey it) prefixLen) (\<lambda>k.
           let off = di_bufferOffset it + 2 + compressedLen
           in bind_res (access (readLEuint64 (drop off (di_buffer it)))) (\<lambda>dataoffset.
              bind_res (access (readLEuint32 (drop (off + 8) (di_buffer it)))) (\<lambda>datalen.
                let it' = it\<lparr>di_bufferOffset := off + 12, di_currentKey := k, di_prevKey := k\<rparr>;
                    lower = di_lower it; upper = di_upper it
                in if lower \<noteq> [] \<and> slice_less k lower then next_loop it'
                   else if lower \<noteq> [] \<and> compareTo k lower = 0 then di_found it' dataoffset datalen
                   else if upper \<noteq> [] \<and> compareTo k upper = 0 then di_found it' dataoffset datalen
                   else if upper \<noteq> [] \<and> \<not> slice_less k upper then Inr (di_finish it')
                   else di_found it' dataoffset datalen))))))"
  by pat_completeness auto
termination
proof (relation "measures [\<lambda>it. Suc (length (mapped (ds_keyFile (di_ds it)))) - di_block it,
    \<lambda>it. length (di_buffer it) - di_bufferOffset it]", goal_cases)
  case 1
  then show ?case by simp
next
  case (2 it klen b it1 r buf n)
  then have "(di_block it + 1) * keyBlockSize + keyBlockSize \<le> length (mapped (ds_keyFile (di_ds it)))"
    by (auto simp: readAt_def split: if_splits)
  then have "di_block it + 1 \<le> length (mapped (ds_keyFile (di_ds it)))"
    by (simp add: keyBlockSize_def)
  then have "Suc (length (mapped (ds_keyFile (di_ds it)))) - di_block it =
      Suc (length (mapped (ds_keyFile (di_ds it))) - di_block it)"
    by (intro Suc_diff_le) simp
  then show ?case using 2 by simp
next
  case (3 it klen)
  have "2 \<le> length (drop (di_bufferOffset it) (di_buffer it))"
    using 3(1) by (auto simp: access_eq_Inr dest: readLE16_SomeD)
  then show ?case using 3 by auto
qed

declare next_loop.simps [simp del]

definition nextKeyValue :: "disk_iterator \<Rightarrow> disk_iterator res" where
  "nextKeyValue it =
     (if di_finished it then Inr (it\<lparr>di_currentKey := []\<rparr>)
      else next_loop (it\<lparr>di_prevKey := di_currentKey it\<rparr>))"

definition disk_next :: "disk_iterator \<Rightarrow> (keyvalue \<times> disk_iterator) res" where
  "disk_next it =
     (if di_valid it
      then Inr (mk_kv (di_currentKey it) (di_currentValue it), it\<lparr>di_valid := False\<rparr>)
      else bind_res (nextKeyValue it) (\<lambda>it'.
             Inr (mk_kv (di_currentKey it') (di_currentValue it'), it'\<lparr>di_valid := False\<rparr>)))"

definition disk_peekKey :: "disk_iterator \<Rightarrow> (bytes \<times> disk_iterator) res" where
  "disk_peekKey it =
     (if di_valid it then Inr (di_currentKey it, it)
      else bind_res (nextKeyValue it) (\<lambda>it'. Inr (di_currentKey it', it')))"

text \<open>
  \<^verbatim>\<open>DiskSegment::lookup\<close> on a non-empty key file (on an empty one it returns the empty iterator).
  \<open>junk\<close> is the content of the 64 bytes the constructor allocates for \<^verbatim>\<open>currentKey\<close> and does not
  initialise.
\<close>

definition disk_lookup :: "bytes \<Rightarrow> disk_segment \<Rightarrow> bytes \<Rightarrow> bytes \<Rightarrow> disk_iterator res" where
  "disk_lookup junk ds lower upper =
     (let b = (if lower \<noteq> [] then index_position (ds_keyIndex ds) lower * keyIndexInterval else 0)
      in bind_res (readAt (ds_keyFile ds) (b * keyBlockSize) keyBlockSize) (\<lambda>(buffer, n).
           if n \<noteq> keyBlockSize then Inl (IllegalState ''did not read block size'')
           else Inr \<lparr>di_ds = ds, di_valid = False, di_finished = False, di_currentKey = junk,
                     di_currentValue = [], di_block = b, di_lower = lower, di_upper = upper,
                     di_buffer = buffer, di_prevKey = [], di_bufferOffset = 0\<rparr>))"


section \<open>The position of the iterator\<close>

text \<open>
  The iterator stands in block \<open>i\<close> with the entries \<open>es\<close> of it still to decode; \<open>R\<close> is all that
  remains, up to the end of the file. \<open>prev\<close> is the key the next entry is compressed against: the
  key just decoded, or none at the start of a block.
\<close>

definition at_entries :: "disk_iterator \<Rightarrow> dentry list list \<Rightarrow> bytes \<Rightarrow> dentry list \<Rightarrow> dentry list \<Rightarrow> bool" where
  "at_entries it bs prev es R \<longleftrightarrow>
     di_block it < length bs \<and> length (di_buffer it) = keyBlockSize \<and>
     di_bufferOffset it \<le> keyBlockSize \<and>
     (\<exists>rest. drop (di_bufferOffset it) (di_buffer it) =
               encode_entries prev es @ writeLEuint16 endOfBlock @ rest) \<and>
     R = es @ concat (drop (Suc (di_block it)) bs) \<and>
     sorted_wrt (\<lambda>a b. de_key a < de_key b) R \<and>
     (\<forall>e \<in> set R. prev < de_key e \<and> de_key e \<noteq> [] \<and> length (de_key e) \<le> maxKeySize)"

lemma at_entries_cong:
  "di_block it' = di_block it \<Longrightarrow> di_buffer it' = di_buffer it \<Longrightarrow>
     di_bufferOffset it' = di_bufferOffset it \<Longrightarrow>
     at_entries it' bs prev es R \<longleftrightarrow> at_entries it bs prev es R"
  by (simp only: at_entries_def)

definition at_loop :: "disk_iterator \<Rightarrow> dentry list list \<Rightarrow> dentry list \<Rightarrow> bool" where
  "at_loop it bs R \<longleftrightarrow>
     (\<exists>prev es. at_entries it bs prev es R \<and> (prev = [] \<or> di_prevKey it = prev))"

definition value_at :: "disk_segment \<Rightarrow> dentry \<Rightarrow> bytes" where
  "value_at ds e = take (unat (de_len e)) (drop (unat (de_off e)) (ds_dataFile ds))"

text \<open>Every entry of the file points into the data file.\<close>

definition data_ok :: "disk_segment \<Rightarrow> dentry list \<Rightarrow> bool" where
  "data_ok ds es \<longleftrightarrow>
     (\<forall>e \<in> set es. unat (de_len e) < 2 ^ 31 \<and>
        unat (de_off e) + unat (de_len e) \<le> length (ds_dataFile ds))"

lemma decodeKeyLen_encode:
  assumes "k \<noteq> []" "length k \<le> maxKeySize" "prev < k"
  shows "decodeKeyLen (keylen (encodeKey k prev)) =
           Inr (calculatePrefixLen prev k, length (compressedKey (encodeKey k prev)))"
proof -
  let ?w = "keylen (encodeKey k prev)"
  have k: "length k \<le> 1024" using assms(2) by (simp add: const_simps)
  note dec = encodeKey_decode [OF assms(1) k assms(3)]
  have s0: "length (compressedKey (encodeKey k prev)) \<noteq> 0" using dec(3) by simp
  show ?thesis
  proof (cases "?w AND compressedBit = 0")
    case True
    then have "unat ?w = length (compressedKey (encodeKey k prev))"
      using dec(1) by (simp add: split_keylen_def)
    moreover have "length (compressedKey (encodeKey k prev)) \<le> length k"
      by (simp add: compressedKey_eq)
    ultimately show ?thesis
      using True dec(1) s0 assms(2) by (simp add: decodeKeyLen_def Let_def)
  next
    case False
    then have "fst (split_keylen ?w) = unat (drop_bit 8 ?w AND maxPrefixLen)"
      "snd (split_keylen ?w) = unat (?w AND maxCompressedLen)"
      by (simp_all add: split_keylen_def)
    moreover have "unat (x AND m) \<le> unat m" for x m :: u16
      using word_and_le1 [of x m] by (simp add: word_le_nat_alt)
    ultimately have "\<not> (fst (split_keylen ?w) > unat maxPrefixLen \<or>
        snd (split_keylen ?w) > unat maxCompressedLen)"
      by (simp add: not_less)
    then show ?thesis
      using False dec(1) s0 by (simp add: decodeKeyLen_def Let_def)
  qed
qed

text \<open>Crossing to the next block.\<close>

lemma next_loop_block:
  assumes "at_entries it bs prev [] R"
    and "ds_keyFile (di_ds it) = concat (map encode_block bs)"
    and "ds_keyBlocks (di_ds it) = length bs" and "layout_ok bs kvs"
  shows "Suc (di_block it) = length bs \<Longrightarrow> R = [] \<and>
           (\<exists>it'. next_loop it = Inr (di_finish it') \<and> di_ds it' = di_ds it \<and>
              di_lower it' = di_lower it \<and> di_upper it' = di_upper it)"
    and "Suc (di_block it) \<noteq> length bs \<Longrightarrow>
           \<exists>it'. next_loop it = next_loop it' \<and> at_entries it' bs [] (bs ! Suc (di_block it)) R \<and>
             R \<noteq> [] \<and> bs ! Suc (di_block it) \<noteq> [] \<and>
             di_ds it' = di_ds it \<and> di_lower it' = di_lower it \<and> di_upper it' = di_upper it \<and>
             di_finished it' = di_finished it"
proof -
  let ?b = "Suc (di_block it)"
  obtain rest where buf: "drop (di_bufferOffset it) (di_buffer it) = writeLEuint16 endOfBlock @ rest"
    using assms(1) by (auto simp: at_entries_def)
  have R: "R = concat (drop ?b bs)" and lt: "di_block it < length bs"
    using assms(1) by (auto simp: at_entries_def)
  show "R = [] \<and> (\<exists>it'. next_loop it = Inr (di_finish it') \<and> di_ds it' = di_ds it \<and>
              di_lower it' = di_lower it \<and> di_upper it' = di_upper it)" if "?b = length bs"
    using that buf assms(3) R by (subst next_loop.simps) (fastforce simp: Let_def)
  show "\<exists>it'. next_loop it = next_loop it' \<and> at_entries it' bs [] (bs ! ?b) R \<and>
             R \<noteq> [] \<and> bs ! ?b \<noteq> [] \<and>
             di_ds it' = di_ds it \<and> di_lower it' = di_lower it \<and> di_upper it' = di_upper it \<and>
             di_finished it' = di_finished it" if ne: "?b \<noteq> length bs"
  proof -
    have b: "?b < length bs" using lt ne by simp
    note rd = read_block [OF assms(4) b]
    define it' where "it' = it\<lparr>di_block := ?b, di_buffer := encode_block (bs ! ?b),
      di_bufferOffset := 0, di_prevKey := []\<rparr>"
    have "next_loop it = next_loop it'"
      using buf assms(2,3) ne rd
      by (subst next_loop.simps) (simp add: Let_def it'_def)
    moreover have R': "R = bs ! ?b @ concat (drop (Suc ?b) bs)"
      using R b by (metis Cons_nth_drop_Suc concat.simps(2))
    moreover have "bs ! ?b \<noteq> []" by (rule nth_block(1) [OF assms(4) b])
    moreover have "at_entries it' bs [] (bs ! ?b) R"
    proof -
      have "sorted_wrt (\<lambda>a b. de_key a < de_key b) R"
        "\<forall>e \<in> set R. [] < de_key e \<and> de_key e \<noteq> [] \<and> length (de_key e) \<le> maxKeySize"
        using assms(1) unfolding at_entries_def Nil_less_iff by blast+
      moreover have "\<exists>rest. encode_block (bs ! ?b) =
          encode_entries [] (bs ! ?b) @ writeLEuint16 endOfBlock @ rest"
        by (simp add: encode_block_def Let_def)
      ultimately show ?thesis
        using b R' length_encode_block [OF nth_block(2) [OF assms(4) b]]
        by (simp add: at_entries_def it'_def)
    qed
    ultimately show ?thesis by (intro exI [of _ it']) (auto simp: it'_def)
  qed
qed

text \<open>Decoding one entry.\<close>

lemma next_loop_entry:
  assumes "at_entries it bs prev (e # es) R" and "prev = [] \<or> di_prevKey it = prev"
  shows "\<exists>it' R'. R = e # R' \<and> at_entries it' bs (de_key e) es R' \<and>
     di_currentKey it' = de_key e \<and> di_prevKey it' = de_key e \<and>
     di_ds it' = di_ds it \<and> di_lower it' = di_lower it \<and> di_upper it' = di_upper it \<and>
     di_finished it' = di_finished it \<and>
     next_loop it =
       (if di_lower it \<noteq> [] \<and> de_key e < di_lower it then next_loop it'
        else if (di_lower it \<noteq> [] \<and> de_key e = di_lower it) \<or> di_upper it = [] \<or> de_key e \<le> di_upper it
             then di_found it' (de_off e) (de_len e)
             else Inr (di_finish it'))"
proof -
  let ?k = "de_key e"
  let ?dk = "encodeKey ?k prev"
  let ?c = "compressedKey ?dk"
  let ?p = "calculatePrefixLen prev ?k"
  let ?o = "di_bufferOffset it"
  obtain rest where buf: "drop ?o (di_buffer it) =
      encode_entries prev (e # es) @ writeLEuint16 endOfBlock @ rest"
    using assms(1) by (auto simp: at_entries_def)
  have len: "length (di_buffer it) = keyBlockSize" and R: "R = e # es @ concat (drop (Suc (di_block it)) bs)"
    and e: "prev < ?k" "?k \<noteq> []" "length ?k \<le> maxKeySize"
    using assms(1) by (auto simp: at_entries_def)
  define tail where "tail = encode_entries ?k es @ writeLEuint16 endOfBlock @ rest"
  have d0: "drop ?o (di_buffer it) =
      writeLEuint16 (keylen ?dk) @ ?c @ writeLEuint64 (de_off e) @ writeLEuint32 (de_len e) @ tail"
    using buf by (simp add: encode_entry_def Let_def tail_def)
  have room: "?o + 2 + length ?c + 12 \<le> keyBlockSize"
    using arg_cong [OF d0, of length] len by simp
  have d2: "drop (?o + 2) (di_buffer it) = ?c @ writeLEuint64 (de_off e) @ writeLEuint32 (de_len e) @ tail"
    using arg_cong [OF d0, of "drop 2"] by (simp add: add.commute)
  have d3: "drop (?o + 2 + length ?c) (di_buffer it) = writeLEuint64 (de_off e) @ writeLEuint32 (de_len e) @ tail"
    using arg_cong [OF d2, of "drop (length ?c)"] by (simp add: add.commute add.left_commute)
  have d4: "drop (?o + 2 + length ?c + 8) (di_buffer it) = writeLEuint32 (de_len e) @ tail"
    using arg_cong [OF d3, of "drop 8"] by (simp add: add.commute add.left_commute)
  have d5: "drop (?o + 2 + length ?c + 12) (di_buffer it) = tail"
    using arg_cong [OF d4, of "drop 4"] by (simp add: add.commute add.left_commute)
  have klen: "readLEuint16 (drop ?o (di_buffer it)) = Some (keylen ?dk)" by (simp add: d0)
  have k1024: "length ?k \<le> 1024" using e(3) by (simp add: const_simps)
  have neob: "keylen ?dk \<noteq> endOfBlock" by (rule encodeKey_decode(2) [OF e(2) k1024 e(1)])
  have slice: "buffer_slice (di_buffer it) (?o + 2) (length ?c) = Inr ?c"
    using room len by (simp only: buffer_slice_def d2) simp
  have dkey: "decodeKey ?c (di_prevKey it) ?p = Inr ?k"
  proof -
    have p: "?p \<le> length prev" "take ?p prev = take ?p ?k"
      by (rule calculatePrefixLen_take)+
    have c: "?c = drop ?p ?k" by (rule compressedKey_eq)
    show ?thesis
    proof (cases "prev = []")
      case True
      then show ?thesis using p c by (simp add: decodeKey_def slice_sub_def)
    next
      case False
      then show ?thesis using assms(2) p c by (simp add: decodeKey_def slice_sub_def)
    qed
  qed
  define it' where "it' = it\<lparr>di_bufferOffset := ?o + 2 + length ?c + 12, di_currentKey := ?k, di_prevKey := ?k\<rparr>"
  have nl: "next_loop it =
      (if di_lower it \<noteq> [] \<and> slice_less ?k (di_lower it) then next_loop it'
       else if di_lower it \<noteq> [] \<and> compareTo ?k (di_lower it) = 0 then di_found it' (de_off e) (de_len e)
       else if di_upper it \<noteq> [] \<and> compareTo ?k (di_upper it) = 0 then di_found it' (de_off e) (de_len e)
       else if di_upper it \<noteq> [] \<and> \<not> slice_less ?k (di_upper it) then Inr (di_finish it')
       else di_found it' (de_off e) (de_len e))"
    by (subst next_loop.simps)
       (simp only: klen access_Some bind_res_Inr neob if_False decodeKeyLen_encode [OF e(2,3,1)]
         prod.case slice dkey Let_def d3 d4 readLE64_write readLE32_write it'_def [symmetric])
  have at: "at_entries it' bs ?k es (es @ concat (drop (Suc (di_block it)) bs))"
    using assms(1) R room len d5
    by (auto simp: at_entries_def it'_def tail_def simp del: add_2_eq_Suc')
  show ?thesis
    using nl at R
    by (intro exI [of _ it'] exI [of _ "es @ concat (drop (Suc (di_block it)) bs)"])
       (auto simp: it'_def compareTo_order)
qed


section \<open>The next entry in the range\<close>

definition below :: "bytes \<Rightarrow> dentry \<Rightarrow> bool" where
  "below lower e \<longleftrightarrow> lower \<noteq> [] \<and> de_key e < lower"

definition accepted :: "bytes \<Rightarrow> bytes \<Rightarrow> dentry \<Rightarrow> bool" where
  "accepted lower upper e \<longleftrightarrow>
     (lower \<noteq> [] \<and> de_key e = lower) \<or> upper = [] \<or> de_key e \<le> upper"

lemma di_found_eq:
  assumes "unat (de_len e) < 2 ^ 31"
    and "unat (de_off e) + unat (de_len e) \<le> length (ds_dataFile (di_ds it))"
  shows "di_found it (de_off e) (de_len e) =
           Inr (it\<lparr>di_currentValue := value_at (di_ds it) e, di_valid := True\<rparr>)"
proof -
  have "\<not> sint (de_len e) < 0"
    using sint_of_nat(2) [OF assms(1)] by simp
  then show ?thesis
    using assms(2) by (auto simp: di_found_def value_at_def readAt_inside)
qed

text \<open>
  What \<^verbatim>\<open>nextKeyValue\<close> leaves behind when \<open>R\<close> remains to be decoded.
\<close>

definition settled :: "disk_iterator \<Rightarrow> disk_iterator \<Rightarrow> dentry list list \<Rightarrow> dentry list \<Rightarrow> bool" where
  "settled it it' bs R \<longleftrightarrow>
     di_valid it' \<and> di_ds it' = di_ds it \<and> di_lower it' = di_lower it \<and> di_upper it' = di_upper it \<and>
     (case dropWhile (below (di_lower it)) R of
        [] \<Rightarrow> di_finished it' \<and> di_currentKey it' = []
      | e # R' \<Rightarrow>
          if accepted (di_lower it) (di_upper it) e
          then \<not> di_finished it' \<and> di_currentKey it' = de_key e \<and>
               di_currentValue it' = value_at (di_ds it) e \<and>
               (\<exists>es. at_entries it' bs (de_key e) es R')
          else di_finished it' \<and> di_currentKey it' = [])"

lemma at_entries_nonempty:
  assumes "at_loop it bs (e # R')"
    and "ds_keyFile (di_ds it) = concat (map encode_block bs)"
    and "ds_keyBlocks (di_ds it) = length bs" and "layout_ok bs kvs"
  shows "\<exists>it1 prev es. next_loop it = next_loop it1 \<and> at_entries it1 bs prev (e # es) (e # R') \<and>
     (prev = [] \<or> di_prevKey it1 = prev) \<and>
     di_ds it1 = di_ds it \<and> di_lower it1 = di_lower it \<and> di_upper it1 = di_upper it \<and>
     di_finished it1 = di_finished it"
proof -
  obtain prev es where at: "at_entries it bs prev es (e # R')" and pk: "prev = [] \<or> di_prevKey it = prev"
    using assms(1) by (auto simp: at_loop_def)
  show ?thesis
  proof (cases es)
    case Nil
    have "Suc (di_block it) \<noteq> length bs"
      using next_loop_block(1) [OF at [unfolded Nil] assms(2-4)] by auto
    then obtain it1 where it1: "next_loop it = next_loop it1"
      "at_entries it1 bs [] (bs ! Suc (di_block it)) (e # R')" "bs ! Suc (di_block it) \<noteq> []"
      "di_ds it1 = di_ds it" "di_lower it1 = di_lower it" "di_upper it1 = di_upper it"
      "di_finished it1 = di_finished it"
      using next_loop_block(2) [OF at [unfolded Nil] assms(2-4)] by blast
    then obtain es' where "bs ! Suc (di_block it) = e # es'"
      by (cases "bs ! Suc (di_block it)") (auto simp: at_entries_def)
    with it1 show ?thesis by metis
  next
    case (Cons e' es')
    then have "e' = e" using at by (auto simp: at_entries_def)
    then show ?thesis using at pk Cons by blast
  qed
qed

lemma next_loop_settled:
  assumes "at_loop it bs R" and "data_ok (di_ds it) R" and "\<not> di_finished it"
    and "ds_keyFile (di_ds it) = concat (map encode_block bs)"
    and "ds_keyBlocks (di_ds it) = length bs" and "layout_ok bs kvs"
  shows "\<exists>it'. next_loop it = Inr it' \<and> settled it it' bs R"
  using assms
proof (induction R arbitrary: it)
  case Nil
  obtain prev es where at: "at_entries it bs prev es []"
    using Nil.prems(1) by (auto simp: at_loop_def)
  then have es: "es = []" by (auto simp: at_entries_def)
  note nb = next_loop_block [OF at [unfolded es] Nil.prems(4-6)]
  have "Suc (di_block it) = length bs" using nb(2) by blast
  then obtain it' where "next_loop it = Inr (di_finish it')" "di_ds it' = di_ds it"
      "di_lower it' = di_lower it" "di_upper it' = di_upper it"
    using nb(1) by blast
  then show ?case by (auto simp: settled_def di_finish_def)
next
  case (Cons e R')
  obtain it1 prev es where it1: "next_loop it = next_loop it1" "at_entries it1 bs prev (e # es) (e # R')"
     "prev = [] \<or> di_prevKey it1 = prev" "di_ds it1 = di_ds it" "di_lower it1 = di_lower it"
     "di_upper it1 = di_upper it" "di_finished it1 = di_finished it"
    using at_entries_nonempty [OF Cons.prems(1,4-6)] by metis
  obtain it2 where it2: "at_entries it2 bs (de_key e) es R'"
     "di_currentKey it2 = de_key e" "di_prevKey it2 = de_key e"
     "di_ds it2 = di_ds it" "di_lower it2 = di_lower it" "di_upper it2 = di_upper it"
     "di_finished it2 = di_finished it"
     "next_loop it =
       (if di_lower it \<noteq> [] \<and> de_key e < di_lower it then next_loop it2
        else if (di_lower it \<noteq> [] \<and> de_key e = di_lower it) \<or> di_upper it = [] \<or> de_key e \<le> di_upper it
             then di_found it2 (de_off e) (de_len e)
             else Inr (di_finish it2))"
    using next_loop_entry [OF it1(2,3)] it1 by auto
  show ?case
  proof (cases "below (di_lower it) e")
    case True
    have "at_loop it2 bs R'" using it2(1,3) by (auto simp: at_loop_def)
    moreover have "data_ok (di_ds it) R'" using Cons.prems(2) by (simp add: data_ok_def)
    ultimately obtain it' where it': "next_loop it2 = Inr it'" "settled it2 it' bs R'"
      using Cons.IH [of it2] Cons.prems(3-6) it2 by auto
    have "dropWhile (below (di_lower it)) (e # R') = dropWhile (below (di_lower it)) R'"
      using True by simp
    then have "settled it it' bs (e # R')"
      using it'(2) unfolding settled_def it2(4-6) by (simp only:)
    moreover have "next_loop it = next_loop it2" using True it2(8) by (simp add: below_def)
    ultimately show ?thesis using it'(1) by simp
  next
    case nb: False
    show ?thesis
    proof (cases "accepted (di_lower it) (di_upper it) e")
      case True
      have "next_loop it = di_found it2 (de_off e) (de_len e)"
        using it2(8) nb True by (auto simp: below_def accepted_def)
      also have "\<dots> = Inr (it2\<lparr>di_currentValue := value_at (di_ds it) e, di_valid := True\<rparr>)"
        using di_found_eq [of e it2] Cons.prems(2) it2(4) by (simp add: data_ok_def)
      finally have "next_loop it = Inr (it2\<lparr>di_currentValue := value_at (di_ds it) e, di_valid := True\<rparr>)" .
      moreover have "at_entries (it2\<lparr>di_currentValue := v, di_valid := True\<rparr>) bs (de_key e) es R'" for v
        using it2(1) by (rule at_entries_cong [THEN iffD1, rotated -1]) simp_all
      ultimately show ?thesis
        using nb True it2 Cons.prems(3) by (auto simp: settled_def)
    next
      case False
      then have "next_loop it = Inr (di_finish it2)"
        using it2(8) nb by (auto simp: below_def accepted_def)
      then show ?thesis
        using nb False it2 by (auto simp: settled_def di_finish_def)
    qed
  qed
qed


section \<open>The contract\<close>

definition out_kv :: "disk_segment \<Rightarrow> dentry \<Rightarrow> keyvalue" where
  "out_kv ds e = mk_kv (de_key e) (value_at ds e)"

definition outs :: "disk_iterator \<Rightarrow> dentry list \<Rightarrow> keyvalue list" where
  "outs it R =
     map (out_kv (di_ds it))
       (takeWhile (accepted (di_lower it) (di_upper it)) (dropWhile (below (di_lower it)) R))"

definition at_pos :: "disk_iterator \<Rightarrow> dentry list list \<Rightarrow> dentry list \<Rightarrow> bool" where
  "at_pos it bs R \<longleftrightarrow> (\<exists>prev es. at_entries it bs prev es R \<and> (prev = [] \<or> di_currentKey it = prev))"

definition disk_running :: "disk_iterator \<Rightarrow> dentry list \<Rightarrow> bool" where
  "disk_running it R \<longleftrightarrow>
     (\<exists>kvs bs. disk_repr (di_ds it) kvs bs \<and> data_ok (di_ds it) R \<and> at_pos it bs R)"

definition disk_yields :: "disk_iterator \<Rightarrow> keyvalue list \<Rightarrow> bool" where
  "disk_yields it out \<longleftrightarrow>
     sorted_kvs out \<and> (\<forall>kv \<in> set out. kv_key kv \<noteq> []) \<and>
     (if di_finished it then out = [] \<and> (di_valid it \<longrightarrow> di_currentKey it = [])
      else \<exists>R. disk_running it R \<and>
             (if di_valid it
              then out = mk_kv (di_currentKey it) (di_currentValue it) # outs it R
              else out = outs it R))"

lemma disk_running_cong:
  assumes "di_ds it' = di_ds it" "di_block it' = di_block it" "di_buffer it' = di_buffer it"
    "di_bufferOffset it' = di_bufferOffset it" "di_currentKey it' = di_currentKey it"
  shows "disk_running it' R \<longleftrightarrow> disk_running it R"
  using at_entries_cong [OF assms(2-4)] assms(1,5) by (simp add: disk_running_def at_pos_def)

lemma dropWhile_below:
  assumes "\<not> below lower e" and "\<forall>x \<in> set R. de_key e < de_key x"
  shows "dropWhile (below lower) R = R"
  using assms by (cases R) (auto simp: below_def)

lemma nextKeyValue_yields:
  assumes "disk_yields it out" and "\<not> di_valid it" and "\<not> di_finished it"
  shows "\<exists>it'. nextKeyValue it = Inr it' \<and> di_valid it' \<and> disk_yields it' out \<and>
     (case out of [] \<Rightarrow> di_finished it' \<and> di_currentKey it' = []
      | kv # _ \<Rightarrow> \<not> di_finished it' \<and> kv = mk_kv (di_currentKey it') (di_currentValue it'))"
proof -
  obtain R kvs bs prev es where R: "disk_repr (di_ds it) kvs bs" "data_ok (di_ds it) R"
    "at_entries it bs prev es R" "prev = [] \<or> di_currentKey it = prev" "out = outs it R"
    using assms by (auto simp: disk_yields_def disk_running_def at_pos_def)
  define it0 where "it0 = it\<lparr>di_prevKey := di_currentKey it\<rparr>"
  have it0: "di_ds it0 = di_ds it" "di_finished it0 = di_finished it" "di_lower it0 = di_lower it"
    "di_upper it0 = di_upper it" "di_prevKey it0 = di_currentKey it"
    by (simp_all add: it0_def)
  have "at_entries it0 bs prev es R"
    using R(3) by (rule at_entries_cong [THEN iffD1, rotated -1]) (simp_all add: it0_def)
  then have "at_loop it0 bs R" using R(4) it0(5) unfolding at_loop_def by metis
  moreover have "ds_keyFile (di_ds it0) = concat (map encode_block bs)"
    "ds_keyBlocks (di_ds it0) = length bs" "layout_ok bs kvs"
    using R(1) by (simp_all add: it0 disk_repr_def)
  ultimately obtain it' where it': "next_loop it0 = Inr it'" "settled it0 it' bs R"
    using next_loop_settled [of it0 bs R kvs] R(2) assms(3) it0(1,2) by auto
  have nk: "nextKeyValue it = Inr it'"
    using it'(1) assms(3) by (simp add: nextKeyValue_def it0_def)
  have so: "sorted_kvs out" "\<forall>kv \<in> set out. kv_key kv \<noteq> []"
    using assms(1) by (simp_all add: disk_yields_def)
  have st: "di_valid it'" "di_ds it' = di_ds it" "di_lower it' = di_lower it" "di_upper it' = di_upper it"
    using it'(2) by (simp_all add: settled_def it0)
  show ?thesis
  proof (cases "dropWhile (below (di_lower it)) R")
    case Nil
    have "di_finished it'" "di_currentKey it' = []"
      using it'(2) unfolding settled_def it0 Nil by simp_all
    moreover have "out = []" unfolding R(5) outs_def Nil by simp
    ultimately show ?thesis using nk st by (simp add: disk_yields_def)
  next
    case (Cons e R')
    show ?thesis
    proof (cases "accepted (di_lower it) (di_upper it) e")
      case True
      obtain es' where s: "\<not> di_finished it'" "di_currentKey it' = de_key e"
        "di_currentValue it' = value_at (di_ds it) e" "at_entries it' bs (de_key e) es' R'"
        using it'(2) True unfolding settled_def it0 Cons by auto
      have "dropWhile (below (di_lower it)) R' = R'"
      proof (rule dropWhile_below)
        show "\<not> below (di_lower it) e" using Cons by (metis dropWhile_eq_Cons_conv)
        show "\<forall>x \<in> set R'. de_key e < de_key x" using s(4) by (simp add: at_entries_def)
      qed
      then have out: "out = mk_kv (di_currentKey it') (di_currentValue it') # outs it' R'"
        using True unfolding R(5) outs_def st s Cons out_kv_def by simp
      have "set R' \<subseteq> set R" using Cons by (metis set_dropWhileD set_subset_Cons subsetI subset_trans)
      then have "data_ok (di_ds it') R'" using R(2) st(2) by (auto simp: data_ok_def)
      moreover have "at_pos it' bs R'" using s(2,4) by (auto simp: at_pos_def)
      ultimately have "disk_running it' R'" using R(1) st(2) by (auto simp: disk_running_def)
      then have "disk_yields it' out" using so st s(1) out unfolding disk_yields_def by auto
      then show ?thesis using nk st(1) s(1) out by simp
    next
      case False
      then have "di_finished it'" "di_currentKey it' = []"
        using it'(2) unfolding settled_def it0 Cons by simp_all
      moreover have "out = []" using False unfolding R(5) outs_def Cons by simp
      ultimately show ?thesis using nk st by (simp add: disk_yields_def)
    qed
  qed
qed

text \<open>The state after \<^verbatim>\<open>nextKeyValue\<close>, from any state in which the look-ahead is empty.\<close>

lemma nextKeyValue_any:
  assumes "disk_yields it out" and "\<not> di_valid it"
  shows "\<exists>it'. nextKeyValue it = Inr it' \<and> disk_yields it' out \<and> disk_yields (it'\<lparr>di_valid := False\<rparr>) (tl out) \<and>
     (case out of [] \<Rightarrow> di_currentKey it' = []
      | kv # _ \<Rightarrow> kv = mk_kv (di_currentKey it') (di_currentValue it'))"
proof (cases "di_finished it")
  case True
  then show ?thesis using assms by (auto simp: nextKeyValue_def disk_yields_def)
next
  case False
  obtain it' where it': "nextKeyValue it = Inr it'" "di_valid it'" "disk_yields it' out"
    "case out of [] \<Rightarrow> di_finished it' \<and> di_currentKey it' = []
      | kv # _ \<Rightarrow> \<not> di_finished it' \<and> kv = mk_kv (di_currentKey it') (di_currentValue it')"
    using nextKeyValue_yields [OF assms False] by blast
  have "disk_yields (it'\<lparr>di_valid := False\<rparr>) (tl out)"
    using it' disk_running_cong [of "it'\<lparr>di_valid := False\<rparr>" it']
    by (cases out) (auto simp: disk_yields_def outs_def)
  then show ?thesis using it' by (auto split: list.splits)
qed

lemma disk_valid_tail:
  assumes "disk_yields it out" and "di_valid it"
  shows "disk_yields (it\<lparr>di_valid := False\<rparr>) (tl out)"
    and "case out of [] \<Rightarrow> di_currentKey it = []
      | kv # _ \<Rightarrow> kv = mk_kv (di_currentKey it) (di_currentValue it)"
  using assms disk_running_cong [of "it\<lparr>di_valid := False\<rparr>" it]
  by (auto simp: disk_yields_def outs_def split: if_splits)

lemma disk_peek_yields:
  assumes "disk_yields it out"
  shows "\<exists>it'. disk_peekKey it = Inr (case out of [] \<Rightarrow> [] | kv # _ \<Rightarrow> kv_key kv, it') \<and>
           disk_yields it' out"
proof (cases "di_valid it")
  case True
  then show ?thesis
    using disk_valid_tail(2) [OF assms True] assms
    by (auto simp: disk_peekKey_def split: list.splits)
next
  case False
  then show ?thesis
    using nextKeyValue_any [OF assms False] by (auto simp: disk_peekKey_def split: list.splits)
qed

lemma disk_next_yields:
  assumes "disk_yields it out"
  shows "\<exists>kv it'. disk_next it = Inr (kv, it') \<and> disk_yields it' (tl out) \<and>
           (case out of [] \<Rightarrow> kv_key kv = [] | kv' # _ \<Rightarrow> kv = kv')"
proof (cases "di_valid it")
  case True
  then show ?thesis
    using disk_valid_tail [OF assms True]
    by (auto simp: disk_next_def split: list.splits)
next
  case False
  then show ?thesis
    using nextKeyValue_any [OF assms False] by (auto simp: disk_next_def split: list.splits)
qed

interpretation disk_it: lookup_iterator disk_peekKey disk_next disk_yields
proof unfold_locales
  fix it kv kvs
  show "disk_yields it [] \<Longrightarrow> \<exists>it'. disk_peekKey it = Inr ([], it') \<and> disk_yields it' []"
    using disk_peek_yields [of it "[]"] by simp
  show "disk_yields it (kv # kvs) \<Longrightarrow>
      \<exists>it'. disk_peekKey it = Inr (kv_key kv, it') \<and> disk_yields it' (kv # kvs)"
    using disk_peek_yields [of it "kv # kvs"] by simp
  show "disk_yields it [] \<Longrightarrow>
      \<exists>kv it'. disk_next it = Inr (kv, it') \<and> kv_key kv = [] \<and> disk_yields it' []"
    using disk_next_yields [of it "[]"] by auto
  show "disk_yields it (kv # kvs) \<Longrightarrow> \<exists>it'. disk_next it = Inr (kv, it') \<and> disk_yields it' kvs"
    using disk_next_yields [of it "kv # kvs"] by auto
  show "disk_yields it kvs \<Longrightarrow> sorted_kvs kvs"
    and "disk_yields it kvs \<Longrightarrow> kv \<in> set kvs \<Longrightarrow> kv_key kv \<noteq> []"
    by (auto simp: disk_yields_def)
qed

section \<open>Properties\<close>

text \<open>Key compression loses nothing: the length word and the suffix that \<^verbatim>\<open>encodeKey\<close> produces for a
  key after a smaller one are accepted by \<^verbatim>\<open>decodeKeyLen\<close>, and \<^verbatim>\<open>decodeKey\<close> rebuilds the key from them
  and the previous key.\<close>

theorem key_codec_roundtrip:
  assumes "k \<noteq> []" and "length k \<le> maxKeySize" and "prev < k"
  shows "bind_res (decodeKeyLen (keylen (encodeKey k prev))) (\<lambda>(p, n).
           bind_res (decodeKey (compressedKey (encodeKey k prev)) prev p) (\<lambda>k'. Inr (n, k'))) =
         Inr (length (compressedKey (encodeKey k prev)), k)"
proof -
  have "take (calculatePrefixLen prev k) prev = take (calculatePrefixLen prev k) k"
    "calculatePrefixLen prev k \<le> length prev"
    by (rule calculatePrefixLen_take)+
  then have "decodeKey (compressedKey (encodeKey k prev)) prev (calculatePrefixLen prev k) = Inr k"
    by (simp add: decodeKey_def slice_sub_def compressedKey_eq)
  then show ?thesis by (simp add: decodeKeyLen_encode [OF assms])
qed

theorem key_codec_roundtrip_witness:
  "bind_res (decodeKeyLen (keylen (encodeKey [1, 2, 4] [1, 2, 3]))) (\<lambda>(p, n).
     bind_res (decodeKey (compressedKey (encodeKey [1, 2, 4] [1, 2, 3])) [1, 2, 3] p) (\<lambda>k'. Inr (n, k'))) =
   Inr (length (compressedKey (encodeKey [1, 2, 4] [1, 2, 3])), [1, 2, 4])"
  by (rule key_codec_roundtrip) (simp_all add: const_simps)

end
