(* ===== verification/DiskLookup.thy ===== *)
theory DiskLookup
  imports DiskIterator
begin

text \<open>
  \<^verbatim>\<open>DiskSegment::lookup\<close> returns the pairs of the run in the range, in order: the starting block
  found through the index is not too late, and what the iterator skips and where it stops is exactly
  the complement of the range.
\<close>

section \<open>The range\<close>

text \<open>
  The pairs a lookup returns. An empty bound is no bound. The third disjunct is what the code does
  when the lower bound is above the upper bound: the pair at the lower bound is still returned.
\<close>

definition in_range :: "bytes \<Rightarrow> bytes \<Rightarrow> keyvalue \<Rightarrow> bool" where
  "in_range lower upper kv \<longleftrightarrow>
     (lower = [] \<or> lower \<le> kv_key kv) \<and>
     (upper = [] \<or> kv_key kv \<le> upper \<or> (lower \<noteq> [] \<and> kv_key kv = lower))"

lemma entries_data:
  assumes "ds_dataFile ds = pre @ values_of kvs @ post" and "length (pre @ values_of kvs) < 2 ^ 63"
    and "\<forall>kv \<in> set kvs. length (kv_value kv) < 2 ^ 31"
  shows "map (out_kv ds) (entries_from (of_nat (length pre)) kvs) = kvs \<and>
         data_ok ds (entries_from (of_nat (length pre)) kvs)"
  using assms
proof (induction kvs arbitrary: pre)
  case Nil
  then show ?case by (simp add: data_ok_def)
next
  case (Cons kv kvs)
  let ?v = "kv_value kv"
  have f: "ds_dataFile ds = (pre @ ?v) @ values_of kvs @ post"
    "length ((pre @ ?v) @ values_of kvs) < 2 ^ 63" "length ?v < 2 ^ 31"
    using Cons.prems by (simp_all add: values_of_def)
  have u: "unat (of_nat (length pre) :: u64) = length pre" "unat (of_nat (length ?v) :: u32) = length ?v"
    using f(2,3) by (simp_all add: unat_of_nat)
  have IH: "map (out_kv ds) (entries_from (of_nat (length (pre @ ?v))) kvs) = kvs \<and>
      data_ok ds (entries_from (of_nat (length (pre @ ?v))) kvs)"
    using f Cons.prems(3) by (intro Cons.IH) simp_all
  have step: "entries_from (of_nat (length pre)) (kv # kvs) =
      \<lparr>de_key = kv_key kv, de_off = of_nat (length pre), de_len = of_nat (length ?v)\<rparr>
        # entries_from (of_nat (length (pre @ ?v))) kvs"
    by simp
  have "out_kv ds \<lparr>de_key = kv_key kv, de_off = of_nat (length pre), de_len = of_nat (length ?v)\<rparr> = kv"
    using u f(1) by (simp add: out_kv_def value_at_def)
  then show ?case
    using IH u f(1,3) unfolding step by (simp add: data_ok_def)
qed

lemma repr_entries:
  assumes "disk_repr ds kvs bs"
  shows "map (out_kv ds) (concat bs) = kvs" and "data_ok ds (concat bs)"
  using assms entries_data [of ds "[]" kvs "[]"]
  by (simp_all add: disk_repr_def run_ok_def layout_ok_def)

section \<open>The starting block\<close>

lemma start_block_bounds:
  fixes k :: bytes
  assumes "layout_ok bs kvs" "run_ok kvs" "bs \<noteq> []"
  defines "lo \<equiv> index_position (index_of bs) k * keyIndexInterval"
  shows "lo < length bs" and "lo = 0 \<or> first_key bs lo \<le> k"
proof -
  let ?idx = "index_of bs"
  define u where "u = upper_bound ?idx k"
  have len: "length bs > 0" using assms(3) by simp
  have lo: "lo = 16 * (u - 1)"
    by (simp add: lo_def index_position_def keyIndexInterval_def u_def Let_def)
  have loidx: "u - 1 < length ?idx"
    using upper_bound_bounds(3) [of ?idx k] len
    by (cases u) (auto simp: index_of_nth div_greater_zero_iff Suc_le_eq u_def)
  then show "lo < length bs" by (simp add: lo index_of_nth)
  show "lo = 0 \<or> first_key bs lo \<le> k"
    using upper_bound_bounds(1) [of "u - 1" ?idx k] index_of_nth(2) [OF loidx]
    by (cases u) (simp_all add: lo u_def)
qed

lemma skipped_below:
  assumes "layout_ok bs kvs" "run_ok kvs" "r < length bs" "r = 0 \<or> lower \<noteq> [] \<and> first_key bs r \<le> lower"
    and "e \<in> set (concat (take r bs))"
  shows "below lower e"
proof -
  obtain b where b: "b \<in> set (take r bs)" "e \<in> set b" using assms(5) by auto
  then obtain i where i: "i < r" "e \<in> set (bs ! i)"
    using in_set_conv_nth [of b "take r bs"] by auto
  have "de_key e < first_key bs r"
    using sorted_concat_blocks [OF layout_entries(1) [OF assms(1,2)] i(1) assms(3) i(2)]
      nth_block(1) [OF assms(1,3)] by simp
  then show ?thesis using assms(4) i(1) by (auto simp: below_def)
qed

section \<open>What the lookup returns\<close>

lemma range_filter:
  fixes es :: "dentry list"
  assumes "sorted_wrt (\<lambda>a b. de_key a < de_key b) es"
  shows "map (out_kv ds) (takeWhile (accepted lower upper) (dropWhile (below lower) es)) =
         filter (in_range lower upper) (map (out_kv ds) es)"
proof -
  let ?ys = "filter (\<lambda>e. \<not> below lower e) es"
  have d: "dropWhile (below lower) es = ?ys"
    using assms by (rule takeWhile_sorted_split(2)) (auto simp: below_def)
  have s: "sorted_wrt (\<lambda>a b. de_key a < de_key b) ?ys" using assms by (rule sorted_wrt_filter)
  have "takeWhile (accepted lower upper) ?ys =
      takeWhile (\<lambda>e. below lower e \<or> accepted lower upper e) ?ys"
    by (rule takeWhile_cong) auto
  also have "\<dots> = filter (\<lambda>e. below lower e \<or> accepted lower upper e) ?ys"
    using s by (rule takeWhile_sorted_split(1)) (auto simp: below_def accepted_def)
  also have "\<dots> = filter (\<lambda>e. in_range lower upper (out_kv ds e)) es"
    by (auto simp: in_range_def out_kv_def below_def accepted_def not_less intro!: filter_cong)
  finally show ?thesis by (simp add: d filter_map comp_def)
qed

lemma disk_lookup_yields:
  assumes "disk_repr ds kvs bs"
  shows "\<exists>it. disk_lookup junk ds lower upper = Inr it \<and>
              disk_yields it (filter (in_range lower upper) kvs)"
proof -
  have d: "run_ok kvs" "layout_ok bs kvs" "bs \<noteq> []" "ds_keyFile ds = concat (map encode_block bs)"
    "ds_keyIndex ds = index_of bs"
    using assms by (simp_all add: disk_repr_def)
  note ents = layout_entries [OF d(2,1)]
  define r where "r = (if lower \<noteq> [] then index_position (index_of bs) lower * keyIndexInterval else 0)"
  have r: "r < length bs" "r = 0 \<or> lower \<noteq> [] \<and> first_key bs r \<le> lower"
    using start_block_bounds [OF d(2,1,3), of lower] d(3) by (auto simp: r_def)
  define R where "R = concat (drop r bs)"
  have R: "R = bs ! r @ concat (drop (Suc r) bs)"
    using r(1) by (metis R_def Cons_nth_drop_Suc concat.simps(2))
  have split: "concat bs = concat (take r bs) @ R"
    by (metis R_def append_take_drop_id concat_append)
  define it where "it = \<lparr>di_ds = ds, di_valid = False, di_finished = False, di_currentKey = junk,
      di_currentValue = [], di_block = r, di_lower = lower, di_upper = upper,
      di_buffer = encode_block (bs ! r), di_prevKey = [], di_bufferOffset = 0\<rparr>"
  have lk: "disk_lookup junk ds lower upper = Inr it"
    unfolding disk_lookup_def Let_def d(4,5) r_def [symmetric] read_block [OF d(2) r(1)] it_def
    by simp
  have "sorted_wrt (\<lambda>a b. de_key a < de_key b) R"
    using ents(1) split by (simp add: sorted_wrt_append)
  moreover have "\<forall>e \<in> set R. [] < de_key e \<and> de_key e \<noteq> [] \<and> length (de_key e) \<le> maxKeySize"
    using ents(2) split by (simp add: Nil_less_iff)
  moreover have "\<exists>rest. encode_block (bs ! r) =
      encode_entries [] (bs ! r) @ writeLEuint16 endOfBlock @ rest"
    by (simp add: encode_block_def Let_def)
  ultimately have "at_entries it bs [] (bs ! r) R"
    using r(1) R length_encode_block [OF nth_block(2) [OF d(2) r(1)]]
    by (simp add: at_entries_def it_def)
  then have "at_pos it bs R" by (auto simp: at_pos_def)
  moreover have "data_ok (di_ds it) R"
    using repr_entries(2) [OF assms] split by (simp add: data_ok_def it_def)
  ultimately have run: "disk_running it R"
    using assms by (auto simp: disk_running_def it_def)
  have "outs it R = map (out_kv ds) (takeWhile (accepted lower upper) (dropWhile (below lower) (concat bs)))"
  proof -
    have "dropWhile (below lower) (concat (take r bs) @ R) = dropWhile (below lower) R"
      by (rule dropWhile_append2) (rule skipped_below [OF d(2,1) r])
    then show ?thesis by (simp add: outs_def it_def split)
  qed
  also have "\<dots> = filter (in_range lower upper) kvs"
    using range_filter [OF ents(1)] repr_entries(1) [OF assms] by simp
  finally have "outs it R = filter (in_range lower upper) kvs" .
  moreover have "sorted_kvs (filter (in_range lower upper) kvs)"
    using d(1) by (simp add: run_ok_def sorted_wrt_filter)
  moreover have "\<forall>kv \<in> set kvs. kv_key kv \<noteq> []" using d(1) by (simp add: run_ok_def)
  ultimately have "disk_yields it (filter (in_range lower upper) kvs)"
    using run by (auto simp: disk_yields_def it_def)
  with lk show ?thesis by blast
qed

text \<open>Without bounds the lookup returns the whole run.\<close>

lemma in_range_all [simp]: "in_range [] [] kv"
  by (simp add: in_range_def)

section \<open>Opening the files of a writer\<close>

lemma layout_length_le:
  assumes "layout_ok bs kvs"
  shows "length bs \<le> length kvs"
proof -
  have "length bs \<le> length (concat bs)"
    if "\<forall>b \<in> set bs. b \<noteq> []" for bs :: "dentry list list"
    using that by (induction bs) (auto simp: Suc_le_eq neq_Nil_conv)
  moreover have "length (concat bs) = length kvs"
    using arg_cong [OF layout_keys [OF assms], of length] by simp
  ultimately show ?thesis using assms by (metis layout_ok_def)
qed

lemma length_key_file:
  assumes "layout_ok bs kvs"
  shows "length (concat (map encode_block bs)) = length bs * keyBlockSize"
proof -
  have "length x = keyBlockSize" if "x \<in> set (map encode_block bs)" for x
    using that assms by (auto simp: layout_ok_def length_encode_block)
  then show ?thesis using length_concat_block [of "map encode_block bs"] by simp
qed

lemma keyBlocks_of_file:
  assumes "layout_ok bs kvs" "run_ok kvs" "bs \<noteq> []"
  shows "keyBlocks_of (concat (map encode_block bs)) = length bs"
proof -
  define n where "n = length bs"
  have n: "0 < n" "n < 2 ^ 50"
    using assms(3) layout_length_le [OF assms(1)] assms(2) by (auto simp: n_def run_ok_def)
  have "unat (of_nat (n * 4096) - 1 :: u64) = n * 4096 - 1"
  proof -
    have "(of_nat (n * 4096) - 1 :: u64) = of_nat (n * 4096 - 1)" using n(1) by simp
    also have "unat \<dots> = n * 4096 - 1" using n(2) by (simp add: unat_of_nat)
    finally show ?thesis .
  qed
  moreover have "(n * 4096 - 1) div 4096 = n - 1" using n(1) by (intro div_nat_eqI) simp_all
  ultimately have "unat ((of_nat (n * 4096) - 1 :: u64) div 4096) = n - 1"
    by (simp add: unat_div_distrib)
  moreover have "unat (x + 1) = unat x + 1" if "unat x < 2 ^ 50" for x :: u64
    using that by (simp add: unat_word_ariths)
  ultimately have "unat ((of_nat (n * 4096) - 1 :: u64) div 4096 + 1) = n"
    using n by simp
  then show ?thesis
    using length_key_file [OF assms(1)] by (simp add: keyBlocks_of_def keyBlockSize_def n_def)
qed

lemma load_index_loop_blocks:
  assumes "layout_ok bs kvs" "run_ok kvs"
  shows "load_index_loop (concat (map encode_block bs)) (length bs) (16 * m) =
           Inr (drop m (index_of bs))"
proof (induction "length bs - 16 * m" arbitrary: m rule: less_induct)
  case less
  show ?case
  proof (cases "16 * m < length bs")
    case False
    then have "length (index_of bs) \<le> m" by (simp add: index_of_nth)
    then show ?thesis using False by (subst load_index_loop.simps) simp
  next
    case True
    let ?k = "first_key bs (16 * m)"
    obtain r where r: "encode_block (bs ! (16 * m)) = writeLEuint16 (of_nat (length ?k)) @ ?k @ r"
      using encode_block_hd [of "bs ! (16 * m)"] nth_block(1) [OF assms(1) True] by auto
    have k: "length ?k \<le> maxKeySize"
      using layout_entries(2) [OF assms] nth_block [OF assms(1) True] by (auto dest: hd_in_set)
    have u: "unat (of_nat (length ?k) :: u16) = length ?k"
      using k by (simp add: unat_of_nat const_simps)
    have neob: "(of_nat (length ?k) :: u16) \<noteq> endOfBlock"
      using k by (intro split_plain(2)) (simp add: const_simps)
    have IH: "load_index_loop (concat (map encode_block bs)) (length bs) (16 * m + keyIndexInterval) =
        Inr (drop (Suc m) (index_of bs))"
      using less [of "Suc m"] True by (simp add: keyIndexInterval_def add.commute)
    have m: "m < length (index_of bs)" using True by (simp add: index_of_nth)
    have "load_index_loop (concat (map encode_block bs)) (length bs) (16 * m) =
        Inr (?k # drop (Suc m) (index_of bs))"
      using True read_block [OF assms(1) True] r u neob IH
      by (subst load_index_loop.simps) (simp add: slice_sub_def)
    then show ?thesis using m index_of_nth(2) [OF m] by (metis Cons_nth_drop_Suc)
  qed
qed

lemma loadKeyIndex_blocks:
  assumes "layout_ok bs kvs" "run_ok kvs"
  shows "loadKeyIndex (concat (map encode_block bs)) (length bs) = Inr (index_of bs)"
  using load_index_loop_blocks [OF assms, of 0] length_key_file [OF assms(1)]
  by (auto simp: loadKeyIndex_def keyBlockSize_def)

lemma run_ok_keys_fit: "run_ok kvs \<Longrightarrow> keys_fit kvs"
  by (auto simp: run_ok_def keys_fit_def const_simps)

text \<open>
  The segment opened on the written files, with the index the writer returns or with none (the
  constructor then loads it): both are the same segment, and it represents the run.
\<close>

lemma newDiskSegment_repr:
  assumes "run_ok kvs" "kvs \<noteq> []" "idx = index_keys (written kvs) \<or> idx = []"
  shows "\<exists>ds bs. newDiskSegment names lo hi (key_bytes (written kvs)) (data_bytes (written kvs)) idx = Inr ds \<and>
           disk_repr ds kvs bs \<and> ds_lowerID ds = lo \<and> ds_upperID ds = hi \<and> ds_names ds = names"
proof -
  obtain bs where bs: "layout_ok bs kvs" "key_bytes (written kvs) = concat (map encode_block bs)"
    "data_bytes (written kvs) = values_of kvs" "index_keys (written kvs) = index_of bs"
    using written_layout [OF run_ok_keys_fit [OF assms(1)]] by blast
  have ne: "bs \<noteq> []" using arg_cong [OF layout_keys [OF bs(1)], of length] assms(2) by auto
  then have "length (index_of bs) \<noteq> 0"
    by (cases bs) (simp_all add: index_of_nth(1) div_greater_zero_iff)
  then have idx: "index_of bs \<noteq> []" by auto
  note kb = keyBlocks_of_file [OF bs(1) assms(1) ne]
  let ?ds = "\<lparr>ds_keyFile = concat (map encode_block bs), ds_dataFile = values_of kvs,
      ds_keyBlocks = length bs, ds_keyIndex = index_of bs, ds_lowerID = lo, ds_upperID = hi, ds_names = names\<rparr>"
  have "newDiskSegment names lo hi (key_bytes (written kvs)) (data_bytes (written kvs)) idx = Inr ?ds"
    using assms(3) idx loadKeyIndex_blocks [OF bs(1) assms(1)]
    by (auto simp: newDiskSegment_def kb bs(2-4))
  moreover have "disk_repr ?ds kvs bs" using assms(1) bs(1) ne by (simp add: disk_repr_def)
  ultimately show ?thesis by fastforce
qed

section \<open>Properties\<close>

text \<open>The run written in the witnesses.\<close>

definition sample_run :: "keyvalue list" where
  "sample_run = [mk_kv [1, 2, 3] [7], mk_kv [1, 2, 4] [], mk_kv [2] [8, 9]]"

lemma sample_run_ok: "run_ok sample_run" "sample_run \<noteq> []"
  by (simp_all add: sample_run_def run_ok_def values_of_def const_simps)

text \<open>C10. \<^verbatim>\<open>DiskSegment::get\<close> on files written by \<^verbatim>\<open>writeSegmentFiles\<close>, opened with the index the writer
  returned or with none, returns the value of the key in the run written, and the empty value for a
  key that is not there: index, binary search, block scan and prefix decompression are correct together.\<close>

theorem written_get:
  assumes "run_ok kvs" and "kvs \<noteq> []" and "length uninit = maxKeySize"
    and "idx = index_keys (written kvs) \<or> idx = []"
  shows "bind_res (newDiskSegment names lo hi (key_bytes (written kvs)) (data_bytes (written kvs)) idx)
           (\<lambda>ds. ds_get uninit ds k) = Inr (case find_kv kvs k of None \<Rightarrow> [] | Some v \<Rightarrow> v)"
  using newDiskSegment_repr [OF assms(1,2,4), of names lo hi] disk_get_repr [OF _ assms(3), of _ kvs _ k]
  by fastforce

theorem written_get_witness:
  "bind_res (newDiskSegment [] 1 1 (key_bytes (written sample_run)) (data_bytes (written sample_run)) [])
     (\<lambda>ds. ds_get (replicate maxKeySize 0) ds [2]) = Inr [8, 9]"
  using written_get [OF sample_run_ok, of "replicate maxKeySize 0" "[]" "[]" 1 1 "[2]"]
  by (simp add: sample_run_def)

text \<open>C17. \<^verbatim>\<open>DiskSegment::lookup\<close> on written files, drained through \<^verbatim>\<open>next\<close>, returns exactly the pairs of the
  run in the range, in order, and ends.\<close>

theorem written_lookup:
  assumes "run_ok kvs" and "kvs \<noteq> []" and "idx = index_keys (written kvs) \<or> idx = []"
  shows "\<exists>ds it. newDiskSegment names lo hi (key_bytes (written kvs)) (data_bytes (written kvs)) idx = Inr ds \<and>
           disk_lookup junk ds lower upper = Inr it \<and>
           drain disk_next it = Some (Inr (filter (in_range lower upper) kvs))"
  using newDiskSegment_repr [OF assms, of names lo hi] disk_lookup_yields disk_it.drain_yields by meson

theorem written_lookup_witness:
  "\<exists>ds it. newDiskSegment [] 1 1 (key_bytes (written sample_run)) (data_bytes (written sample_run)) [] = Inr ds \<and>
     disk_lookup [] ds [1, 2, 4] [2] = Inr it \<and>
     drain disk_next it = Some (Inr (filter (in_range [1, 2, 4] [2]) sample_run))"
  by (rule written_lookup [OF sample_run_ok]) simp

text \<open>C26. Rewriting a disk segment through its own iterator gives the same files, without the removed keys
  when deleted entries are purged: a merge of one segment is the identity on disk.\<close>

theorem rewrite_segment:
  assumes "run_ok kvs" and "kvs \<noteq> []" and "idx = index_keys (written kvs) \<or> idx = []"
  shows "\<exists>ds it. newDiskSegment names lo hi (key_bytes (written kvs)) (data_bytes (written kvs)) idx = Inr ds \<and>
           disk_lookup junk ds [] [] = Inr it \<and>
           writeSegmentFiles disk_next purge it = Some (Inr (written (purged purge kvs)))"
proof -
  obtain ds bs where ds: "newDiskSegment names lo hi (key_bytes (written kvs)) (data_bytes (written kvs)) idx = Inr ds"
    "disk_repr ds kvs bs"
    using newDiskSegment_repr [OF assms, of names lo hi] by blast
  obtain it where it: "disk_lookup junk ds [] [] = Inr it" "disk_yields it kvs"
    using disk_lookup_yields [OF ds(2), of junk "[]" "[]"] by auto
  show ?thesis using ds(1) it disk_it.writeSegmentFiles_yields [OF it(2)] by blast
qed

theorem rewrite_segment_witness:
  "\<exists>ds it. newDiskSegment [] 1 1 (key_bytes (written sample_run)) (data_bytes (written sample_run)) [] = Inr ds \<and>
     disk_lookup [] ds [] [] = Inr it \<and>
     writeSegmentFiles disk_next True it = Some (Inr (written (purged True sample_run)))"
  by (rule rewrite_segment [OF sample_run_ok]) simp

text \<open>\<^verbatim>\<open>loadKeyIndex\<close> rebuilds from the key file the index that \<^verbatim>\<open>writeSegmentFiles\<close> returned, and the key
  file is a whole number of blocks, as many as the segment computes.\<close>

theorem index_reloaded:
  assumes "run_ok kvs" and "kvs \<noteq> []"
  shows "loadKeyIndex (key_bytes (written kvs)) (keyBlocks_of (key_bytes (written kvs))) = Inr (index_keys (written kvs)) \<and>
         length (key_bytes (written kvs)) = keyBlocks_of (key_bytes (written kvs)) * keyBlockSize"
proof -
  obtain bs where bs: "layout_ok bs kvs" "key_bytes (written kvs) = concat (map encode_block bs)"
    "index_keys (written kvs) = index_of bs"
    using written_layout [OF run_ok_keys_fit [OF assms(1)]] by blast
  have "bs \<noteq> []" using arg_cong [OF layout_keys [OF bs(1)], of length] assms(2) by auto
  then show ?thesis
    using keyBlocks_of_file [OF bs(1) assms(1)] loadKeyIndex_blocks [OF bs(1) assms(1)] length_key_file [OF bs(1)]
    by (simp add: bs(2,3))
qed

theorem index_reloaded_witness:
  "loadKeyIndex (key_bytes (written sample_run)) (keyBlocks_of (key_bytes (written sample_run))) =
     Inr (index_keys (written sample_run)) \<and>
   length (key_bytes (written sample_run)) = keyBlocks_of (key_bytes (written sample_run)) * keyBlockSize"
  by (rule index_reloaded [OF sample_run_ok])

end
