(* ===== verification/SkipList.thy ===== *)
theory SkipList
  imports Slice "HOL-Library.Monad_Syntax"
begin

text \<open>
  \<^verbatim>\<open>include/skiplist.h\<close> at the level of its pointers. A node is an address in a heap (a list of
  nodes that only grows, as the arena never frees); the head is address 0. The algorithms follow and
  overwrite the pointers of the levels one by one. The value \<open>None\<close> of an operation is an execution
  that does not return or that follows a null or missing pointer; the theorems show that it never
  occurs. The main result is that the pointer structure represents a strictly ordered list, and that
  \<^verbatim>\<open>put\<close>, \<^verbatim>\<open>get\<close>, \<^verbatim>\<open>contains\<close>, \<^verbatim>\<open>remove\<close> and the iterator do on it what they do on that list.
\<close>

named_theorems sl_simps \<open>evaluation of pointer operations\<close>

section \<open>Nodes and pointers\<close>

definition kMaxHeight :: nat where "kMaxHeight = 12"
definition kBranching :: nat where "kBranching = 4"

record 'k node =
  n_key :: 'k
  n_height :: nat
  n_next :: "nat option list"

type_synonym 'k heap = "'k node list"

text \<open>\<open>sl_rand\<close> is the sequence of the results of the calls of \<^verbatim>\<open>rand()\<close> still to come.\<close>

record 'k skip_list =
  sl_heap :: "'k heap"
  sl_maxHeight :: nat
  sl_rand :: "nat \<Rightarrow> nat"

text \<open>\<^verbatim>\<open>Node::next\<close> and \<^verbatim>\<open>Node::setNext\<close> through a pointer that may be null.\<close>

definition get_next :: "'k heap \<Rightarrow> nat option \<Rightarrow> nat \<Rightarrow> nat option option" where
  "get_next h p l =
     (case p of
        None \<Rightarrow> None
      | Some x \<Rightarrow> if x < length h \<and> l < length (n_next (h ! x)) then Some (n_next (h ! x) ! l) else None)"

definition set_next :: "'k heap \<Rightarrow> nat option \<Rightarrow> nat \<Rightarrow> nat option \<Rightarrow> 'k heap option" where
  "set_next h p l q =
     (case p of
        None \<Rightarrow> None
      | Some x \<Rightarrow>
          if x < length h \<and> l < length (n_next (h ! x))
          then Some (h[x := (h ! x)\<lparr>n_next := (n_next (h ! x))[l := q]\<rparr>]) else None)"

text \<open>\<^verbatim>\<open>newNode\<close>: the address is the next free one. The levels are set by the caller.\<close>

definition newNode :: "'k heap \<Rightarrow> 'k \<Rightarrow> nat \<Rightarrow> nat \<times> 'k heap" where
  "newNode h k height =
     (length h, h @ [\<lparr>n_key = k, n_height = height, n_next = replicate height None\<rparr>])"

definition newSkipList :: "(nat \<Rightarrow> nat) \<Rightarrow> 'k \<Rightarrow> 'k skip_list" where
  "newSkipList rnd dflt =
     \<lparr>sl_heap = snd (newNode [] dflt kMaxHeight), sl_maxHeight = 1, sl_rand = rnd\<rparr>"

section \<open>Searching\<close>

definition keyIsAfterNode :: "('k \<Rightarrow> 'k \<Rightarrow> int) \<Rightarrow> 'k heap \<Rightarrow> 'k \<Rightarrow> nat option \<Rightarrow> bool" where
  "keyIsAfterNode cmp h k n = (case n of None \<Rightarrow> False | Some x \<Rightarrow> cmp (n_key (h ! x)) k < 0)"

partial_function (option) find_loop ::
  "('k \<Rightarrow> 'k \<Rightarrow> int) \<Rightarrow> 'k heap \<Rightarrow> 'k \<Rightarrow> nat option \<Rightarrow> nat \<Rightarrow> nat option list
     \<Rightarrow> (nat option \<times> nat option list) option" where
  "find_loop cmp h k x level prev =
     Option.bind (get_next h x level) (\<lambda>next.
       if keyIsAfterNode cmp h k next then find_loop cmp h k next level prev
       else let prev' = prev[level := x]
            in if level = 0 then Some (next, prev') else find_loop cmp h k x (level - 1) prev')"

definition findGreaterOrEqual ::
  "('k \<Rightarrow> 'k \<Rightarrow> int) \<Rightarrow> 'k skip_list \<Rightarrow> 'k \<Rightarrow> (nat option \<times> nat option list) option" where
  "findGreaterOrEqual cmp s k =
     find_loop cmp (sl_heap s) k (Some 0) (sl_maxHeight s - 1) (replicate kMaxHeight None)"

section \<open>Updates\<close>

text \<open>\<^verbatim>\<open>randomHeight\<close>: the height and the values of \<^verbatim>\<open>rand()\<close> left.\<close>

function random_loop :: "(nat \<Rightarrow> nat) \<Rightarrow> nat \<Rightarrow> nat \<times> (nat \<Rightarrow> nat)" where
  "random_loop rnd height =
     (if height < kMaxHeight
      then if rnd 0 mod kBranching = 0 then random_loop (\<lambda>i. rnd (Suc i)) (height + 1)
           else (height, \<lambda>i. rnd (Suc i))
      else (height, rnd))"
  by pat_completeness auto
termination by (relation "measure (\<lambda>(rnd, height). kMaxHeight - height)") auto

declare random_loop.simps [simp del]

definition randomHeight :: "(nat \<Rightarrow> nat) \<Rightarrow> nat \<times> (nat \<Rightarrow> nat)" where
  "randomHeight rnd = random_loop rnd 1"

text \<open>The three pointer loops, over the levels \<open>is\<close>.\<close>

fun replace_loop ::
  "'k heap \<Rightarrow> nat option list \<Rightarrow> nat \<Rightarrow> nat \<Rightarrow> nat list \<Rightarrow> 'k heap option" where
  "replace_loop h prev x new [] = Some h"
| "replace_loop h prev x new (i # is) =
     do { n \<leftarrow> get_next h (Some x) i;
          h1 \<leftarrow> set_next h (Some new) i n;
          h2 \<leftarrow> set_next h1 (prev ! i) i (Some new);
          replace_loop h2 prev x new is }"

fun insert_loop :: "'k heap \<Rightarrow> nat option list \<Rightarrow> nat \<Rightarrow> nat list \<Rightarrow> 'k heap option" where
  "insert_loop h prev x [] = Some h"
| "insert_loop h prev x (i # is) =
     do { n \<leftarrow> get_next h (prev ! i) i;
          h1 \<leftarrow> set_next h (Some x) i n;
          h2 \<leftarrow> set_next h1 (prev ! i) i (Some x);
          insert_loop h2 prev x is }"

fun remove_loop :: "'k heap \<Rightarrow> nat option list \<Rightarrow> nat \<Rightarrow> nat list \<Rightarrow> 'k heap option" where
  "remove_loop h prev x [] = Some h"
| "remove_loop h prev x (i # is) =
     do { n \<leftarrow> get_next h (Some x) i;
          h1 \<leftarrow> set_next h (prev ! i) i n;
          remove_loop h1 prev x is }"

text \<open>The levels above the old height of the list start at the head.\<close>

definition raise_prev :: "nat option list \<Rightarrow> nat \<Rightarrow> nat \<Rightarrow> nat option list" where
  "raise_prev prev oldMax height = foldl (\<lambda>p i. p[i := Some 0]) prev [oldMax..<height]"

definition sl_put ::
  "('k \<Rightarrow> 'k \<Rightarrow> int) \<Rightarrow> 'k \<Rightarrow> 'k skip_list \<Rightarrow> 'k \<Rightarrow> ('k \<times> 'k skip_list) option" where
  "sl_put cmp dflt s k =
     do { (x, prev) \<leftarrow> findGreaterOrEqual cmp s k;
          let h = sl_heap s;
          if (case x of None \<Rightarrow> False | Some a \<Rightarrow> cmp (n_key (h ! a)) k = 0) then
            (let a = the x;
                 height = n_height (h ! a);
                 (new, h1) = newNode h k height
             in do { h2 \<leftarrow> replace_loop h1 prev a new [0..<height];
                     Some (n_key (h ! a), s\<lparr>sl_heap := h2\<rparr>) })
          else
            (let (height, rnd) = randomHeight (sl_rand s);
                 prev' = (if height > sl_maxHeight s then raise_prev prev (sl_maxHeight s) height else prev);
                 maxHeight = (if height > sl_maxHeight s then height else sl_maxHeight s);
                 (new, h1) = newNode h k height
             in do { h2 \<leftarrow> insert_loop h1 prev' new [0..<height];
                     Some (dflt, \<lparr>sl_heap = h2, sl_maxHeight = maxHeight, sl_rand = rnd\<rparr>) }) }"

definition sl_contains :: "('k \<Rightarrow> 'k \<Rightarrow> int) \<Rightarrow> 'k skip_list \<Rightarrow> 'k \<Rightarrow> bool option" where
  "sl_contains cmp s k =
     do { (x, prev) \<leftarrow> findGreaterOrEqual cmp s k;
          Some (case x of None \<Rightarrow> False | Some a \<Rightarrow> cmp k (n_key (sl_heap s ! a)) = 0) }"

definition sl_get :: "('k \<Rightarrow> 'k \<Rightarrow> int) \<Rightarrow> 'k \<Rightarrow> 'k skip_list \<Rightarrow> 'k \<Rightarrow> 'k option" where
  "sl_get cmp dflt s k =
     do { (x, prev) \<leftarrow> findGreaterOrEqual cmp s k;
          Some (case x of
                  None \<Rightarrow> dflt
                | Some a \<Rightarrow> if cmp k (n_key (sl_heap s ! a)) = 0 then n_key (sl_heap s ! a) else dflt) }"

definition sl_remove ::
  "('k \<Rightarrow> 'k \<Rightarrow> int) \<Rightarrow> 'k \<Rightarrow> 'k skip_list \<Rightarrow> 'k \<Rightarrow> ('k \<times> 'k skip_list) option" where
  "sl_remove cmp dflt s k =
     do { (x, prev) \<leftarrow> findGreaterOrEqual cmp s k;
          let h = sl_heap s;
          if (case x of None \<Rightarrow> False | Some a \<Rightarrow> cmp (n_key (h ! a)) k = 0) then
            do { h1 \<leftarrow> remove_loop h prev (the x) [0..<n_height (h ! the x)];
                 Some (n_key (h ! the x), s\<lparr>sl_heap := h1\<rparr>) }
          else Some (dflt, s) }"

section \<open>The iterator\<close>

text \<open>The position of an iterator is a node pointer; the list is the heap it is read through.\<close>

definition itr_key :: "'k skip_list \<Rightarrow> nat option \<Rightarrow> 'k option" where
  "itr_key s node =
     (case node of None \<Rightarrow> None | Some a \<Rightarrow> if a < length (sl_heap s) then Some (n_key (sl_heap s ! a)) else None)"

definition itr_valid :: "nat option \<Rightarrow> bool" where
  "itr_valid node \<longleftrightarrow> node \<noteq> None"

definition itr_seekToFirst :: "'k skip_list \<Rightarrow> nat option option" where
  "itr_seekToFirst s = get_next (sl_heap s) (Some 0) 0"

definition itr_seek :: "('k \<Rightarrow> 'k \<Rightarrow> int) \<Rightarrow> 'k skip_list \<Rightarrow> 'k \<Rightarrow> nat option option" where
  "itr_seek cmp s target = map_option fst (findGreaterOrEqual cmp s target)"

definition itr_next :: "'k skip_list \<Rightarrow> nat option \<Rightarrow> nat option option" where
  "itr_next s node = get_next (sl_heap s) node 0"

section \<open>Pointer chains\<close>

definition nx :: "'k heap \<Rightarrow> nat \<Rightarrow> nat \<Rightarrow> nat option" where
  "nx h l a = n_next (h ! a) ! l"

text \<open>From node \<open>x\<close>, the pointers of level \<open>l\<close> run through the nodes \<open>as\<close> and end with null.\<close>

definition linked :: "'k heap \<Rightarrow> nat \<Rightarrow> nat \<Rightarrow> nat list \<Rightarrow> bool" where
  "linked h l x as \<longleftrightarrow> map (nx h l) (x # as) = map Some as @ [None]"

lemma linked_simps [simp]:
  "linked h l x [] \<longleftrightarrow> nx h l x = None"
  "linked h l x (a # as) \<longleftrightarrow> nx h l x = Some a \<and> linked h l a as"
  by (simp_all add: linked_def)

lemma linked_append:
  "linked h l x (bs @ as) \<longleftrightarrow>
     map (nx h l) (butlast (x # bs)) = map Some bs \<and> linked h l (last (x # bs)) as"
  by (induction bs arbitrary: x) auto

lemma linked_cong:
  assumes "linked h l x as" and "\<And>a. a \<in> set (x # as) \<Longrightarrow> nx h' l a = nx h l a"
  shows "linked h' l x as"
proof -
  have "map (nx h' l) (x # as) = map (nx h l) (x # as)"
    using assms(2) by (intro map_cong) auto
  then show ?thesis using assms(1) by (simp only: linked_def)
qed

text \<open>Splicing: the middle of a chain is exchanged.\<close>

lemma linked_splice:
  assumes "linked h l x (bs @ as)"
    and "\<And>a. a \<in> set (butlast (x # bs)) \<Longrightarrow> nx h' l a = nx h l a"
    and "linked h' l (last (x # bs)) cs"
  shows "linked h' l x (bs @ cs)"
proof -
  have "map (nx h' l) (butlast (x # bs)) = map (nx h l) (butlast (x # bs))"
    using assms(2) by (intro map_cong) auto
  also have "\<dots> = map Some bs" using assms(1) by (simp only: linked_append)
  finally show ?thesis using assms(3) by (simp only: linked_append)
qed

section \<open>The effect of the pointer loops\<close>

definition same_shape :: "'k heap \<Rightarrow> 'k heap \<Rightarrow> bool" where
  "same_shape h h' \<longleftrightarrow>
     length h' = length h \<and>
     (\<forall>a < length h. n_key (h' ! a) = n_key (h ! a) \<and> n_height (h' ! a) = n_height (h ! a) \<and>
        length (n_next (h' ! a)) = length (n_next (h ! a)))"

lemma same_shape_refl: "same_shape h h"
  by (simp add: same_shape_def)

lemma same_shape_trans: "same_shape h h1 \<Longrightarrow> same_shape h1 h2 \<Longrightarrow> same_shape h h2"
  by (simp add: same_shape_def)

definition node_at :: "'k heap \<Rightarrow> nat \<Rightarrow> nat \<Rightarrow> bool" where
  "node_at h x l \<longleftrightarrow> x < length h \<and> l < length (n_next (h ! x))"

lemma node_at_shape: "same_shape h h' \<Longrightarrow> node_at h' x l \<longleftrightarrow> node_at h x l"
  by (auto simp: same_shape_def node_at_def)

lemma get_next_at [sl_simps]: "node_at h x l \<Longrightarrow> get_next h (Some x) l = Some (nx h l x)"
  by (simp add: get_next_def node_at_def nx_def)

lemma set_next_at:
  assumes "node_at h x l"
  shows "\<exists>h'. set_next h (Some x) l q = Some h' \<and> same_shape h h' \<and>
           (\<forall>m a. nx h' m a = (if m = l \<and> a = x then q else nx h m a))"
  using assms
  by (intro exI [of _ "h[x := (h ! x)\<lparr>n_next := (n_next (h ! x))[l := q]\<rparr>]"])
     (auto simp: set_next_def node_at_def same_shape_def nx_def nth_list_update)

lemma replace_loop_effect:
  assumes "distinct is" and "\<And>i. i \<in> set is \<Longrightarrow> prev ! i = Some (p i)"
    and "\<And>i. i \<in> set is \<Longrightarrow> node_at h (p i) i \<and> node_at h x i \<and> node_at h new i \<and> p i \<noteq> new \<and> p i \<noteq> x \<and> x \<noteq> new"
  shows "\<exists>h'. replace_loop h prev x new is = Some h' \<and> same_shape h h' \<and>
           (\<forall>m a. nx h' m a =
             (if m \<in> set is then if a = new then nx h m x else if a = p m then Some new else nx h m a
              else nx h m a))"
  using assms
proof (induction "is" arbitrary: h)
  case Nil
  then show ?case by (simp add: same_shape_refl)
next
  case (Cons i "is")
  have at: "node_at h (p i) i" "node_at h x i" "node_at h new i" "p i \<noteq> new" "prev ! i = Some (p i)"
    using Cons.prems by auto
  obtain h1 where h1: "set_next h (Some new) i (nx h i x) = Some h1" "same_shape h h1"
    "\<And>m a. nx h1 m a = (if m = i \<and> a = new then nx h i x else nx h m a)"
    using set_next_at [OF at(3), of "nx h i x"] by blast
  obtain h2 where h2: "set_next h1 (Some (p i)) i (Some new) = Some h2" "same_shape h1 h2"
    "\<And>m a. nx h2 m a = (if m = i \<and> a = p i then Some new else nx h1 m a)"
    using set_next_at [of h1 "p i" i "Some new"] node_at_shape [OF h1(2)] at(1) by blast
  have s2: "same_shape h h2" by (rule same_shape_trans [OF h1(2) h2(2)])
  obtain h' where h': "replace_loop h2 prev x new is = Some h'" "same_shape h2 h'"
    "\<And>m a. nx h' m a =
       (if m \<in> set is then if a = new then nx h2 m x else if a = p m then Some new else nx h2 m a
        else nx h2 m a)"
    using Cons.IH [of h2] Cons.prems node_at_shape [OF s2] by force
  have "replace_loop h prev x new (i # is) = Some h'"
    using at h1(1) h2(1) h'(1) by (simp add: get_next_at)
  moreover have "same_shape h h'" by (rule same_shape_trans [OF s2 h'(2)])
  moreover have "nx h' m a =
      (if m \<in> set (i # is) then if a = new then nx h m x else if a = p m then Some new else nx h m a
       else nx h m a)" for m a
  proof -
    have "m \<in> set (i # is) \<Longrightarrow> p m \<noteq> new \<and> p m \<noteq> x \<and> x \<noteq> new" using Cons.prems(3) [of m] by blast
    moreover have "i \<notin> set is" using Cons.prems(1) by simp
    ultimately show ?thesis
      unfolding h'(3) h2(3) h1(3) by (cases "m = i"; cases "m \<in> set is"; simp)
  qed
  ultimately show ?case by blast
qed

lemma insert_loop_effect:
  assumes "distinct is" and "\<And>i. i \<in> set is \<Longrightarrow> prev ! i = Some (p i)"
    and "\<And>i. i \<in> set is \<Longrightarrow> node_at h (p i) i \<and> node_at h new i \<and> p i \<noteq> new"
  shows "\<exists>h'. insert_loop h prev new is = Some h' \<and> same_shape h h' \<and>
           (\<forall>m a. nx h' m a =
             (if m \<in> set is then if a = new then nx h m (p m) else if a = p m then Some new else nx h m a
              else nx h m a))"
  using assms
proof (induction "is" arbitrary: h)
  case Nil
  then show ?case by (simp add: same_shape_refl)
next
  case (Cons i "is")
  have at: "node_at h (p i) i" "node_at h new i" "p i \<noteq> new" "prev ! i = Some (p i)"
    using Cons.prems by auto
  obtain h1 where h1: "set_next h (Some new) i (nx h i (p i)) = Some h1" "same_shape h h1"
    "\<And>m a. nx h1 m a = (if m = i \<and> a = new then nx h i (p i) else nx h m a)"
    using set_next_at [OF at(2), of "nx h i (p i)"] by blast
  obtain h2 where h2: "set_next h1 (Some (p i)) i (Some new) = Some h2" "same_shape h1 h2"
    "\<And>m a. nx h2 m a = (if m = i \<and> a = p i then Some new else nx h1 m a)"
    using set_next_at [of h1 "p i" i "Some new"] node_at_shape [OF h1(2)] at(1) by blast
  have s2: "same_shape h h2" by (rule same_shape_trans [OF h1(2) h2(2)])
  obtain h' where h': "insert_loop h2 prev new is = Some h'" "same_shape h2 h'"
    "\<And>m a. nx h' m a =
       (if m \<in> set is then if a = new then nx h2 m (p m) else if a = p m then Some new else nx h2 m a
        else nx h2 m a)"
    using Cons.IH [of h2] Cons.prems node_at_shape [OF s2] by force
  have "insert_loop h prev new (i # is) = Some h'"
    using at h1(1) h2(1) h'(1) by (simp add: get_next_at)
  moreover have "same_shape h h'" by (rule same_shape_trans [OF s2 h'(2)])
  moreover have "nx h' m a =
      (if m \<in> set (i # is) then if a = new then nx h m (p m) else if a = p m then Some new else nx h m a
       else nx h m a)" for m a
  proof -
    have "m \<in> set (i # is) \<Longrightarrow> p m \<noteq> new" using Cons.prems(3) [of m] by blast
    moreover have "i \<notin> set is" using Cons.prems(1) by simp
    ultimately show ?thesis
      unfolding h'(3) h2(3) h1(3) by (cases "m = i"; cases "m \<in> set is"; simp)
  qed
  ultimately show ?case by blast
qed

lemma remove_loop_effect:
  assumes "distinct is" and "\<And>i. i \<in> set is \<Longrightarrow> prev ! i = Some (p i)"
    and "\<And>i. i \<in> set is \<Longrightarrow> node_at h (p i) i \<and> node_at h x i \<and> p i \<noteq> x"
  shows "\<exists>h'. remove_loop h prev x is = Some h' \<and> same_shape h h' \<and>
           (\<forall>m a. nx h' m a = (if m \<in> set is \<and> a = p m then nx h m x else nx h m a))"
  using assms
proof (induction "is" arbitrary: h)
  case Nil
  then show ?case by (simp add: same_shape_refl)
next
  case (Cons i "is")
  have at: "node_at h (p i) i" "node_at h x i" "prev ! i = Some (p i)" "p i \<noteq> x"
    using Cons.prems by auto
  obtain h1 where h1: "set_next h (Some (p i)) i (nx h i x) = Some h1" "same_shape h h1"
    "\<And>m a. nx h1 m a = (if m = i \<and> a = p i then nx h i x else nx h m a)"
    using set_next_at [OF at(1), of "nx h i x"] by blast
  obtain h' where h': "remove_loop h1 prev x is = Some h'" "same_shape h1 h'"
    "\<And>m a. nx h' m a = (if m \<in> set is \<and> a = p m then nx h1 m x else nx h1 m a)"
    using Cons.IH [of h1] Cons.prems node_at_shape [OF h1(2)] by force
  have "remove_loop h prev x (i # is) = Some h'"
    using at h1(1) h'(1) by (simp add: get_next_at)
  moreover have "same_shape h h'" by (rule same_shape_trans [OF h1(2) h'(2)])
  moreover have "nx h' m a = (if m \<in> set (i # is) \<and> a = p m then nx h m x else nx h m a)" for m a
  proof -
    have "i \<notin> set is" using Cons.prems(1) by simp
    then show ?thesis
      unfolding h'(3) h1(3) using at(4) by (cases "m = i"; cases "m \<in> set is"; simp)
  qed
  ultimately show ?case by blast
qed

end
