(* ===== verification/SkipListCorrect.thy ===== *)
theory SkipListCorrect
  imports SkipList
begin

text \<open>
  The skip list represents an ordered list: the invariant of its pointers, the search, and the
  refinement of \<^verbatim>\<open>put\<close>, \<^verbatim>\<open>get\<close>, \<^verbatim>\<open>contains\<close> and \<^verbatim>\<open>remove\<close> to operations on that list. Everything is
  proved for an arbitrary comparison that meets the contract \<open>comparator\<close>.
\<close>

section \<open>The ordered list\<close>

fun olist_put :: "('k \<Rightarrow> 'k \<Rightarrow> int) \<Rightarrow> 'k \<Rightarrow> 'k list \<Rightarrow> 'k list" where
  "olist_put cmp k [] = [k]"
| "olist_put cmp k (x # xs) =
     (if cmp x k < 0 then x # olist_put cmp k xs
      else if cmp x k = 0 then k # xs else k # x # xs)"

fun olist_del :: "('k \<Rightarrow> 'k \<Rightarrow> int) \<Rightarrow> 'k \<Rightarrow> 'k list \<Rightarrow> 'k list" where
  "olist_del cmp k [] = []"
| "olist_del cmp k (x # xs) =
     (if cmp x k < 0 then x # olist_del cmp k xs else if cmp x k = 0 then xs else x # xs)"

fun olist_find :: "('k \<Rightarrow> 'k \<Rightarrow> int) \<Rightarrow> 'k \<Rightarrow> 'k list \<Rightarrow> 'k option" where
  "olist_find cmp k [] = None"
| "olist_find cmp k (x # xs) =
     (if cmp x k < 0 then olist_find cmp k xs else if cmp x k = 0 then Some x else None)"

lemma olist_split:
  assumes "\<forall>b \<in> set bs. cmp b k < 0"
  shows "olist_put cmp k (bs @ as) = bs @ olist_put cmp k as"
    and "olist_del cmp k (bs @ as) = bs @ olist_del cmp k as"
    and "olist_find cmp k (bs @ as) = olist_find cmp k as"
  using assms by (induction bs) auto

section \<open>The invariant\<close>

definition level :: "'k heap \<Rightarrow> nat \<Rightarrow> nat list \<Rightarrow> nat list" where
  "level h l xs = filter (\<lambda>a. l < n_height (h ! a)) xs"

definition heap_ok :: "'k heap \<Rightarrow> bool" where
  "heap_ok h \<longleftrightarrow>
     0 < length h \<and> n_height (h ! 0) = kMaxHeight \<and>
     (\<forall>a < length h. length (n_next (h ! a)) = n_height (h ! a) \<and>
        1 \<le> n_height (h ! a) \<and> n_height (h ! a) \<le> kMaxHeight)"

definition sl_inv :: "'k skip_list \<Rightarrow> nat list \<Rightarrow> bool" where
  "sl_inv s xs \<longleftrightarrow>
     heap_ok (sl_heap s) \<and> distinct xs \<and> 1 \<le> sl_maxHeight s \<and> sl_maxHeight s \<le> kMaxHeight \<and>
     (\<forall>a \<in> set xs. 0 < a \<and> a < length (sl_heap s) \<and> n_height (sl_heap s ! a) \<le> sl_maxHeight s) \<and>
     (\<forall>l < kMaxHeight. linked (sl_heap s) l 0 (level (sl_heap s) l xs))"

definition keys_at :: "'k skip_list \<Rightarrow> nat list \<Rightarrow> 'k list" where
  "keys_at s xs = map (\<lambda>a. n_key (sl_heap s ! a)) xs"

text \<open>The skip list holds the keys \<open>ks\<close>, in order.\<close>

definition sl_repr :: "('k \<Rightarrow> 'k \<Rightarrow> int) \<Rightarrow> 'k skip_list \<Rightarrow> 'k list \<Rightarrow> bool" where
  "sl_repr cmp s ks \<longleftrightarrow>
     (\<exists>xs. sl_inv s xs \<and> ks = keys_at s xs) \<and> sorted_wrt (\<lambda>a b. cmp a b < 0) ks"

lemma level_simps [simp]:
  "level h l [] = []" "level h l (xs @ ys) = level h l xs @ level h l ys"
  "level h l (x # xs) = (if l < n_height (h ! x) then x # level h l xs else level h l xs)"
  by (simp_all add: level_def)

lemma set_level: "set (level h l xs) \<subseteq> set xs"
  by (auto simp: level_def)

lemma level_0: "heap_ok h \<Longrightarrow> \<forall>a \<in> set xs. a < length h \<Longrightarrow> level h 0 xs = xs"
  by (auto simp: level_def heap_ok_def filter_id_conv Suc_le_eq)

lemma sl_invD:
  assumes "sl_inv s xs"
  shows "heap_ok (sl_heap s)" "distinct xs" "1 \<le> sl_maxHeight s" "sl_maxHeight s \<le> kMaxHeight"
    "a \<in> set xs \<Longrightarrow> 0 < a \<and> a < length (sl_heap s) \<and> n_height (sl_heap s ! a) \<le> sl_maxHeight s"
    "l < kMaxHeight \<Longrightarrow> linked (sl_heap s) l 0 (level (sl_heap s) l xs)"
  using assms by (auto simp: sl_inv_def)

lemma node_at_head: "heap_ok h \<Longrightarrow> l < kMaxHeight \<Longrightarrow> node_at h 0 l"
  by (auto simp: heap_ok_def node_at_def)

lemma node_at_level: "heap_ok h \<Longrightarrow> a < length h \<Longrightarrow> l < n_height (h ! a) \<Longrightarrow> node_at h a l"
  by (auto simp: heap_ok_def node_at_def)

lemma newSkipList_inv: "sl_inv (newSkipList rnd d) []"
  by (simp add: sl_inv_def newSkipList_def newNode_def heap_ok_def kMaxHeight_def nx_def)

lemma newSkipList_repr: "sl_repr cmp (newSkipList rnd d) []"
  using newSkipList_inv [of rnd d] by (auto simp: sl_repr_def keys_at_def)

section \<open>The search\<close>

definition first_node :: "nat list \<Rightarrow> nat option" where
  "first_node as = (case as of [] \<Rightarrow> None | a # _ \<Rightarrow> Some a)"

lemma first_node_simps [simp]: "first_node [] = None" "first_node (a # as) = Some a"
  by (simp_all add: first_node_def)

lemma linked_first: "linked h l x as \<Longrightarrow> nx h l x = first_node as"
  by (cases as) simp_all

lemma find_level:
  assumes "linked h l x (bs @ as)" and "\<And>a. a \<in> set (x # bs) \<Longrightarrow> node_at h a l"
    and "\<And>b. b \<in> set bs \<Longrightarrow> cmp (n_key (h ! b)) k < 0" and "\<not> keyIsAfterNode cmp h k (first_node as)"
  shows "find_loop cmp h k (Some x) l prev =
     (if l = 0 then Some (first_node as, prev[l := Some (last (x # bs))])
      else find_loop cmp h k (Some (last (x # bs))) (l - 1) (prev[l := Some (last (x # bs))]))"
  using assms
proof (induction bs arbitrary: x)
  case Nil
  then have "get_next h (Some x) l = Some (first_node as)"
    using linked_first [of h l x as] by (simp add: get_next_at)
  then show ?case
    using Nil.prems(4) by (subst find_loop.simps) (simp add: Let_def)
next
  case (Cons b bs)
  then have "get_next h (Some x) l = Some (Some b)" by (simp add: get_next_at)
  moreover have "keyIsAfterNode cmp h k (Some b)"
    using Cons.prems(3) [of b] by (simp add: keyIsAfterNode_def)
  ultimately have "find_loop cmp h k (Some x) l prev = find_loop cmp h k (Some b) l prev"
    by (subst find_loop.simps) simp
  then show ?case using Cons.IH [of b] Cons.prems by simp
qed

text \<open>The search down the levels: \<open>prev\<close> receives the last node before the key on each level.\<close>

lemma find_step:
  assumes inv: "sl_inv s (bs @ as)" and h: "h = sl_heap s"
    and less: "\<forall>b \<in> set bs. cmp (n_key (h ! b)) k < 0"
    and ge: "\<forall>a \<in> set as. \<not> cmp (n_key (h ! a)) k < 0"
    and l: "l < kMaxHeight" and x: "x = 0 \<or> x \<in> set (level h l bs)"
  shows "find_loop cmp h k (Some x) l prev =
     (if l = 0 then Some (first_node (level h l as), prev[l := Some (last (0 # level h l bs))])
      else find_loop cmp h k (Some (last (0 # level h l bs))) (l - 1) (prev[l := Some (last (0 # level h l bs))]))"
proof -
  note I = sl_invD [OF inv, folded h]
  have lk: "linked h l 0 (level h l bs @ level h l as)" using I(6) [OF l] by simp
  have at: "node_at h a l" if "a \<in> set (0 # level h l bs)" for a
    using that node_at_head [OF I(1) l] node_at_level [OF I(1), of a l] I(5) [of a]
    by (auto simp: level_def)
  have ge': "\<not> keyIsAfterNode cmp h k (first_node (level h l as))"
  proof (cases "level h l as")
    case (Cons a as')
    then have "a \<in> set as" using set_level [of h l as] by auto
    then show ?thesis using ge Cons by (simp add: keyIsAfterNode_def)
  qed (simp add: keyIsAfterNode_def)
  have less': "cmp (n_key (h ! b)) k < 0" if "b \<in> set (level h l bs)" for b
    using that less set_level by blast
  obtain q where q: "linked h l x (q @ level h l as)" "set (x # q) \<subseteq> set (0 # level h l bs)"
    "last (x # q) = last (0 # level h l bs)" "set q \<subseteq> set (level h l bs)"
  proof (cases "x = 0")
    case True
    then show ?thesis using lk by (intro that [of "level h l bs"]) auto
  next
    case False
    then obtain p q where pq: "level h l bs = p @ x # q" using x by (metis split_list)
    have "linked h l 0 ((p @ [x]) @ q @ level h l as)" using lk pq by simp
    then have "linked h l (last (0 # p @ [x])) (q @ level h l as)"
      unfolding linked_append [of h l 0 "p @ [x]"] by (rule conjunct2)
    then show ?thesis using pq by (intro that [of q]) auto
  qed
  have "node_at h a l" if "a \<in> set (x # q)" for a using at q(2) that by blast
  moreover have "cmp (n_key (h ! b)) k < 0" if "b \<in> set q" for b using less' q(4) that by blast
  ultimately show ?thesis
    using find_level [of h l x q "level h l as" cmp k prev] q(1) ge' unfolding q(3) by blast
qed

lemma find_levels:
  assumes inv: "sl_inv s (bs @ as)" and h: "h = sl_heap s"
    and less: "\<forall>b \<in> set bs. cmp (n_key (h ! b)) k < 0"
    and ge: "\<forall>a \<in> set as. \<not> cmp (n_key (h ! a)) k < 0"
  shows "l < kMaxHeight \<Longrightarrow> length prev = kMaxHeight \<Longrightarrow> x = 0 \<or> x \<in> set (level h l bs) \<Longrightarrow>
    \<exists>prev'. find_loop cmp h k (Some x) l prev = Some (first_node as, prev') \<and> length prev' = kMaxHeight \<and>
      (\<forall>m \<le> l. prev' ! m = Some (last (0 # level h m bs))) \<and> (\<forall>m > l. prev' ! m = prev ! m)"
proof (induction l arbitrary: x prev)
  case 0
  note I = sl_invD [OF inv, folded h]
  have "level h 0 as = as" using I(1,5) by (intro level_0) auto
  then show ?case using find_step [of s bs as h cmp k, OF inv h less ge 0(1,3), of prev] 0(1,2) by auto
next
  case (Suc l)
  note I = sl_invD [OF inv, folded h]
  let ?y = "last (0 # level h (Suc l) bs)"
  have "?y = 0 \<or> ?y \<in> set (level h (Suc l) bs)" by (simp add: last_in_set)
  then have "?y = 0 \<or> ?y \<in> set (level h l bs)" by (auto simp: level_def)
  then obtain prev' where p: "find_loop cmp h k (Some ?y) l (prev[Suc l := Some ?y]) = Some (first_node as, prev')"
    "length prev' = kMaxHeight" "\<forall>m \<le> l. prev' ! m = Some (last (0 # level h m bs))"
    "\<forall>m > l. prev' ! m = prev[Suc l := Some ?y] ! m"
    using Suc.IH [of "prev[Suc l := Some ?y]" ?y] Suc.prems by auto
  have "find_loop cmp h k (Some x) (Suc l) prev = Some (first_node as, prev')"
    using find_step [of s bs as h cmp k, OF inv h less ge Suc.prems(1,3), of prev] p(1) by simp
  moreover have "prev' ! m = Some (last (0 # level h m bs))" if "m \<le> Suc l" for m
    using that p(3,4) Suc.prems(1,2) by (cases "m = Suc l") auto
  moreover have "prev' ! m = prev ! m" if "m > Suc l" for m using that p(4) by simp
  ultimately show ?case using p(2) by blast
qed

lemma findGreaterOrEqual_spec:
  assumes inv: "sl_inv s (bs @ as)"
    and less: "\<forall>b \<in> set bs. cmp (n_key (sl_heap s ! b)) k < 0"
    and ge: "\<forall>a \<in> set as. \<not> cmp (n_key (sl_heap s ! a)) k < 0"
  shows "\<exists>prev. findGreaterOrEqual cmp s k = Some (first_node as, prev) \<and> length prev = kMaxHeight \<and>
     (\<forall>m < sl_maxHeight s. prev ! m = Some (last (0 # level (sl_heap s) m bs)))"
proof -
  have "sl_maxHeight s - 1 < kMaxHeight" using sl_invD(3,4) [OF inv] by linarith
  then obtain prev where p: "findGreaterOrEqual cmp s k = Some (first_node as, prev)"
    "length prev = kMaxHeight" "\<forall>m \<le> sl_maxHeight s - 1. prev ! m = Some (last (0 # level (sl_heap s) m bs))"
    using find_levels [of s bs as "sl_heap s" cmp k "sl_maxHeight s - 1" "replicate kMaxHeight None" 0,
        OF inv refl less ge] by (auto simp: findGreaterOrEqual_def)
  then show ?thesis using sl_invD(3) [OF inv] by fastforce
qed

section \<open>Updates of the chains\<close>

lemma linked_start:
  assumes "linked h l y as" "nx h' l c = nx h l y" "\<And>a. a \<in> set as \<Longrightarrow> nx h' l a = nx h l a"
  shows "linked h' l c as"
proof (cases as)
  case Nil
  then show ?thesis using assms by simp
next
  case (Cons a as')
  then have "linked h' l a as'"
    using assms by (intro linked_cong [of h l a as' h']) auto
  then show ?thesis using assms(1,2) Cons by simp
qed

lemma linked_new:
  assumes "linked h l x (bs @ ds @ as)"
    and "\<And>a. a \<in> set (butlast (x # bs)) \<union> set as \<Longrightarrow> nx h' l a = nx h l a"
    and "nx h' l (last (x # bs)) = Some c" and "nx h' l c = nx h l (last (x # bs @ ds))"
  shows "linked h' l x (bs @ c # as)"
proof (rule linked_splice [OF assms(1)])
  have "linked h l (last (x # bs @ ds)) as"
    using assms(1) linked_append [of h l x "bs @ ds" as] by simp
  then have "linked h' l c as" using assms(2,4) by (intro linked_start [of h l _ as h' c]) auto
  then show "linked h' l (last (x # bs)) (c # as)" using assms(3) by simp
qed (use assms(2) in auto)

lemma linked_drop:
  assumes "linked h l x (bs @ ds @ as)"
    and "\<And>a. a \<in> set (butlast (x # bs)) \<union> set as \<Longrightarrow> nx h' l a = nx h l a"
    and "nx h' l (last (x # bs)) = nx h l (last (x # bs @ ds))"
  shows "linked h' l x (bs @ as)"
proof (rule linked_splice [OF assms(1)])
  have "linked h l (last (x # bs @ ds)) as"
    using assms(1) linked_append [of h l x "bs @ ds" as] by simp
  then show "linked h' l (last (x # bs)) as"
    using assms(2,3) by (intro linked_start [of h l _ as h']) auto
qed (use assms(2) in auto)

lemma level_shape:
  assumes "same_shape h h'" "\<forall>a \<in> set xs. a < length h"
  shows "level h' l xs = level h l xs"
  using assms by (auto simp: level_def same_shape_def intro!: filter_cong)

lemma heap_ok_shape: "same_shape h h' \<Longrightarrow> heap_ok h \<Longrightarrow> heap_ok h'"
  by (simp add: same_shape_def heap_ok_def)

text \<open>The last node before a place, on one level.\<close>

abbreviation pred_at :: "'k heap \<Rightarrow> nat \<Rightarrow> nat list \<Rightarrow> nat" where
  "pred_at h l bs \<equiv> last (0 # level h l bs)"

lemma pred_at_cases: "pred_at h l bs = 0 \<or> pred_at h l bs \<in> set (level h l bs)"
  by (simp add: last_in_set)

lemma pred_at_props:
  assumes inv: "sl_inv s (bs @ cs)" and l: "l < kMaxHeight"
  defines "h \<equiv> sl_heap s"
  shows "node_at h (pred_at h l bs) l" and "pred_at h l bs < length h"
    and "pred_at h l bs \<notin> set (butlast (0 # level h l bs))" and "pred_at h l bs \<notin> set cs"
    and "\<And>a. a \<in> set (0 # bs @ cs) \<Longrightarrow> a < length h"
proof -
  note I = sl_invD [OF inv, folded h_def]
  have d: "distinct (0 # bs @ cs)" using I(2,5) by auto
  show lt: "a < length h" if "a \<in> set (0 # bs @ cs)" for a
    using that I(1,5) by (auto simp: heap_ok_def)
  have mem: "pred_at h l bs \<in> set (0 # bs)"
    using pred_at_cases [of h l bs] set_level [of h l bs] by auto
  then show "pred_at h l bs < length h" using lt [of "pred_at h l bs"] by auto
  show "pred_at h l bs \<notin> set cs" using mem d by auto
  show "node_at h (pred_at h l bs) l"
    using pred_at_cases [of h l bs] node_at_head [OF I(1) l] node_at_level [OF I(1)] I(5)
    by (auto simp: level_def)
  have "distinct (0 # level h l bs)" using d by (auto simp: level_def)
  then have "distinct (butlast (0 # level h l bs) @ [pred_at h l bs])"
    by (simp only: append_butlast_last_id list.distinct not_False_eq_True)
  then show "pred_at h l bs \<notin> set (butlast (0 # level h l bs))" by simp
qed

lemma set_butlast_subset: "set (butlast xs) \<subseteq> set xs"
  by (auto dest: in_set_butlastD)

text \<open>
  A new node \<open>new\<close> of height \<open>hgt\<close> takes the place of \<open>ds\<close> (nothing, or the node it replaces).
\<close>

lemma sl_inv_new:
  fixes s :: "'k skip_list" and k :: 'k
  assumes inv: "sl_inv s (bs @ ds @ as)" and hgt: "1 \<le> hgt" "hgt \<le> kMaxHeight"
    and ds: "\<And>d. d \<in> set ds \<Longrightarrow> n_height (sl_heap s ! d) \<le> hgt"
    and max: "sl_maxHeight s \<le> maxH" "hgt \<le> maxH" "maxH \<le> kMaxHeight"
  defines "h \<equiv> sl_heap s"
  defines "h1 \<equiv> h @ [\<lparr>n_key = k, n_height = hgt, n_next = replicate hgt None\<rparr>]"
  assumes shape: "same_shape h1 h2"
    and nx: "\<And>m a. nx h2 m a =
      (if m < hgt then if a = length h then nx h1 m (pred_at h m (bs @ ds))
                       else if a = pred_at h m bs then Some (length h) else nx h1 m a
       else nx h1 m a)"
  shows "sl_inv \<lparr>sl_heap = h2, sl_maxHeight = maxH, sl_rand = r\<rparr> (bs @ length h # as)"
    and "n_key (h2 ! length h) = k" and "a < length h \<Longrightarrow> n_key (h2 ! a) = n_key (h ! a)"
proof -
  note I = sl_invD [OF inv, folded h_def]
  note P = pred_at_props [OF inv, folded h_def]
  have P2: "m < kMaxHeight \<Longrightarrow> pred_at h m (bs @ ds) < length h" for m
    using pred_at_props(2) [of s "bs @ ds" as m] inv by (simp add: h_def)
  have old: "h1 ! a = h ! a" if "a < length h" for a using that by (simp add: h1_def nth_append)
  have nx1: "nx h1 m a = nx h m a" if "a < length h" for m a using old that by (simp add: nx_def)
  have ok1: "heap_ok h1"
    using I(1) hgt by (auto simp: heap_ok_def h1_def nth_append less_Suc_eq)
  have key2: "n_key (h2 ! a) = n_key (h1 ! a)" "n_height (h2 ! a) = n_height (h1 ! a)" if "a < length h1" for a
    using shape that by (simp_all add: same_shape_def)
  show "n_key (h2 ! length h) = k" using key2(1) [of "length h"] by (simp add: h1_def)
  show "a < length h \<Longrightarrow> n_key (h2 ! a) = n_key (h ! a)"
    using key2(1) [of a] old [of a] by (simp add: h1_def)
  have len2: "length h2 = Suc (length h)" using shape by (simp add: same_shape_def h1_def)
  have hold: "n_height (h2 ! a) = n_height (h ! a)" if "a < length h" for a
    using key2(2) [of a] old that by (simp add: h1_def)
  have hnew: "n_height (h2 ! length h) = hgt" using key2(2) [of "length h"] by (simp add: h1_def)
  have lev: "level h2 l xs = level h l xs" if "\<forall>a \<in> set xs. a < length h" for l xs
    using that hold by (auto simp: level_def intro!: filter_cong)
  have lt: "\<forall>a \<in> set bs. a < length h" "\<forall>a \<in> set as. a < length h" using I(5) by auto
  have levs: "level h2 l (bs @ length h # as) =
      level h l bs @ (if l < hgt then [length h] else []) @ level h l as" for l
    using lev [OF lt(1)] lev [OF lt(2)] hnew by simp
  have "linked h2 l 0 (level h2 l (bs @ length h # as))" if l: "l < kMaxHeight" for l
  proof (cases "l < hgt")
    case True
    have "linked h2 l 0 (level h l bs @ length h # level h l as)"
    proof (rule linked_new [where h = h and ds = "level h l ds"])
      show "linked h l 0 (level h l bs @ level h l ds @ level h l as)" using I(6) [OF l] by simp
      show "nx h2 l (pred_at h l bs) = Some (length h)"
        using True P(2) [OF l] by (simp add: nx)
      show "nx h2 l (length h) = nx h l (last (0 # level h l bs @ level h l ds))"
        using True P2 [OF l] nx1 [of "pred_at h l (bs @ ds)" l] by (simp add: nx)
      fix a assume "a \<in> set (butlast (0 # level h l bs)) \<union> set (level h l as)"
      moreover have "set (butlast (0 # level h l bs)) \<subseteq> set (0 # bs)" "set (level h l as) \<subseteq> set (ds @ as)"
        using set_butlast_subset [of "0 # level h l bs"] set_level [of h l bs] set_level [of h l as] by auto
      ultimately have "a \<noteq> pred_at h l bs" "a \<in> set (0 # bs @ ds @ as)"
        using P(3,4) [OF l] by (blast, auto)
      then show "nx h2 l a = nx h l a"
        using P(5) [OF l, of a] nx1 [of a l] by (simp add: nx)
    qed
    then show ?thesis using True levs [of l] by simp
  next
    case False
    have "level h l ds = []" using ds False by (force simp: level_def h_def filter_empty_conv)
    then have "linked h l 0 (level h l bs @ level h l as)" using I(6) [OF l] by simp
    then have "linked h2 l 0 (level h l bs @ level h l as)"
    proof (rule linked_cong)
      fix a assume "a \<in> set (0 # level h l bs @ level h l as)"
      then have "a \<in> set (0 # bs @ ds @ as)" using set_level [of h l bs] set_level [of h l as] by auto
      then show "nx h2 l a = nx h l a"
        using P(5) [OF l, of a] nx1 [of a l] False by (simp add: nx)
    qed
    then show ?thesis using False levs [of l] by simp
  qed
  moreover have "heap_ok h2" by (rule heap_ok_shape [OF shape ok1])
  moreover have "distinct (bs @ length h # as)" using I(2) lt by auto
  moreover have "\<forall>a \<in> set (bs @ length h # as). 0 < a \<and> a < length h2 \<and> n_height (h2 ! a) \<le> maxH"
  proof
    fix a assume a: "a \<in> set (bs @ length h # as)"
    show "0 < a \<and> a < length h2 \<and> n_height (h2 ! a) \<le> maxH"
    proof (cases "a = length h")
      case True
      then show ?thesis using hnew max I(1) len2 by (simp add: heap_ok_def)
    next
      case False
      then have "0 < a \<and> a < length h \<and> n_height (h ! a) \<le> sl_maxHeight s" using a I(5) [of a] by auto
      then show ?thesis using hold [of a] max(1) len2 by auto
    qed
  qed
  moreover have "1 \<le> maxH" using hgt(1) max(2) by linarith
  ultimately show "sl_inv \<lparr>sl_heap = h2, sl_maxHeight = maxH, sl_rand = r\<rparr> (bs @ length h # as)"
    using max(3) unfolding sl_inv_def by simp
qed

text \<open>Node \<open>d\<close> is unlinked.\<close>

lemma sl_inv_drop:
  fixes s :: "'k skip_list"
  assumes inv: "sl_inv s (bs @ d # as)"
  defines "h \<equiv> sl_heap s"
  assumes shape: "same_shape h h2"
    and nx: "\<And>m a. nx h2 m a = (if m < n_height (h ! d) \<and> a = pred_at h m bs then nx h m d else nx h m a)"
  shows "sl_inv (s\<lparr>sl_heap := h2\<rparr>) (bs @ as)"
proof -
  note I = sl_invD [OF inv, folded h_def]
  note P = pred_at_props [OF inv, folded h_def]
  have lev: "level h2 l xs = level h l xs" if "set xs \<subseteq> set (bs @ d # as)" for l xs
    using that I(5) by (intro level_shape [OF shape]) auto
  have levs: "level h2 l (bs @ as) = level h l bs @ level h l as" for l
    using lev [of "bs @ as"] by auto
  have "linked h2 l 0 (level h2 l (bs @ as))" if l: "l < kMaxHeight" for l
  proof (cases "l < n_height (h ! d)")
    case True
    have "linked h2 l 0 (level h l bs @ level h l as)"
    proof (rule linked_drop [where h = h and ds = "[d]"])
      show "linked h l 0 (level h l bs @ [d] @ level h l as)" using I(6) [OF l] True by simp
      show "nx h2 l (pred_at h l bs) = nx h l (last (0 # level h l bs @ [d]))"
        using True by (simp add: nx)
      fix a assume "a \<in> set (butlast (0 # level h l bs)) \<union> set (level h l as)"
      moreover have "set (level h l as) \<subseteq> set (d # as)" using set_level [of h l as] by auto
      ultimately have "a \<noteq> pred_at h l bs" using P(3,4) [OF l] by blast
      then show "nx h2 l a = nx h l a" by (simp add: nx)
    qed
    then show ?thesis using levs [of l] by simp
  next
    case False
    then have "linked h l 0 (level h l bs @ level h l as)" using I(6) [OF l] by simp
    then have "linked h2 l 0 (level h l bs @ level h l as)"
      using False by (intro linked_cong [of h l 0 _ h2]) (simp_all add: nx)
    then show ?thesis using levs [of l] by simp
  qed
  moreover have "\<forall>a \<in> set (bs @ as). 0 < a \<and> a < length h2 \<and> n_height (h2 ! a) \<le> sl_maxHeight s"
    using I(5) shape by (auto simp: same_shape_def)
  ultimately show ?thesis
    using I(2,3,4) heap_ok_shape [OF shape I(1)] unfolding sl_inv_def by simp
qed

section \<open>The height of a new node\<close>

lemma random_loop_bounds: "h \<le> kMaxHeight \<Longrightarrow> h \<le> fst (random_loop rnd h) \<and> fst (random_loop rnd h) \<le> kMaxHeight"
proof (induction rnd h rule: random_loop.induct)
  case (1 rnd h)
  then show ?case by (subst (1 2) random_loop.simps) auto
qed

lemma randomHeight_bounds: "1 \<le> fst (randomHeight rnd) \<and> fst (randomHeight rnd) \<le> kMaxHeight"
  using random_loop_bounds [of 1 rnd] by (simp add: randomHeight_def kMaxHeight_def)

lemma raise_prev_nth:
  assumes "height \<le> length prev"
  shows "length (raise_prev prev m height) = length prev"
    and "raise_prev prev m height ! i = (if m \<le> i \<and> i < height then Some 0 else prev ! i)"
proof -
  have "length (foldl (\<lambda>p i. p[i := Some 0]) prev is) = length prev \<and>
      (\<forall>i. foldl (\<lambda>p i. p[i := Some 0]) prev is ! i = (if i \<in> set is then Some 0 else prev ! i))"
    if "\<forall>i \<in> set is. i < length prev" for "is"
    using that by (induction "is" arbitrary: prev) (auto simp: nth_list_update)
  from this [of "[m..<height]"] assms
  show "length (raise_prev prev m height) = length prev"
    and "raise_prev prev m height ! i = (if m \<le> i \<and> i < height then Some 0 else prev ! i)"
    by (auto simp: raise_prev_def)
qed

lemma level_above_max:
  assumes "sl_inv s xs" "set bs \<subseteq> set xs" "sl_maxHeight s \<le> l"
  shows "level (sl_heap s) l bs = []"
  using sl_invD(5) [OF assms(1)] assms(2,3) by (fastforce simp: level_def filter_empty_conv)

section \<open>The operations on nodes\<close>

text \<open>Replacing node \<open>x\<close>, and inserting a node of the height drawn.\<close>

lemma put_replace:
  assumes inv: "sl_inv s (bs @ x # as)" and prev: "\<And>m. m < sl_maxHeight s \<Longrightarrow> prev ! m = Some (pred_at (sl_heap s) m bs)"
    and new: "newNode (sl_heap s) k (n_height (sl_heap s ! x)) = (new, h1)"
  shows "\<exists>h2. replace_loop h1 prev x new [0..<n_height (sl_heap s ! x)] = Some h2 \<and>
     sl_inv (s\<lparr>sl_heap := h2\<rparr>) (bs @ new # as) \<and> n_key (h2 ! new) = k \<and>
     (\<forall>a \<in> set (bs @ as). n_key (h2 ! a) = n_key (sl_heap s ! a))"
proof -
  let ?h = "sl_heap s"
  let ?hgt = "n_height (?h ! x)"
  note I = sl_invD [OF inv]
  note P = pred_at_props [OF inv]
  have x: "x < length ?h" "?hgt \<le> sl_maxHeight s" using I(5) [of x] by auto
  have hgt: "1 \<le> ?hgt" "?hgt \<le> kMaxHeight" using I(1) x(1) by (auto simp: heap_ok_def)
  have N: "new = length ?h" "h1 = ?h @ [\<lparr>n_key = k, n_height = ?hgt, n_next = replicate ?hgt None\<rparr>]"
    using new by (simp_all add: newNode_def)
  have at1: "node_at h1 a l" if "node_at ?h a l" for a l
    using that by (simp add: node_at_def N nth_append)
  have pre: "node_at h1 (pred_at ?h i bs) i \<and> node_at h1 x i \<and> node_at h1 new i \<and>
      pred_at ?h i bs \<noteq> new \<and> pred_at ?h i bs \<noteq> x \<and> x \<noteq> new" if "i \<in> set [0..<?hgt]" for i
  proof -
    have i: "i < kMaxHeight" "i < ?hgt" using that hgt by auto
    show ?thesis
      using P(1,2,4) [OF i(1)] node_at_level [OF I(1) x(1) i(2)] i(2) x(1) at1
      by (auto simp: N(1)) (simp add: node_at_def N)
  qed
  obtain h2 where h2: "replace_loop h1 prev x new [0..<?hgt] = Some h2" "same_shape h1 h2"
    "\<And>m a. nx h2 m a = (if m \<in> set [0..<?hgt] then if a = new then nx h1 m x
        else if a = pred_at ?h m bs then Some new else nx h1 m a else nx h1 m a)"
    using replace_loop_effect [of "[0..<?hgt]" prev "\<lambda>m. pred_at ?h m bs" h1 x new] pre prev x(2) by auto
  have nx2: "nx h2 m a = (if m < ?hgt then if a = length ?h then nx h1 m (pred_at ?h m (bs @ [x]))
        else if a = pred_at ?h m bs then Some (length ?h) else nx h1 m a else nx h1 m a)" for m a
    using h2(3) [of m a] by (simp add: N(1))
  have r: "s\<lparr>sl_heap := h2\<rparr> = \<lparr>sl_heap = h2, sl_maxHeight = sl_maxHeight s, sl_rand = sl_rand s\<rparr>"
    by simp
  have inv': "sl_inv s (bs @ [x] @ as)" using inv by simp
  note S = sl_inv_new [where k = k and ?h2.0 = h2, OF inv' hgt _ order_refl x(2) I(4), folded N(2), OF _ h2(2) nx2]
  have "sl_inv (s\<lparr>sl_heap := h2\<rparr>) (bs @ new # as)"
    unfolding r N(1) by (rule S(1)) simp
  then show ?thesis
    using S(2,3) h2(1) I(5) unfolding N(1) by simp
qed

lemma raised_prev:
  assumes inv: "sl_inv s (bs @ as)" and prev: "\<And>m. m < sl_maxHeight s \<Longrightarrow> prev ! m = Some (pred_at (sl_heap s) m bs)"
    and len: "length prev = kMaxHeight" and i: "i < hgt" and hgt: "hgt \<le> kMaxHeight"
  shows "(if hgt > sl_maxHeight s then raise_prev prev (sl_maxHeight s) hgt else prev) ! i = Some (pred_at (sl_heap s) i bs)"
proof (cases "i < sl_maxHeight s")
  case True
  then show ?thesis using prev raise_prev_nth(2) [of hgt prev "sl_maxHeight s" i] len hgt by simp
next
  case False
  then have "level (sl_heap s) i bs = []" using level_above_max [OF inv, of bs i] by auto
  then show ?thesis using False i raise_prev_nth(2) [of hgt prev "sl_maxHeight s" i] len hgt by simp
qed

lemma put_insert:
  assumes inv: "sl_inv s (bs @ as)" and prev: "\<And>m. m < sl_maxHeight s \<Longrightarrow> prev ! m = Some (pred_at (sl_heap s) m bs)"
    and len: "length prev = kMaxHeight" and hgt: "1 \<le> hgt" "hgt \<le> kMaxHeight"
    and new: "newNode (sl_heap s) k hgt = (new, h1)"
  defines "prev' \<equiv> if hgt > sl_maxHeight s then raise_prev prev (sl_maxHeight s) hgt else prev"
  defines "maxH \<equiv> if hgt > sl_maxHeight s then hgt else sl_maxHeight s"
  shows "\<exists>h2. insert_loop h1 prev' new [0..<hgt] = Some h2 \<and>
     sl_inv \<lparr>sl_heap = h2, sl_maxHeight = maxH, sl_rand = r\<rparr> (bs @ new # as) \<and> n_key (h2 ! new) = k \<and>
     (\<forall>a \<in> set (bs @ as). n_key (h2 ! a) = n_key (sl_heap s ! a))"
proof -
  let ?h = "sl_heap s"
  note I = sl_invD [OF inv]
  note P = pred_at_props [OF inv]
  have N: "new = length ?h" "h1 = ?h @ [\<lparr>n_key = k, n_height = hgt, n_next = replicate hgt None\<rparr>]"
    using new by (simp_all add: newNode_def)
  have prev': "prev' ! i = Some (pred_at ?h i bs)" if "i < hgt" for i
    unfolding prev'_def by (rule raised_prev [OF inv prev len that hgt(2)])
  have pre: "node_at h1 (pred_at ?h i bs) i \<and> node_at h1 new i \<and> pred_at ?h i bs \<noteq> new"
    if "i \<in> set [0..<hgt]" for i
  proof -
    have i: "i < kMaxHeight" "i < hgt" using that hgt by auto
    show ?thesis
      using P(1,2) [OF i(1)] i(2) by (auto simp: node_at_def N nth_append)
  qed
  obtain h2 where h2: "insert_loop h1 prev' new [0..<hgt] = Some h2" "same_shape h1 h2"
    "\<And>m a. nx h2 m a = (if m \<in> set [0..<hgt] then if a = new then nx h1 m (pred_at ?h m bs)
        else if a = pred_at ?h m bs then Some new else nx h1 m a else nx h1 m a)"
    using insert_loop_effect [of "[0..<hgt]" prev' "\<lambda>m. pred_at ?h m bs" h1 new] pre prev' by auto
  have nx2: "nx h2 m a = (if m < hgt then if a = length ?h then nx h1 m (pred_at ?h m (bs @ []))
        else if a = pred_at ?h m bs then Some (length ?h) else nx h1 m a else nx h1 m a)" for m a
    using h2(3) [of m a] by (simp add: N(1))
  have m: "sl_maxHeight s \<le> maxH" "hgt \<le> maxH" "maxH \<le> kMaxHeight" using hgt I(4) by (simp_all add: maxH_def)
  have inv': "sl_inv s (bs @ [] @ as)" using inv by simp
  note S = sl_inv_new [where k = k and ?h2.0 = h2, OF inv' hgt _ m, folded N(2), OF _ h2(2) nx2]
  show ?thesis
    using S h2(1) I(5) unfolding N(1) by simp
qed

lemma remove_node:
  assumes inv: "sl_inv s (bs @ x # as)" and prev: "\<And>m. m < sl_maxHeight s \<Longrightarrow> prev ! m = Some (pred_at (sl_heap s) m bs)"
  shows "\<exists>h2. remove_loop (sl_heap s) prev x [0..<n_height (sl_heap s ! x)] = Some h2 \<and>
     sl_inv (s\<lparr>sl_heap := h2\<rparr>) (bs @ as) \<and> (\<forall>a \<in> set (bs @ as). n_key (h2 ! a) = n_key (sl_heap s ! a))"
proof -
  let ?h = "sl_heap s"
  let ?hgt = "n_height (?h ! x)"
  note I = sl_invD [OF inv]
  note P = pred_at_props [OF inv]
  have x: "x < length ?h" "?hgt \<le> sl_maxHeight s" using I(5) [of x] by auto
  have pre: "node_at ?h (pred_at ?h i bs) i \<and> node_at ?h x i \<and> pred_at ?h i bs \<noteq> x"
    if "i \<in> set [0..<?hgt]" for i
  proof -
    have i: "i < kMaxHeight" "i < ?hgt" using that x I(4) by auto
    show ?thesis using P(1,4) [OF i(1)] node_at_level [OF I(1) x(1) i(2)] by auto
  qed
  obtain h2 where h2: "remove_loop ?h prev x [0..<?hgt] = Some h2" "same_shape ?h h2"
    "\<And>m a. nx h2 m a = (if m \<in> set [0..<?hgt] \<and> a = pred_at ?h m bs then nx ?h m x else nx ?h m a)"
    using remove_loop_effect [of "[0..<?hgt]" prev "\<lambda>m. pred_at ?h m bs" ?h x] pre prev x(2) by auto
  have "sl_inv (s\<lparr>sl_heap := h2\<rparr>) (bs @ as)"
    using h2(3) by (intro sl_inv_drop [OF inv h2(2)]) simp
  moreover have "\<forall>a \<in> set (bs @ as). n_key (h2 ! a) = n_key (?h ! a)"
    using h2(2) I(5) by (auto simp: same_shape_def)
  ultimately show ?thesis using h2(1) by blast
qed

end
