(* ===== verification/SkipListSpec.thy ===== *)
theory SkipListSpec
  imports SkipListCorrect KeyValue LookupIterator
begin

text \<open>
  The refinement theorems of the skip list, for any comparison that meets the contract: each operation
  of \<^verbatim>\<open>include/skiplist.h\<close> returns, and does to the represented list what the list operation does.
  Then \<^verbatim>\<open>include/skiplistitr.h\<close>, the iterator over a skip list of pairs, as an instance of the
  iterator contract.
\<close>

section \<open>Ordered lists\<close>

context comparator
begin

lemma cmp_cases:
  obtains "cmp a b < 0" "0 < cmp b a" | "cmp a b = 0" "cmp b a = 0" | "0 < cmp a b" "cmp b a < 0"
  using cmp_flip [of a b] cmp_flip2 [of a b] cmp_zero_sym [of a b] by (meson linorder_neqE_linordered_idom)

lemma cmp_zero_cong3: "cmp a b = 0 \<Longrightarrow> cmp a c = 0 \<longleftrightarrow> cmp b c = 0"
  using cmp_zero_cong [of a b c] cmp_zero_cong2 [of a b c]
  by (cases rule: cmp_cases [of a c]; cases rule: cmp_cases [of b c]; simp)

lemma ordered_split:
  assumes "ordered (map f xs)"
  shows "\<exists>bs as. xs = bs @ as \<and> (\<forall>b \<in> set bs. cmp (f b) k < 0) \<and> (\<forall>a \<in> set as. \<not> cmp (f a) k < 0) \<and>
           (\<forall>a \<in> set (tl as). 0 < cmp (f a) k)"
proof -
  define bs where "bs = takeWhile (\<lambda>a. cmp (f a) k < 0) xs"
  define as where "as = dropWhile (\<lambda>a. cmp (f a) k < 0) xs"
  have xs: "xs = bs @ as" by (simp add: bs_def as_def)
  have o: "sorted_wrt (\<lambda>a b. cmp (f a) (f b) < 0) xs" using assms by (simp add: sorted_wrt_map)
  have "as = filter (\<lambda>a. \<not> cmp (f a) k < 0) xs"
    unfolding as_def by (rule takeWhile_sorted_split(2) [OF o]) (rule cmp_less_trans)
  then have ge: "\<forall>a \<in> set as. \<not> cmp (f a) k < 0" by simp
  have so: "sorted_wrt (\<lambda>a b. cmp (f a) (f b) < 0) as"
    using o unfolding xs by (simp add: sorted_wrt_append)
  have "0 < cmp (f a) k" if a: "a \<in> set (tl as)" for a
  proof -
    obtain y ys where as: "as = y # ys" using a by (cases as) auto
    then have "cmp (f y) (f a) < 0" "\<not> cmp (f y) k < 0" using so a ge by auto
    then show ?thesis
      using cmp_flip2 [of "f a" k] cmp_le_less_trans [of k "f y" "f a"] cmp_flip2 [of k "f y"] by linarith
  qed
  moreover have "\<forall>b \<in> set bs. cmp (f b) k < 0" by (auto simp: bs_def dest: set_takeWhileD)
  ultimately show ?thesis using xs ge by blast
qed

lemma olist_put_ordered: "ordered ks \<Longrightarrow> ordered (olist_put cmp k ks)"
proof (induction ks)
  case Nil
  then show ?case by simp
next
  case (Cons x xs)
  have sub: "set (olist_put cmp k xs) \<subseteq> insert k (set xs)" for xs
    by (induction xs) auto
  show ?case
  proof (cases "cmp x k < 0")
    case True
    then show ?thesis using Cons sub [of xs] by auto
  next
    case nl: False
    show ?thesis
    proof (cases "cmp x k = 0")
      case True
      then have "\<forall>y \<in> set xs. cmp k y < 0"
        using Cons.prems cmp_zero_cong by auto
      then show ?thesis using Cons.prems True by simp
    next
      case False
      then have k: "cmp k x < 0" using nl by (cases rule: cmp_cases [of k x]) simp_all
      moreover have "\<forall>y \<in> set xs. cmp k y < 0" using Cons.prems cmp_less_trans [OF k] by auto
      ultimately show ?thesis using Cons.prems nl False by simp
    qed
  qed
qed

lemma olist_del_subseq: "set (olist_del cmp k ks) \<subseteq> set ks"
  by (induction ks) auto

lemma olist_del_ordered: "ordered ks \<Longrightarrow> ordered (olist_del cmp k ks)"
proof (induction ks)
  case (Cons x xs)
  then show ?case using olist_del_subseq [of k xs] by auto
qed simp

text \<open>A search after an update.\<close>

lemma olist_find_put:
  "ordered ks \<Longrightarrow> olist_find cmp k' (olist_put cmp k ks) =
     (if cmp k k' = 0 then Some k else olist_find cmp k' ks)"
proof (induction ks)
  case Nil
  then show ?case by simp
next
  case (Cons x xs)
  show ?case
  proof (cases "cmp x k < 0")
    case True
    then show ?thesis
      using Cons cmp_zero_cong2 [of k k' x] by auto
  next
    case nl: False
    show ?thesis
    proof (cases "cmp x k = 0")
      case True
      show ?thesis
        using True cmp_zero_cong [OF True, of k'] cmp_zero_cong3 [OF True, of k'] by simp
    next
      case False
      then have k: "cmp k x < 0" using nl by (cases rule: cmp_cases [of k x]) simp_all
      have "cmp k k' = 0 \<Longrightarrow> 0 < cmp x k'"
        using cmp_zero_cong [of k k' x] k cmp_flip2 [of x k'] by simp
      moreover have "0 < cmp k k' \<Longrightarrow> 0 < cmp x k'"
        using cmp_less_trans [of k' k x] k cmp_flip2 [of k k'] cmp_flip2 [of x k'] by blast
      ultimately show ?thesis using nl False
        by (cases "cmp k k'" rule: linorder_cases [of _ 0]) auto
    qed
  qed
qed

lemma olist_find_del:
  "ordered ks \<Longrightarrow> olist_find cmp k' (olist_del cmp k ks) =
     (if cmp k k' = 0 then None else olist_find cmp k' ks)"
proof (induction ks)
  case Nil
  then show ?case by simp
next
  case (Cons x xs)
  have gt: "olist_find cmp q ys = None" if "\<forall>y \<in> set ys. 0 < cmp y q" for q ys
    using that by (cases ys) auto
  show ?case
  proof (cases "cmp x k < 0")
    case True
    then show ?thesis using Cons cmp_zero_cong2 [of k k' x] by auto
  next
    case nl: False
    show ?thesis
    proof (cases "cmp x k = 0")
      case True
      have "\<forall>y \<in> set xs. cmp x y < 0" using Cons.prems by simp
      then have a: "olist_find cmp k' xs = None" if "\<not> cmp x k' < 0"
        using that gt [of xs k'] cmp_flip2 cmp_le_less_trans [of k' x] cmp_flip2 [of k' x]
        by (meson not_less)
      show ?thesis
        using True a cmp_zero_cong [OF True, of k'] cmp_zero_cong3 [OF True, of k'] by simp
    next
      case False
      then have k: "cmp k x < 0" using nl by (cases rule: cmp_cases [of k x]) simp_all
      have "cmp k k' = 0 \<Longrightarrow> 0 < cmp x k'"
        using cmp_zero_cong [of k k' x] k cmp_flip2 [of x k'] by simp
      then show ?thesis using nl False by auto
    qed
  qed
qed

end

section \<open>The operations of the skip list\<close>

text \<open>The nodes of the list, split at a key.\<close>

definition split_at :: "('k \<Rightarrow> 'k \<Rightarrow> int) \<Rightarrow> 'k skip_list \<Rightarrow> 'k \<Rightarrow> nat list \<Rightarrow> nat list \<Rightarrow> bool" where
  "split_at cmp s k bs as \<longleftrightarrow>
     sl_inv s (bs @ as) \<and>
     (\<forall>b \<in> set bs. cmp (n_key (sl_heap s ! b)) k < 0) \<and>
     (\<forall>a \<in> set as. \<not> cmp (n_key (sl_heap s ! a)) k < 0) \<and>
     (\<forall>a \<in> set (tl as). 0 < cmp (n_key (sl_heap s ! a)) k)"

definition key_node :: "('k \<Rightarrow> 'k \<Rightarrow> int) \<Rightarrow> 'k skip_list \<Rightarrow> 'k \<Rightarrow> nat list \<Rightarrow> bool" where
  "key_node cmp s k as \<longleftrightarrow> (case as of [] \<Rightarrow> False | a # _ \<Rightarrow> cmp (n_key (sl_heap s ! a)) k = 0)"

lemma split_at_find:
  assumes "split_at cmp s k bs as"
  obtains prev where "findGreaterOrEqual cmp s k = Some (first_node as, prev)" "length prev = kMaxHeight"
    "\<And>m. m < sl_maxHeight s \<Longrightarrow> prev ! m = Some (pred_at (sl_heap s) m bs)"
proof -
  have "sl_inv s (bs @ as)" "\<forall>b \<in> set bs. cmp (n_key (sl_heap s ! b)) k < 0"
    "\<forall>a \<in> set as. \<not> cmp (n_key (sl_heap s ! a)) k < 0"
    using assms by (simp_all add: split_at_def)
  then show thesis using findGreaterOrEqual_spec [of s bs as cmp k] that by blast
qed

lemma olist_at_split:
  assumes "split_at cmp s k bs as"
  shows "olist_find cmp k (keys_at s (bs @ as)) =
           (if key_node cmp s k as then Some (n_key (sl_heap s ! hd as)) else None)"
    and "olist_put cmp k (keys_at s (bs @ as)) =
           keys_at s bs @ k # keys_at s (if key_node cmp s k as then tl as else as)"
    and "olist_del cmp k (keys_at s (bs @ as)) =
           keys_at s bs @ keys_at s (if key_node cmp s k as then tl as else as)"
proof -
  have less: "\<forall>b \<in> set (keys_at s bs). cmp b k < 0" and ge: "\<forall>a \<in> set (keys_at s as). \<not> cmp a k < 0"
    using assms by (auto simp: split_at_def keys_at_def)
  have app: "keys_at s (bs @ as) = keys_at s bs @ keys_at s as" by (simp add: keys_at_def)
  note S = olist_split [of "keys_at s bs" cmp k "keys_at s as", OF less, folded app]
  show "olist_find cmp k (keys_at s (bs @ as)) =
           (if key_node cmp s k as then Some (n_key (sl_heap s ! hd as)) else None)"
    unfolding S using ge by (cases as) (simp_all add: keys_at_def key_node_def)
  show "olist_put cmp k (keys_at s (bs @ as)) =
           keys_at s bs @ k # keys_at s (if key_node cmp s k as then tl as else as)"
    unfolding S using ge by (cases as) (simp_all add: keys_at_def key_node_def)
  show "olist_del cmp k (keys_at s (bs @ as)) =
           keys_at s bs @ keys_at s (if key_node cmp s k as then tl as else as)"
    unfolding S using ge by (cases as) (simp_all add: keys_at_def key_node_def)
qed

lemma keys_at_cong: "\<forall>a \<in> set xs. n_key (h2 ! a) = n_key (sl_heap s ! a) \<Longrightarrow>
    map (\<lambda>a. n_key (h2 ! a)) xs = keys_at s xs"
  by (simp add: keys_at_def)

lemma sl_put_split:
  assumes "split_at cmp s k bs as"
  shows "\<exists>s' new. sl_put cmp dflt s k = Some (if key_node cmp s k as then n_key (sl_heap s ! hd as) else dflt, s') \<and>
           sl_inv s' (bs @ new # (if key_node cmp s k as then tl as else as)) \<and>
           keys_at s' (bs @ new # (if key_node cmp s k as then tl as else as)) =
             olist_put cmp k (keys_at s (bs @ as))"
proof -
  obtain prev where f: "findGreaterOrEqual cmp s k = Some (first_node as, prev)" "length prev = kMaxHeight"
    "\<And>m. m < sl_maxHeight s \<Longrightarrow> prev ! m = Some (pred_at (sl_heap s) m bs)"
    using split_at_find [OF assms] by blast
  have inv: "sl_inv s (bs @ as)" using assms by (simp add: split_at_def)
  show ?thesis
  proof (cases "key_node cmp s k as")
    case True
    then obtain x as' where as: "as = x # as'" "cmp (n_key (sl_heap s ! x)) k = 0"
      by (auto simp: key_node_def split: list.splits)
    obtain new h1 where new: "newNode (sl_heap s) k (n_height (sl_heap s ! x)) = (new, h1)" by fastforce
    obtain h2 where h2: "replace_loop h1 prev x new [0..<n_height (sl_heap s ! x)] = Some h2"
      "sl_inv (s\<lparr>sl_heap := h2\<rparr>) (bs @ new # as')" "n_key (h2 ! new) = k"
      "\<forall>a \<in> set (bs @ as'). n_key (h2 ! a) = n_key (sl_heap s ! a)"
      using put_replace [OF inv [unfolded as(1)] f(3) new] by blast
    have "sl_put cmp dflt s k = Some (n_key (sl_heap s ! x), s\<lparr>sl_heap := h2\<rparr>)"
      using f(1) as new h2(1) by (simp add: sl_put_def)
    moreover have "keys_at (s\<lparr>sl_heap := h2\<rparr>) (bs @ new # as') = olist_put cmp k (keys_at s (bs @ as))"
      using olist_at_split(2) [OF assms] True as(1) h2(3,4) by (simp add: keys_at_def)
    ultimately show ?thesis using True as(1) h2(2) by auto
  next
    case False
    obtain hgt rnd where hgt: "randomHeight (sl_rand s) = (hgt, rnd)" by fastforce
    have b: "1 \<le> hgt" "hgt \<le> kMaxHeight" using randomHeight_bounds [of "sl_rand s"] hgt by auto
    obtain new h1 where new: "newNode (sl_heap s) k hgt = (new, h1)" by fastforce
    let ?max = "if hgt > sl_maxHeight s then hgt else sl_maxHeight s"
    obtain h2 where h2: "insert_loop h1 (if hgt > sl_maxHeight s then raise_prev prev (sl_maxHeight s) hgt else prev)
        new [0..<hgt] = Some h2"
      "sl_inv \<lparr>sl_heap = h2, sl_maxHeight = ?max, sl_rand = rnd\<rparr> (bs @ new # as)" "n_key (h2 ! new) = k"
      "\<forall>a \<in> set (bs @ as). n_key (h2 ! a) = n_key (sl_heap s ! a)"
      using put_insert [OF inv f(3,2) b new, of rnd] by blast
    have nk: "\<not> (case first_node as of None \<Rightarrow> False | Some a \<Rightarrow> cmp (n_key (sl_heap s ! a)) k = 0)"
      using False by (auto simp: key_node_def split: list.splits)
    have "sl_put cmp dflt s k = Some (dflt, \<lparr>sl_heap = h2, sl_maxHeight = ?max, sl_rand = rnd\<rparr>)"
      unfolding sl_put_def by (simp only: f(1) bind.simps prod.case Let_def nk if_False hgt new h2(1))
    moreover have "keys_at \<lparr>sl_heap = h2, sl_maxHeight = ?max, sl_rand = rnd\<rparr> (bs @ new # as) =
        olist_put cmp k (keys_at s (bs @ as))"
      using olist_at_split(2) [OF assms] False h2(3,4) by (simp add: keys_at_def)
    ultimately show ?thesis using False h2(2) by auto
  qed
qed

lemma sl_remove_split:
  assumes "split_at cmp s k bs as"
  shows "\<exists>s'. sl_remove cmp dflt s k = Some (if key_node cmp s k as then n_key (sl_heap s ! hd as) else dflt, s') \<and>
           sl_inv s' (bs @ (if key_node cmp s k as then tl as else as)) \<and>
           keys_at s' (bs @ (if key_node cmp s k as then tl as else as)) =
             olist_del cmp k (keys_at s (bs @ as))"
proof -
  obtain prev where f: "findGreaterOrEqual cmp s k = Some (first_node as, prev)"
    "\<And>m. m < sl_maxHeight s \<Longrightarrow> prev ! m = Some (pred_at (sl_heap s) m bs)"
    using split_at_find [OF assms] by blast
  have inv: "sl_inv s (bs @ as)" using assms by (simp add: split_at_def)
  show ?thesis
  proof (cases "key_node cmp s k as")
    case True
    then obtain x as' where as: "as = x # as'" "cmp (n_key (sl_heap s ! x)) k = 0"
      by (auto simp: key_node_def split: list.splits)
    obtain h2 where h2: "remove_loop (sl_heap s) prev x [0..<n_height (sl_heap s ! x)] = Some h2"
      "sl_inv (s\<lparr>sl_heap := h2\<rparr>) (bs @ as')" "\<forall>a \<in> set (bs @ as'). n_key (h2 ! a) = n_key (sl_heap s ! a)"
      using remove_node [OF inv [unfolded as(1)] f(2)] by blast
    have "sl_remove cmp dflt s k = Some (n_key (sl_heap s ! x), s\<lparr>sl_heap := h2\<rparr>)"
      using f(1) as h2(1) by (simp add: sl_remove_def)
    moreover have "keys_at (s\<lparr>sl_heap := h2\<rparr>) (bs @ as') = olist_del cmp k (keys_at s (bs @ as))"
      using olist_at_split(3) [OF assms] True as(1) h2(3) by (simp add: keys_at_def)
    ultimately show ?thesis using True as(1) h2(2) by auto
  next
    case False
    then have "sl_remove cmp dflt s k = Some (dflt, s)"
      using f(1) by (auto simp: sl_remove_def key_node_def split: list.splits)
    then show ?thesis
      using False inv olist_at_split(3) [OF assms] by (simp add: keys_at_def)
  qed
qed

context comparator
begin

lemma repr_split:
  assumes "sl_repr cmp s ks"
  shows "\<exists>bs as. split_at cmp s k bs as \<and> ks = keys_at s (bs @ as)"
proof -
  obtain xs where xs: "sl_inv s xs" "ks = keys_at s xs" "ordered ks"
    using assms by (auto simp: sl_repr_def)
  then obtain bs as where "xs = bs @ as" "\<forall>b \<in> set bs. cmp (n_key (sl_heap s ! b)) k < 0"
    "\<forall>a \<in> set as. \<not> cmp (n_key (sl_heap s ! a)) k < 0" "\<forall>a \<in> set (tl as). 0 < cmp (n_key (sl_heap s ! a)) k"
    using ordered_split [of "\<lambda>a. n_key (sl_heap s ! a)" xs k] unfolding keys_at_def by blast
  then show ?thesis using xs(1,2) unfolding split_at_def by blast
qed

lemma put_repr:
  assumes "sl_repr cmp s ks"
  shows "\<exists>s'. sl_put cmp dflt s k = Some (case olist_find cmp k ks of None \<Rightarrow> dflt | Some x \<Rightarrow> x, s') \<and>
           sl_repr cmp s' (olist_put cmp k ks)"
proof -
  obtain bs as where sp: "split_at cmp s k bs as" "ks = keys_at s (bs @ as)"
    using repr_split [OF assms] by blast
  obtain s' new where p: "sl_put cmp dflt s k = Some (if key_node cmp s k as then n_key (sl_heap s ! hd as) else dflt, s')"
    "sl_inv s' (bs @ new # (if key_node cmp s k as then tl as else as))"
    "keys_at s' (bs @ new # (if key_node cmp s k as then tl as else as)) = olist_put cmp k ks"
    using sl_put_split [OF sp(1)] sp(2) by metis
  have "ordered (olist_put cmp k ks)"
    using assms by (intro olist_put_ordered) (simp add: sl_repr_def)
  then have "sl_repr cmp s' (olist_put cmp k ks)" using p(2,3) unfolding sl_repr_def by metis
  then show ?thesis using p(1) olist_at_split(1) [OF sp(1)] sp(2) by auto
qed

lemma remove_repr:
  assumes "sl_repr cmp s ks"
  shows "\<exists>s'. sl_remove cmp dflt s k = Some (case olist_find cmp k ks of None \<Rightarrow> dflt | Some x \<Rightarrow> x, s') \<and>
           sl_repr cmp s' (olist_del cmp k ks)"
proof -
  obtain bs as where sp: "split_at cmp s k bs as" "ks = keys_at s (bs @ as)"
    using repr_split [OF assms] by blast
  obtain s' where p: "sl_remove cmp dflt s k = Some (if key_node cmp s k as then n_key (sl_heap s ! hd as) else dflt, s')"
    "sl_inv s' (bs @ (if key_node cmp s k as then tl as else as))"
    "keys_at s' (bs @ (if key_node cmp s k as then tl as else as)) = olist_del cmp k ks"
    using sl_remove_split [OF sp(1)] sp(2) by metis
  have "ordered (olist_del cmp k ks)"
    using assms by (intro olist_del_ordered) (simp add: sl_repr_def)
  then have "sl_repr cmp s' (olist_del cmp k ks)" using p(2,3) unfolding sl_repr_def by metis
  then show ?thesis using p(1) olist_at_split(1) [OF sp(1)] sp(2) by auto
qed

lemma get_repr:
  assumes "sl_repr cmp s ks"
  shows "sl_get cmp dflt s k = Some (case olist_find cmp k ks of None \<Rightarrow> dflt | Some x \<Rightarrow> x)"
    and "sl_contains cmp s k = Some (olist_find cmp k ks \<noteq> None)"
proof -
  obtain bs as where sp: "split_at cmp s k bs as" "ks = keys_at s (bs @ as)"
    using repr_split [OF assms] by blast
  obtain prev where f: "findGreaterOrEqual cmp s k = Some (first_node as, prev)"
    using split_at_find [OF sp(1)] by blast
  show "sl_get cmp dflt s k = Some (case olist_find cmp k ks of None \<Rightarrow> dflt | Some x \<Rightarrow> x)"
    and "sl_contains cmp s k = Some (olist_find cmp k ks \<noteq> None)"
    using f olist_at_split(1) [OF sp(1)] sp(2) cmp_zero_sym
    by (cases as; simp add: sl_get_def sl_contains_def key_node_def)+
qed

end

section \<open>Properties\<close>

text \<open>A sequence of operations on a list, with what each returns.\<close>

datatype 'k sl_op = SlPut 'k | SlRemove 'k | SlGet 'k | SlContains 'k

datatype 'k sl_out = OutKey 'k | OutBool bool

fun sl_run :: "('k \<Rightarrow> 'k \<Rightarrow> int) \<Rightarrow> 'k \<Rightarrow> 'k skip_list \<Rightarrow> 'k sl_op list \<Rightarrow> 'k sl_out list option" where
  "sl_run cmp dflt s [] = Some []"
| "sl_run cmp dflt s (SlPut k # ops) =
     do { (old, s') \<leftarrow> sl_put cmp dflt s k; outs \<leftarrow> sl_run cmp dflt s' ops; Some (OutKey old # outs) }"
| "sl_run cmp dflt s (SlRemove k # ops) =
     do { (old, s') \<leftarrow> sl_remove cmp dflt s k; outs \<leftarrow> sl_run cmp dflt s' ops; Some (OutKey old # outs) }"
| "sl_run cmp dflt s (SlGet k # ops) =
     do { x \<leftarrow> sl_get cmp dflt s k; outs \<leftarrow> sl_run cmp dflt s ops; Some (OutKey x # outs) }"
| "sl_run cmp dflt s (SlContains k # ops) =
     do { b \<leftarrow> sl_contains cmp s k; outs \<leftarrow> sl_run cmp dflt s ops; Some (OutBool b # outs) }"

definition found_or :: "'k \<Rightarrow> 'k option \<Rightarrow> 'k" where
  "found_or dflt x = (case x of None \<Rightarrow> dflt | Some y \<Rightarrow> y)"

fun olist_run :: "('k \<Rightarrow> 'k \<Rightarrow> int) \<Rightarrow> 'k \<Rightarrow> 'k list \<Rightarrow> 'k sl_op list \<Rightarrow> 'k sl_out list" where
  "olist_run cmp dflt ks [] = []"
| "olist_run cmp dflt ks (SlPut k # ops) =
     OutKey (found_or dflt (olist_find cmp k ks)) # olist_run cmp dflt (olist_put cmp k ks) ops"
| "olist_run cmp dflt ks (SlRemove k # ops) =
     OutKey (found_or dflt (olist_find cmp k ks)) # olist_run cmp dflt (olist_del cmp k ks) ops"
| "olist_run cmp dflt ks (SlGet k # ops) =
     OutKey (found_or dflt (olist_find cmp k ks)) # olist_run cmp dflt ks ops"
| "olist_run cmp dflt ks (SlContains k # ops) =
     OutBool (olist_find cmp k ks \<noteq> None) # olist_run cmp dflt ks ops"

context comparator
begin

lemma run_repr: "sl_repr cmp s ks \<Longrightarrow> sl_run cmp dflt s ops = Some (olist_run cmp dflt ks ops)"
proof (induction ops arbitrary: s ks)
  case (Cons op ops)
  show ?case
  proof (cases op)
    case (SlPut k)
    then show ?thesis using put_repr [OF Cons.prems, of dflt k] Cons.IH by (auto simp: found_or_def)
  next
    case (SlRemove k)
    then show ?thesis using remove_repr [OF Cons.prems, of dflt k] Cons.IH by (auto simp: found_or_def)
  next
    case (SlGet k)
    then show ?thesis using get_repr(1) [OF Cons.prems, of dflt k] Cons by (simp add: found_or_def)
  next
    case (SlContains k)
    then show ?thesis using get_repr(2) [OF Cons.prems, of k] Cons by simp
  qed
qed simp

end

text \<open>C11. The skip list is an ordered map: for any comparison that is a total preorder, any sequence of
  \<^verbatim>\<open>put\<close>, \<^verbatim>\<open>remove\<close>, \<^verbatim>\<open>get\<close> and \<^verbatim>\<open>contains\<close> on a new list returns what the same operations on an ordered
  list return, whatever heights \<^verbatim>\<open>rand()\<close> chooses; every search ends and no null pointer is followed.\<close>

theorem skip_list_refines:
  assumes "comparator cmp"
  shows "sl_run cmp dflt (newSkipList rnd dflt) ops = Some (olist_run cmp dflt [] ops)"
  by (rule comparator.run_repr [OF assms newSkipList_repr])

theorem skip_list_refines_witness:
  "sl_run kv_cmp kv_EMPTY (newSkipList (\<lambda>i. i) kv_EMPTY)
     [SlPut (mk_kv [2] [1]), SlPut (mk_kv [1] [5]), SlPut (mk_kv [2] [9]), SlRemove (mk_kv [1] []), SlGet (Key [2]), SlContains (Key [1])] =
   Some [OutKey kv_EMPTY, OutKey kv_EMPTY, OutKey (mk_kv [2] [1]), OutKey (mk_kv [1] [5]), OutKey (mk_kv [2] [9]), OutBool False]"
  by (subst skip_list_refines [OF kv.comparator_axioms]) (simp add: kv_cmp_order found_or_def)

text \<open>C22. The pointers of a skip list stay well formed: after a \<^verbatim>\<open>put\<close> or \<^verbatim>\<open>remove\<close> on a well-formed list every
  level is again a null-terminated chain from the head through the live nodes of that height, in strictly
  ascending order, and no node is higher than the list.\<close>

theorem skip_list_wellformed:
  assumes "comparator cmp" and "sl_repr cmp s ks"
  shows "(\<exists>old s'. sl_put cmp dflt s k = Some (old, s') \<and> sl_repr cmp s' (olist_put cmp k ks)) \<and>
         (\<exists>old s'. sl_remove cmp dflt s k = Some (old, s') \<and> sl_repr cmp s' (olist_del cmp k ks))"
  using comparator.put_repr [OF assms, of dflt k] comparator.remove_repr [OF assms, of dflt k] by blast

theorem skip_list_wellformed_witness:
  "(\<exists>old s'. sl_put kv_cmp kv_EMPTY (newSkipList (\<lambda>i. 0) kv_EMPTY) (Key [1]) = Some (old, s') \<and>
      sl_repr kv_cmp s' [Key [1]]) \<and>
   (\<exists>old s'. sl_remove kv_cmp kv_EMPTY (newSkipList (\<lambda>i. 0) kv_EMPTY) (Key [1]) = Some (old, s') \<and>
      sl_repr kv_cmp s' [])"
  using skip_list_wellformed [OF kv.comparator_axioms newSkipList_repr, of kv_EMPTY "\<lambda>i. 0" kv_EMPTY "Key [1]"]
  by simp

text \<open>\<^verbatim>\<open>randomHeight\<close> ends with a height between 1 and \<^verbatim>\<open>kMaxHeight\<close>, whatever \<^verbatim>\<open>rand()\<close> returns.\<close>

theorem random_height_range: "1 \<le> fst (randomHeight rnd) \<and> fst (randomHeight rnd) \<le> kMaxHeight"
  by (rule randomHeight_bounds)

end
