(* ===== verification/SkipListItr.thy ===== *)
theory SkipListItr
  imports SkipListSpec
begin

text \<open>
  \<^verbatim>\<open>include/skiplistitr.h\<close>: the iterator over a skip list of pairs, with its peeked pair and its upper
  bound, and the \<^verbatim>\<open>lookup\<close> that the memory segment and the log segment share. On a list whose keys are
  not empty it meets the iterator contract.
\<close>

section \<open>The iterator\<close>

record skip_iterator =
  si_list :: "keyvalue skip_list"
  si_node :: "nat option"
  si_lower :: keyvalue
  si_upper :: keyvalue
  si_cmp :: kv_compare
  si_peek :: keyvalue

text \<open>The list is shared with its owner: an update of the list is an update of \<open>si_list\<close>.\<close>

definition si_next :: "skip_iterator \<Rightarrow> (keyvalue \<times> skip_iterator) res" where
  "si_next it =
     (if \<not> itr_valid (si_node it) then Inr (kv_EMPTY, it)
      else bind_res (if kv_key (si_peek it) = [] then access (itr_key (si_list it) (si_node it))
                     else Inr (si_peek it)) (\<lambda>kv.
             let it1 = it\<lparr>si_peek := kv_EMPTY\<rparr>
             in if kv_key (si_upper it) \<noteq> [] \<and> si_cmp it kv (si_upper it) > 0 then Inr (kv_EMPTY, it1)
                else bind_res (access (itr_next (si_list it) (si_node it))) (\<lambda>node.
                       Inr (kv, it1\<lparr>si_node := node\<rparr>))))"

definition si_peekKey :: "skip_iterator \<Rightarrow> (bytes \<times> skip_iterator) res" where
  "si_peekKey it =
     (if \<not> itr_valid (si_node it) then Inr ([], it)
      else bind_res (if kv_key (si_peek it) = [] then access (itr_key (si_list it) (si_node it))
                     else Inr (si_peek it)) (\<lambda>peek.
             let it1 = it\<lparr>si_peek := peek\<rparr>
             in if kv_key (si_upper it) \<noteq> [] \<and> si_cmp it peek (si_upper it) > 0 then Inr ([], it1)
                else Inr (kv_key peek, it1)))"

text \<open>
  \<^verbatim>\<open>MemorySegment::lookup\<close> and \<^verbatim>\<open>LogSegment::lookup\<close>: \<open>cmp\<close> is the comparison of the list, \<open>icmp\<close> the one
  the iterator receives.
\<close>

definition list_lookup :: "kv_compare \<Rightarrow> kv_compare \<Rightarrow> keyvalue skip_list \<Rightarrow> bytes \<Rightarrow> bytes \<Rightarrow> skip_iterator res" where
  "list_lookup cmp icmp s lower upper =
     bind_res (access (if lower \<noteq> [] then itr_seek cmp s (Key lower) else itr_seekToFirst s)) (\<lambda>node.
       Inr \<lparr>si_list = s, si_node = node, si_lower = Key lower, si_upper = Key upper,
            si_cmp = icmp, si_peek = kv_EMPTY\<rparr>)"

section \<open>The contract\<close>

definition within :: "bytes \<Rightarrow> keyvalue \<Rightarrow> bool" where
  "within upper kv \<longleftrightarrow> upper = [] \<or> kv_key kv \<le> upper"

definition si_at :: "skip_iterator \<Rightarrow> nat list \<Rightarrow> bool" where
  "si_at it rest \<longleftrightarrow>
     (\<exists>pre. sl_inv (si_list it) (pre @ rest) \<and> kv.ordered (keys_at (si_list it) (pre @ rest)) \<and>
        (\<forall>kv \<in> set (keys_at (si_list it) (pre @ rest)). kv_key kv \<noteq> [])) \<and>
     si_node it = first_node rest \<and> si_cmp it = kv_cmp \<and>
     (kv_key (si_peek it) = [] \<or> rest \<noteq> [] \<and> si_peek it = n_key (sl_heap (si_list it) ! hd rest))"

definition si_yields :: "skip_iterator \<Rightarrow> keyvalue list \<Rightarrow> bool" where
  "si_yields it kvs \<longleftrightarrow>
     (\<exists>rest. si_at it rest \<and> kvs = takeWhile (within (kv_key (si_upper it))) (keys_at (si_list it) rest))"

lemma si_at_node:
  assumes "si_at it (a # rest)"
  shows "itr_key (si_list it) (si_node it) = Some (n_key (sl_heap (si_list it) ! a))"
    and "itr_next (si_list it) (si_node it) = Some (first_node rest)"
    and "kv_key (n_key (sl_heap (si_list it) ! a)) \<noteq> []"
    and "\<And>it'. si_list it' = si_list it \<Longrightarrow> si_cmp it' = si_cmp it \<Longrightarrow> si_node it' = first_node rest \<Longrightarrow>
           kv_key (si_peek it') = [] \<Longrightarrow> si_at it' rest"
    and "\<And>it'. si_list it' = si_list it \<Longrightarrow> si_cmp it' = si_cmp it \<Longrightarrow> si_node it' = si_node it \<Longrightarrow>
           kv_key (si_peek it') = [] \<or> si_peek it' = n_key (sl_heap (si_list it) ! a) \<Longrightarrow> si_at it' (a # rest)"
proof -
  let ?s = "si_list it" and ?h = "sl_heap (si_list it)"
  obtain pre where pre: "sl_inv ?s (pre @ a # rest)" "kv.ordered (keys_at ?s (pre @ a # rest))"
    "\<forall>kv \<in> set (keys_at ?s (pre @ a # rest)). kv_key kv \<noteq> []"
    using assms by (auto simp: si_at_def)
  have node: "si_node it = Some a" "si_cmp it = kv_cmp" using assms by (simp_all add: si_at_def)
  note I = sl_invD [OF pre(1)]
  have a: "a < length ?h" using I(5) [of a] by simp
  have all0: "level ?h 0 (pre @ a # rest) = pre @ a # rest"
    using I(5) by (intro level_0 [OF I(1)]) auto
  have "linked ?h 0 0 ((pre @ [a]) @ rest)"
    using I(6) [of 0] all0 by (simp add: kMaxHeight_def)
  then have "linked ?h 0 a rest"
    unfolding linked_append [of ?h 0 0 "pre @ [a]"] by simp
  then have "nx ?h 0 a = first_node rest" by (rule linked_first)
  moreover have "node_at ?h a 0"
    using a I(1) by (intro node_at_level [OF I(1)]) (auto simp: heap_ok_def Suc_le_eq)
  ultimately show "itr_next ?s (si_node it) = Some (first_node rest)"
    by (simp add: itr_next_def node get_next_at)
  show "itr_key ?s (si_node it) = Some (n_key (?h ! a))" using a by (simp add: itr_key_def node)
  show "kv_key (n_key (?h ! a)) \<noteq> []" using pre(3) by (simp add: keys_at_def)
  show "si_at it' rest" if "si_list it' = si_list it" "si_cmp it' = si_cmp it" "si_node it' = first_node rest" "kv_key (si_peek it') = []" for it'
    using that pre node unfolding si_at_def by (intro conjI exI [of _ "pre @ [a]"]) simp_all
  show "si_at it' (a # rest)" if "si_list it' = si_list it" "si_cmp it' = si_cmp it" "si_node it' = si_node it"
    "kv_key (si_peek it') = [] \<or> si_peek it' = n_key (?h ! a)" for it'
    using that pre node unfolding si_at_def by (intro conjI exI [of _ pre]) simp_all
qed

lemma si_at_Nil: "si_at it [] \<Longrightarrow> si_node it = None \<and> kv_key (si_peek it) = []"
  by (auto simp: si_at_def)

lemma beyond_iff: "kv_key upper \<noteq> [] \<and> kv_cmp kv upper > 0 \<longleftrightarrow> \<not> within (kv_key upper) kv"
  by (auto simp: within_def kv_cmp_order not_le)

lemma si_yields_cases:
  assumes "si_yields it kvs"
  obtains "si_node it = None" "kvs = []"
  | a rest where "si_at it (a # rest)" "\<not> within (kv_key (si_upper it)) (n_key (sl_heap (si_list it) ! a))" "kvs = []"
  | a rest where "si_at it (a # rest)" "within (kv_key (si_upper it)) (n_key (sl_heap (si_list it) ! a))"
      "kvs = n_key (sl_heap (si_list it) ! a) # takeWhile (within (kv_key (si_upper it))) (keys_at (si_list it) rest)"
proof -
  obtain rest where r: "si_at it rest" "kvs = takeWhile (within (kv_key (si_upper it))) (keys_at (si_list it) rest)"
    using assms by (auto simp: si_yields_def)
  then show thesis using that si_at_Nil by (cases rest) (auto simp: keys_at_def split: if_splits)
qed

lemma si_peeked:
  assumes "si_at it (a # rest)"
  shows "(if kv_key (si_peek it) = [] then access (itr_key (si_list it) (si_node it)) else Inr (si_peek it)) =
           Inr (n_key (sl_heap (si_list it) ! a))"
    and "itr_valid (si_node it)" and "si_cmp it = kv_cmp"
  using assms si_at_node(1) [OF assms] by (auto simp: si_at_def itr_valid_def)

lemma si_peek_yields:
  assumes "si_yields it kvs"
  shows "\<exists>it'. si_peekKey it = Inr (case kvs of [] \<Rightarrow> [] | kv # _ \<Rightarrow> kv_key kv, it') \<and>
           si_yields it' kvs"
  using assms
proof (cases rule: si_yields_cases)
  case 1
  then show ?thesis using assms by (simp add: si_peekKey_def itr_valid_def)
next
  case (2 a rest)
  let ?it = "it\<lparr>si_peek := n_key (sl_heap (si_list it) ! a)\<rparr>"
  have "si_at ?it (a # rest)" by (rule si_at_node(5) [OF 2(1)]) simp_all
  moreover have "si_peekKey it = Inr ([], ?it)"
    unfolding si_peekKey_def si_peeked(1,3) [OF 2(1)] beyond_iff using si_peeked(2) [OF 2(1)] 2(2) by (simp add: Let_def)
  ultimately show ?thesis using 2 by (auto simp: si_yields_def keys_at_def intro!: exI [of _ "a # rest"])
next
  case (3 a rest)
  let ?it = "it\<lparr>si_peek := n_key (sl_heap (si_list it) ! a)\<rparr>"
  have "si_at ?it (a # rest)" by (rule si_at_node(5) [OF 3(1)]) simp_all
  moreover have "si_peekKey it = Inr (kv_key (n_key (sl_heap (si_list it) ! a)), ?it)"
    unfolding si_peekKey_def si_peeked(1,3) [OF 3(1)] beyond_iff using si_peeked(2) [OF 3(1)] 3(2) by (simp add: Let_def)
  ultimately show ?thesis using 3 by (auto simp: si_yields_def keys_at_def intro!: exI [of _ "a # rest"])
qed

lemma si_next_yields:
  assumes "si_yields it kvs"
  shows "\<exists>it'. si_next it = Inr (case kvs of [] \<Rightarrow> kv_EMPTY | kv # _ \<Rightarrow> kv, it') \<and>
           si_yields it' (tl kvs)"
  using assms
proof (cases rule: si_yields_cases)
  case 1
  then show ?thesis using assms by (simp add: si_next_def itr_valid_def)
next
  case (2 a rest)
  let ?it = "it\<lparr>si_peek := kv_EMPTY\<rparr>"
  have "si_at ?it (a # rest)" by (rule si_at_node(5) [OF 2(1)]) simp_all
  moreover have "si_next it = Inr (kv_EMPTY, ?it)"
    unfolding si_next_def si_peeked(1,3) [OF 2(1)] bind_res_Inr Let_def beyond_iff
    using si_peeked(2) [OF 2(1)] 2(2) by simp
  ultimately show ?thesis using 2 by (auto simp: si_yields_def keys_at_def intro!: exI [of _ "a # rest"])
next
  case (3 a rest)
  let ?it = "it\<lparr>si_peek := kv_EMPTY, si_node := first_node rest\<rparr>"
  have "si_at ?it rest" by (rule si_at_node(4) [OF 3(1)]) simp_all
  moreover have "si_next it = Inr (n_key (sl_heap (si_list it) ! a), ?it)"
    unfolding si_next_def si_peeked(1,3) [OF 3(1)] bind_res_Inr Let_def beyond_iff si_at_node(2) [OF 3(1)]
    using si_peeked(2) [OF 3(1)] 3(2) by simp
  ultimately show ?thesis using 3 by (auto simp: si_yields_def intro!: exI [of _ rest])
qed

lemma si_yields_run:
  assumes "si_yields it kvs"
  shows "sorted_kvs kvs" and "kv \<in> set kvs \<Longrightarrow> kv_key kv \<noteq> []"
proof -
  obtain pre rest where r: "kv.ordered (keys_at (si_list it) (pre @ rest))"
    "\<forall>kv \<in> set (keys_at (si_list it) (pre @ rest)). kv_key kv \<noteq> []"
    "kvs = takeWhile (within (kv_key (si_upper it))) (keys_at (si_list it) rest)"
    using assms by (auto simp: si_yields_def si_at_def)
  have app: "keys_at (si_list it) (pre @ rest) = keys_at (si_list it) pre @ keys_at (si_list it) rest"
    by (simp add: keys_at_def)
  have "sorted_kvs (keys_at (si_list it) rest)"
    using r(1) unfolding app by (simp add: sorted_wrt_append kv_cmp_order)
  then show "sorted_kvs kvs" unfolding r(3) by (metis sorted_wrt_append takeWhile_dropWhile_id)
  show "kv_key kv \<noteq> []" if "kv \<in> set kvs"
    using that r(2) unfolding r(3) app by (auto dest: set_takeWhileD)
qed

interpretation skip_it: lookup_iterator si_peekKey si_next si_yields
proof unfold_locales
  fix it kv kvs
  show "si_yields it [] \<Longrightarrow> \<exists>it'. si_peekKey it = Inr ([], it') \<and> si_yields it' []"
    using si_peek_yields [of it "[]"] by simp
  show "si_yields it (kv # kvs) \<Longrightarrow>
      \<exists>it'. si_peekKey it = Inr (kv_key kv, it') \<and> si_yields it' (kv # kvs)"
    using si_peek_yields [of it "kv # kvs"] by simp
  show "si_yields it [] \<Longrightarrow> \<exists>kv it'. si_next it = Inr (kv, it') \<and> kv_key kv = [] \<and> si_yields it' []"
    using si_next_yields [of it "[]"] by auto
  show "si_yields it (kv # kvs) \<Longrightarrow> \<exists>it'. si_next it = Inr (kv, it') \<and> si_yields it' kvs"
    using si_next_yields [of it "kv # kvs"] by auto
  show "si_yields it kvs \<Longrightarrow> sorted_kvs kvs" by (rule si_yields_run)
  show "si_yields it kvs \<Longrightarrow> kv \<in> set kvs \<Longrightarrow> kv_key kv \<noteq> []" by (rule si_yields_run)
qed

section \<open>The range of a lookup\<close>

definition mem_range :: "bytes \<Rightarrow> bytes \<Rightarrow> keyvalue \<Rightarrow> bool" where
  "mem_range lower upper kv \<longleftrightarrow> (lower = [] \<or> lower \<le> kv_key kv) \<and> within upper kv"

lemma list_lookup_yields:
  assumes "sl_repr kv_cmp s kvs" and "\<forall>kv \<in> set kvs. kv_key kv \<noteq> []"
  shows "\<exists>it. list_lookup kv_cmp kv_cmp s lower upper = Inr it \<and> si_yields it (filter (mem_range lower upper) kvs)"
proof -
  obtain bs as where sp: "split_at kv_cmp s (Key lower) bs as" "kvs = keys_at s (bs @ as)"
    using kv.repr_split [OF assms(1)] by blast
  have ord: "kv.ordered (keys_at s (bs @ as))" using assms(1) sp(2) by (simp add: sl_repr_def)
  have inv: "sl_inv s (bs @ as)" using sp(1) by (simp add: split_at_def)
  have less: "\<forall>x \<in> set (keys_at s bs). kv_key x < lower" and ge: "\<forall>x \<in> set (keys_at s as). lower \<le> kv_key x"
    using sp(1) by (auto simp: split_at_def keys_at_def kv_cmp_order not_less)
  have start: "\<exists>rest pre. (if lower \<noteq> [] then itr_seek kv_cmp s (Key lower) else itr_seekToFirst s) = Some (first_node rest)
      \<and> bs @ as = pre @ rest \<and> keys_at s rest = filter (\<lambda>kv. lower = [] \<or> lower \<le> kv_key kv) kvs"
  proof (cases "lower = []")
    case True
    have "linked (sl_heap s) 0 0 (bs @ as)"
      using sl_invD(6) [OF inv, of 0] level_0 [OF sl_invD(1) [OF inv], of "bs @ as"] sl_invD(5) [OF inv]
      by (simp add: kMaxHeight_def)
    then have "itr_seekToFirst s = Some (first_node (bs @ as))"
      using node_at_head [OF sl_invD(1) [OF inv], of 0] linked_first
      by (simp add: itr_seekToFirst_def get_next_at kMaxHeight_def)
    then show ?thesis using True sp(2) by (intro exI [of _ "bs @ as"] exI [of _ "[]"]) simp
  next
    case False
    obtain prev where "findGreaterOrEqual kv_cmp s (Key lower) = Some (first_node as, prev)"
      using split_at_find [OF sp(1)] by blast
    then have "itr_seek kv_cmp s (Key lower) = Some (first_node as)" by (simp add: itr_seek_def)
    moreover have "filter (\<lambda>kv. lower = [] \<or> lower \<le> kv_key kv) kvs = keys_at s as"
    proof -
      have "kvs = keys_at s bs @ keys_at s as" using sp(2) by (simp add: keys_at_def)
      moreover have "filter (\<lambda>kv. lower \<le> kv_key kv) (keys_at s bs) = []"
        using less by (auto simp: filter_empty_conv)
      moreover have "filter (\<lambda>kv. lower \<le> kv_key kv) (keys_at s as) = keys_at s as"
        using ge by (simp add: filter_id_conv)
      ultimately show ?thesis using False by simp
    qed
    ultimately show ?thesis using False by (intro exI [of _ as] exI [of _ bs]) simp
  qed
  then obtain rest pre where r: "(if lower \<noteq> [] then itr_seek kv_cmp s (Key lower) else itr_seekToFirst s) = Some (first_node rest)"
    "bs @ as = pre @ rest" "keys_at s rest = filter (\<lambda>kv. lower = [] \<or> lower \<le> kv_key kv) kvs" by blast
  let ?it = "\<lparr>si_list = s, si_node = first_node rest, si_lower = Key lower, si_upper = Key upper,
      si_cmp = kv_cmp, si_peek = kv_EMPTY\<rparr>"
  have "list_lookup kv_cmp kv_cmp s lower upper = Inr ?it"
    unfolding list_lookup_def r(1) by simp
  moreover have "si_at ?it rest"
    using inv ord assms(2) sp(2) r(2) by (auto simp: si_at_def)
  moreover have "takeWhile (within upper) (keys_at s rest) = filter (mem_range lower upper) kvs"
  proof -
    have "sorted_kvs kvs" using ord sp(2) by (simp add: kv_cmp_order)
    then have "sorted_kvs (keys_at s rest)" unfolding r(3) by (rule sorted_wrt_filter)
    then have "takeWhile (within upper) (keys_at s rest) = filter (within upper) (keys_at s rest)"
      by (rule takeWhile_sorted_split(1)) (auto simp: within_def)
    then show ?thesis by (simp add: r(3) mem_range_def [abs_def] conj_commute)
  qed
  ultimately show ?thesis by (auto simp: si_yields_def)
qed

section \<open>Properties\<close>

text \<open>A lookup in a skip list of pairs, drained through \<^verbatim>\<open>next\<close>, returns exactly the pairs between the
  bounds, in order, and ends.\<close>

theorem list_lookup_range:
  assumes "sl_repr kv_cmp s kvs" and "\<forall>kv \<in> set kvs. kv_key kv \<noteq> []"
  shows "\<exists>it. list_lookup kv_cmp kv_cmp s lower upper = Inr it \<and>
           drain si_next it = Some (Inr (filter (mem_range lower upper) kvs))"
  using list_lookup_yields [OF assms, of lower upper] skip_it.drain_yields by blast

theorem list_lookup_range_witness:
  "\<exists>it. list_lookup kv_cmp kv_cmp (newSkipList (\<lambda>i. 0) kv_EMPTY) [1] [2] = Inr it \<and>
     drain si_next it = Some (Inr [])"
  using list_lookup_range [OF newSkipList_repr, of "\<lambda>i. 0" kv_EMPTY "[1]" "[2]"] by simp

end
