(* ===== verification/LogRecovery.thy ===== *)
theory LogRecovery
  imports LogFile
begin

text \<open>
  Correctness of the log: what the writer produces is a sequence of encoded units (single records and
  batches), the reader returns the pairs of those units, and on a log that was cut off anywhere it
  returns the pairs of the complete units, and of a batch that was cut off either nothing or its
  complete entries, as the mode says.
\<close>

section \<open>Units of the log\<close>

datatype log_unit = Single keyvalue | Batch "keyvalue list"

definition enc_entry :: "keyvalue \<Rightarrow> bytes" where
  "enc_entry kv =
     writeLEuint32 (of_nat (length (kv_key kv))) @ kv_key kv @
     writeLEuint32 (of_nat (length (kv_value kv))) @ kv_value kv"

fun enc_unit :: "log_unit \<Rightarrow> bytes" where
  "enc_unit (Single kv) = enc_entry kv"
| "enc_unit (Batch es) =
     writeLEuint32 (- of_nat (length es)) @ concat (map enc_entry es) @ writeLEuint32 (- of_nat (length es))"

fun unit_kvs :: "log_unit \<Rightarrow> keyvalue list" where
  "unit_kvs (Single kv) = [kv]"
| "unit_kvs (Batch es) = es"

definition kv_ok :: "keyvalue \<Rightarrow> bool" where
  "kv_ok kv \<longleftrightarrow> length (kv_key kv) < 2 ^ 31 \<and> length (kv_value kv) < 2 ^ 31"

fun unit_ok :: "log_unit \<Rightarrow> bool" where
  "unit_ok (Single kv) = kv_ok kv"
| "unit_ok (Batch es) = (es \<noteq> [] \<and> length es < 2 ^ 31 \<and> (\<forall>kv \<in> set es. kv_ok kv))"

section \<open>What the writer writes\<close>

text \<open>A put, and a batch as \<^verbatim>\<open>MemorySegment::write\<close> logs it.\<close>

fun log_unit_write :: "log_file \<Rightarrow> log_unit \<Rightarrow> log_file" where
  "log_unit_write f (Single kv) = log_write f (kv_key kv) (kv_value kv)"
| "log_unit_write f (Batch es) =
     endBatch (foldl (\<lambda>f kv. log_write f (kv_key kv) (kv_value kv)) (startBatch f (length es)) es) (length es)"

lemma log_bytes_flush [simp]: "fb_file (fb_flush b) @ fb_pending (fb_flush b) = fb_file b @ fb_pending b"
  by (simp add: fb_flush_def)

lemma log_write_bytes: "log_bytes (log_write f k v) = log_bytes f @ enc_entry (mk_kv k v)"
  by (simp add: log_bytes_def log_write_def Let_def enc_entry_def fb_write_def)

lemma log_write_keeps:
  "lf_inBatch (log_write f k v) = lf_inBatch f" "lf_disableFlush (log_write f k v) = lf_disableFlush f"
  "fb_open (lf_buf (log_write f k v)) = fb_open (lf_buf f)"
  by (simp_all add: log_write_def Let_def fb_write_def fb_flush_def)

lemma foldl_log_write:
  "log_bytes (foldl (\<lambda>f kv. log_write f (kv_key kv) (kv_value kv)) f es) = log_bytes f @ concat (map enc_entry es) \<and>
   fb_open (lf_buf (foldl (\<lambda>f kv. log_write f (kv_key kv) (kv_value kv)) f es)) = fb_open (lf_buf f) \<and>
   lf_disableFlush (foldl (\<lambda>f kv. log_write f (kv_key kv) (kv_value kv)) f es) = lf_disableFlush f"
  by (induction es arbitrary: f) (simp_all add: log_write_bytes log_write_keeps)

lemma log_unit_write_bytes: "log_bytes (log_unit_write f u) = log_bytes f @ enc_unit u"
proof (cases u)
  case (Single kv)
  then show ?thesis by (simp add: log_write_bytes)
next
  case (Batch es)
  let ?f = "foldl (\<lambda>f kv. log_write f (kv_key kv) (kv_value kv)) (startBatch f (length es)) es"
  have "log_bytes ?f = log_bytes f @ writeLEuint32 (- of_nat (length es)) @ concat (map enc_entry es)"
    using foldl_log_write [of "startBatch f (length es)" es]
    by (simp add: startBatch_def log_bytes_def fb_write_def)
  moreover have "log_bytes (endBatch g n) = log_bytes g @ writeLEuint32 (- of_nat n)" for g n
    by (simp add: endBatch_def log_bytes_def fb_write_def)
  ultimately show ?thesis using Batch by simp
qed

text \<open>Unless flushing is disabled, every unit has reached the file when the call returns.\<close>

definition log_idle :: "log_file \<Rightarrow> bool" where
  "log_idle f \<longleftrightarrow> fb_open (lf_buf f) \<and> \<not> lf_disableFlush f \<and> \<not> lf_inBatch f \<and> fb_pending (lf_buf f) = []"

lemma log_unit_write_idle:
  assumes "log_idle f"
  shows "log_idle (log_unit_write f u)"
proof (cases u)
  case (Single kv)
  then show ?thesis
    using assms by (simp add: log_idle_def log_write_def Let_def fb_write_def fb_flush_def)
next
  case (Batch es)
  have "fb_open (lf_buf (startBatch f (length es)))" "\<not> lf_disableFlush (startBatch f (length es))"
    using assms by (simp_all add: log_idle_def startBatch_def fb_write_def)
  then show ?thesis
    using Batch foldl_log_write [of "startBatch f (length es)" es]
    by (simp add: log_idle_def endBatch_def fb_write_def fb_flush_def)
qed

lemma log_units_written:
  "log_bytes (foldl log_unit_write f us) = log_bytes f @ concat (map enc_unit us)"
  "log_idle f \<Longrightarrow> log_idle (foldl log_unit_write f us)"
  by (induction us arbitrary: f) (simp_all add: log_unit_write_bytes log_unit_write_idle)

section \<open>Parsing\<close>

text \<open>
  The reader \<open>m\<close> accepts exactly the bytes \<open>b\<close>: it returns \<open>x\<close> on them, and on every proper prefix it
  fails with the stream's exception.
\<close>

abbreviation strm :: "bytes \<Rightarrow> istream" where
  "strm b \<equiv> \<lparr>is_rest = b, is_failed = False\<rparr>"

abbreviation dead :: istream where
  "dead \<equiv> \<lparr>is_rest = [], is_failed = True\<rparr>"

definition parses :: "'a rd \<Rightarrow> bytes \<Rightarrow> 'a \<Rightarrow> bool" where
  "parses m b x \<longleftrightarrow>
     (\<forall>r. m (strm (b @ r)) = (Inr x, strm r)) \<and>
     (\<forall>n < length b. m (strm (take n b)) = (Inl IosFailure, dead))"

lemma parses_full: "parses m b x \<Longrightarrow> m (strm (b @ r)) = (Inr x, strm r)"
  by (simp add: parses_def)

lemma parses_cut: "parses m b x \<Longrightarrow> n < length b \<Longrightarrow> m (strm (take n b)) = (Inl IosFailure, dead)"
  by (simp add: parses_def)

lemma parses_return: "parses (return_rd x) [] x"
  by (simp add: parses_def return_rd_def)

lemma parses_bind:
  assumes "parses m b x" "parses (f x) c y"
  shows "parses (bind_rd m f) (b @ c) y"
  unfolding parses_def
proof (intro conjI allI impI)
  fix r
  show "bind_rd m f (strm ((b @ c) @ r)) = (Inr y, strm r)"
    using assms by (simp add: bind_rd_def parses_def)
next
  fix n assume n: "n < length (b @ c)"
  show "bind_rd m f (strm (take n (b @ c))) = (Inl IosFailure, dead)"
  proof (cases "n < length b")
    case True
    then show ?thesis using parses_cut [OF assms(1) True] by (simp add: bind_rd_def)
  next
    case False
    then have "take n (b @ c) = b @ take (n - length b) c" "n - length b < length c" using n by auto
    then show ?thesis
      using parses_full [OF assms(1), of "take (n - length b) c"] parses_cut [OF assms(2)]
      by (simp add: bind_rd_def)
  qed
qed

lemma parses_read: "parses (stream_read (length b)) b b"
  by (simp add: parses_def stream_read_def)

lemma length_writeLE32 [simp]: "length (writeLEuint32 v) = 4"
  by (simp add: writeLEuint32_def)

lemma parses_read32: "parses stream_read32 (writeLEuint32 v) v"
proof -
  let ?f = "\<lambda>b. case readLEuint32 b of Some v \<Rightarrow> return_rd v | None \<Rightarrow> \<lambda>s. (Inl UndefinedBehaviour, s)"
  have "readLEuint32 (writeLEuint32 v) = Some v" using readLE32_write [of v "[]"] by simp
  then have "parses (?f (writeLEuint32 v)) [] v" by (simp add: parses_return)
  then show ?thesis
    unfolding stream_read32_def
    using parses_bind [of "stream_read 4" "writeLEuint32 v" "writeLEuint32 v" ?f "[]" v]
      parses_read [of "writeLEuint32 v"] by simp
qed

lemma sint_of_nat32: "m < 2 ^ 31 \<Longrightarrow> sint (of_nat m :: u32) = int m" "m < 2 ^ 31 \<Longrightarrow> unat (of_nat m :: u32) = m"
  by (simp_all add: sint_uint uint_nat unat_of_nat signed_take_bit_eq_if_positive
      take_bit_nat_eq_self take_bit_int_eq_self bit_iff_odd)

lemma parses_buffer:
  assumes "length b < 2 ^ 31"
  shows "parses (read_buffer (of_nat (length b))) b b"
proof -
  have "read_buffer (of_nat (length b)) = stream_read (length b)"
    using sint_of_nat32 [OF assms] by (simp add: read_buffer_def fun_eq_iff)
  then show ?thesis by (simp add: parses_read)
qed

lemma parses_rest:
  assumes "kv_ok kv"
  shows "parses (read_rest (of_nat (length (kv_key kv)))) (kv_key kv @ writeLEuint32 (of_nat (length (kv_value kv))) @ kv_value kv) kv"
  unfolding read_rest_def
  using assms
  by (intro parses_bind [OF parses_buffer] parses_bind [OF parses_read32]
      parses_bind [OF parses_buffer, of "kv_value kv" _ "[]", simplified])
     (simp_all add: kv_ok_def parses_return)

lemma parses_entry: "kv_ok kv \<Longrightarrow> parses read_entry (enc_entry kv) kv"
  unfolding read_entry_def enc_entry_def by (rule parses_bind [where f = read_rest, OF parses_read32 parses_rest])

section \<open>Batches\<close>

text \<open>How many of the first encodings lie whole within \<open>n\<close> bytes.\<close>

fun complete :: "('a \<Rightarrow> nat) \<Rightarrow> 'a list \<Rightarrow> nat \<Rightarrow> nat" where
  "complete len [] n = 0"
| "complete len (x # xs) n = (if len x \<le> n then Suc (complete len xs (n - len x)) else 0)"

lemma batch_loop_full:
  "\<forall>kv \<in> set es. kv_ok kv \<Longrightarrow> batch_loop (length es) (strm (concat (map enc_entry es) @ r)) = (es, None, strm r)"
proof (induction es)
  case (Cons kv es)
  then show ?case
    using parses_full [OF parses_entry [of kv], of "concat (map enc_entry es) @ r"] by simp
qed simp

lemma batch_loop_cut:
  "\<forall>kv \<in> set es. kv_ok kv \<Longrightarrow> n < length (concat (map enc_entry es)) \<Longrightarrow>
     batch_loop (length es) (strm (take n (concat (map enc_entry es)))) =
       (take (complete (\<lambda>kv. length (enc_entry kv)) es n) es, Some IosFailure, dead)"
proof (induction es arbitrary: n)
  case (Cons kv es)
  have p: "parses read_entry (enc_entry kv) kv" using Cons.prems(1) by (intro parses_entry) simp
  show ?case
  proof (cases "n < length (enc_entry kv)")
    case True
    then show ?thesis using parses_cut [OF p True] by simp
  next
    case False
    let ?n = "n - length (enc_entry kv)"
    have "take n (concat (map enc_entry (kv # es))) = enc_entry kv @ take ?n (concat (map enc_entry es))"
      using False by simp
    moreover have "batch_loop (length es) (strm (take ?n (concat (map enc_entry es)))) =
        (take (complete (\<lambda>kv. length (enc_entry kv)) es ?n) es, Some IosFailure, dead)"
      using Cons.prems False by (intro Cons.IH) auto
    ultimately show ?thesis
      using False parses_full [OF p, of "take ?n (concat (map enc_entry es))"] by simp
  qed
qed simp

lemma complete_all: "length (concat (map enc xs)) \<le> n \<Longrightarrow> complete (\<lambda>x. length (enc x)) xs n = length xs"
  by (induction xs arbitrary: n) auto

lemma sint_neg_len:
  assumes "0 < n" "n < 2 ^ 31"
  shows "sint (- of_nat n :: u32) = - int n"
proof -
  have "sint (- of_nat n :: u32) = sint (word_of_int (- int n) :: u32)" by simp
  also have "\<dots> = signed_take_bit 31 (- int n)" by (simp only: sint_sbintrunc') simp
  also have "\<dots> = - int n" using assms by (intro signed_take_bit_int_eq_self) simp_all
  finally show ?thesis .
qed

text \<open>The end mark of a batch.\<close>

lemma end_of_batch_simps:
  "end_of_batch v (strm (writeLEuint32 v @ r)) = (None, strm r)"
  "n < 4 \<Longrightarrow> end_of_batch v (strm (take n (writeLEuint32 v))) = (Some IosFailure, dead)"
  using parses_full [OF parses_read32 [of v], of r] parses_cut [OF parses_read32 [of v], of n]
  by (simp_all add: end_of_batch_def)

definition batch_tail :: "keyvalue list \<Rightarrow> bytes" where
  "batch_tail es = concat (map enc_entry es) @ writeLEuint32 (- of_nat (length es))"

lemma enc_batch: "enc_unit (Batch es) = writeLEuint32 (- of_nat (length es)) @ batch_tail es"
  by (simp add: batch_tail_def)

lemma readBatch_full:
  assumes "unit_ok (Batch es)"
  shows "readBatch mode (- of_nat (length es)) (strm (batch_tail es @ r)) = (Inr es, strm r)"
proof -
  have s: "sint (- of_nat (length es) :: u32) = - int (length es)" "length es < 2 ^ 31"
    using assms by (auto intro: sint_neg_len)
  have "batch_loop (length es) (strm (batch_tail es @ r)) =
      (es, None, strm (writeLEuint32 (- of_nat (length es)) @ r))"
    using assms batch_loop_full [of es "writeLEuint32 (- of_nat (length es)) @ r"] by (simp add: batch_tail_def)
  then show ?thesis using s by (simp add: readBatch_def end_of_batch_simps)
qed

lemma readBatch_cut:
  assumes "unit_ok (Batch es)" "n < length (batch_tail es)"
  shows "readBatch mode (- of_nat (length es)) (strm (take n (batch_tail es))) =
     (if mode = applyPartial then (Inr (take (complete (\<lambda>kv. length (enc_entry kv)) es n) es), dead)
      else (Inl StdException, dead))"
proof -
  let ?c = "concat (map enc_entry es)"
  have s: "sint (- of_nat (length es) :: u32) = - int (length es)" "length es < 2 ^ 31"
    using assms(1) by (auto intro: sint_neg_len)
  have ok: "\<forall>kv \<in> set es. kv_ok kv" using assms(1) by simp
  have eq: "take n (batch_tail es) = take n ?c @ take (n - length ?c) (writeLEuint32 (- of_nat (length es)))"
    by (simp add: batch_tail_def)
  show ?thesis
  proof (cases "n < length ?c")
    case True
    then have "take n (batch_tail es) = take n ?c" by (simp add: eq)
    then show ?thesis
      using batch_loop_cut [OF ok True] s by (simp add: readBatch_def catchable_def)
  next
    case False
    then have "take n (batch_tail es) = ?c @ take (n - length ?c) (writeLEuint32 (- of_nat (length es)))"
      by (simp add: eq)
    moreover have "n - length ?c < 4" using assms(2) False by (simp add: batch_tail_def)
    moreover have "complete (\<lambda>kv. length (enc_entry kv)) es n = length es"
      using False by (intro complete_all) simp
    ultimately show ?thesis
      using batch_loop_full [OF ok] s by (simp add: readBatch_def end_of_batch_simps catchable_def)
  qed
qed

section \<open>Reading the log back\<close>

lemma read_loop_unit:
  assumes "unit_ok u"
  shows "read_loop mode (strm (enc_unit u @ r)) =
     (unit_kvs u @ fst (read_loop mode (strm r)), snd (read_loop mode (strm r)))"
proof (cases u)
  case (Single kv)
  let ?n = "of_nat (length (kv_key kv)) :: u32"
  have ok: "kv_ok kv" using assms Single by simp
  have "\<not> sint ?n < 0" using ok sint_of_nat32(1) [of "length (kv_key kv)"] by (simp add: kv_ok_def)
  moreover have "stream_read32 (strm (enc_unit u @ r)) =
      (Inr ?n, strm ((kv_key kv @ writeLEuint32 (of_nat (length (kv_value kv))) @ kv_value kv) @ r))"
    using parses_full [OF parses_read32 [of ?n]] Single by (simp add: enc_entry_def)
  moreover note parses_full [OF parses_rest [OF ok], of r]
  ultimately show ?thesis
    using Single by (subst read_loop.simps) (simp split: prod.split)
next
  case (Batch es)
  let ?n = "- of_nat (length es) :: u32"
  have "sint ?n < 0" using assms Batch sint_neg_len [of "length es"] by auto
  moreover have "stream_read32 (strm (enc_unit u @ r)) = (Inr ?n, strm (batch_tail es @ r))"
    using parses_full [OF parses_read32 [of ?n]] Batch by (simp add: batch_tail_def)
  moreover note readBatch_full [of es mode r]
  ultimately show ?thesis
    using Batch assms by (subst read_loop.simps) (simp split: prod.split)
qed

lemma read_loop_dead: "read_loop mode dead = ([], IosFailure)"
  by (subst read_loop.simps) simp

lemma read_loop_end: "read_loop mode (strm []) = ([], IosFailure)"
  using parses_cut [OF parses_read32 [of 0], of 0] by (subst read_loop.simps) simp

text \<open>What is recovered from a unit that is cut off after \<open>n\<close> bytes.\<close>

fun partial_kvs :: "BatchReadMode \<Rightarrow> log_unit \<Rightarrow> nat \<Rightarrow> keyvalue list" where
  "partial_kvs mode (Single kv) n = []"
| "partial_kvs mode (Batch es) n =
     (if mode = applyPartial then take (complete (\<lambda>kv. length (enc_entry kv)) es (n - 4)) es else [])"

lemma complete_small: "n < 8 \<Longrightarrow> complete (\<lambda>kv. length (enc_entry kv)) es n = 0"
  by (cases es) (simp_all add: enc_entry_def)

lemma read_loop_cut:
  assumes "unit_ok u" "n < length (enc_unit u)"
  shows "\<exists>e. read_loop mode (strm (take n (enc_unit u))) = (partial_kvs mode u n, e) \<and> catchable e"
proof (cases "n < 4")
  case True
  have "stream_read32 (strm (take n (writeLEuint32 v @ b))) = (Inl IosFailure, dead)" for v b
    using parses_cut [OF parses_read32 [of v], of n] True by simp
  moreover have "\<exists>v b. enc_unit u = writeLEuint32 v @ b"
    by (cases u) (auto simp: enc_entry_def)
  moreover have "partial_kvs mode u n = []" using True by (cases u) (simp_all add: complete_small)
  ultimately have "read_loop mode (strm (take n (enc_unit u))) = (partial_kvs mode u n, IosFailure)"
    by (subst read_loop.simps) auto
  then show ?thesis by (simp add: catchable_def)
next
  case n4: False
  show ?thesis
  proof (cases u)
    case (Single kv)
    let ?n = "of_nat (length (kv_key kv)) :: u32"
    let ?b = "kv_key kv @ writeLEuint32 (of_nat (length (kv_value kv))) @ kv_value kv"
    have ok: "kv_ok kv" using assms Single by simp
    have "\<not> sint ?n < 0" using ok sint_of_nat32(1) [of "length (kv_key kv)"] by (simp add: kv_ok_def)
    moreover have "stream_read32 (strm (take n (enc_unit u))) = (Inr ?n, strm (take (n - 4) ?b))"
      using parses_full [OF parses_read32 [of ?n], of "take (n - 4) ?b"] Single n4 by (simp add: enc_entry_def)
    moreover have "read_rest ?n (strm (take (n - 4) ?b)) = (Inl IosFailure, dead)"
      using assms(2) Single n4 by (intro parses_cut [OF parses_rest [OF ok]]) (simp add: enc_entry_def)
    ultimately have "read_loop mode (strm (take n (enc_unit u))) = ([], IosFailure)"
      by (subst read_loop.simps) simp
    then show ?thesis using Single by (simp add: catchable_def)
  next
    case (Batch es)
    let ?n = "- of_nat (length es) :: u32"
    have "sint ?n < 0" using assms Batch sint_neg_len [of "length es"] by auto
    moreover have "stream_read32 (strm (take n (enc_unit u))) = (Inr ?n, strm (take (n - 4) (batch_tail es)))"
    proof -
      have "take n (enc_unit u) = writeLEuint32 ?n @ take (n - 4) (batch_tail es)"
        unfolding Batch enc_batch using n4 by simp
      then show ?thesis by (simp only: parses_full [OF parses_read32 [of ?n]])
    qed
    moreover have "n - 4 < length (batch_tail es)" using assms(2) n4 unfolding Batch enc_batch by simp
    moreover note readBatch_cut [of es "n - 4" mode]
    ultimately show ?thesis
      using assms(1) Batch
      by (subst read_loop.simps) (auto simp: read_loop_dead catchable_def)
  qed
qed

text \<open>The pairs recovered from the first \<open>n\<close> bytes of a log.\<close>

fun recovered :: "BatchReadMode \<Rightarrow> log_unit list \<Rightarrow> nat \<Rightarrow> keyvalue list" where
  "recovered mode [] n = []"
| "recovered mode (u # us) n =
     (if length (enc_unit u) \<le> n then unit_kvs u @ recovered mode us (n - length (enc_unit u))
      else partial_kvs mode u n)"

lemma read_loop_units:
  assumes "\<forall>u \<in> set us. unit_ok u"
  shows "\<exists>e. read_loop mode (strm (take n (concat (map enc_unit us)))) = (recovered mode us n, e) \<and> catchable e"
  using assms
proof (induction us arbitrary: n)
  case Nil
  then show ?case by (simp add: read_loop_end catchable_def)
next
  case (Cons u us)
  show ?case
  proof (cases "length (enc_unit u) \<le> n")
    case True
    then have "take n (concat (map enc_unit (u # us))) =
        enc_unit u @ take (n - length (enc_unit u)) (concat (map enc_unit us))" by simp
    then show ?thesis
      using True Cons.IH [of "n - length (enc_unit u)"] Cons.prems read_loop_unit [of u mode] by auto
  next
    case False
    then have "take n (concat (map enc_unit (u # us))) = take n (enc_unit u)" by simp
    then show ?thesis using False Cons.prems read_loop_cut [of u n mode] by simp
  qed
qed

lemma read_log_units:
  assumes "\<forall>u \<in> set us. unit_ok u"
  shows "read_log mode (take n (concat (map enc_unit us))) =
           (recovered mode us n, if mode = returnOpenError then Some StdException else None)"
  using read_loop_units [OF assms, of mode n] by (auto simp: read_log_def)

lemma recovered_all: "length (concat (map enc_unit us)) \<le> n \<Longrightarrow> recovered mode us n = concat (map unit_kvs us)"
  by (induction us arbitrary: n) auto

text \<open>Unless partial batches are applied, what is recovered is a whole number of units.\<close>

lemma recovered_whole:
  "mode \<noteq> applyPartial \<Longrightarrow> recovered mode us n = concat (map unit_kvs (take (complete (\<lambda>u. length (enc_unit u)) us n) us))"
proof (induction us arbitrary: n)
  case (Cons u us)
  then have "partial_kvs mode u n = []" by (cases u) simp_all
  then show ?case using Cons by simp
qed simp

lemma complete_le: "complete len xs m \<le> length xs"
  by (induction xs arbitrary: m) auto

section \<open>Properties\<close>

text \<open>C20. Recovery of a log that was cut off at any byte: the pairs read are those of the units that lie whole
  within the file, so no batch is applied in part, unless the mode is \<^verbatim>\<open>applyPartial\<close>, where the complete
  entries of the last batch are added; only \<^verbatim>\<open>returnOpenError\<close> throws.\<close>

theorem log_cut_recovery:
  assumes "\<forall>u \<in> set us. unit_ok u"
  shows "read_log mode (take n (concat (map enc_unit us))) =
           (recovered mode us n, if mode = returnOpenError then Some StdException else None) \<and>
         (mode \<noteq> applyPartial \<longrightarrow>
            (\<exists>c \<le> length us. recovered mode us n = concat (map unit_kvs (take c us)))) \<and>
         (length (concat (map enc_unit us)) \<le> n \<longrightarrow> recovered mode us n = concat (map unit_kvs us))"
  using read_log_units [OF assms, of mode n] complete_le recovered_whole recovered_all by blast

theorem log_cut_recovery_witness:
  "read_log discardPartial (take 30 (concat (map enc_unit [Single (mk_kv [1] [2]), Batch [mk_kv [3] [4], mk_kv [5] [6]]]))) =
     ([mk_kv [1] [2]], None)"
  using log_cut_recovery [of "[Single (mk_kv [1] [2]), Batch [mk_kv [3] [4], mk_kv [5] [6]]]" discardPartial 30]
  by (simp add: kv_ok_def enc_entry_def)

text \<open>In mode \<^verbatim>\<open>returnOpenError\<close> reading fails on every log, also on a complete one: the read at the end of
  the file throws before the end-of-file test is reached.\<close>

theorem open_error_always:
  assumes "\<forall>u \<in> set us. unit_ok u"
  shows "snd (read_log returnOpenError (concat (map enc_unit us))) = Some StdException"
  using read_log_units [OF assms, of returnOpenError "length (concat (map enc_unit us))"] by simp

theorem open_error_always_witness:
  "snd (read_log returnOpenError (concat (map enc_unit [Single (mk_kv [1] [2])]))) = Some StdException"
  by (rule open_error_always) (simp add: kv_ok_def)

text \<open>C37. Durability: unless flushing is disabled, when a put or a batch returns, the file holds everything
  written so far, in the format the reader accepts, and nothing is left in the buffer.\<close>

theorem log_durable:
  assumes "dbpath \<noteq> ''''" and "enableSyncWrite opts \<or> \<not> disableWriteFlush opts"
  shows "fb_file (lf_buf (foldl log_unit_write (newLogFile dbpath opts) us)) = concat (map enc_unit us) \<and>
         fb_pending (lf_buf (foldl log_unit_write (newLogFile dbpath opts) us)) = []"
proof -
  have "log_idle (newLogFile dbpath opts)" "log_bytes (newLogFile dbpath opts) = []"
    using assms by (auto simp: log_idle_def newLogFile_def fb_open_trunc_def log_bytes_def)
  then show ?thesis
    using log_units_written [of "newLogFile dbpath opts" us] by (auto simp: log_idle_def log_bytes_def)
qed

theorem log_durable_witness:
  "fb_file (lf_buf (foldl log_unit_write (newLogFile ''db'' (mk_options True)) [Single (mk_kv [1] [2])])) =
     concat (map enc_unit [Single (mk_kv [1] [2])]) \<and>
   fb_pending (lf_buf (foldl log_unit_write (newLogFile ''db'' (mk_options True)) [Single (mk_kv [1] [2])])) = []"
  by (rule log_durable) (simp_all add: mk_options_def)

end
