(* ===== verification/MultiSegment.thy ===== *)
theory MultiSegment
  imports LookupIterator
begin

text \<open>
  \<^verbatim>\<open>include/multisegment.h\<close>: the view of several segments as one. Its iterator merges the iterators of
  the segments, the newest winning on equal keys; its \<^verbatim>\<open>get\<close> asks the segments from the newest to the
  oldest until one has a non-empty value. The virtual methods of the parts are arguments.
\<close>

section \<open>The merging iterator\<close>

text \<open>The first loop of \<^verbatim>\<open>next\<close>: the lowest key, and the last iterator that has it.\<close>

fun select_loop ::
  "('it \<Rightarrow> (bytes \<times> 'it) res) \<Rightarrow> 'it list \<Rightarrow> nat list \<Rightarrow> bytes \<Rightarrow> nat option \<Rightarrow> ('it list \<times> nat option) res" where
  "select_loop peek its [] lowest cur = Inr (its, cur)"
| "select_loop peek its (i # is) lowest cur =
     bind_res (peek (its ! i)) (\<lambda>(key, it').
       let its' = its[i := it']
       in if key = [] then select_loop peek its' is lowest cur
          else if lowest = [] \<or> compareTo key lowest < 0 then select_loop peek its' is key (Some i)
          else select_loop peek its' is lowest cur)"

text \<open>The inner loop of the last phase: one iterator is moved past the key.\<close>

partial_function (option) skip_past ::
  "('it \<Rightarrow> (bytes \<times> 'it) res) \<Rightarrow> ('it \<Rightarrow> (keyvalue \<times> 'it) res) \<Rightarrow> bytes \<Rightarrow> 'it \<Rightarrow> 'it res option" where
  "skip_past peek nxt lowest it =
     (case peek it of
        Inl e \<Rightarrow> Some (Inl e)
      | Inr (key, it1) \<Rightarrow>
          if key \<noteq> [] \<and> compareTo lowest key \<ge> 0 then
            (case nxt it1 of
               Inl e \<Rightarrow> Some (Inl e)
             | Inr (kv, it2) \<Rightarrow> skip_past peek nxt lowest it2)
          else Some (Inr it1))"

definition returns :: "'a res option \<Rightarrow> 'a res" where
  "returns r = (case r of None \<Rightarrow> Inl NoReturn | Some x \<Rightarrow> x)"

lemma returns_Some [simp]: "returns (Some x) = x"
  by (simp add: returns_def)

fun advance_loop ::
  "('it \<Rightarrow> (bytes \<times> 'it) res) \<Rightarrow> ('it \<Rightarrow> (keyvalue \<times> 'it) res) \<Rightarrow> bytes \<Rightarrow> nat \<Rightarrow> 'it list \<Rightarrow> nat list
     \<Rightarrow> 'it list res" where
  "advance_loop peek nxt lowest cur its [] = Inr its"
| "advance_loop peek nxt lowest cur its (i # is) =
     (if i = cur then advance_loop peek nxt lowest cur its is
      else bind_res (returns (skip_past peek nxt lowest (its ! i))) (\<lambda>it'.
             advance_loop peek nxt lowest cur (its[i := it']) is))"

definition multi_next ::
  "('it \<Rightarrow> (bytes \<times> 'it) res) \<Rightarrow> ('it \<Rightarrow> (keyvalue \<times> 'it) res) \<Rightarrow> 'it list \<Rightarrow> (keyvalue \<times> 'it list) res" where
  "multi_next peek nxt its =
     bind_res (select_loop peek its (rev [0..<length its]) [] None) (\<lambda>(its1, cur).
       case cur of
         None \<Rightarrow> Inr (kv_EMPTY, its1)
       | Some c \<Rightarrow>
           bind_res (nxt (its1 ! c)) (\<lambda>(kv, it').
           bind_res (advance_loop peek nxt (kv_key kv) c (its1[c := it']) (rev [0..<length its])) (\<lambda>its2.
             Inr (kv, its2))))"

definition multi_peekKey :: "'it list \<Rightarrow> (bytes \<times> 'it list) res" where
  "multi_peekKey its = Inl (IllegalState ''peekKey called on MultiSegment::Iterator'')"

section \<open>The other operations\<close>

text \<open>\<^verbatim>\<open>get\<close>: the value found, or the value of the oldest segment.\<close>

fun multi_get_loop :: "('seg \<Rightarrow> bytes \<Rightarrow> bytes res) \<Rightarrow> 'seg list \<Rightarrow> bytes \<Rightarrow> bytes \<Rightarrow> bytes res" where
  "multi_get_loop get [] k val = Inr val"
| "multi_get_loop get (s # ss) k val =
     bind_res (get s k) (\<lambda>v. if v \<noteq> [] then Inr v else multi_get_loop get ss k v)"

definition multi_get :: "('seg \<Rightarrow> bytes \<Rightarrow> bytes res) \<Rightarrow> 'seg list \<Rightarrow> bytes \<Rightarrow> bytes \<Rightarrow> bytes res" where
  "multi_get get segs k val = multi_get_loop get (rev segs) k val"

fun multi_lookup :: "('seg \<Rightarrow> bytes \<Rightarrow> bytes \<Rightarrow> 'it res) \<Rightarrow> 'seg list \<Rightarrow> bytes \<Rightarrow> bytes \<Rightarrow> 'it list res" where
  "multi_lookup lookup [] lower upper = Inr []"
| "multi_lookup lookup (s # ss) lower upper =
     bind_res (lookup s lower upper) (\<lambda>it.
     bind_res (multi_lookup lookup ss lower upper) (\<lambda>its. Inr (it # its)))"

definition multi_size :: "('seg \<Rightarrow> u64) \<Rightarrow> 'seg list \<Rightarrow> u64" where
  "multi_size sz segs = foldl (\<lambda>n s. n + sz s) 0 segs"

definition multi_put :: "'seg list \<Rightarrow> bytes \<Rightarrow> bytes \<Rightarrow> bytes res" where
  "multi_put segs k v = Inl (IllegalState ''put() called on MultiSegment'')"

definition multi_remove :: "'seg list \<Rightarrow> bytes \<Rightarrow> bytes res" where
  "multi_remove segs k = Inl (IllegalState ''remove() called on MultiSegment'')"

definition multi_lowerID :: "'seg list \<Rightarrow> u64 res" where
  "multi_lowerID segs = Inl (IllegalState ''MultiSegment does not have a lower ID'')"

definition multi_upperID :: "'seg list \<Rightarrow> u64 res" where
  "multi_upperID segs = Inl (IllegalState ''MultiSegment does not have an upper ID'')"

section \<open>Merging runs\<close>

text \<open>
  The specification: the runs are given from the oldest to the newest, and the newest run that has a
  key determines its value.
\<close>

fun newest :: "keyvalue list list \<Rightarrow> bytes \<Rightarrow> bytes option" where
  "newest [] k = None"
| "newest (r # rs) k = (case newest rs k of Some v \<Rightarrow> Some v | None \<Rightarrow> find_kv r k)"

fun merge2 :: "keyvalue list \<Rightarrow> keyvalue list \<Rightarrow> keyvalue list" where
  "merge2 [] ys = ys"
| "merge2 xs [] = xs"
| "merge2 (x # xs) (y # ys) =
     (if kv_key x < kv_key y then x # merge2 xs (y # ys)
      else if kv_key x = kv_key y then y # merge2 xs ys
      else y # merge2 (x # xs) ys)"

definition merge_runs :: "keyvalue list list \<Rightarrow> keyvalue list" where
  "merge_runs rs = foldr merge2 rs []"

lemma merge_runs_simps [simp]: "merge_runs [] = []" "merge_runs (r # rs) = merge2 r (merge_runs rs)"
  by (simp_all add: merge_runs_def)

lemma set_merge2: "set (merge2 xs ys) \<subseteq> set xs \<union> set ys"
  by (induction xs ys rule: merge2.induct) auto

lemma sorted_merge2: "sorted_kvs xs \<Longrightarrow> sorted_kvs ys \<Longrightarrow> sorted_kvs (merge2 xs ys)"
proof (induction xs ys rule: merge2.induct)
  case (3 x xs y ys)
  have sub: "\<And>z. z \<in> set (merge2 as bs) \<Longrightarrow> z \<in> set as \<or> z \<in> set bs" for as bs
    using set_merge2 by blast
  consider "kv_key x < kv_key y" | "kv_key x = kv_key y" | "kv_key y < kv_key x" by fastforce
  then show ?case
  proof cases
    case 1
    then show ?thesis using 3 by (auto dest!: sub intro: less_trans)
  next
    case 2
    then show ?thesis using 3 by (auto dest!: sub)
  next
    case 3
    then show ?thesis using "3.IH"(3) "3.prems" by (auto dest!: sub intro: less_trans)
  qed
qed simp_all

lemma find_merge2:
  "sorted_kvs xs \<Longrightarrow> sorted_kvs ys \<Longrightarrow>
     find_kv (merge2 xs ys) k = (case find_kv ys k of Some v \<Rightarrow> Some v | None \<Rightarrow> find_kv xs k)"
proof (induction xs ys rule: merge2.induct)
  case (3 x xs y ys)
  have n: "find_kv zs q = None" if "\<forall>z \<in> set zs. q < kv_key z" for zs q
    using that by (rule find_kv_less)
  consider "kv_key x < kv_key y" | "kv_key x = kv_key y" | "kv_key y < kv_key x" by fastforce
  then show ?case
  proof cases
    case 1
    then have "find_kv (y # ys) (kv_key x) = None" using 3(5) by (intro n) auto
    then show ?thesis using 1 3 by (auto split: option.splits)
  next
    case 2
    then have "find_kv xs (kv_key y) = None" using 3(4) by (intro n) auto
    then show ?thesis using 2 3 by (auto split: option.splits)
  next
    case 3
    then show ?thesis using "3.IH"(3) "3.prems" by (auto split: option.splits)
  qed
qed (auto split: option.splits)

lemma merge_runs_spec:
  assumes "\<forall>r \<in> set rs. sorted_kvs r"
  shows "sorted_kvs (merge_runs rs)" and "find_kv (merge_runs rs) k = newest rs k"
    and "set (merge_runs rs) \<subseteq> \<Union> (set ` set rs)"
proof -
  show s: "sorted_kvs (merge_runs rs)" using assms by (induction rs) (auto intro: sorted_merge2)
  show "set (merge_runs rs) \<subseteq> \<Union> (set ` set rs)"
    by (induction rs) (use set_merge2 in fastforce)+
  show "find_kv (merge_runs rs) k = newest rs k" using assms
  proof (induction rs)
    case (Cons r rs)
    have "sorted_kvs (merge_runs rs)"
      using Cons.prems by (induction rs) (auto intro: sorted_merge2)
    then show ?case using Cons find_merge2 [of r "merge_runs rs" k] by simp
  qed simp
qed

text \<open>A sorted run is determined by its look-up function.\<close>

lemma sorted_kvs_ext:
  assumes "sorted_kvs xs" "sorted_kvs ys" "\<And>k. find_kv xs k = find_kv ys k"
  shows "xs = ys"
  using assms
proof (induction xs arbitrary: ys)
  case Nil
  then have "find_kv ys (kv_key (hd ys)) = None" by (metis find_kv.simps(1))
  then show ?case by (cases ys) simp_all
next
  case (Cons x xs)
  obtain y ys' where ys: "ys = y # ys'" using Cons.prems(3) [of "kv_key x"] by (cases ys) auto
  have lx: "find_kv xs q = None" if "q \<le> kv_key x" for q
    using Cons.prems(1) that by (intro find_kv_less) auto
  have ly: "find_kv ys' q = None" if "q \<le> kv_key y" for q
    using Cons.prems(2) ys that by (intro find_kv_less) auto
  have "kv_key x = kv_key y"
    using Cons.prems(3) [of "kv_key x"] Cons.prems(3) [of "kv_key y"] lx [of "kv_key y"] ly [of "kv_key x"]
    by (cases "kv_key x \<le> kv_key y") (auto simp: ys split: if_splits)
  moreover have "kv_value x = kv_value y"
    using Cons.prems(3) [of "kv_key x"] \<open>kv_key x = kv_key y\<close> by (simp add: ys)
  ultimately have xy: "x = y" by (cases x; cases y) simp
  have "find_kv xs k = find_kv ys' k" for k
  proof (cases "k = kv_key x")
    case True
    then show ?thesis using lx ly xy by simp
  next
    case False
    then show ?thesis using Cons.prems(3) [of k] xy by (simp add: ys)
  qed
  then have "xs = ys'" using Cons ys by (intro Cons.IH) auto
  then show ?case using xy ys by simp
qed

section \<open>One step of the merge\<close>

text \<open>What the first loop has found among the iterators \<open>D\<close>.\<close>

definition lowest_at :: "keyvalue list list \<Rightarrow> nat set \<Rightarrow> bytes \<Rightarrow> nat option \<Rightarrow> bool" where
  "lowest_at kvss D lowest cur \<longleftrightarrow>
     (case cur of
        None \<Rightarrow> lowest = [] \<and> (\<forall>i \<in> D. kvss ! i = [])
      | Some c \<Rightarrow> c \<in> D \<and> kvss ! c \<noteq> [] \<and> lowest = kv_key (hd (kvss ! c)) \<and> lowest \<noteq> [] \<and>
          (\<forall>i \<in> D. kvss ! i \<noteq> [] \<longrightarrow>
             lowest \<le> kv_key (hd (kvss ! i)) \<and> (c < i \<longrightarrow> lowest < kv_key (hd (kvss ! i)))))"

lemma lowest_at_step:
  assumes "lowest_at kvss {Suc n..<N} lowest cur" and "n < N"
    and "\<And>kv. kv \<in> set (kvss ! n) \<Longrightarrow> kv_key kv \<noteq> []"
  shows "kvss ! n = [] \<Longrightarrow> lowest_at kvss {n..<N} lowest cur"
    and "kvss ! n \<noteq> [] \<Longrightarrow> lowest = [] \<or> kv_key (hd (kvss ! n)) < lowest \<Longrightarrow>
           lowest_at kvss {n..<N} (kv_key (hd (kvss ! n))) (Some n)"
    and "kvss ! n \<noteq> [] \<Longrightarrow> \<not> (lowest = [] \<or> kv_key (hd (kvss ! n)) < lowest) \<Longrightarrow>
           lowest_at kvss {n..<N} lowest cur"
proof -
  have D: "{n..<N} = insert n {Suc n..<N}" using assms(2) by auto
  show "kvss ! n = [] \<Longrightarrow> lowest_at kvss {n..<N} lowest cur"
    using assms(1) by (auto simp: lowest_at_def D split: option.splits)
  show "kvss ! n \<noteq> [] \<Longrightarrow> lowest = [] \<or> kv_key (hd (kvss ! n)) < lowest \<Longrightarrow>
      lowest_at kvss {n..<N} (kv_key (hd (kvss ! n))) (Some n)"
    using assms(1,3) by (fastforce simp: lowest_at_def D split: option.splits)
  show "kvss ! n \<noteq> [] \<Longrightarrow> \<not> (lowest = [] \<or> kv_key (hd (kvss ! n)) < lowest) \<Longrightarrow>
      lowest_at kvss {n..<N} lowest cur"
    using assms(1) by (auto simp: lowest_at_def D not_less split: option.splits)
qed

definition past :: "bytes \<Rightarrow> keyvalue list \<Rightarrow> keyvalue list" where
  "past k kvs = dropWhile (\<lambda>kv. kv_key kv \<le> k) kvs"

lemma past_simps [simp]:
  "past k [] = []" "past k (kv # kvs) = (if kv_key kv \<le> k then past k kvs else kv # kvs)"
  by (simp_all add: past_def)

lemma past_all: "\<forall>kv \<in> set kvs. k < kv_key kv \<Longrightarrow> past k kvs = kvs"
  by (cases kvs) auto

lemma find_past:
  "sorted_kvs kvs \<Longrightarrow> find_kv (past lk kvs) k = (if k \<le> lk then None else find_kv kvs k)"
proof (induction kvs)
  case (Cons kv kvs)
  have "find_kv kvs k = None" if "k \<le> kv_key kv" using Cons.prems that by (intro find_kv_less) auto
  then show ?case using Cons by auto
qed simp

lemma past_sorted: "sorted_kvs kvs \<Longrightarrow> sorted_kvs (past k kvs)"
  unfolding past_def by (metis sorted_wrt_append takeWhile_dropWhile_id)

lemma newest_past:
  "\<forall>r \<in> set kvss. sorted_kvs r \<Longrightarrow>
     newest (map (past lk) kvss) k = (if k \<le> lk then None else newest kvss k)"
  by (induction kvss) (auto simp: find_past split: option.splits)

lemma newest_None: "\<forall>r \<in> set kvss. \<forall>kv \<in> set r. k \<noteq> kv_key kv \<Longrightarrow> newest kvss k = None"
  by (induction kvss) (auto simp: find_kv_None_iff)

lemma newest_at:
  assumes "c < length kvss" "find_kv (kvss ! c) k = Some v"
    and "\<And>i. c < i \<Longrightarrow> i < length kvss \<Longrightarrow> find_kv (kvss ! i) k = None"
  shows "newest kvss k = Some v"
  using assms
proof (induction kvss arbitrary: c)
  case (Cons r rs)
  show ?case
  proof (cases c)
    case 0
    have "\<forall>q \<in> set rs. \<forall>kv \<in> set q. k \<noteq> kv_key kv"
    proof (intro ballI)
      fix q kv assume q: "q \<in> set rs" "kv \<in> set q"
      then obtain i where "i < length rs" "q = rs ! i" by (metis in_set_conv_nth)
      then have "find_kv q k = None" using Cons.prems(3) [of "Suc i"] 0 by simp
      then show "k \<noteq> kv_key kv" using q(2) by (auto simp: find_kv_None_iff)
    qed
    then show ?thesis using newest_None Cons.prems(2) 0 by simp
  next
    case (Suc d)
    have "newest rs k = Some v"
    proof (rule Cons.IH)
      show "d < length rs" "find_kv (rs ! d) k = Some v" using Cons.prems(1,2) Suc by simp_all
      show "find_kv (rs ! i) k = None" if "d < i" "i < length rs" for i
        using Cons.prems(3) [of "Suc i"] Suc that by simp
    qed
    then show ?thesis by simp
  qed
qed simp

text \<open>The lowest head of the last run that has it is the first pair of the merge.\<close>

lemma merge_runs_step:
  assumes "\<forall>r \<in> set kvss. sorted_kvs r" and "lowest_at kvss {0..<length kvss} lk (Some c)"
  shows "merge_runs kvss = hd (kvss ! c) # merge_runs (map (past lk) kvss)"
proof (rule sorted_kvs_ext)
  let ?x = "hd (kvss ! c)"
  have c: "c < length kvss" "kvss ! c \<noteq> []" "lk = kv_key ?x"
    and low: "\<And>i. i < length kvss \<Longrightarrow> kvss ! i \<noteq> [] \<Longrightarrow>
      lk \<le> kv_key (hd (kvss ! i)) \<and> (c < i \<longrightarrow> lk < kv_key (hd (kvss ! i)))"
    using assms(2) by (auto simp: lowest_at_def)
  have sorted_at: "sorted_kvs (kvss ! i)" if "i < length kvss" for i using assms(1) that by simp
  have head_le: "kv_key (hd (kvss ! i)) \<le> kv_key kv" if "i < length kvss" "kv \<in> set (kvss ! i)" for i kv
    using sorted_at [OF that(1)] that(2) by (cases "kvss ! i") auto
  have ps: "\<forall>r \<in> set (map (past lk) kvss). sorted_kvs r" using assms(1) past_sorted by auto
  show "sorted_kvs (merge_runs kvss)" by (rule merge_runs_spec(1) [OF assms(1)])
  have "lk < kv_key kv" if "kv \<in> set (merge_runs (map (past lk) kvss))" for kv
  proof (rule ccontr)
    assume "\<not> lk < kv_key kv"
    then have "kv_key kv \<le> lk" by (simp only: not_less)
    then have "find_kv (merge_runs (map (past lk) kvss)) (kv_key kv) = None"
      using merge_runs_spec(2) [OF ps] newest_past [OF assms(1)] by simp
    then show False using that by (auto simp: find_kv_None_iff)
  qed
  then show "sorted_kvs (?x # merge_runs (map (past lk) kvss))"
    using merge_runs_spec(1) [OF ps] c(3) by simp
  fix k
  have lower: "newest kvss k = None" if k: "k < lk"
  proof (rule newest_None, intro ballI)
    fix r kv assume r: "r \<in> set kvss" "kv \<in> set r"
    then obtain i where i: "i < length kvss" "r = kvss ! i" by (metis in_set_conv_nth)
    then have "lk \<le> kv_key kv" using low [of i] head_le [of i kv] r by fastforce
    then show "k \<noteq> kv_key kv" using k by auto
  qed
  have here: "newest kvss lk = Some (kv_value ?x)"
  proof (rule newest_at [OF c(1)])
    show "find_kv (kvss ! c) lk = Some (kv_value ?x)" using c(2,3) by (cases "kvss ! c") auto
    fix i assume i: "c < i" "i < length kvss"
    show "find_kv (kvss ! i) lk = None"
    proof (rule find_kv_less, intro ballI)
      fix kv assume "kv \<in> set (kvss ! i)"
      then show "lk < kv_key kv" using low [of i] head_le [of i kv] i by fastforce
    qed
  qed
  show "find_kv (merge_runs kvss) k = find_kv (?x # merge_runs (map (past lk) kvss)) k"
  proof -
    have "find_kv (?x # merge_runs (map (past lk) kvss)) k =
        (if lk = k then Some (kv_value ?x) else newest (map (past lk) kvss) k)"
      by (simp add: c(3) [symmetric] merge_runs_spec(2) [OF ps])
    also have "\<dots> = newest kvss k"
      unfolding newest_past [OF assms(1)] using lower here by (cases k lk rule: linorder_cases) auto
    finally show ?thesis by (simp add: merge_runs_spec(2) [OF assms(1)])
  qed
qed

lemma merge_runs_none:
  assumes "lowest_at kvss {0..<length kvss} lk None"
  shows "merge_runs kvss = []"
proof -
  have "\<forall>r \<in> set kvss. r = []" using assms by (auto simp: lowest_at_def in_set_conv_nth)
  then show ?thesis by (induction kvss) auto
qed

section \<open>The merging iterator meets the contract\<close>

definition multi_yields :: "('it \<Rightarrow> keyvalue list \<Rightarrow> bool) \<Rightarrow> 'it list \<Rightarrow> keyvalue list \<Rightarrow> bool" where
  "multi_yields yields its out \<longleftrightarrow> (\<exists>kvss. list_all2 yields its kvss \<and> out = merge_runs kvss)"

context lookup_iterator
begin

lemma all_runs:
  assumes "list_all2 yields its kvss"
  shows "\<forall>r \<in> set kvss. sorted_kvs r" and "\<forall>r \<in> set kvss. \<forall>kv \<in> set r. kv_key kv \<noteq> []"
  using assms by (induction rule: list_all2_induct) (auto dest: yields_sorted yields_keys)

lemma select_loop_spec:
  assumes "list_all2 yields its kvss" "n \<le> length kvss" "lowest_at kvss {n..<length kvss} lowest cur"
  shows "\<exists>its' lowest' cur'. select_loop peekKey its (rev [0..<n]) lowest cur = Inr (its', cur') \<and>
           list_all2 yields its' kvss \<and> lowest_at kvss {0..<length kvss} lowest' cur'"
  using assms
proof (induction n arbitrary: its lowest cur)
  case 0
  then show ?case by auto
next
  case (Suc n)
  have n: "n < length kvss" "n < length its" using Suc.prems(1,2) by (auto dest: list_all2_lengthD)
  have y: "yields (its ! n) (kvss ! n)" using Suc.prems(1) n by (simp add: list_all2_conv_all_nth)
  obtain it' where it': "peekKey (its ! n) = Inr (case kvss ! n of [] \<Rightarrow> [] | kv # _ \<Rightarrow> kv_key kv, it')"
    "yields it' (kvss ! n)"
    using peek_key [OF y] by blast
  have ls: "list_all2 yields (its[n := it']) kvss"
    using list_all2_update_cong [OF Suc.prems(1) it'(2), of n] by simp
  have ne: "\<And>kv. kv \<in> set (kvss ! n) \<Longrightarrow> kv_key kv \<noteq> []" using yields_keys [OF y] by blast
  note L = lowest_at_step [OF Suc.prems(3) n(1) ne]
  show ?case
  proof (cases "kvss ! n")
    case Nil
    then show ?thesis using Suc.IH [OF ls _ L(1)] it'(1) n(1) by simp
  next
    case (Cons kv kvs)
    have k: "kv_key kv \<noteq> []" using ne Cons by simp
    show ?thesis
    proof (cases "lowest = [] \<or> kv_key kv < lowest")
      case True
      then show ?thesis using Suc.IH [OF ls _ L(2)] it'(1) n(1) Cons k by (simp add: compareTo_order)
    next
      case False
      then show ?thesis using Suc.IH [OF ls _ L(3)] it'(1) n(1) Cons k by (simp add: compareTo_order)
    qed
  qed
qed

lemma skip_past_spec:
  "yields it kvs \<Longrightarrow> \<exists>it'. skip_past peekKey nextKv lk it = Some (Inr it') \<and> yields it' (past lk kvs)"
proof (induction kvs arbitrary: it)
  case Nil
  then show ?case using peek_Nil [of it] by (auto simp: skip_past.simps [of peekKey nextKv lk it])
next
  case (Cons kv kvs)
  obtain it1 where it1: "peekKey it = Inr (kv_key kv, it1)" "yields it1 (kv # kvs)"
    using peek_Cons [OF Cons.prems] by blast
  obtain it2 where it2: "nextKv it1 = Inr (kv, it2)" "yields it2 kvs"
    using next_Cons [OF it1(2)] by blast
  have k: "kv_key kv \<noteq> []" using yields_keys [OF Cons.prems] by simp
  show ?case
  proof (cases "kv_key kv \<le> lk")
    case True
    then have "skip_past peekKey nextKv lk it = skip_past peekKey nextKv lk it2"
      using it1(1) it2(1) k by (subst skip_past.simps) (simp add: compareTo_order)
    then show ?thesis using Cons.IH [OF it2(2)] True by simp
  next
    case False
    then have "skip_past peekKey nextKv lk it = Some (Inr it1)"
      using it1(1) k by (subst skip_past.simps) (simp add: compareTo_order)
    then show ?thesis using it1(2) False by auto
  qed
qed

lemma advance_loop_spec:
  assumes "list_all2 yields its kvss" "n \<le> length kvss"
  shows "\<exists>its'. advance_loop peekKey nextKv lk c its (rev [0..<n]) = Inr its' \<and> length its' = length kvss \<and>
           (\<forall>i < length kvss. yields (its' ! i) (if i < n \<and> i \<noteq> c then past lk (kvss ! i) else kvss ! i))"
  using assms
proof (induction n arbitrary: its kvss)
  case 0
  then show ?case by (simp add: list_all2_conv_all_nth)
next
  case (Suc n)
  have n: "n < length kvss" "n < length its" using Suc.prems by (auto dest: list_all2_lengthD)
  show ?case
  proof (cases "n = c")
    case True
    obtain its' where "advance_loop peekKey nextKv lk c its (rev [0..<n]) = Inr its'" "length its' = length kvss"
      "\<forall>i < length kvss. yields (its' ! i) (if i < n \<and> i \<noteq> c then past lk (kvss ! i) else kvss ! i)"
      using Suc.IH [OF Suc.prems(1)] n(1) by auto
    then show ?thesis using True by (auto simp: less_Suc_eq)
  next
    case False
    obtain it' where it': "skip_past peekKey nextKv lk (its ! n) = Some (Inr it')" "yields it' (past lk (kvss ! n))"
      using skip_past_spec Suc.prems(1) n by (metis list_all2_nthD)
    have ls: "list_all2 yields (its[n := it']) (kvss[n := past lk (kvss ! n)])"
      using Suc.prems(1) it'(2) by (simp add: list_all2_update_cong)
    obtain its' where its': "advance_loop peekKey nextKv lk c (its[n := it']) (rev [0..<n]) = Inr its'"
      "length its' = length kvss"
      "\<forall>i < length kvss. yields (its' ! i)
         (if i < n \<and> i \<noteq> c then past lk (kvss[n := past lk (kvss ! n)] ! i) else kvss[n := past lk (kvss ! n)] ! i)"
      using Suc.IH [OF ls] n(1) by auto
    have "advance_loop peekKey nextKv lk c its (rev [0..<Suc n]) = Inr its'"
      using False it'(1) its'(1) by simp
    moreover have "yields (its' ! i) (if i < Suc n \<and> i \<noteq> c then past lk (kvss ! i) else kvss ! i)"
      if "i < length kvss" for i
      using its'(3) that False n(1) by (cases "i = n") (auto simp: less_Suc_eq)
    ultimately show ?thesis using its'(2) by blast
  qed
qed

lemma multi_next_spec:
  assumes ls: "list_all2 yields its kvss"
  shows "\<exists>its' kvss'. multi_next peekKey nextKv its =
           Inr (case merge_runs kvss of [] \<Rightarrow> kv_EMPTY | kv # _ \<Rightarrow> kv, its') \<and>
           list_all2 yields its' kvss' \<and> merge_runs kvss' = tl (merge_runs kvss)"
proof -
  have len: "length its = length kvss" using ls by (rule list_all2_lengthD)
  note R = all_runs [OF ls]
  obtain its1 lk cur where sel: "select_loop peekKey its (rev [0..<length its]) [] None = Inr (its1, cur)"
    "list_all2 yields its1 kvss" "lowest_at kvss {0..<length kvss} lk cur"
    using select_loop_spec [OF ls, of "length kvss" "[]" None] len by (auto simp: lowest_at_def)
  show ?thesis
  proof (cases cur)
    case None
    then have "multi_next peekKey nextKv its = Inr (kv_EMPTY, its1)" "merge_runs kvss = []"
      using sel merge_runs_none by (simp_all add: multi_next_def)
    then show ?thesis using sel(2) by (intro exI [of _ its1] exI [of _ kvss]) simp
  next
    case (Some c)
    have c: "c < length kvss" "kvss ! c \<noteq> []" "lk = kv_key (hd (kvss ! c))"
      using sel(3) Some by (auto simp: lowest_at_def)
    let ?x = "hd (kvss ! c)"
    have y: "yields (its1 ! c) (?x # tl (kvss ! c))" using sel(2) c by (simp add: list_all2_conv_all_nth)
    obtain it' where it': "nextKv (its1 ! c) = Inr (?x, it')" "yields it' (tl (kvss ! c))"
      using next_Cons [OF y] by blast
    have ls': "list_all2 yields (its1[c := it']) (kvss[c := tl (kvss ! c)])"
      using sel(2) it'(2) by (simp add: list_all2_update_cong)
    obtain its2 where its2: "advance_loop peekKey nextKv lk c (its1[c := it']) (rev [0..<length its]) = Inr its2"
      "length its2 = length kvss"
      "\<forall>i < length kvss. yields (its2 ! i)
         (if i < length its \<and> i \<noteq> c then past lk (kvss[c := tl (kvss ! c)] ! i) else kvss[c := tl (kvss ! c)] ! i)"
      using advance_loop_spec [OF ls', of "length its" lk c] len by auto
    have "tl (kvss ! c) = past lk (kvss ! c)"
    proof -
      have "sorted_kvs (?x # tl (kvss ! c))" using R(1) c(1,2) by simp
      then have "past lk (tl (kvss ! c)) = tl (kvss ! c)" using c(3) by (intro past_all) simp
      moreover have "past lk (?x # tl (kvss ! c)) = past lk (tl (kvss ! c))" using c(3) by simp
      ultimately show ?thesis using c(2) by simp
    qed
    then have tl: "kvss[c := tl (kvss ! c)] ! i = past lk (kvss ! i)" if "i = c" for i
      using that c(1) by simp
    have "yields (its2 ! i) (past lk (kvss ! i))" if i: "i < length kvss" for i
      using its2(3) [rule_format, OF i] tl [of i] i len by (cases "i = c") simp_all
    then have "list_all2 yields its2 (map (past lk) kvss)"
      using its2(2) by (simp add: list_all2_conv_all_nth)
    moreover have "multi_next peekKey nextKv its = Inr (?x, its2)"
      using sel(1) Some it'(1) its2(1) c(3) by (simp add: multi_next_def)
    moreover have "merge_runs kvss = ?x # merge_runs (map (past lk) kvss)"
      using merge_runs_step [OF R(1)] sel(3) Some by blast
    ultimately show ?thesis by (intro exI [of _ its2] exI [of _ "map (past lk) kvss"]) simp
  qed
qed

end

sublocale lookup_iterator < multi: kv_source "multi_next peekKey nextKv" "multi_yields yields"
proof unfold_locales
  fix its kv kvs
  show "multi_yields yields its [] \<Longrightarrow>
      \<exists>kv its'. multi_next peekKey nextKv its = Inr (kv, its') \<and> kv_key kv = [] \<and> multi_yields yields its' []"
    using multi_next_spec [of its] by (fastforce simp: multi_yields_def)
  show "multi_yields yields its (kv # kvs) \<Longrightarrow>
      \<exists>its'. multi_next peekKey nextKv its = Inr (kv, its') \<and> multi_yields yields its' kvs"
    using multi_next_spec [of its] unfolding multi_yields_def by (metis list.sel(3) list.simps(5))
  show "multi_yields yields its kvs \<Longrightarrow> sorted_kvs kvs"
    using all_runs merge_runs_spec by (auto simp: multi_yields_def)
  show "multi_yields yields its kvs \<Longrightarrow> kv \<in> set kvs \<Longrightarrow> kv_key kv \<noteq> []"
    using all_runs merge_runs_spec(3) by (fastforce simp: multi_yields_def)
qed

section \<open>The value of a key\<close>

text \<open>What \<^verbatim>\<open>get\<close> returns: the first value that is not empty, from the newest segment on.\<close>

fun newest_value :: "bytes list \<Rightarrow> bytes" where
  "newest_value [] = []"
| "newest_value (v # vs) = (if newest_value vs \<noteq> [] then newest_value vs else v)"

lemma newest_value_snoc: "newest_value (vs @ [v]) = (if v \<noteq> [] then v else newest_value vs)"
  by (induction vs) auto

lemma multi_get_values:
  assumes "list_all2 (\<lambda>s v. get s k = Inr v) segs vs" and "val = [] \<or> segs \<noteq> []"
  shows "multi_get get segs k val = Inr (newest_value vs)"
proof -
  have "multi_get_loop get (rev segs) k val = Inr (newest_value vs)" using assms
  proof (induction segs arbitrary: vs val rule: rev_induct)
    case Nil
    then show ?case by simp
  next
    case (snoc s segs)
    obtain vs' v where vs: "vs = vs' @ [v]" "list_all2 (\<lambda>s v. get s k = Inr v) segs vs'" "get s k = Inr v"
      using snoc.prems(1) by (auto simp: list_all2_append1 list_all2_Cons1)
    then show ?case using snoc.IH [of vs' v] by (cases "v = []") (auto simp: newest_value_snoc)
  qed
  then show ?thesis by (simp add: multi_get_def)
qed

section \<open>What a multi segment does not do\<close>

definition multi_close :: "unit res" where
  "multi_close = Inl (IllegalState ''close() called on MultiSegment'')"

definition multi_removeSegment :: "unit res" where
  "multi_removeSegment = Inl (IllegalState ''removeSegment() called on MultiSegment'')"

definition multi_removeOnFinalize :: "unit res" where
  "multi_removeOnFinalize = Inl (IllegalState ''removeOnFinalize() called on MultiSegment'')"

definition multi_files :: "string list" where
  "multi_files = []"

end
