(* ===== verification/MemorySegment.thy ===== *)
theory MemorySegment
  imports SkipListItr LogRecovery MultiSegment
begin

text \<open>
  \<^verbatim>\<open>include/memorysegment.h\<close>, \<^verbatim>\<open>memorysegment.cpp\<close> and \<^verbatim>\<open>include/logsegment.h\<close>: the segment that takes
  the writes (a skip list, its byte count and its log file), and the segment that is rebuilt from a
  log. The theorems: each operation does to the run of the segment what it does to a map, the byte
  count is exact, and replaying the log gives the run back.
\<close>

section \<open>The memory segment\<close>

record memory_segment =
  ms_list :: "keyvalue skip_list"
  ms_cmp :: kv_compare
  ms_log :: "log_file option"
  ms_id :: u64
  ms_bytes :: u64
  ms_path :: string
  ms_options :: options

text \<open>
  The constructor. \<open>cmp\<close> is the result of \<^verbatim>\<open>keyValueCompare(options)\<close> and \<open>rnd\<close> are the values of
  \<^verbatim>\<open>rand()\<close> this list will draw.
\<close>

definition newMemorySegment :: "kv_compare \<Rightarrow> (nat \<Rightarrow> nat) \<Rightarrow> string \<Rightarrow> u64 \<Rightarrow> options \<Rightarrow> memory_segment" where
  "newMemorySegment cmp rnd path i opts =
     \<lparr>ms_list = newSkipList rnd kv_EMPTY, ms_cmp = cmp, ms_log = None, ms_id = i, ms_bytes = 0,
      ms_path = path, ms_options = opts\<rparr>"

definition newMemoryOnlySegment :: "kv_compare \<Rightarrow> (nat \<Rightarrow> nat) \<Rightarrow> memory_segment" where
  "newMemoryOnlySegment cmp rnd = newMemorySegment cmp rnd '''' 0 (mk_options False)"

definition maybeCreateLogFile :: "memory_segment \<Rightarrow> memory_segment" where
  "maybeCreateLogFile m =
     (if ms_log m \<noteq> None then m
      else if ms_path m = '''' then m
      else m\<lparr>ms_log := Some (newLogFile (ms_path m) (ms_options m))\<rparr>)"

definition kv_len :: "keyvalue \<Rightarrow> u64" where
  "kv_len kv = of_nat (length (kv_key kv)) + of_nat (length (kv_value kv))"

definition ms_put :: "memory_segment \<Rightarrow> bytes \<Rightarrow> bytes \<Rightarrow> (bytes \<times> memory_segment) res" where
  "ms_put m0 k v =
     (let m = maybeCreateLogFile m0
      in bind_res (access (sl_put (ms_cmp m) kv_EMPTY (ms_list m) (mk_kv k v))) (\<lambda>(prev, list).
           Inr (kv_value prev,
                m\<lparr>ms_list := list,
                  ms_bytes := ms_bytes m + (kv_len (mk_kv k v) - (if kv_key prev = [] then 0 else kv_len prev)),
                  ms_log := map_option (\<lambda>f. log_write f k v) (ms_log m)\<rparr>)))"

definition ms_remove :: "memory_segment \<Rightarrow> bytes \<Rightarrow> (bytes \<times> memory_segment) res" where
  "ms_remove m k = ms_put m k []"

definition ms_get :: "memory_segment \<Rightarrow> bytes \<Rightarrow> bytes res" where
  "ms_get m k = bind_res (access (sl_get (ms_cmp m) kv_EMPTY (ms_list m) (Key k))) (\<lambda>kv. Inr (kv_value kv))"

text \<open>The loop of \<^verbatim>\<open>MemorySegment::write\<close> over the entries of the batch.\<close>

fun ms_write_loop :: "memory_segment \<Rightarrow> keyvalue list \<Rightarrow> memory_segment res" where
  "ms_write_loop m [] = Inr m"
| "ms_write_loop m (kv # kvs) =
     bind_res (access (sl_put (ms_cmp m) kv_EMPTY (ms_list m) kv)) (\<lambda>(prev, list).
       ms_write_loop
         (m\<lparr>ms_list := list, ms_bytes := ms_bytes m + (kv_len kv - kv_len prev),
            ms_log := map_option (\<lambda>f. log_write f (kv_key kv) (kv_value kv)) (ms_log m)\<rparr>) kvs)"

definition ms_write :: "memory_segment \<Rightarrow> write_batch \<Rightarrow> memory_segment res" where
  "ms_write m0 batch =
     (let m = maybeCreateLogFile m0;
          m1 = m\<lparr>ms_log := map_option (\<lambda>f. startBatch f (batch_size batch)) (ms_log m)\<rparr>
      in bind_res (ms_write_loop m1 (entries batch)) (\<lambda>m2.
           Inr (m2\<lparr>ms_log := map_option (\<lambda>f. endBatch f (batch_size batch)) (ms_log m2)\<rparr>)))"

text \<open>\<open>icmp\<close> is the comparison of the call of \<^verbatim>\<open>keyValueCompare\<close> in \<^verbatim>\<open>lookup\<close>.\<close>

definition ms_lookup :: "kv_compare \<Rightarrow> memory_segment \<Rightarrow> bytes \<Rightarrow> bytes \<Rightarrow> skip_iterator res" where
  "ms_lookup icmp m lower upper = list_lookup (ms_cmp m) icmp (ms_list m) lower upper"

text \<open>\<^verbatim>\<open>removeSegment\<close>: the log file is removed and closed.\<close>

definition ms_removeSegment :: "memory_segment \<Rightarrow> memory_segment" where
  "ms_removeSegment m = m\<lparr>ms_log := None\<rparr>"

section \<open>The log segment\<close>

text \<open>\<^verbatim>\<open>id\<close> and \<^verbatim>\<open>filesize\<close> are members that no code sets: they are given from outside.\<close>

record log_segment =
  ls_list :: "keyvalue skip_list"
  ls_cmp :: kv_compare
  ls_id :: u64
  ls_filesize :: u64
  ls_path :: string

fun put_all :: "kv_compare \<Rightarrow> keyvalue skip_list \<Rightarrow> keyvalue list \<Rightarrow> keyvalue skip_list option" where
  "put_all cmp s [] = Some s"
| "put_all cmp s (kv # kvs) = Option.bind (sl_put cmp kv_EMPTY s kv) (\<lambda>(prev, s'). put_all cmp s' kvs)"

definition readLogFile :: "kv_compare \<Rightarrow> keyvalue skip_list \<Rightarrow> bytes \<Rightarrow> options \<Rightarrow> keyvalue skip_list res" where
  "readLogFile cmp list file opts =
     (case read_log (batchReadMode opts) file of
        (kvs, e) \<Rightarrow> bind_res (access (put_all cmp list kvs)) (\<lambda>s.
          case e of None \<Rightarrow> Inr s | Some e \<Rightarrow> Inl e))"

definition newLogSegment ::
  "u64 \<Rightarrow> u64 \<Rightarrow> kv_compare \<Rightarrow> (nat \<Rightarrow> nat) \<Rightarrow> string \<Rightarrow> bytes \<Rightarrow> options \<Rightarrow> log_segment res" where
  "newLogSegment junkId junkSize cmp rnd path file opts =
     bind_res (readLogFile cmp (newSkipList rnd kv_EMPTY) file opts) (\<lambda>s.
       Inr \<lparr>ls_list = s, ls_cmp = cmp, ls_id = junkId, ls_filesize = junkSize, ls_path = path\<rparr>)"

definition ls_get :: "log_segment \<Rightarrow> bytes \<Rightarrow> bytes res" where
  "ls_get m k = bind_res (access (sl_get (ls_cmp m) kv_EMPTY (ls_list m) (Key k))) (\<lambda>kv. Inr (kv_value kv))"

definition ls_lookup :: "kv_compare \<Rightarrow> log_segment \<Rightarrow> bytes \<Rightarrow> bytes \<Rightarrow> skip_iterator res" where
  "ls_lookup icmp m lower upper = list_lookup (ls_cmp m) icmp (ls_list m) lower upper"

definition ls_put :: "log_segment \<Rightarrow> bytes \<Rightarrow> bytes \<Rightarrow> bytes res" where
  "ls_put m k v = Inl (IllegalState ''put() called on LogSegment'')"

definition ls_remove :: "log_segment \<Rightarrow> bytes \<Rightarrow> bytes res" where
  "ls_remove m k = Inl (IllegalState ''remove() called on LogSegment'')"

section \<open>Runs as maps\<close>

text \<open>The run after a put, and after a sequence of puts.\<close>

definition run_put :: "keyvalue list \<Rightarrow> keyvalue \<Rightarrow> keyvalue list" where
  "run_put r kv = olist_put kv_cmp kv r"

definition run_puts :: "keyvalue list \<Rightarrow> keyvalue list \<Rightarrow> keyvalue list" where
  "run_puts r kvs = foldl run_put r kvs"

lemma run_puts_simps [simp]:
  "run_puts r [] = r" "run_puts r (kv # kvs) = run_puts (run_put r kv) kvs"
  "run_puts r (xs @ ys) = run_puts (run_puts r xs) ys"
  by (simp_all add: run_puts_def)

lemma kv_ordered_iff: "kv.ordered r \<longleftrightarrow> sorted_kvs r"
  by (simp add: kv_cmp_order)

lemma run_put_sorted: "sorted_kvs r \<Longrightarrow> sorted_kvs (run_put r kv)"
  using kv.olist_put_ordered [of r kv] by (simp add: kv_cmp_order run_put_def)

lemma run_puts_sorted: "sorted_kvs r \<Longrightarrow> sorted_kvs (run_puts r kvs)"
  by (induction kvs arbitrary: r) (simp_all add: run_put_sorted)

lemma olist_find_find_kv:
  "sorted_kvs r \<Longrightarrow> olist_find kv_cmp kv r = map_option (mk_kv (kv_key kv)) (find_kv r (kv_key kv))"
proof (induction r)
  case (Cons x xs)
  have "find_kv xs (kv_key kv) = None" if "kv_key kv < kv_key x"
    using Cons.prems that by (intro find_kv_less) (auto intro: less_trans)
  then show ?case
    using Cons by (cases "kv_key x" "kv_key kv" rule: linorder_cases) (auto simp: kv_cmp_order mk_kv_def)
qed simp

lemma find_run_put:
  assumes "sorted_kvs r"
  shows "find_kv (run_put r kv) k = (if kv_key kv = k then Some (kv_value kv) else find_kv r k)"
proof -
  have "olist_find kv_cmp (Key k) (run_put r kv) = map_option (mk_kv k) (find_kv (run_put r kv) k)"
    using olist_find_find_kv [OF run_put_sorted [OF assms], of "Key k" kv] by simp
  moreover have "olist_find kv_cmp (Key k) (run_put r kv) =
      (if kv_key kv = k then Some kv else map_option (mk_kv k) (find_kv r k))"
    using kv.olist_find_put [of r "Key k" kv] assms olist_find_find_kv [OF assms, of "Key k"]
    by (simp add: run_put_def kv_cmp_order)
  ultimately have eq: "map_option (mk_kv k) (find_kv (run_put r kv) k) =
      (if kv_key kv = k then Some kv else map_option (mk_kv k) (find_kv r k))" by simp
  have inj: "map_option kv_value (map_option (mk_kv k) x) = x" for x by (cases x) simp_all
  show ?thesis
    using arg_cong [OF eq, of "map_option kv_value"] by (auto simp: inj split: if_splits)
qed

lemma run_put_keys:
  "\<forall>x \<in> set r. kv_key x \<noteq> [] \<Longrightarrow> kv_key kv \<noteq> [] \<Longrightarrow> \<forall>x \<in> set (run_put r kv). kv_key x \<noteq> []"
  unfolding run_put_def by (induction r) auto

section \<open>The segment represents a run\<close>

definition ms_repr :: "memory_segment \<Rightarrow> keyvalue list \<Rightarrow> bool" where
  "ms_repr m r \<longleftrightarrow> ms_cmp m = kv_cmp \<and> sl_repr kv_cmp (ms_list m) r"

lemma ms_repr_sorted: "ms_repr m r \<Longrightarrow> sorted_kvs r"
  by (simp add: ms_repr_def sl_repr_def kv_cmp_order)

lemma sl_put_run:
  assumes "sl_repr kv_cmp s r"
  shows "\<exists>s'. sl_put kv_cmp kv_EMPTY s kv =
           Some (case find_kv r (kv_key kv) of None \<Rightarrow> kv_EMPTY | Some v \<Rightarrow> mk_kv (kv_key kv) v, s') \<and>
           sl_repr kv_cmp s' (run_put r kv)"
proof -
  have "sorted_kvs r" using assms by (simp add: sl_repr_def kv_cmp_order)
  then show ?thesis
    using kv.put_repr [OF assms, of kv_EMPTY kv] olist_find_find_kv [of r kv]
    by (cases "find_kv r (kv_key kv)") (auto simp: run_put_def)
qed

lemma maybeCreate_keeps [simp]:
  "ms_list (maybeCreateLogFile m) = ms_list m" "ms_cmp (maybeCreateLogFile m) = ms_cmp m"
  "ms_bytes (maybeCreateLogFile m) = ms_bytes m" "ms_id (maybeCreateLogFile m) = ms_id m"
  "ms_path (maybeCreateLogFile m) = ms_path m" "ms_options (maybeCreateLogFile m) = ms_options m"
  by (simp_all add: maybeCreateLogFile_def)

lemma newMemorySegment_repr: "ms_repr (newMemorySegment kv_cmp rnd path i opts) []"
  by (simp add: ms_repr_def newMemorySegment_def newSkipList_repr)

lemma ms_get_repr:
  assumes "ms_repr m r"
  shows "ms_get m k = Inr (case find_kv r k of None \<Rightarrow> [] | Some v \<Rightarrow> v)"
proof -
  have "sl_get kv_cmp kv_EMPTY (ms_list m) (Key k) =
      Some (case olist_find kv_cmp (Key k) r of None \<Rightarrow> kv_EMPTY | Some x \<Rightarrow> x)"
    using assms by (intro kv.get_repr) (simp add: ms_repr_def)
  then show ?thesis
    using assms olist_find_find_kv [OF ms_repr_sorted [OF assms], of "Key k"]
    by (cases "find_kv r k") (simp_all add: ms_get_def ms_repr_def)
qed

text \<open>The exact size of a run, modulo the width of the counter.\<close>

definition run_bytes :: "keyvalue list \<Rightarrow> u64" where
  "run_bytes r = sum_list (map kv_len r)"

lemma run_bytes_put:
  "sorted_kvs r \<Longrightarrow> run_bytes (run_put r kv) =
     run_bytes r + (kv_len kv - (case find_kv r (kv_key kv) of None \<Rightarrow> 0 | Some v \<Rightarrow> kv_len (mk_kv (kv_key kv) v)))"
proof (induction r)
  case (Cons x xs)
  have "find_kv xs (kv_key kv) = None" if "kv_key kv < kv_key x"
    using Cons.prems that by (intro find_kv_less) (auto intro: less_trans)
  then show ?case
    using Cons
    by (cases "kv_key x" "kv_key kv" rule: linorder_cases)
       (auto simp: run_put_def kv_cmp_order run_bytes_def mk_kv_def kv_len_def split: option.splits)
qed (simp add: run_put_def run_bytes_def)

text \<open>
  The log of the segment, as units: what was written since the segment was created. Before the first
  write there is no log.
\<close>

definition ms_logged :: "memory_segment \<Rightarrow> log_unit list \<Rightarrow> bool" where
  "ms_logged m us \<longleftrightarrow>
     (case ms_log m of None \<Rightarrow> ms_path m = '''' \<or> us = [] | Some f \<Rightarrow> log_bytes f = concat (map enc_unit us))"

lemma maybeCreate_logged: "ms_logged m us \<Longrightarrow> ms_logged (maybeCreateLogFile m) us"
  by (auto simp: ms_logged_def maybeCreateLogFile_def newLogFile_def log_bytes_def fb_open_trunc_def
      split: option.splits)

lemma ms_logged_unit:
  assumes "ms_logged m us" "ms_log m \<noteq> None \<or> ms_path m = ''''"
    and "ms_log m' = map_option (\<lambda>f. log_unit_write f u) (ms_log m)" "ms_path m' = ms_path m"
  shows "ms_logged m' (us @ [u])"
  using assms by (auto simp: ms_logged_def log_unit_write_bytes split: option.splits)

lemma maybeCreate_has: "ms_log (maybeCreateLogFile m) \<noteq> None \<or> ms_path (maybeCreateLogFile m) = ''''"
  by (simp add: maybeCreateLogFile_def)

lemma ms_put_repr:
  assumes "ms_repr m r" "ms_logged m us" "k \<noteq> []"
  shows "\<exists>m'. ms_put m k v = Inr (case find_kv r k of None \<Rightarrow> [] | Some w \<Rightarrow> w, m') \<and>
           ms_repr m' (run_put r (mk_kv k v)) \<and> ms_logged m' (us @ [Single (mk_kv k v)]) \<and>
           (ms_bytes m = run_bytes r \<longrightarrow> ms_bytes m' = run_bytes (run_put r (mk_kv k v))) \<and>
           ms_id m' = ms_id m \<and> ms_path m' = ms_path m \<and> ms_options m' = ms_options m"
proof -
  let ?m = "maybeCreateLogFile m"
  let ?prev = "case find_kv r k of None \<Rightarrow> kv_EMPTY | Some w \<Rightarrow> mk_kv k w"
  have rep: "ms_cmp m = kv_cmp" "sl_repr kv_cmp (ms_list m) r" using assms(1) by (simp_all add: ms_repr_def)
  obtain s' where s': "sl_put kv_cmp kv_EMPTY (ms_list m) (mk_kv k v) = Some (?prev, s')"
    "sl_repr kv_cmp s' (run_put r (mk_kv k v))"
    using sl_put_run [OF rep(2), of "mk_kv k v"] unfolding kv_sel by blast
  define m' where "m' = ?m\<lparr>ms_list := s',
      ms_bytes := ms_bytes ?m + (kv_len (mk_kv k v) - (if kv_key ?prev = [] then 0 else kv_len ?prev)),
      ms_log := map_option (\<lambda>f. log_write f k v) (ms_log ?m)\<rparr>"
  have "ms_put m k v = Inr (kv_value ?prev, m')"
    by (simp add: ms_put_def Let_def rep(1) s'(1) m'_def)
  moreover have "kv_value ?prev = (case find_kv r k of None \<Rightarrow> [] | Some w \<Rightarrow> w)"
    by (simp split: option.split)
  moreover have "ms_repr m' (run_put r (mk_kv k v))" using rep(1) s'(2) by (simp add: ms_repr_def m'_def)
  moreover have "ms_logged m' (us @ [Single (mk_kv k v)])"
    by (rule ms_logged_unit [OF maybeCreate_logged [OF assms(2)] maybeCreate_has]) (simp_all add: m'_def)
  moreover have "ms_bytes m = run_bytes r \<longrightarrow> ms_bytes m' = run_bytes (run_put r (mk_kv k v))"
    using run_bytes_put [OF ms_repr_sorted [OF assms(1)], of "mk_kv k v"] assms(3)
    by (auto simp: m'_def split: option.splits)
  ultimately show ?thesis by (intro exI [of _ m']) (simp add: m'_def)
qed

lemma ms_write_loop_repr:
  assumes "ms_repr m r"
  shows "\<exists>m'. ms_write_loop m kvs = Inr m' \<and> ms_repr m' (run_puts r kvs) \<and>
           ms_log m' = map_option (\<lambda>f. foldl (\<lambda>f kv. log_write f (kv_key kv) (kv_value kv)) f kvs) (ms_log m) \<and>
           (ms_bytes m = run_bytes r \<longrightarrow> ms_bytes m' = run_bytes (run_puts r kvs)) \<and>
           ms_id m' = ms_id m \<and> ms_path m' = ms_path m \<and> ms_options m' = ms_options m"
  using assms
proof (induction kvs arbitrary: m r)
  case Nil
  then show ?case by (auto simp: option.map_ident)
next
  case (Cons kv kvs)
  let ?prev = "case find_kv r (kv_key kv) of None \<Rightarrow> kv_EMPTY | Some w \<Rightarrow> mk_kv (kv_key kv) w"
  have rep: "ms_cmp m = kv_cmp" "sl_repr kv_cmp (ms_list m) r" using Cons.prems by (simp_all add: ms_repr_def)
  obtain s' where s': "sl_put kv_cmp kv_EMPTY (ms_list m) kv = Some (?prev, s')"
    "sl_repr kv_cmp s' (run_put r kv)"
    using sl_put_run [OF rep(2), of kv] by auto
  define m1 where "m1 = m\<lparr>ms_list := s', ms_bytes := ms_bytes m + (kv_len kv - kv_len ?prev),
      ms_log := map_option (\<lambda>f. log_write f (kv_key kv) (kv_value kv)) (ms_log m)\<rparr>"
  have r1: "ms_repr m1 (run_put r kv)" using rep(1) s'(2) by (simp add: ms_repr_def m1_def)
  have b1: "ms_bytes m = run_bytes r \<longrightarrow> ms_bytes m1 = run_bytes (run_put r kv)"
    using run_bytes_put [OF ms_repr_sorted [OF Cons.prems], of kv]
    by (auto simp: m1_def kv_len_def split: option.splits)
  have "ms_write_loop m (kv # kvs) = ms_write_loop m1 kvs"
    by (simp add: rep(1) s'(1) m1_def)
  then show ?case
    using Cons.IH [OF r1] b1 by (fastforce simp: m1_def option.map_comp comp_def)
qed

lemma ms_write_repr:
  assumes "ms_repr m r" "ms_logged m us"
  shows "\<exists>m'. ms_write m b = Inr m' \<and> ms_repr m' (run_puts r (entries b)) \<and>
           ms_logged m' (us @ [Batch (entries b)]) \<and>
           (ms_bytes m = run_bytes r \<longrightarrow> ms_bytes m' = run_bytes (run_puts r (entries b))) \<and>
           ms_id m' = ms_id m \<and> ms_path m' = ms_path m \<and> ms_options m' = ms_options m"
proof -
  let ?m = "maybeCreateLogFile m"
  define m1 where "m1 = ?m\<lparr>ms_log := map_option (\<lambda>f. startBatch f (batch_size b)) (ms_log ?m)\<rparr>"
  have r1: "ms_repr m1 r" using assms(1) by (simp add: ms_repr_def m1_def)
  obtain m2 where m2: "ms_write_loop m1 (entries b) = Inr m2" "ms_repr m2 (run_puts r (entries b))"
    "ms_log m2 = map_option (\<lambda>f. foldl (\<lambda>f kv. log_write f (kv_key kv) (kv_value kv)) f (entries b)) (ms_log m1)"
    "ms_bytes m1 = run_bytes r \<longrightarrow> ms_bytes m2 = run_bytes (run_puts r (entries b))"
    "ms_id m2 = ms_id m1" "ms_path m2 = ms_path m1" "ms_options m2 = ms_options m1"
    using ms_write_loop_repr [OF r1, of "entries b"] by blast
  define m' where "m' = m2\<lparr>ms_log := map_option (\<lambda>f. endBatch f (batch_size b)) (ms_log m2)\<rparr>"
  have "ms_write m b = Inr m'"
    using m2(1) by (simp add: ms_write_def Let_def m1_def m'_def)
  moreover have "ms_repr m' (run_puts r (entries b))" using m2(2) by (simp add: ms_repr_def m'_def)
  moreover have "ms_logged m' (us @ [Batch (entries b)])"
    by (rule ms_logged_unit [OF maybeCreate_logged [OF assms(2)] maybeCreate_has])
       (simp_all add: m'_def m2(3,6) m1_def option.map_comp comp_def batch_size_def)
  ultimately show ?thesis using m2(4-7) by (intro exI [of _ m']) (simp add: m'_def m1_def)
qed

lemma ms_lookup_yields:
  assumes "ms_repr m r" "\<forall>kv \<in> set r. kv_key kv \<noteq> []"
  shows "\<exists>it. ms_lookup kv_cmp m lower upper = Inr it \<and> si_yields it (filter (mem_range lower upper) r)"
  using list_lookup_yields [of "ms_list m" r lower upper] assms by (simp add: ms_lookup_def ms_repr_def)

section \<open>Rebuilding from the log\<close>

lemma put_all_repr:
  "sl_repr kv_cmp s r \<Longrightarrow> \<exists>s'. put_all kv_cmp s kvs = Some s' \<and> sl_repr kv_cmp s' (run_puts r kvs)"
proof (induction kvs arbitrary: s r)
  case (Cons kv kvs)
  obtain s' p where "sl_put kv_cmp kv_EMPTY s kv = Some (p, s')" "sl_repr kv_cmp s' (run_put r kv)"
    using sl_put_run [OF Cons.prems, of kv] by blast
  then show ?case using Cons.IH by simp
qed simp

definition ls_repr :: "log_segment \<Rightarrow> keyvalue list \<Rightarrow> bool" where
  "ls_repr l r \<longleftrightarrow> ls_cmp l = kv_cmp \<and> sl_repr kv_cmp (ls_list l) r"

lemma newLogSegment_repr:
  assumes "read_log (batchReadMode opts) file = (kvs, None)"
  shows "\<exists>l. newLogSegment ji js kv_cmp rnd path file opts = Inr l \<and> ls_repr l (run_puts [] kvs)"
proof -
  obtain s where "put_all kv_cmp (newSkipList rnd kv_EMPTY) kvs = Some s" "sl_repr kv_cmp s (run_puts [] kvs)"
    using put_all_repr [OF newSkipList_repr] by blast
  then show ?thesis
    using assms by (simp add: newLogSegment_def readLogFile_def ls_repr_def)
qed

lemma ls_get_repr:
  assumes "ls_repr l r"
  shows "ls_get l k = Inr (case find_kv r k of None \<Rightarrow> [] | Some v \<Rightarrow> v)"
proof -
  have s: "sorted_kvs r" using assms by (simp add: ls_repr_def sl_repr_def kv_cmp_order)
  have "sl_get kv_cmp kv_EMPTY (ls_list l) (Key k) =
      Some (case olist_find kv_cmp (Key k) r of None \<Rightarrow> kv_EMPTY | Some x \<Rightarrow> x)"
    using assms by (intro kv.get_repr) (simp add: ls_repr_def)
  then show ?thesis
    using assms olist_find_find_kv [OF s, of "Key k"]
    by (cases "find_kv r k") (simp_all add: ls_get_def ls_repr_def)
qed

section \<open>Properties\<close>

text \<open>A sequence of puts (a remove is a put of the empty value) and batches on a memory segment.\<close>

fun ms_run :: "memory_segment \<Rightarrow> log_unit list \<Rightarrow> memory_segment res" where
  "ms_run m [] = Inr m"
| "ms_run m (Single kv # us) = bind_res (ms_put m (kv_key kv) (kv_value kv)) (\<lambda>(old, m'). ms_run m' us)"
| "ms_run m (Batch es # us) = bind_res (ms_write m \<lparr>entries = es\<rparr>) (\<lambda>m'. ms_run m' us)"

definition unit_keys :: "log_unit \<Rightarrow> bool" where
  "unit_keys u \<longleftrightarrow> (\<forall>kv \<in> set (unit_kvs u). kv_key kv \<noteq> [])"

definition ms_consistent :: "memory_segment \<Rightarrow> log_unit list \<Rightarrow> bool" where
  "ms_consistent m us \<longleftrightarrow>
     ms_repr m (run_puts [] (concat (map unit_kvs us))) \<and> ms_logged m us \<and>
     ms_bytes m = run_bytes (run_puts [] (concat (map unit_kvs us)))"

lemma ms_consistent_step:
  assumes "ms_consistent m us" "unit_keys u"
  shows "\<exists>m'. ms_run m [u] = Inr m' \<and> ms_consistent m' (us @ [u]) \<and>
           ms_path m' = ms_path m \<and> ms_options m' = ms_options m"
proof (cases u)
  case (Single kv)
  have "kv_key kv \<noteq> []" using assms(2) Single by (simp add: unit_keys_def)
  then show ?thesis
    using ms_put_repr [of m "run_puts [] (concat (map unit_kvs us))" us "kv_key kv" "kv_value kv"] assms(1) Single
    by (auto simp: ms_consistent_def)
next
  case (Batch es)
  then show ?thesis
    using ms_write_repr [of m "run_puts [] (concat (map unit_kvs us))" us "\<lparr>entries = es\<rparr>"] assms(1)
    by (auto simp: ms_consistent_def)
qed

lemma ms_run_Cons: "ms_run m (u # us) = bind_res (ms_run m [u]) (\<lambda>m'. ms_run m' us)"
  by (cases u) (auto simp: bind_res_def split: sum.splits)

lemma ms_run_consistent:
  assumes "ms_consistent m vs" "\<forall>u \<in> set us. unit_keys u"
  shows "\<exists>m'. ms_run m us = Inr m' \<and> ms_consistent m' (vs @ us) \<and>
           ms_path m' = ms_path m \<and> ms_options m' = ms_options m"
  using assms
proof (induction us arbitrary: m vs)
  case (Cons u us)
  obtain m1 where m1: "ms_run m [u] = Inr m1" "ms_consistent m1 (vs @ [u])" "ms_path m1 = ms_path m"
    "ms_options m1 = ms_options m"
    using ms_consistent_step [OF Cons.prems(1)] Cons.prems(2) by (metis list.set_intros(1))
  obtain m' where "ms_run m1 us = Inr m'" "ms_consistent m' ((vs @ [u]) @ us)" "ms_path m' = ms_path m1"
    "ms_options m' = ms_options m1"
    using Cons.IH [OF m1(2)] Cons.prems(2) by auto
  then show ?case using m1 by (subst ms_run_Cons) simp
qed simp

lemma new_consistent: "ms_consistent (newMemorySegment kv_cmp rnd path i opts) []"
  using newMemorySegment_repr [of rnd path i opts]
  by (simp add: ms_consistent_def ms_logged_def run_bytes_def) (simp add: newMemorySegment_def)

text \<open>C6. Crash recovery: after any sequence of puts, removes and batches on a new memory segment with a log, cut
  the bytes written to the log at any place: the log segment rebuilt from what is left (not applying
  partial batches) answers every \<^verbatim>\<open>get\<close> as the memory segment did after some prefix of the sequence, and after
  the whole sequence if nothing was cut off.\<close>

theorem crash_recovery:
  assumes "path \<noteq> ''''" and "us \<noteq> []" and "\<forall>u \<in> set us. unit_ok u \<and> unit_keys u"
    and "batchReadMode opts' = discardPartial"
  shows "\<exists>m f c l mc. ms_run (newMemorySegment kv_cmp rnd path i opts) us = Inr m \<and> ms_log m = Some f \<and>
           c \<le> length us \<and> (length (log_bytes f) \<le> n \<longrightarrow> c = length us) \<and>
           newLogSegment ji js kv_cmp rnd' path' (take n (log_bytes f)) opts' = Inr l \<and>
           ms_run (newMemorySegment kv_cmp rnd path i opts) (take c us) = Inr mc \<and>
           (\<forall>k. ls_get l k = ms_get mc k)"
proof -
  let ?m0 = "newMemorySegment kv_cmp rnd path i opts"
  have keys: "\<forall>u \<in> set us. unit_keys u" and ok: "\<forall>u \<in> set us. unit_ok u" using assms(3) by auto
  obtain m where m: "ms_run ?m0 us = Inr m" "ms_consistent m us" "ms_path m = path"
    using ms_run_consistent [OF new_consistent keys, of rnd path i opts] by (auto simp: newMemorySegment_def)
  obtain f where f: "ms_log m = Some f" "log_bytes f = concat (map enc_unit us)"
    using m(2,3) assms(1,2) by (auto simp: ms_consistent_def ms_logged_def split: option.splits)
  define c where "c = complete (\<lambda>u. length (enc_unit u)) us n"
  have c: "c \<le> length us" "length (log_bytes f) \<le> n \<longrightarrow> c = length us"
  proof -
    have "complete len xs k \<le> length xs" for len and xs :: "log_unit list" and k
      by (induction xs arbitrary: k) auto
    then show "c \<le> length us" by (simp add: c_def)
    show "length (log_bytes f) \<le> n \<longrightarrow> c = length us" using complete_all [of enc_unit us n] f(2) by (simp add: c_def)
  qed
  have "read_log (batchReadMode opts') (take n (log_bytes f)) = (concat (map unit_kvs (take c us)), None)"
    using read_log_units [OF ok, of discardPartial n] recovered_whole [of discardPartial us n] assms(4) f(2)
    by (simp add: c_def)
  then obtain l where l: "newLogSegment ji js kv_cmp rnd' path' (take n (log_bytes f)) opts' = Inr l"
    "ls_repr l (run_puts [] (concat (map unit_kvs (take c us))))"
    using newLogSegment_repr by blast
  have "\<forall>u \<in> set (take c us). unit_keys u" using keys by (meson in_set_takeD)
  then obtain mc where mc: "ms_run ?m0 (take c us) = Inr mc" "ms_consistent mc (take c us)"
    using ms_run_consistent [OF new_consistent, of "take c us" rnd path i opts] by auto
  have "ms_repr mc (run_puts [] (concat (map unit_kvs (take c us))))"
    using mc(2) by (simp add: ms_consistent_def)
  then have "ls_get l k = ms_get mc k" for k
    by (simp only: ls_get_repr [OF l(2)] ms_get_repr)
  then show ?thesis using m(1) f(1) c l(1) mc(1) by blast
qed

theorem crash_recovery_witness:
  "\<exists>m f c l mc. ms_run (newMemorySegment kv_cmp (\<lambda>i. 0) ''db'' 1 (mk_options True))
       [Single (mk_kv [1] [2]), Batch [mk_kv [3] [4]]] = Inr m \<and> ms_log m = Some f \<and>
     c \<le> length [Single (mk_kv [1] [2]), Batch [mk_kv [3] [4]]] \<and>
     (length (log_bytes f) \<le> 20 \<longrightarrow> c = length [Single (mk_kv [1] [2]), Batch [mk_kv [3] [4]]]) \<and>
     newLogSegment 0 0 kv_cmp (\<lambda>i. 1) ''db/log.1'' (take 20 (log_bytes f)) (mk_options True) = Inr l \<and>
     ms_run (newMemorySegment kv_cmp (\<lambda>i. 0) ''db'' 1 (mk_options True))
       (take c [Single (mk_kv [1] [2]), Batch [mk_kv [3] [4]]]) = Inr mc \<and>
     (\<forall>k. ls_get l k = ms_get mc k)"
  by (rule crash_recovery) (simp_all add: kv_ok_def unit_keys_def mk_options_def)

text \<open>The byte count of a memory segment, which decides when it is swapped out, is exactly the sum of the
  lengths of the keys and values it holds, in its 64-bit arithmetic, after any sequence of writes.\<close>

theorem memory_size_exact:
  assumes "\<forall>u \<in> set us. unit_keys u"
  shows "\<exists>m. ms_run (newMemorySegment kv_cmp rnd path i opts) us = Inr m \<and>
           ms_bytes m = run_bytes (run_puts [] (concat (map unit_kvs us))) \<and>
           sl_repr kv_cmp (ms_list m) (run_puts [] (concat (map unit_kvs us)))"
  using ms_run_consistent [OF new_consistent assms, of rnd path i opts]
  by (auto simp: ms_consistent_def ms_repr_def)

theorem memory_size_exact_witness:
  "\<exists>m. ms_run (newMemorySegment kv_cmp (\<lambda>i. 0) '''' 0 (mk_options True)) [Single (mk_kv [1] [2, 3]), Single (mk_kv [1] [])] = Inr m \<and>
     ms_bytes m = 1 \<and> sl_repr kv_cmp (ms_list m) [mk_kv [1] []]"
  using memory_size_exact [of "[Single (mk_kv [1] [2, 3]), Single (mk_kv [1] [])]" "\<lambda>i. 0" "''''" 0 "mk_options True"]
  by (simp add: unit_keys_def run_put_def kv_cmp_order run_bytes_def kv_len_def)

end
