(* ===== verification/Names.thy ===== *)
theory Names
  imports Prelude
begin

text \<open>
  File names: \<^verbatim>\<open>getSegmentIDs\<close> and the names \<^verbatim>\<open>keys.<lower>.<upper>\<close> and \<^verbatim>\<open>data.<lower>.<upper>\<close> built with
  \<^verbatim>\<open>std::to_string\<close> (\<^verbatim>\<open>disksegment.cpp\<close>, \<^verbatim>\<open>diskio.cpp\<close>, \<^verbatim>\<open>merger.cpp\<close>), the order of the ids, the names that
  \<^verbatim>\<open>checkValidDatabase\<close> admits, and the line-oriented file of the deleter. The lemmas: the ids are read
  back from the names, and distinct ids have distinct names.
\<close>

section \<open>Decimal numbers\<close>

definition digit :: "nat \<Rightarrow> char" where
  "digit d = char_of (48 + d)"

fun digits :: "nat \<Rightarrow> string" where
  "digits n = (if n < 10 then [digit n] else digits (n div 10) @ [digit (n mod 10)])"

declare digits.simps [simp del]

text \<open>\<^verbatim>\<open>std::to_string\<close> of a 64-bit number.\<close>

definition to_string :: "u64 \<Rightarrow> string" where
  "to_string i = digits (unat i)"

definition isdigit :: "char \<Rightarrow> bool" where
  "isdigit c \<longleftrightarrow> 48 \<le> (of_char c :: nat) \<and> (of_char c :: nat) \<le> 57"

definition isspace :: "char \<Rightarrow> bool" where
  "isspace c \<longleftrightarrow> (of_char c :: nat) = 32 \<or> 9 \<le> (of_char c :: nat) \<and> (of_char c :: nat) \<le> 13"

definition digit_value :: "char \<Rightarrow> nat" where
  "digit_value c = of_char c - 48"

definition number_of :: "string \<Rightarrow> nat" where
  "number_of s = foldl (\<lambda>n c. 10 * n + digit_value c) 0 s"

text \<open>
  \<^verbatim>\<open>std::stoul\<close>: white space, a sign, then the longest sequence of digits; it throws when there is no digit
  and when the number is out of range.
\<close>

definition stoul :: "string \<Rightarrow> u64 res" where
  "stoul s =
     (let s1 = dropWhile isspace s;
          neg = (s1 \<noteq> [] \<and> hd s1 = CHR ''-'');
          s2 = (if s1 \<noteq> [] \<and> (hd s1 = CHR ''-'' \<or> hd s1 = CHR ''+'') then tl s1 else s1);
          ds = takeWhile isdigit s2
      in if ds = [] \<or> 2 ^ 64 \<le> number_of ds then Inl StdException
         else Inr (if neg then - of_nat (number_of ds) else of_nat (number_of ds)))"

lemma digit_simps [simp]:
  assumes "d < 10"
  shows "isdigit (digit d)" "digit_value (digit d) = d" "\<not> isspace (digit d)"
    "digit d \<noteq> CHR ''.''" "digit d \<noteq> CHR ''-''" "digit d \<noteq> CHR ''+''" "digit d \<noteq> CHR ''/''"
    "digit d \<noteq> CHR 0x0A" "digit d \<noteq> CHR 0x0D" "digit d \<noteq> CHR ''t''" "digit d \<noteq> CHR ''p''"
    "(of_char (digit d) :: nat) = 48 + d"
proof -
  have *: "(of_char (digit d) :: nat) = 48 + d" using assms by (simp add: digit_def)
  then show "isdigit (digit d)" "digit_value (digit d) = d" "\<not> isspace (digit d)" "(of_char (digit d) :: nat) = 48 + d"
    using assms unfolding isdigit_def digit_value_def isspace_def * by simp_all
  show "digit d \<noteq> CHR ''.''" "digit d \<noteq> CHR ''-''" "digit d \<noteq> CHR ''+''" "digit d \<noteq> CHR ''/''"
    "digit d \<noteq> CHR 0x0A" "digit d \<noteq> CHR 0x0D" "digit d \<noteq> CHR ''t''" "digit d \<noteq> CHR ''p''"
    using * assms by auto
qed

lemma digits_Nil [simp]: "digits n \<noteq> []"
  by (subst digits.simps) simp

lemma digits_chars: "c \<in> set (digits n) \<Longrightarrow> \<exists>d < 10. c = digit d"
proof (induction n rule: digits.induct)
  case (1 n)
  show ?case
  proof (cases "n < 10")
    case True
    then show ?thesis using 1(2) by (auto simp: digits.simps [of n])
  next
    case False
    then have "c \<in> set (digits (n div 10)) \<or> c = digit (n mod 10)" using 1(2) by (auto simp: digits.simps [of n])
    then show ?thesis
    proof
      assume "c = digit (n mod 10)"
      then show ?thesis by (intro exI [of _ "n mod 10"]) simp
    qed (rule 1(1) [OF False])
  qed
qed

lemma number_digits [simp]: "number_of (digits n) = n"
  by (induction n rule: digits.induct) (subst digits.simps, auto simp: number_of_def)

lemma digits_inject [simp]: "digits m = digits n \<longleftrightarrow> m = n"
  using number_digits by metis

lemma to_string_inject [simp]: "to_string i = to_string j \<longleftrightarrow> i = j"
  by (simp add: to_string_def word_unat_eq_iff)

lemma to_string_chars:
  assumes "c \<in> set (to_string i)"
  shows "isdigit c" "c \<noteq> CHR ''.''" "c \<noteq> CHR ''/''" "c \<noteq> CHR 0x0A" "c \<noteq> CHR 0x0D" "c \<noteq> CHR ''t''"
    "c \<noteq> CHR ''p''"
proof -
  obtain d where "d < 10" "c = digit d" using assms digits_chars unfolding to_string_def by blast
  moreover from this have "(of_char c :: nat) = 48 + d" by simp
  ultimately show "isdigit c" "c \<noteq> CHR ''.''" "c \<noteq> CHR ''/''" "c \<noteq> CHR 0x0A" "c \<noteq> CHR 0x0D" "c \<noteq> CHR ''t''"
    "c \<noteq> CHR ''p''"
    by auto
qed

lemma stoul_to_string [simp]: "stoul (to_string i) = Inr i"
proof -
  have d: "\<forall>c \<in> set (to_string i). isdigit c" using to_string_chars(1) by blast
  obtain c cs where s: "to_string i = c # cs" using digits_Nil by (cases "to_string i") (auto simp: to_string_def)
  then obtain d where "d < 10" "c = digit d" using digits_chars [of c "unat i"] by (auto simp: to_string_def)
  then have c: "\<not> isspace c" "c \<noteq> CHR ''-''" "c \<noteq> CHR ''+''" by simp_all
  have "takeWhile isdigit (to_string i) = to_string i" using d by (simp add: takeWhile_eq_all_conv)
  moreover have "number_of (to_string i) = unat i" by (simp add: to_string_def)
  moreover have "unat i < 2 ^ 64" using unsigned_less [of i] by simp
  ultimately show ?thesis using s c by (simp add: stoul_def Let_def)
qed

section \<open>Splitting\<close>

text \<open>\<^verbatim>\<open>boost::split(segs, s, is_any_of("."))\<close>, and for the lines of a file the same at another character.\<close>

fun split_at :: "char \<Rightarrow> string \<Rightarrow> string list" where
  "split_at sep [] = [[]]"
| "split_at sep (c # cs) =
     (if c = sep then [] # split_at sep cs
      else case split_at sep cs of [] \<Rightarrow> [[c]] | w # ws \<Rightarrow> (c # w) # ws)"

lemma split_at_Nil [simp]: "split_at sep s \<noteq> []"
  by (induction s) (auto split: list.splits)

lemma split_at_word [simp]: "sep \<notin> set s \<Longrightarrow> split_at sep s = [s]"
  by (induction s) (auto split: list.splits)

lemma split_at_append [simp]: "sep \<notin> set a \<Longrightarrow> split_at sep (a @ sep # b) = a # split_at sep b"
  by (induction a) (auto split: list.splits)

section \<open>Segment ids\<close>

text \<open>The struct \<^verbatim>\<open>IDS\<close>, ordered as \<^verbatim>\<open>segmentCompare\<close> orders the segments that have them.\<close>

datatype ids = IDS (ids_lower: u64) (ids_upper: u64)

definition ids_compare :: "ids \<Rightarrow> ids \<Rightarrow> bool" where
  "ids_compare a b =
     (if ids_upper a = ids_upper b then ids_lower a > ids_lower b else ids_upper a < ids_upper b)"

instantiation ids :: linorder
begin

definition less_ids :: "ids \<Rightarrow> ids \<Rightarrow> bool" where
  "a < b \<longleftrightarrow> ids_compare a b"

definition less_eq_ids :: "ids \<Rightarrow> ids \<Rightarrow> bool" where
  "a \<le> b \<longleftrightarrow> ids_compare a b \<or> a = (b :: ids)"

instance
  by standard (auto simp: less_ids_def less_eq_ids_def ids_compare_def intro: ids.expand split: if_splits)

end

lemma ids_le_iff: "a \<le> b \<longleftrightarrow> ids_upper a < ids_upper b \<or> ids_upper a = ids_upper b \<and> ids_lower b \<le> ids_lower a"
  by (cases a; cases b) (auto simp: less_eq_ids_def ids_compare_def)

text \<open>\<^verbatim>\<open>getSegmentIDs\<close>: the second and the third part of the string split at its dots.\<close>

definition getSegmentIDs :: "string \<Rightarrow> ids res" where
  "getSegmentIDs filename =
     (let segs = split_at CHR ''.'' filename
      in bind_res (access (if 1 < length segs then Some (segs ! 1) else None)) (\<lambda>s1.
         bind_res (stoul s1) (\<lambda>lower.
         bind_res (access (if 2 < length segs then Some (segs ! 2) else None)) (\<lambda>s2.
         bind_res (stoul s2) (\<lambda>upper. Inr (IDS lower upper))))))"

definition key_name :: "ids \<Rightarrow> string" where
  "key_name i = ''keys.'' @ to_string (ids_lower i) @ ''.'' @ to_string (ids_upper i)"

definition data_name :: "ids \<Rightarrow> string" where
  "data_name i = ''data.'' @ to_string (ids_lower i) @ ''.'' @ to_string (ids_upper i)"

definition log_name :: "u64 \<Rightarrow> string" where
  "log_name i = ''log.'' @ to_string i"

lemma to_string_no_dot [simp]: "CHR ''.'' \<notin> set (to_string i)" "CHR ''/'' \<notin> set (to_string i)"
  "CHR 0x0A \<notin> set (to_string i)" "CHR 0x0D \<notin> set (to_string i)"
  using to_string_chars by blast+

lemma split_two_numbers:
  assumes "CHR ''.'' \<notin> set p"
  shows "split_at CHR ''.'' (p @ CHR ''.'' # to_string l @ CHR ''.'' # to_string u) = [p, to_string l, to_string u]"
  using assms by simp

lemma getSegmentIDs_name:
  assumes "CHR ''.'' \<notin> set p"
  shows "getSegmentIDs (p @ key_name i) = Inr i"
proof -
  have "p @ key_name i = (p @ ''keys'') @ CHR ''.'' # to_string (ids_lower i) @ CHR ''.'' # to_string (ids_upper i)"
    by (simp add: key_name_def)
  moreover have "CHR ''.'' \<notin> set (p @ ''keys'')" using assms by simp
  ultimately show ?thesis
    using split_two_numbers [of "p @ ''keys''"] by (simp add: getSegmentIDs_def Let_def)
qed

lemma getSegmentIDs_tmp: "getSegmentIDs (key_name i @ ''.tmp'') = Inr i"
proof -
  have "key_name i @ ''.tmp'' = ''keys'' @ CHR ''.'' # to_string (ids_lower i) @ CHR ''.'' # to_string (ids_upper i) @
      CHR ''.'' # ''tmp''"
    by (simp add: key_name_def)
  then show ?thesis by (simp add: getSegmentIDs_def Let_def)
qed

lemma name_inject [simp]:
  "key_name i = key_name j \<longleftrightarrow> i = j" "data_name i = data_name j \<longleftrightarrow> i = j" "key_name i \<noteq> data_name j"
  "data_name j \<noteq> key_name i"
proof -
  show k: "key_name i = key_name j \<longleftrightarrow> i = j"
  proof
    assume "key_name i = key_name j"
    then have "getSegmentIDs ([] @ key_name i) = getSegmentIDs ([] @ key_name j)" by (simp only:)
    then show "i = j" by (simp only: getSegmentIDs_name list.set empty_iff not_False_eq_True sum.inject)
  qed simp
  show "data_name i = data_name j \<longleftrightarrow> i = j"
    using k by (simp add: key_name_def data_name_def)
  show "key_name i \<noteq> data_name j" "data_name j \<noteq> key_name i" by (simp_all add: key_name_def data_name_def)
qed

text \<open>
  The names a database directory may hold: \<^verbatim>\<open>lockfile\<close>, \<^verbatim>\<open>deleted\<close> and what the regular expression
  \<^verbatim>\<open>(log|keys|data)\\..*\<close> matches, in which the last dot stands for any character but a line terminator.
\<close>

definition has_prefix :: "string \<Rightarrow> string \<Rightarrow> bool" where
  "has_prefix p s \<longleftrightarrow> take (length p) s = p"

definition regex_match :: "string \<Rightarrow> bool" where
  "regex_match s \<longleftrightarrow>
     (\<exists>p \<in> set [''log.'', ''keys.'', ''data.'']. has_prefix p s \<and>
        (\<forall>c \<in> set (drop (length p) s). c \<noteq> CHR 0x0A \<and> c \<noteq> CHR 0x0D))"

definition valid_name :: "string \<Rightarrow> bool" where
  "valid_name s \<longleftrightarrow> s = ''lockfile'' \<or> s = ''deleted'' \<or> regex_match s"

text \<open>\<^verbatim>\<open>path.extension() == ".tmp"\<close>, and \<^verbatim>\<open>stem()\<close> of such a path.\<close>

definition is_tmp :: "string \<Rightarrow> bool" where
  "is_tmp s \<longleftrightarrow> 4 < length s \<and> drop (length s - 4) s = ''.tmp''"

definition tmp_stem :: "string \<Rightarrow> string" where
  "tmp_stem s = take (length s - 4) s"

text \<open>The last component of a path.\<close>

definition path_filename :: "string \<Rightarrow> string" where
  "path_filename s = last (split_at CHR ''/'' s)"

lemma has_prefix_simps [simp]:
  "has_prefix [] s" "has_prefix (c # p) [] \<longleftrightarrow> False"
  "has_prefix (c # p) (d # s) \<longleftrightarrow> c = d \<and> has_prefix p s"
  by (auto simp: has_prefix_def)

lemma names_valid [simp]: "valid_name (key_name i)" "valid_name (data_name i)" "valid_name (log_name n)"
  by (auto simp: valid_name_def regex_match_def key_name_def data_name_def log_name_def dest: to_string_chars)

lemma names_kind [simp]:
  "has_prefix ''keys.'' (key_name i)" "\<not> has_prefix ''keys.'' (data_name i)" "\<not> has_prefix ''keys.'' (log_name n)"
  "\<not> has_prefix ''log.'' (key_name i)" "key_name i \<noteq> log_name n" "data_name i \<noteq> log_name n"
  "log_name n \<noteq> key_name i" "log_name n \<noteq> data_name i"
  "key_name i \<noteq> ''deleted''" "data_name i \<noteq> ''deleted''" "key_name i \<noteq> ''lockfile''" "data_name i \<noteq> ''lockfile''"
  "''deleted'' \<noteq> key_name i" "''deleted'' \<noteq> data_name i" "''lockfile'' \<noteq> key_name i" "''lockfile'' \<noteq> data_name i"
  "has_prefix ''data.'' (data_name i)" "\<not> has_prefix ''data.'' (key_name i)" "\<not> has_prefix ''data.'' (log_name n)"
  by (simp_all add: key_name_def data_name_def log_name_def)

lemma not_tmp:
  assumes "CHR ''t'' \<notin> set (drop 1 s)"
  shows "\<not> is_tmp s"
proof
  assume "is_tmp s"
  then have "drop (length s - 4) s = ''.tmp''" "4 < length s" by (simp_all add: is_tmp_def)
  then have "CHR ''t'' \<in> set (drop (length s - 4) s)" by simp
  moreover have "set (drop (length s - 4) s) \<subseteq> set (drop 1 s)"
    using \<open>4 < length s\<close> by (intro set_drop_subset_set_drop) simp
  ultimately show False using assms by blast
qed

lemma names_not_tmp [simp]:
  "\<not> is_tmp (key_name i)" "\<not> is_tmp ''deleted''" "\<not> is_tmp ''lockfile''" "\<not> is_tmp (log_name n)"
proof -
  have "CHR ''t'' \<notin> set (to_string n)" for n using to_string_chars(6) by blast
  then show "\<not> is_tmp (key_name i)" "\<not> is_tmp (log_name n)"
    by (auto intro!: not_tmp simp: key_name_def log_name_def)
qed (simp_all add: is_tmp_def)

lemma data_name_not_tmp [simp]: "\<not> is_tmp (data_name i)"
proof
  assume t: "is_tmp (data_name i)"
  have "last (data_name i) = last (to_string (ids_upper i))"
    using digits_Nil by (simp add: data_name_def to_string_def)
  moreover have "last (to_string (ids_upper i)) \<noteq> CHR ''p''"
    using to_string_chars(7) last_in_set digits_Nil unfolding to_string_def by blast
  moreover have "last (data_name i) = CHR ''p''"
    using t last_drop [of "length (data_name i) - 4" "data_name i"] by (auto simp: is_tmp_def)
  ultimately show False by simp
qed

lemma is_tmp_name [simp]: "s \<noteq> [] \<Longrightarrow> is_tmp (s @ ''.tmp'')" "tmp_stem (s @ ''.tmp'') = s"
  by (auto simp: is_tmp_def tmp_stem_def)

lemma tmp_neq [simp]: "\<not> is_tmp s \<Longrightarrow> t \<noteq> [] \<Longrightarrow> t @ ''.tmp'' \<noteq> s" "\<not> is_tmp s \<Longrightarrow> t \<noteq> [] \<Longrightarrow> s \<noteq> t @ ''.tmp''"
  using is_tmp_name(1) by blast+

lemma name_not_Nil [simp]: "key_name i \<noteq> []" "data_name i \<noteq> []"
  by (simp_all add: key_name_def data_name_def)

section \<open>Lines\<close>

text \<open>Characters as bytes of a file, the lines written with a newline after each, and \<^verbatim>\<open>std::getline\<close>.\<close>

definition text_bytes :: "string \<Rightarrow> bytes" where
  "text_bytes s = map (\<lambda>c. of_nat (of_char c)) s"

definition bytes_text :: "bytes \<Rightarrow> string" where
  "bytes_text b = map (\<lambda>x. char_of (unat x)) b"

definition write_lines :: "string list \<Rightarrow> bytes" where
  "write_lines ls = concat (map (\<lambda>l. text_bytes (l @ [CHR 0x0A])) ls)"

text \<open>All the lines \<^verbatim>\<open>getline\<close> returns; a last line without a newline counts unless it is empty.\<close>

definition getlines :: "string \<Rightarrow> string list" where
  "getlines s = (let ws = split_at CHR 0x0A s in if last ws = [] then butlast ws else ws)"

lemma bytes_text_simps [simp]: "bytes_text (text_bytes s) = s" "bytes_text (a @ b) = bytes_text a @ bytes_text b"
  "text_bytes (s @ t) = text_bytes s @ text_bytes t" "text_bytes [] = []" "bytes_text [] = []"
proof -
  have "unat (of_nat (of_char c) :: u8) = of_char c" for c
    using of_char_mod_256 [of c] by (simp add: unat_of_nat)
  then show "bytes_text (text_bytes s) = s"
    by (induction s) (simp_all add: bytes_text_def text_bytes_def)
qed (simp_all add: bytes_text_def text_bytes_def)

lemma getlines_written:
  "\<forall>l \<in> set ls. CHR 0x0A \<notin> set l \<Longrightarrow>
     getlines (bytes_text (write_lines ls) @ s) = ls @ getlines s"
proof (induction ls)
  case (Cons l ls)
  have "bytes_text (write_lines (l # ls)) @ s = l @ CHR 0x0A # bytes_text (write_lines ls) @ s"
    by (simp add: write_lines_def flip: append_Cons append_assoc)
  then show ?case using Cons by (simp add: getlines_def Let_def split: if_splits)
qed (simp add: write_lines_def)

end
