(* ===== verification/Segments.thy ===== *)
theory Segments
  imports DiskLookup MemorySegment Names
begin

text \<open>
  \<^verbatim>\<open>include/segment.h\<close>: the segments of a database as one type, with its virtual methods dispatched on
  the kind of segment, and the iterators as one type that meets the iterator contract. Through the
  contract the merging iterator over segments of all kinds returns the merge of their runs.
\<close>

section \<open>Iterators of all kinds\<close>

datatype seg_iterator = SkipIt skip_iterator | DiskIt disk_iterator | NoIt empty_iterator

definition wrap :: "('a \<Rightarrow> 'b) \<Rightarrow> ('x \<times> 'a) res \<Rightarrow> ('x \<times> 'b) res" where
  "wrap f r = bind_res r (\<lambda>(x, a). Inr (x, f a))"

lemma wrap_simps [simp]: "wrap f (Inr (x, a)) = Inr (x, f a)" "wrap f (Inl e) = Inl e"
  by (simp_all add: wrap_def)

fun seg_peekKey :: "seg_iterator \<Rightarrow> (bytes \<times> seg_iterator) res" where
  "seg_peekKey (SkipIt it) = wrap SkipIt (si_peekKey it)"
| "seg_peekKey (DiskIt it) = wrap DiskIt (disk_peekKey it)"
| "seg_peekKey (NoIt it) = wrap NoIt (empty_peekKey it)"

fun seg_next :: "seg_iterator \<Rightarrow> (keyvalue \<times> seg_iterator) res" where
  "seg_next (SkipIt it) = wrap SkipIt (si_next it)"
| "seg_next (DiskIt it) = wrap DiskIt (disk_next it)"
| "seg_next (NoIt it) = wrap NoIt (empty_next it)"

fun seg_yields :: "seg_iterator \<Rightarrow> keyvalue list \<Rightarrow> bool" where
  "seg_yields (SkipIt it) kvs = si_yields it kvs"
| "seg_yields (DiskIt it) kvs = disk_yields it kvs"
| "seg_yields (NoIt it) kvs = empty_yields it kvs"

text \<open>The contract passes through a wrapper.\<close>

context lookup_iterator
begin

lemma wrapped:
  "yields it [] \<Longrightarrow> \<exists>it'. wrap f (peekKey it) = Inr ([], f it') \<and> yields it' []"
  "yields it (kv # kvs) \<Longrightarrow> \<exists>it'. wrap f (peekKey it) = Inr (kv_key kv, f it') \<and> yields it' (kv # kvs)"
  "yields it [] \<Longrightarrow> \<exists>kv it'. wrap f (nextKv it) = Inr (kv, f it') \<and> kv_key kv = [] \<and> yields it' []"
  "yields it (kv # kvs) \<Longrightarrow> \<exists>it'. wrap f (nextKv it) = Inr (kv, f it') \<and> yields it' kvs"
  using peek_Nil [of it] peek_Cons [of it kv kvs] next_Nil [of it] next_Cons [of it kv kvs] by fastforce+

end

interpretation seg_it: lookup_iterator seg_peekKey seg_next seg_yields
proof unfold_locales
  fix it kv kvs
  show "seg_yields it [] \<Longrightarrow> \<exists>kv it'. seg_next it = Inr (kv, it') \<and> kv_key kv = [] \<and> seg_yields it' []"
    using skip_it.wrapped(3) [of _ SkipIt] disk_it.wrapped(3) [of _ DiskIt] empty_it.wrapped(3) [of _ NoIt]
    by (cases it) (fastforce simp del: empty_it_simps)+
  show "seg_yields it (kv # kvs) \<Longrightarrow> \<exists>it'. seg_next it = Inr (kv, it') \<and> seg_yields it' kvs"
    using skip_it.wrapped(4) [of _ kv kvs SkipIt] disk_it.wrapped(4) [of _ kv kvs DiskIt]
    by (cases it) fastforce+
  show "seg_yields it [] \<Longrightarrow> \<exists>it'. seg_peekKey it = Inr ([], it') \<and> seg_yields it' []"
    using skip_it.wrapped(1) [of _ SkipIt] disk_it.wrapped(1) [of _ DiskIt] empty_it.wrapped(1) [of _ NoIt]
    by (cases it) fastforce+
  show "seg_yields it (kv # kvs) \<Longrightarrow> \<exists>it'. seg_peekKey it = Inr (kv_key kv, it') \<and> seg_yields it' (kv # kvs)"
    using skip_it.wrapped(2) [of _ kv kvs SkipIt] disk_it.wrapped(2) [of _ kv kvs DiskIt]
    by (cases it) fastforce+
  show "seg_yields it kvs \<Longrightarrow> sorted_kvs kvs"
    using skip_it.yields_sorted disk_it.yields_sorted by (cases it) auto
  show "seg_yields it kvs \<Longrightarrow> kv \<in> set kvs \<Longrightarrow> kv_key kv \<noteq> []"
    using skip_it.yields_keys disk_it.yields_keys by (cases it) auto
qed

section \<open>Segments of all kinds\<close>

datatype segment = MemSeg memory_segment | DiskSeg disk_segment | LogSeg log_segment

text \<open>
  What the calls find uninitialised: the stack array of \<^verbatim>\<open>scanBlock\<close> and the first buffer of a disk
  iterator. Both are given from outside.
\<close>

record junk =
  j_stack :: bytes
  j_buffer :: bytes

fun seg_get :: "junk \<Rightarrow> segment \<Rightarrow> bytes \<Rightarrow> bytes res" where
  "seg_get j (MemSeg m) k = ms_get m k"
| "seg_get j (DiskSeg d) k = ds_get (j_stack j) d k"
| "seg_get j (LogSeg l) k = ls_get l k"

definition ds_lookup :: "junk \<Rightarrow> disk_segment \<Rightarrow> bytes \<Rightarrow> bytes \<Rightarrow> seg_iterator res" where
  "ds_lookup j d lower upper =
     (if length (ds_keyFile d) = 0 then Inr (NoIt EmptyIterator)
      else bind_res (disk_lookup (j_buffer j) d lower upper) (\<lambda>it. Inr (DiskIt it)))"

fun seg_lookup :: "junk \<Rightarrow> kv_compare \<Rightarrow> segment \<Rightarrow> bytes \<Rightarrow> bytes \<Rightarrow> seg_iterator res" where
  "seg_lookup j icmp (MemSeg m) lower upper = bind_res (ms_lookup icmp m lower upper) (\<lambda>it. Inr (SkipIt it))"
| "seg_lookup j icmp (DiskSeg d) lower upper = ds_lookup j d lower upper"
| "seg_lookup j icmp (LogSeg l) lower upper = bind_res (ls_lookup icmp l lower upper) (\<lambda>it. Inr (SkipIt it))"

fun seg_size :: "segment \<Rightarrow> u64" where
  "seg_size (MemSeg m) = ms_bytes m"
| "seg_size (DiskSeg d) = ds_size d"
| "seg_size (LogSeg l) = ls_filesize l"

fun seg_lowerID :: "segment \<Rightarrow> u64" where
  "seg_lowerID (MemSeg m) = ms_id m"
| "seg_lowerID (DiskSeg d) = ds_lowerID d"
| "seg_lowerID (LogSeg l) = ls_id l"

fun seg_upperID :: "segment \<Rightarrow> u64" where
  "seg_upperID (MemSeg m) = ms_id m"
| "seg_upperID (DiskSeg d) = ds_upperID d"
| "seg_upperID (LogSeg l) = ls_id l"

fun seg_files :: "segment \<Rightarrow> string list" where
  "seg_files (MemSeg m) = []"
| "seg_files (DiskSeg d) = ds_names d"
| "seg_files (LogSeg l) = [path_filename (ls_path l)]"

definition seg_ids :: "segment \<Rightarrow> ids" where
  "seg_ids s = IDS (seg_lowerID s) (seg_upperID s)"

definition copyAndAppend :: "'a list \<Rightarrow> 'a \<Rightarrow> 'a list" where
  "copyAndAppend xs x = xs @ [x]"

section \<open>Runs of segments\<close>

definition keys_nonempty :: "keyvalue list \<Rightarrow> bool" where
  "keys_nonempty r \<longleftrightarrow> (\<forall>kv \<in> set r. kv_key kv \<noteq> [])"

fun seg_repr :: "segment \<Rightarrow> keyvalue list \<Rightarrow> bool" where
  "seg_repr (MemSeg m) r = (ms_repr m r \<and> keys_nonempty r)"
| "seg_repr (DiskSeg d) r = (\<exists>bs. disk_repr d r bs)"
| "seg_repr (LogSeg l) r = (ls_repr l r \<and> keys_nonempty r)"

text \<open>
  A disk segment whose key file is empty: looking it up is defined, \<^verbatim>\<open>get\<close> is not. \<open>seg_lists\<close> is what
  every segment with a usable \<^verbatim>\<open>lookup\<close> satisfies.
\<close>

definition empty_disk :: "disk_segment \<Rightarrow> bool" where
  "empty_disk d \<longleftrightarrow> ds_keyFile d = [] \<and> ds_dataFile d = [] \<and> ds_keyIndex d = [] \<and> ds_keyBlocks d = keyBlocks_of []"

definition seg_lists :: "segment \<Rightarrow> keyvalue list \<Rightarrow> bool" where
  "seg_lists s r \<longleftrightarrow> seg_repr s r \<or> (r = [] \<and> (\<exists>d. s = DiskSeg d \<and> empty_disk d))"

lemma seg_repr_lists: "seg_repr s r \<Longrightarrow> seg_lists s r"
  by (simp add: seg_lists_def)

lemma all_repr_lists: "list_all2 seg_repr segs rs \<Longrightarrow> list_all2 seg_lists segs rs"
  by (erule list_all2_mono) (rule seg_repr_lists)

lemma seg_repr_run:
  assumes "seg_repr s r"
  shows "sorted_kvs r" and "keys_nonempty r"
  using assms
  by (cases s; auto simp: ms_repr_sorted ls_repr_def sl_repr_def kv_cmp_order disk_repr_def run_ok_def keys_nonempty_def)+

lemma seg_lists_run:
  assumes "seg_lists s r"
  shows "sorted_kvs r" and "keys_nonempty r"
  using assms seg_repr_run unfolding seg_lists_def by (auto simp: keys_nonempty_def)

abbreviation value_in :: "keyvalue list \<Rightarrow> bytes \<Rightarrow> bytes" where
  "value_in r k \<equiv> (case find_kv r k of None \<Rightarrow> [] | Some v \<Rightarrow> v)"

lemma seg_get_repr:
  "seg_repr s r \<Longrightarrow> length (j_stack j) = maxKeySize \<Longrightarrow> seg_get j s k = Inr (value_in r k)"
  by (cases s) (auto simp: ms_get_repr ls_get_repr disk_get_repr)

text \<open>The two kinds of range agree when the bounds are in order.\<close>

definition range_ok :: "bytes \<Rightarrow> bytes \<Rightarrow> bool" where
  "range_ok lower upper \<longleftrightarrow> lower = [] \<or> upper = [] \<or> lower \<le> upper"

lemma in_range_mem_range: "range_ok lower upper \<Longrightarrow> in_range lower upper = mem_range lower upper"
  by (auto simp: fun_eq_iff in_range_def mem_range_def within_def range_ok_def)

lemma seg_lookup_repr:
  assumes "seg_repr s r" "range_ok lower upper"
  shows "\<exists>it. seg_lookup j kv_cmp s lower upper = Inr it \<and> seg_yields it (filter (mem_range lower upper) r)"
proof (cases s)
  case (MemSeg m)
  then show ?thesis
    using assms(1) ms_lookup_yields [of m r lower upper] by (fastforce simp: keys_nonempty_def)
next
  case (LogSeg l)
  then show ?thesis
    using assms(1) list_lookup_yields [of "ls_list l" r lower upper]
    by (fastforce simp: keys_nonempty_def ls_lookup_def ls_repr_def)
next
  case (DiskSeg d)
  then obtain bs where d: "disk_repr d r bs" using assms(1) by auto
  then have ne: "length (ds_keyFile d) \<noteq> 0"
    using length_key_file [of bs r] by (auto simp: disk_repr_def keyBlockSize_def)
  obtain it where "disk_lookup (j_buffer j) d lower upper = Inr it"
    "disk_yields it (filter (in_range lower upper) r)"
    using disk_lookup_yields [OF d] by blast
  then show ?thesis
    using DiskSeg ne in_range_mem_range [OF assms(2)] by (simp add: ds_lookup_def)
qed

lemma seg_lookup_yields:
  assumes "seg_lists s r" "range_ok lower upper"
  shows "\<exists>it. seg_lookup j kv_cmp s lower upper = Inr it \<and> seg_yields it (filter (mem_range lower upper) r)"
  using assms seg_lookup_repr [of s r lower upper j] by (auto simp: seg_lists_def ds_lookup_def empty_disk_def)

section \<open>The view of several segments\<close>

lemma multi_lookup_yields:
  assumes "list_all2 seg_lists segs rs" "range_ok lower upper"
  shows "\<exists>its. multi_lookup (seg_lookup j kv_cmp) segs lower upper = Inr its \<and>
           list_all2 seg_yields its (map (filter (mem_range lower upper)) rs)"
  using assms(1)
proof (induction rule: list_all2_induct)
  case (Cons s segs r rs)
  obtain it where "seg_lookup j kv_cmp s lower upper = Inr it"
    "seg_yields it (filter (mem_range lower upper) r)"
    using seg_lookup_yields [OF Cons(1) assms(2)] by blast
  then show ?case using Cons by auto
qed simp

text \<open>Restricting the runs to a range restricts their merge.\<close>

lemma find_filter:
  "find_kv (filter (mem_range lower upper) r) k =
     (if mem_range lower upper (Key k) then find_kv r k else None)"
  by (induction r) (auto simp: mem_range_def within_def)

lemma newest_filter:
  "newest (map (filter (mem_range lower upper)) rs) k = (if mem_range lower upper (Key k) then newest rs k else None)"
  by (induction rs) (auto simp: find_filter split: option.splits)

lemma merge_runs_filter:
  assumes "\<forall>r \<in> set rs. sorted_kvs r"
  shows "merge_runs (map (filter (mem_range lower upper)) rs) = filter (mem_range lower upper) (merge_runs rs)"
proof (rule sorted_kvs_ext)
  have s: "\<forall>r \<in> set (map (filter (mem_range lower upper)) rs). sorted_kvs r"
    using assms by (auto intro: sorted_wrt_filter)
  show "sorted_kvs (merge_runs (map (filter (mem_range lower upper)) rs))"
    by (rule merge_runs_spec(1) [OF s])
  show "sorted_kvs (filter (mem_range lower upper) (merge_runs rs))"
    by (rule sorted_wrt_filter) (rule merge_runs_spec(1) [OF assms])
  show "find_kv (merge_runs (map (filter (mem_range lower upper)) rs)) k =
      find_kv (filter (mem_range lower upper) (merge_runs rs)) k" for k
    by (simp add: merge_runs_spec(2) [OF s] merge_runs_spec(2) [OF assms] newest_filter find_filter)
qed

text \<open>A lookup over several segments returns the merge of their runs, in the range.\<close>

lemma multi_drain:
  assumes "list_all2 seg_lists segs rs" "range_ok lower upper"
  shows "\<exists>its. multi_lookup (seg_lookup j kv_cmp) segs lower upper = Inr its \<and>
           multi_yields seg_yields its (filter (mem_range lower upper) (merge_runs rs))"
proof -
  obtain its where its: "multi_lookup (seg_lookup j kv_cmp) segs lower upper = Inr its"
    "list_all2 seg_yields its (map (filter (mem_range lower upper)) rs)"
    using multi_lookup_yields [OF assms] by blast
  have "\<forall>r \<in> set rs. sorted_kvs r"
    using assms(1) seg_lists_run(1) by (induction rule: list_all2_induct) auto
  then show ?thesis
    using its merge_runs_filter by (metis multi_yields_def)
qed

lemma multi_get_repr:
  assumes "list_all2 seg_repr segs rs" "length (j_stack j) = maxKeySize"
  shows "multi_get (seg_get j) segs k [] = Inr (newest_value (map (\<lambda>r. value_in r k) rs))"
proof (rule multi_get_values)
  show "list_all2 (\<lambda>s v. seg_get j s k = Inr v) segs (map (\<lambda>r. value_in r k) rs)"
    using assms(1) by (induction rule: list_all2_induct) (simp_all add: seg_get_repr assms(2))
qed simp

text \<open>
  \<^verbatim>\<open>get\<close> on a disk segment with an empty key file: the number of blocks has wrapped around, and the first read
  leaves the file. So a \<^verbatim>\<open>get\<close> through several segments that returns has met no such segment before its value.
\<close>

lemma empty_disk_get:
  assumes "empty_disk d"
  shows "seg_get j (DiskSeg d) k = Inl UndefinedBehaviour"
proof -
  have "keyBlocks_of [] = 4503599627370496" by (simp add: keyBlocks_of_def keyBlockSize_def)
  then show ?thesis
    using assms by (simp add: empty_disk_def ds_get_def binarySearch_def index_position_def upper_bound_def
        keyIndexInterval_def binarySearch0.simps [of "[]" 0 16 k] block_first_key_def readAt_def mapped_def
        keyBlockSize_def Let_def)
qed

lemma multi_get_success:
  assumes "list_all2 seg_lists segs rs" "length (j_stack j) = maxKeySize" "multi_get (seg_get j) segs k [] = Inr v"
  shows "v = newest_value (map (\<lambda>r. value_in r k) rs)"
proof -
  have "v = newest_value (map (\<lambda>r. value_in r k) rs)"
    if "multi_get_loop (seg_get j) (rev segs) k val = Inr v" "val = [] \<or> segs \<noteq> []" for val
    using assms(1) that
  proof (induction segs arbitrary: rs val rule: rev_induct)
    case (snoc s segs)
    obtain rs' r where rs: "rs = rs' @ [r]" "list_all2 seg_lists segs rs'" "seg_lists s r"
      using snoc.prems(1) by (auto simp: list_all2_append1 list_all2_Cons1)
    have "seg_repr s r" using rs(3) snoc.prems(2) empty_disk_get unfolding seg_lists_def by fastforce
    then have "seg_get j s k = Inr (value_in r k)" by (rule seg_get_repr [OF _ assms(2)])
    then show ?case
      using snoc.prems(2) snoc.IH [OF rs(2), of "[]"] rs(1) by (auto simp: newest_value_snoc split: if_splits)
  qed simp
  from this [of "[]"] show ?thesis using assms(3) by (simp add: multi_get_def)
qed

end
