(* ===== verification/Directory.thy ===== *)
theory Directory
  imports Segments
begin

text \<open>
  The files of a database directory: writing a segment to disk and loading it (\<^verbatim>\<open>writeAndLoadSegment\<close> and
  \<^verbatim>\<open>writeSegmentToDisk\<close> of \<^verbatim>\<open>diskio.cpp\<close>), loading all segments of a directory
  (\<^verbatim>\<open>DiskSegment::loadDiskSegments\<close>), and \<^verbatim>\<open>include/deleter.h\<close>. The lemmas: a segment written is loaded
  back as the same run, and the segments loaded are ordered by their ids with none contained in a later one.
\<close>

section \<open>The directory\<close>

text \<open>
  A directory maps the names in it to the contents of the files. The logs of the memory segments in use are
  not in it: they are the \<open>log_file\<close> of the segment (\<^verbatim>\<open>LogLife\<close> adds their files). What an exception leaves in the directory is not
  modelled.
\<close>

type_synonym directory = "string \<rightharpoonup> bytes"

definition fs_read :: "string \<Rightarrow> directory \<Rightarrow> bytes res" where
  "fs_read name d = (case d name of None \<Rightarrow> Inl FilesystemError | Some f \<Rightarrow> Inr f)"

definition fs_rename :: "string \<Rightarrow> string \<Rightarrow> directory \<Rightarrow> directory res" where
  "fs_rename old new d = bind_res (fs_read old d) (\<lambda>f. Inr ((d(old := None))(new \<mapsto> f)))"

definition fs_remove :: "string \<Rightarrow> directory \<Rightarrow> directory" where
  "fs_remove name d = d(name := None)"

section \<open>Opening and writing a segment\<close>

text \<open>\<^verbatim>\<open>DiskSegment::newDiskSegment\<close> on two files of the directory at \<open>dbpath\<close>; the ids are read from the path.\<close>

definition load_disk_segment ::
  "string \<Rightarrow> string \<Rightarrow> string \<Rightarrow> bytes list \<Rightarrow> directory \<Rightarrow> disk_segment res" where
  "load_disk_segment dbpath kname dname index d =
     bind_res (fs_read kname d) (\<lambda>kf.
     bind_res (fs_read dname d) (\<lambda>df.
     bind_res (getSegmentIDs (dbpath @ ''/'' @ kname)) (\<lambda>i.
       newDiskSegment [kname, dname] (ids_lower i) (ids_upper i) kf df index)))"

definition writeAndLoadSegment ::
  "('it \<Rightarrow> (keyvalue \<times> 'it) res) \<Rightarrow> string \<Rightarrow> string \<Rightarrow> string \<Rightarrow> 'it \<Rightarrow> bool \<Rightarrow> directory \<Rightarrow>
     (disk_segment \<times> directory) res" where
  "writeAndLoadSegment nxt dbpath kname dname it purgeDeleted d =
     (if d kname \<noteq> None \<or> d dname \<noteq> None then Inl (IllegalState ''key/data file should not exist'')
      else case writeSegmentFiles nxt purgeDeleted it of
        None \<Rightarrow> Inl NoReturn
      | Some r \<Rightarrow> bind_res r (\<lambda>f.
          let d1 = d(kname @ ''.tmp'' \<mapsto> key_bytes f, dname @ ''.tmp'' \<mapsto> data_bytes f)
          in bind_res (fs_rename (kname @ ''.tmp'') kname d1) (\<lambda>d2.
             bind_res (fs_rename (dname @ ''.tmp'') dname d2) (\<lambda>d3.
             bind_res (load_disk_segment dbpath kname dname (index_keys f) d3) (\<lambda>s. Inr (s, d3))))))"

text \<open>\<^verbatim>\<open>removeSegment\<close>: the files of the segment, or its log file.\<close>

fun seg_removeSegment :: "segment \<Rightarrow> directory \<Rightarrow> directory" where
  "seg_removeSegment (MemSeg m) d = (if ms_log m \<noteq> None then fs_remove (log_name (ms_id m)) d else d)"
| "seg_removeSegment (DiskSeg s) d = foldl (\<lambda>d name. fs_remove name d) d (ds_names s)"
| "seg_removeSegment (LogSeg l) d = fs_remove (path_filename (ls_path l)) d"

definition writeSegmentToDisk :: "junk \<Rightarrow> kv_compare \<Rightarrow> string \<Rightarrow> segment \<Rightarrow> directory \<Rightarrow> directory res" where
  "writeSegmentToDisk j icmp dbpath seg d =
     bind_res (seg_lookup j icmp seg [] []) (\<lambda>it.
     bind_res (seg_peekKey it) (\<lambda>(k, it1).
       if k = [] then Inr (seg_removeSegment seg d)
       else bind_res (writeAndLoadSegment seg_next dbpath (key_name (seg_ids seg)) (data_name (seg_ids seg)) it1 False d)
              (\<lambda>(s, d1). Inr (seg_removeSegment seg d1))))"

section \<open>The deleter\<close>

text \<open>The stream is open from the first scheduled deletion to the deletion.\<close>

record deleter =
  dl_path :: string
  dl_open :: bool

definition scheduleDeletion :: "deleter \<Rightarrow> string list \<Rightarrow> directory \<Rightarrow> deleter \<times> directory" where
  "scheduleDeletion dl files d =
     (if dl_path dl = '''' then (dl, d)
      else let old = (case d ''deleted'' of None \<Rightarrow> [] | Some f \<Rightarrow> f)
           in (dl\<lparr>dl_open := True\<rparr>, d(''deleted'' \<mapsto> old @ write_lines files)))"

text \<open>The names in the file, each removed if it exists, then the file itself.\<close>

definition scheduled :: "directory \<Rightarrow> string list" where
  "scheduled d = (case d ''deleted'' of None \<Rightarrow> [] | Some f \<Rightarrow> getlines (bytes_text f))"

definition deleteScheduled :: "deleter \<Rightarrow> directory \<Rightarrow> deleter \<times> directory" where
  "deleteScheduled dl d =
     (let d1 = foldl (\<lambda>d name. if d name \<noteq> None then fs_remove name d else d) d (scheduled d)
      in (dl\<lparr>dl_open := False\<rparr>, fs_remove ''deleted'' d1))"

section \<open>Loading the segments of a directory\<close>

definition segmentCompare :: "segment \<Rightarrow> segment \<Rightarrow> bool" where
  "segmentCompare a b =
     (if seg_upperID a = seg_upperID b then seg_lowerID a > seg_lowerID b else seg_upperID a < seg_upperID b)"

text \<open>
  The removal of temporary files. The names it removes are relative, so they are looked up in the working
  directory \<open>cwd\<close> of the process and not in the directory that is searched.
\<close>

definition removeFileIfExists :: "string \<Rightarrow> directory \<Rightarrow> directory" where
  "removeFileIfExists name d = (if d name \<noteq> None then fs_remove name d else d)"

definition remove_tmp_pair :: "string \<Rightarrow> directory \<Rightarrow> directory" where
  "remove_tmp_pair segs cwd =
     removeFileIfExists (''data.'' @ segs @ ''.tmp'') (removeFileIfExists (''keys.'' @ segs @ ''.tmp'')
       (removeFileIfExists (''data.'' @ segs) (removeFileIfExists (''keys.'' @ segs) cwd)))"

fun remove_tmp_files :: "string list \<Rightarrow> directory \<Rightarrow> directory res" where
  "remove_tmp_files [] cwd = Inr cwd"
| "remove_tmp_files (name # names) cwd =
     (if \<not> is_tmp name then remove_tmp_files names cwd
      else let base = tmp_stem name
           in if has_prefix ''keys.'' base \<or> has_prefix ''data.'' base
              then remove_tmp_files names (remove_tmp_pair (drop 5 base) cwd)
              else Inl (IllegalState (''unknown tmp file '' @ base)))"

text \<open>
  What loading takes from outside: uninitialised memory, the values of \<^verbatim>\<open>rand()\<close>, and the members of a log
  segment that are never set.
\<close>

record env =
  e_junk :: junk
  e_rnd :: "nat \<Rightarrow> nat"
  e_logId :: u64
  e_logSize :: u64

text \<open>The second loop, over the names the directory iterator returns.\<close>

definition load_log :: "env \<Rightarrow> kv_compare \<Rightarrow> string \<Rightarrow> options \<Rightarrow> directory \<Rightarrow> string \<Rightarrow> segment list res" where
  "load_log e cmp dbpath opts d name =
     (if has_prefix ''log.'' (dbpath @ ''/'' @ name)
      then bind_res (fs_read name d) (\<lambda>f.
           bind_res (newLogSegment (e_logId e) (e_logSize e) cmp (e_rnd e) (dbpath @ ''/'' @ name) f opts) (\<lambda>l.
             Inr [LogSeg l]))
      else Inr [])"

definition load_keys :: "string \<Rightarrow> directory \<Rightarrow> string \<Rightarrow> segment list res" where
  "load_keys dbpath d name =
     (if \<not> has_prefix ''keys.'' name then Inr []
      else bind_res (getSegmentIDs name) (\<lambda>i.
           bind_res (load_disk_segment dbpath (key_name i) (data_name i) [] d) (\<lambda>s. Inr [DiskSeg s])))"

fun load_files :: "env \<Rightarrow> kv_compare \<Rightarrow> string \<Rightarrow> options \<Rightarrow> directory \<Rightarrow> string list \<Rightarrow> segment list res" where
  "load_files e cmp dbpath opts d [] = Inr []"
| "load_files e cmp dbpath opts d (name # names) =
     bind_res (load_log e cmp dbpath opts d name) (\<lambda>ls.
     bind_res (load_keys dbpath d name) (\<lambda>ks.
     bind_res (load_files e cmp dbpath opts d names) (\<lambda>rest. Inr (ls @ ks @ rest))))"

text \<open>Removing the segments that are contained in a later one; after each removal the search starts again.\<close>

definition contained :: "segment \<Rightarrow> segment \<Rightarrow> bool" where
  "contained seg seg0 \<longleftrightarrow> seg_lowerID seg \<ge> seg_lowerID seg0 \<and> seg_upperID seg \<le> seg_upperID seg0"

definition contained_at :: "segment list \<Rightarrow> nat \<Rightarrow> bool" where
  "contained_at segs i \<longleftrightarrow> (\<exists>s \<in> set (drop (Suc i) segs). contained (segs ! i) s)"

definition first_contained :: "segment list \<Rightarrow> nat option" where
  "first_contained segs = find (contained_at segs) [0..<length segs]"

lemma first_contained_Some:
  assumes "first_contained segs = Some i"
  shows "i < length segs" "contained_at segs i"
  using assms by (auto simp: first_contained_def find_Some_iff)

function remove_contained :: "segment list \<Rightarrow> segment list" where
  "remove_contained segs =
     (case first_contained segs of None \<Rightarrow> segs
      | Some i \<Rightarrow> remove_contained (take i segs @ drop (Suc i) segs))"
  by pat_completeness auto
termination
  by (relation "measure length") (auto dest: first_contained_Some(1))

declare remove_contained.simps [simp del]

text \<open>
  \<open>names1\<close> and \<open>names2\<close> are the results of the two directory iterations. \<^verbatim>\<open>std::sort\<close> is a sort by the ids,
  ordered as \<open>segmentCompare\<close>; segments with equal ids are loaded from the same files.
\<close>

definition loadDiskSegments ::
  "env \<Rightarrow> kv_compare \<Rightarrow> string \<Rightarrow> options \<Rightarrow> string list \<Rightarrow> string list \<Rightarrow> directory \<Rightarrow> directory \<Rightarrow>
     (segment list \<times> directory) res" where
  "loadDiskSegments e cmp dbpath opts names1 names2 d cwd =
     bind_res (remove_tmp_files names1 cwd) (\<lambda>cwd'.
     bind_res (load_files e cmp dbpath opts d names2) (\<lambda>segs.
       Inr (remove_contained (sort_key seg_ids segs), cwd')))"

section \<open>Ordering and containment\<close>

lemma segmentCompare_ids: "segmentCompare a b \<longleftrightarrow> seg_ids a < seg_ids b"
  by (simp add: segmentCompare_def less_ids_def ids_compare_def seg_ids_def)

lemma contained_le: "contained s t \<Longrightarrow> seg_ids s \<le> seg_ids t"
  by (auto simp: contained_def seg_ids_def ids_le_iff)

lemma contained_trans: "contained s t \<Longrightarrow> contained t u \<Longrightarrow> contained s u"
  by (auto simp: contained_def)

text \<open>The same removal in one pass.\<close>

fun keep_uncontained :: "segment list \<Rightarrow> segment list" where
  "keep_uncontained [] = []"
| "keep_uncontained (s # ss) =
     (if \<exists>t \<in> set ss. contained s t then keep_uncontained ss else s # keep_uncontained ss)"

lemma keep_remove:
  "\<exists>t \<in> set ys. contained s t \<Longrightarrow> keep_uncontained (xs @ s # ys) = keep_uncontained (xs @ ys)"
proof (induction xs)
  case (Cons x xs)
  have "(\<exists>t \<in> set (xs @ s # ys). contained x t) \<longleftrightarrow> (\<exists>t \<in> set (xs @ ys). contained x t)"
    using Cons.prems contained_trans [of x s] by auto
  then show ?case using Cons by simp
qed simp

lemma keep_none: "\<forall>i < length ss. \<not> contained_at ss i \<Longrightarrow> keep_uncontained ss = ss"
proof (induction ss)
  case (Cons s ss)
  have "\<not> contained_at ss i" if "i < length ss" for i
    using Cons.prems [rule_format, of "Suc i"] that by (simp add: contained_at_def)
  moreover have "\<not> (\<exists>t \<in> set ss. contained s t)"
    using Cons.prems [rule_format, of 0] by (simp add: contained_at_def)
  ultimately show ?case using Cons.IH by simp
qed simp

lemma remove_contained_keep: "remove_contained segs = keep_uncontained segs"
proof (induction segs rule: remove_contained.induct)
  case (1 segs)
  show ?case
  proof (cases "first_contained segs")
    case None
    then have "keep_uncontained segs = segs"
      by (intro keep_none) (auto simp: first_contained_def find_None_iff)
    then show ?thesis using None by (simp add: remove_contained.simps [of segs])
  next
    case (Some i)
    note i = first_contained_Some [OF Some]
    have "keep_uncontained (take i segs @ segs ! i # drop (Suc i) segs) =
        keep_uncontained (take i segs @ drop (Suc i) segs)"
      using i(2) by (intro keep_remove) (simp add: contained_at_def)
    then show ?thesis
      using 1 Some id_take_nth_drop [OF i(1)] by (simp add: remove_contained.simps [of segs])
  qed
qed

lemma keep_subset: "set (keep_uncontained ss) \<subseteq> set ss"
  by (induction ss) auto

lemma keep_sorted:
  assumes "sorted_wrt (\<lambda>s t. seg_ids s \<le> seg_ids t) ss"
  shows "sorted_wrt (\<lambda>s t. seg_lowerID s < seg_lowerID t \<and> seg_upperID s < seg_upperID t) (keep_uncontained ss)"
  using assms
proof (induction ss)
  case (Cons s ss)
  have "seg_lowerID s < seg_lowerID t \<and> seg_upperID s < seg_upperID t"
    if "\<forall>t \<in> set ss. \<not> contained s t" "t \<in> set (keep_uncontained ss)" for t
  proof -
    have "t \<in> set ss" using that(2) keep_subset by blast
    then have "seg_ids s \<le> seg_ids t" "\<not> contained s t" using that(1) Cons.prems by auto
    then show ?thesis by (auto simp: contained_def ids_le_iff seg_ids_def)
  qed
  then show ?case using Cons by auto
qed simp

text \<open>Which segments are left, where each pair of ids belongs to one segment.\<close>

lemma set_keep:
  assumes "sorted_wrt (\<lambda>s t. seg_ids s < seg_ids t) ss"
  shows "set (keep_uncontained ss) = {s \<in> set ss. \<forall>t \<in> set ss. contained s t \<longrightarrow> t = s}"
  using assms
proof (induction ss)
  case (Cons s ss)
  have "\<not> contained t s" if "t \<in> set ss" for t
    using Cons.prems that contained_le [of t s] by auto
  moreover have "s \<notin> set ss" using Cons.prems by auto
  ultimately show ?case using Cons by auto
qed simp

definition chain :: "segment list \<Rightarrow> bool" where
  "chain ss \<longleftrightarrow> (\<forall>s \<in> set ss. seg_lowerID s \<le> seg_upperID s) \<and>
     sorted_wrt (\<lambda>s t. seg_upperID s < seg_lowerID t) ss"

lemma chain_ids:
  assumes "chain ss"
  shows "sorted_wrt (\<lambda>s t. seg_ids s < seg_ids t) ss"
proof -
  have "seg_ids s < seg_ids t" if "s \<in> set ss" "t \<in> set ss" "seg_upperID s < seg_lowerID t" for s t
  proof -
    have "seg_lowerID t \<le> seg_upperID t" using assms that(2) by (simp add: chain_def)
    then have "seg_upperID s < seg_upperID t" using that(3) by (rule less_le_trans [rotated])
    then show ?thesis by (auto simp: segmentCompare_ids [symmetric] segmentCompare_def)
  qed
  then show ?thesis
    using assms unfolding chain_def by (elim conjE) (rule sorted_wrt_mono_rel)
qed

lemma chain_contained:
  assumes "chain ss" "s \<in> set ss" "t \<in> set ss" "contained s t"
  shows "s = t"
proof -
  have split: "seg_upperID s < seg_lowerID t \<or> seg_upperID t < seg_lowerID s" if "s \<noteq> t"
  proof -
    obtain i j where ij: "i < length ss" "j < length ss" "ss ! i = s" "ss ! j = t"
      using assms(2,3) by (auto simp: in_set_conv_nth)
    have w: "sorted_wrt (\<lambda>s t. seg_upperID s < seg_lowerID t) ss" using assms(1) by (simp add: chain_def)
    have "i \<noteq> j" using that ij by auto
    then show ?thesis
      using sorted_wrt_nth_less [OF w, of i j] sorted_wrt_nth_less [OF w, of j i] ij by fastforce
  qed
  show ?thesis
  proof (rule ccontr)
    assume "s \<noteq> t"
    moreover have "seg_lowerID s \<le> seg_upperID s" "seg_lowerID t \<le> seg_upperID t"
      using assms(1-3) by (auto simp: chain_def)
    ultimately show False using split assms(4) by (auto simp: contained_def)
  qed
qed

lemma strict_ids_equal:
  assumes "sorted_wrt (\<lambda>s t. seg_ids s < seg_ids t) xs" "sorted_wrt (\<lambda>s t. seg_ids s < seg_ids t) ys"
    and "set xs = set ys"
  shows "xs = ys"
proof -
  have m: "sorted_wrt (<) (map seg_ids xs)" "sorted_wrt (<) (map seg_ids ys)"
    using assms(1,2) by (simp_all add: sorted_wrt_map)
  then have "map seg_ids xs = map seg_ids ys"
    using assms(3) by (intro strict_sorted_equal) simp_all
  moreover have "inj_on seg_ids (set xs \<union> set ys)"
    using m(1) assms(3) by (simp add: strict_sorted_iff distinct_map)
  ultimately show ?thesis by (rule map_inj_on)
qed

text \<open>What loading leaves of the segments of a chain and of segments contained in them.\<close>

lemma load_order:
  assumes "chain live" "set live \<subseteq> set segs" "distinct (map seg_ids segs)"
    and "\<And>s. s \<in> set segs \<Longrightarrow> s \<notin> set live \<Longrightarrow> \<exists>t \<in> set live. contained s t"
  shows "remove_contained (sort_key seg_ids segs) = live"
proof -
  let ?ss = "sort_key seg_ids segs"
  have sorted: "sorted_wrt (\<lambda>s t. seg_ids s < seg_ids t) ?ss"
  proof -
    have "sorted_wrt (<) (map seg_ids ?ss)"
      using assms(3) by (simp add: strict_sorted_iff distinct_map)
    then show ?thesis by (simp add: sorted_wrt_map)
  qed
  have "set (keep_uncontained ?ss) = set live"
  proof -
    have "s \<in> set live" if "s \<in> set segs" "\<forall>t \<in> set segs. contained s t \<longrightarrow> t = s" for s
      using assms(2,4) that by blast
    moreover have "t = s" if st: "s \<in> set live" "t \<in> set segs" "contained s t" for s t
    proof (cases "t \<in> set live")
      case True
      then show ?thesis using chain_contained [OF assms(1)] st by blast
    next
      case False
      then obtain u where "u \<in> set live" "contained t u" using assms(4) st(2) by blast
      then have "s = u" using chain_contained [OF assms(1) st(1)] contained_trans [OF st(3)] by blast
      then have "seg_ids s = seg_ids t"
        using contained_le st(3) \<open>contained t u\<close> by (metis order_antisym)
      then show ?thesis using assms(2,3) st(1,2) by (auto simp: distinct_map inj_on_def)
    qed
    ultimately show ?thesis unfolding set_keep [OF sorted] using assms(2) by auto
  qed
  moreover have "sorted_wrt (\<lambda>s t. seg_ids s < seg_ids t) (keep_uncontained ?ss)"
  proof -
    have "sorted_wrt (\<lambda>s t. seg_ids s \<le> seg_ids t) ?ss"
      using sorted by (rule sorted_wrt_mono_rel [rotated]) simp
    from keep_sorted [OF this] show ?thesis
      by (rule sorted_wrt_mono_rel [rotated]) (auto simp: segmentCompare_ids [symmetric] segmentCompare_def)
  qed
  ultimately show ?thesis
    using strict_ids_equal [OF _ chain_ids [OF assms(1)]] by (simp add: remove_contained_keep)
qed

section \<open>Segments on disk\<close>

text \<open>The files of a disk segment are in the directory under the names of its ids.\<close>

definition on_disk :: "directory \<Rightarrow> disk_segment \<Rightarrow> bool" where
  "on_disk d ds \<longleftrightarrow>
     ds_names ds = [key_name (seg_ids (DiskSeg ds)), data_name (seg_ids (DiskSeg ds))] \<and>
     d (key_name (seg_ids (DiskSeg ds))) = Some (ds_keyFile ds) \<and>
     d (data_name (seg_ids (DiskSeg ds))) = Some (ds_dataFile ds)"

lemma getSegmentIDs_path:
  assumes "CHR ''.'' \<notin> set p"
  shows "getSegmentIDs (p @ ''/'' @ key_name i) = Inr i"
  using getSegmentIDs_name [of "p @ ''/''" i] assms by simp

lemma newDiskSegment_again:
  assumes "seg_lists (DiskSeg ds) r"
  shows "newDiskSegment (ds_names ds) (ds_lowerID ds) (ds_upperID ds) (ds_keyFile ds) (ds_dataFile ds) [] = Inr ds"
proof (cases "seg_repr (DiskSeg ds) r")
  case True
  then obtain bs where d: "disk_repr ds r bs" by auto
  then have r: "run_ok r" "layout_ok bs r" "bs \<noteq> []" by (simp_all add: disk_repr_def)
  show ?thesis
    using d keyBlocks_of_file [OF r(2,1,3)] loadKeyIndex_blocks [OF r(2,1)]
    by (simp add: newDiskSegment_def disk_repr_def)
next
  case False
  then show ?thesis
    using assms by (cases ds) (auto simp: seg_lists_def empty_disk_def newDiskSegment_def loadKeyIndex_def)
qed

lemma reload:
  assumes "seg_lists (DiskSeg ds) r" "on_disk d ds" "CHR ''.'' \<notin> set dbpath"
  shows "load_disk_segment dbpath (key_name (seg_ids (DiskSeg ds))) (data_name (seg_ids (DiskSeg ds))) [] d = Inr ds"
  using newDiskSegment_again [OF assms(1)] assms(2) getSegmentIDs_path [OF assms(3)]
  by (simp add: load_disk_segment_def fs_read_def on_disk_def seg_ids_def)

lemma written_Nil: "key_bytes (written []) = []" "data_bytes (written []) = []" "index_keys (written []) = []"
  by (simp_all add: written_def files_of_def finish_block_def wstate_init_def)

lemma newDiskSegment_files:
  "newDiskSegment names lo hi kf df idx = Inr ds \<Longrightarrow> ds_keyFile ds = kf \<and> ds_dataFile ds = df"
  by (auto simp: newDiskSegment_def bind_res_eq_Inr)

lemma newDiskSegment_written:
  assumes "run_ok r"
  obtains ds where
    "newDiskSegment names lo hi (key_bytes (written r)) (data_bytes (written r)) (index_keys (written r)) = Inr ds"
    "seg_lists (DiskSeg ds) r" "r \<noteq> [] \<longrightarrow> seg_repr (DiskSeg ds) r"
    "ds_lowerID ds = lo" "ds_upperID ds = hi" "ds_names ds = names"
    "ds_keyFile ds = key_bytes (written r)" "ds_dataFile ds = data_bytes (written r)"
proof (cases "r = []")
  case True
  let ?ds = "\<lparr>ds_keyFile = [], ds_dataFile = [], ds_keyBlocks = keyBlocks_of [], ds_keyIndex = [], ds_lowerID = lo,
      ds_upperID = hi, ds_names = names\<rparr>"
  show thesis
    using True
    by (intro that [of ?ds])
       (simp_all add: written_Nil newDiskSegment_def loadKeyIndex_def seg_lists_def empty_disk_def)
next
  case False
  obtain ds bs where ds: "newDiskSegment names lo hi (key_bytes (written r)) (data_bytes (written r)) (index_keys (written r)) = Inr ds"
    "disk_repr ds r bs" "ds_lowerID ds = lo" "ds_upperID ds = hi" "ds_names ds = names"
    using newDiskSegment_repr [OF assms False, of "index_keys (written r)" names lo hi] by auto
  then have "seg_repr (DiskSeg ds) r" by auto
  then show thesis
    using ds newDiskSegment_files [OF ds(1)] by (intro that [of ds]) (auto simp: seg_lists_def)
qed

context kv_source
begin

lemma writeAndLoad:
  assumes "yields it kvs" "run_ok (purged p kvs)" "CHR ''.'' \<notin> set dbpath"
    and "d (key_name i) = None" "d (data_name i) = None"
  obtains ds where
    "writeAndLoadSegment nextKv dbpath (key_name i) (data_name i) it p d =
       Inr (ds, d(key_name i @ ''.tmp'' := None, data_name i @ ''.tmp'' := None,
                  key_name i \<mapsto> ds_keyFile ds, data_name i \<mapsto> ds_dataFile ds))"
    "seg_lists (DiskSeg ds) (purged p kvs)" "purged p kvs \<noteq> [] \<longrightarrow> seg_repr (DiskSeg ds) (purged p kvs)"
    "seg_ids (DiskSeg ds) = i" "ds_names ds = [key_name i, data_name i]"
proof -
  let ?r = "purged p kvs"
  obtain ds where ds:
    "newDiskSegment [key_name i, data_name i] (ids_lower i) (ids_upper i) (key_bytes (written ?r)) (data_bytes (written ?r))
       (index_keys (written ?r)) = Inr ds"
    "seg_lists (DiskSeg ds) ?r" "?r \<noteq> [] \<longrightarrow> seg_repr (DiskSeg ds) ?r"
    "ds_lowerID ds = ids_lower i" "ds_upperID ds = ids_upper i" "ds_names ds = [key_name i, data_name i]"
    "ds_keyFile ds = key_bytes (written ?r)" "ds_dataFile ds = data_bytes (written ?r)"
    by (rule newDiskSegment_written [OF assms(2), of "[key_name i, data_name i]" "ids_lower i" "ids_upper i"])
  have "writeAndLoadSegment nextKv dbpath (key_name i) (data_name i) it p d =
       Inr (ds, d(key_name i @ ''.tmp'' := None, data_name i @ ''.tmp'' := None,
                  key_name i \<mapsto> ds_keyFile ds, data_name i \<mapsto> ds_dataFile ds))"
    using ds(1) assms(4,5) writeSegmentFiles_yields [OF assms(1), of p] getSegmentIDs_path [OF assms(3), of i]
    by (simp add: writeAndLoadSegment_def fs_rename_def fs_read_def load_disk_segment_def ds(7,8) fun_upd_twist)
  then show thesis
    using ds(2-6) by (intro that) (simp_all add: seg_ids_def)
qed

end

section \<open>Loading and deleting\<close>

lemma no_dot_not_log:
  assumes "CHR ''.'' \<notin> set dbpath"
  shows "\<not> has_prefix ''log.'' (dbpath @ ''/'' @ name)"
proof
  assume "has_prefix ''log.'' (dbpath @ ''/'' @ name)"
  then have t: "take 4 (dbpath @ ''/'' @ name) = ''log.''" by (simp add: has_prefix_def numeral_eq_Suc)
  consider "length dbpath \<le> 3" | "3 < length dbpath" by linarith
  then show False
  proof cases
    case 1
    then have "take 4 (dbpath @ ''/'' @ name) ! length dbpath = CHR ''/''" by (simp add: nth_append)
    moreover have "length dbpath = 0 \<or> length dbpath = 1 \<or> length dbpath = 2 \<or> length dbpath = 3"
      using 1 by linarith
    ultimately show False unfolding t by (elim disjE) simp_all
  next
    case 2
    then have "take 4 (dbpath @ ''/'' @ name) ! 3 \<in> set dbpath" by (simp add: nth_append)
    then show False using assms unfolding t by simp
  qed
qed

lemma load_files_ok:
  assumes "CHR ''.'' \<notin> set dbpath"
    and "\<And>name. name \<in> set names \<Longrightarrow> has_prefix ''keys.'' name \<Longrightarrow>
          \<exists>ds r. name = key_name (seg_ids (DiskSeg ds)) \<and> seg_lists (DiskSeg ds) r \<and> on_disk d ds"
  shows "\<exists>dss. load_files e cmp dbpath opts d names = Inr (map DiskSeg dss) \<and>
           map (\<lambda>ds. key_name (seg_ids (DiskSeg ds))) dss = filter (has_prefix ''keys.'') names \<and>
           (\<forall>ds \<in> set dss. on_disk d ds \<and> (\<exists>r. seg_lists (DiskSeg ds) r))"
  using assms(2)
proof (induction names)
  case (Cons name names)
  obtain dss where dss: "load_files e cmp dbpath opts d names = Inr (map DiskSeg dss)"
    "map (\<lambda>ds. key_name (seg_ids (DiskSeg ds))) dss = filter (has_prefix ''keys.'') names"
    "\<forall>ds \<in> set dss. on_disk d ds \<and> (\<exists>r. seg_lists (DiskSeg ds) r)"
    using Cons.IH Cons.prems by auto
  have nolog: "load_log e cmp dbpath opts d name = Inr []"
    using no_dot_not_log [OF assms(1)] by (simp add: load_log_def)
  show ?case
  proof (cases "has_prefix ''keys.'' name")
    case False
    then show ?thesis using dss nolog by (intro exI [of _ dss]) (simp add: load_keys_def)
  next
    case True
    then obtain ds r where ds: "name = key_name (seg_ids (DiskSeg ds))" "seg_lists (DiskSeg ds) r" "on_disk d ds"
      using Cons.prems [of name] by auto
    have "load_keys dbpath d name = Inr [DiskSeg ds]"
      using reload [OF ds(2,3) assms(1)] getSegmentIDs_name [of "[]" "seg_ids (DiskSeg ds)"]
      by (simp add: load_keys_def ds(1))
    then show ?thesis
      using dss nolog True ds by (intro exI [of _ "ds # dss"]) auto
  qed
qed simp

lemma foldl_fs_remove:
  "foldl (\<lambda>d name. if d name \<noteq> None then fs_remove name d else d) d names =
     (\<lambda>x. if x \<in> set names then None else d x)"
  by (induction names arbitrary: d) (auto simp: fs_remove_def fun_eq_iff)

lemma deleteScheduled_files:
  "snd (deleteScheduled dl d) = (\<lambda>x. if x = ''deleted'' \<or> x \<in> set (scheduled d) then None else d x)"
  unfolding deleteScheduled_def Let_def foldl_fs_remove by (auto simp: fs_remove_def fun_eq_iff)

text \<open>The file of the deleter holds the lines that were written to it.\<close>

definition deleted_lines :: "directory \<Rightarrow> string list \<Rightarrow> bool" where
  "deleted_lines d ls \<longleftrightarrow>
     (\<forall>f \<in> set ls. CHR 0x0A \<notin> set f) \<and>
     (d ''deleted'' = Some (write_lines ls) \<or> d ''deleted'' = None \<and> ls = [])"

lemma deleted_lines_scheduled:
  assumes "deleted_lines d ls"
  shows "scheduled d = ls"
  using assms getlines_written [of ls "[]"] by (auto simp: deleted_lines_def scheduled_def getlines_def)

lemma scheduleDeletion_lines:
  assumes "deleted_lines d ls" "\<forall>f \<in> set files. CHR 0x0A \<notin> set f" "dl_path dl \<noteq> ''''"
  shows "\<exists>f. snd (scheduleDeletion dl files d) = d(''deleted'' \<mapsto> f)"
    and "deleted_lines (snd (scheduleDeletion dl files d)) (ls @ files)"
proof -
  have "(case d ''deleted'' of None \<Rightarrow> [] | Some f \<Rightarrow> f) = write_lines ls"
    using assms(1) by (auto simp: deleted_lines_def write_lines_def)
  then have "snd (scheduleDeletion dl files d) = d(''deleted'' \<mapsto> write_lines ls @ write_lines files)"
    using assms(3) by (simp add: scheduleDeletion_def Let_def)
  then show "\<exists>f. snd (scheduleDeletion dl files d) = d(''deleted'' \<mapsto> f)"
    "deleted_lines (snd (scheduleDeletion dl files d)) (ls @ files)"
    using assms(1,2) by (auto simp: deleted_lines_def write_lines_def)
qed

lemma keep_covers: "s \<in> set ss \<Longrightarrow> \<exists>t \<in> set (keep_uncontained ss). contained s t"
proof (induction ss arbitrary: s)
  case (Cons u ss)
  have self: "contained u u" by (simp add: contained_def)
  show ?case
  proof (cases "\<exists>t \<in> set ss. contained u t")
    case True
    then obtain t where t: "t \<in> set ss" "contained u t" by blast
    then have "\<exists>t' \<in> set (keep_uncontained ss). contained u t'" using Cons.IH [OF t(1)] contained_trans by blast
    then show ?thesis using Cons.prems Cons.IH True by auto
  next
    case False
    then show ?thesis using Cons.prems Cons.IH self by auto
  qed
qed simp

section \<open>Properties\<close>

text \<open>C21. The segments loaded from a directory: their lower and their upper ids both ascend, none is contained in
  another, each was loaded from a key file, and each segment that was loaded and dropped is contained in one that
  is kept.\<close>

theorem loaded_segments_ordered:
  assumes "loadDiskSegments e cmp dbpath opts names1 names2 d cwd = Inr (segs, cwd')"
  shows "sorted_wrt (\<lambda>s t. seg_lowerID s < seg_lowerID t \<and> seg_upperID s < seg_upperID t) segs \<and>
         (\<forall>i < length segs. \<not> contained_at segs i) \<and>
         (\<exists>found. load_files e cmp dbpath opts d names2 = Inr found \<and> set segs \<subseteq> set found \<and>
            (\<forall>s \<in> set found. \<exists>t \<in> set segs. contained s t))"
proof -
  obtain found where f: "load_files e cmp dbpath opts d names2 = Inr found"
    "segs = keep_uncontained (sort_key seg_ids found)"
    using assms by (auto simp: loadDiskSegments_def bind_res_eq_Inr remove_contained_keep)
  have "sorted_wrt (\<lambda>s t. seg_ids s \<le> seg_ids t) (sort_key seg_ids found)"
    using sorted_sort_key [of seg_ids found] by (simp add: sorted_wrt_map)
  then have sorted: "sorted_wrt (\<lambda>s t. seg_lowerID s < seg_lowerID t \<and> seg_upperID s < seg_upperID t) segs"
    unfolding f(2) by (rule keep_sorted)
  have "\<not> contained_at segs i" if i: "i < length segs" for i
  proof
    assume "contained_at segs i"
    then obtain t where t: "t \<in> set (drop (Suc i) segs)" "contained (segs ! i) t" by (auto simp: contained_at_def)
    then obtain k where "k < length (drop (Suc i) segs)" "drop (Suc i) segs ! k = t" by (auto simp: in_set_conv_nth)
    then have "Suc i + k < length segs" "segs ! (Suc i + k) = t" by simp_all
    then have "seg_lowerID (segs ! i) < seg_lowerID t" using sorted_wrt_nth_less [OF sorted, of i "Suc i + k"] by simp
    then show False using t(2) unfolding contained_def by (meson not_le)
  qed
  moreover have "set segs \<subseteq> set found" using keep_subset [of "sort_key seg_ids found"] f(2) by simp
  moreover have "\<forall>s \<in> set found. \<exists>t \<in> set segs. contained s t"
    using keep_covers [of _ "sort_key seg_ids found"] f(2) by simp
  ultimately show ?thesis using sorted f(1) by blast
qed

theorem loaded_segments_ordered_witness:
  "\<exists>segs cwd'. loadDiskSegments \<lparr>e_junk = \<lparr>j_stack = [], j_buffer = []\<rparr>, e_rnd = (\<lambda>i. 0), e_logId = 0, e_logSize = 0\<rparr>
       kv_cmp ''db'' (mk_options True) [''lockfile'', ''keys.1.2'', ''data.1.2''] [''lockfile'', ''keys.1.2'', ''data.1.2'']
       [''keys.1.2'' \<mapsto> [], ''data.1.2'' \<mapsto> []] Map.empty = Inr (segs, cwd') \<and> segs \<noteq> [] \<and>
     sorted_wrt (\<lambda>s t. seg_lowerID s < seg_lowerID t \<and> seg_upperID s < seg_upperID t) segs"
proof -
  let ?e = "\<lparr>e_junk = \<lparr>j_stack = [], j_buffer = []\<rparr>, e_rnd = (\<lambda>i. 0), e_logId = 0, e_logSize = 0\<rparr>"
  let ?d = "[''keys.1.2'' \<mapsto> [], ''data.1.2'' \<mapsto> []]" and ?names = "[''lockfile'', ''keys.1.2'', ''data.1.2'']"
  have names: "key_name (IDS 1 2) = ''keys.1.2''" "data_name (IDS 1 2) = ''data.1.2''" by code_simp+
  obtain ds where ds: "newDiskSegment [key_name (IDS 1 2), data_name (IDS 1 2)] 1 2 (key_bytes (written []))
      (data_bytes (written [])) (index_keys (written [])) = Inr ds"
    by (rule newDiskSegment_written [of "[]" "[key_name (IDS 1 2), data_name (IDS 1 2)]" 1 2])
       (simp_all add: run_ok_def values_of_def)
  have "getSegmentIDs (''db'' @ ''/'' @ key_name (IDS 1 2)) = Inr (IDS 1 2)" by (rule getSegmentIDs_path) simp
  then have "load_disk_segment ''db'' ''keys.1.2'' ''data.1.2'' [] ?d = Inr ds"
    using ds by (simp add: load_disk_segment_def fs_read_def names written_Nil)
  then have "load_keys ''db'' ?d ''keys.1.2'' = Inr [DiskSeg ds]"
    using getSegmentIDs_name [of "[]" "IDS 1 2"] by (simp add: load_keys_def names has_prefix_def)
  then have "load_files ?e kv_cmp ''db'' (mk_options True) ?d ?names = Inr [DiskSeg ds]"
    by (simp add: load_log_def has_prefix_def load_keys_def)
  moreover have "remove_tmp_files ?names Map.empty = Inr Map.empty" by (simp add: is_tmp_def)
  ultimately have "loadDiskSegments ?e kv_cmp ''db'' (mk_options True) ?names ?names ?d Map.empty = Inr ([DiskSeg ds], Map.empty)"
    by (simp add: loadDiskSegments_def remove_contained_keep)
  then show ?thesis using loaded_segments_ordered by blast
qed

end
