(* ===== verification/Database.thy ===== *)
theory Database
  imports Segments
begin

text \<open>
  \<^verbatim>\<open>include/database.h\<close>, \<^verbatim>\<open>databaseops.cpp\<close> and \<^verbatim>\<open>snapshot.cpp\<close>: the operations of an open database.
  Every operation that changes the state holds \<^verbatim>\<open>db_lock\<close> for the change, so a run of the database is a
  sequence of these operations. The theorems relate the state to the layers of runs it represents.
\<close>

section \<open>The state\<close>

text \<open>
  \<open>db_segments\<close> and \<open>db_memory\<close> are the fields of \<^verbatim>\<open>DatabaseState\<close>; its third field \<^verbatim>\<open>multi\<close> is the view of the
  segments followed by the memory segment. While a close is under way the memory segment is null, and so is
  \<^verbatim>\<open>multi\<close> or, after a merge, its last segment: reading through it is undefined. \<open>db_wakeups\<close> counts the calls of
  \<^verbatim>\<open>merger.wakeup()\<close>, and \<open>db_static\<close> is the static of \<^verbatim>\<open>keyValueCompare\<close>.
\<close>

record database =
  db_open :: bool
  db_closing :: bool
  db_path :: string
  db_options :: options
  db_nextSegID :: u64
  db_segments :: "segment list"
  db_memory :: "memory_segment option"
  db_wakeups :: nat
  db_static :: "key_compare option"

definition checkKey :: "bytes \<Rightarrow> unit res" where
  "checkKey k = (if k = [] then Inl EmptyKey else if length k > 1024 then Inl KeyTooLong else Inr ())"

definition db_multi :: "database \<Rightarrow> segment list" where
  "db_multi db =
     (case db_memory db of None \<Rightarrow> db_segments db | Some m \<Rightarrow> copyAndAppend (db_segments db) (MemSeg m))"

definition nextSegmentID :: "database \<Rightarrow> u64 \<times> database" where
  "nextSegmentID db = (let i = db_nextSegID db + 1 in (i, db\<lparr>db_nextSegID := i\<rparr>))"

text \<open>A new memory segment of the database; its constructor chooses the comparison.\<close>

definition new_memory :: "(nat \<Rightarrow> nat) \<Rightarrow> database \<Rightarrow> memory_segment \<times> database" where
  "new_memory rnd db =
     (let (i, db1) = nextSegmentID db;
          (cmp, st) = keyValueCompare (db_static db1) (db_options db1)
      in (newMemorySegment cmp rnd (db_path db1) i (db_options db1), db1\<lparr>db_static := st\<rparr>))"

section \<open>The operations\<close>

definition maybeMerge :: "database \<Rightarrow> database" where
  "maybeMerge db =
     (if disableAutoMerge (db_options db) then db
      else if int (length (db_segments db)) > 2 * maxSegments (db_options db)
           then db\<lparr>db_wakeups := db_wakeups db + 1\<rparr> else db)"

definition maybeSwapMemory :: "(nat \<Rightarrow> nat) \<Rightarrow> database \<Rightarrow> database res" where
  "maybeSwapMemory rnd db =
     bind_res (access (db_memory db)) (\<lambda>m.
       if of_int (maxMemoryBytes (db_options db)) < ms_bytes m then
         let segments = copyAndAppend (db_segments db) (MemSeg m);
             (memory, db1) = new_memory rnd db
         in Inr (db1\<lparr>db_segments := segments, db_memory := Some memory\<rparr>)
       else Inr db)"

definition db_get :: "junk \<Rightarrow> database \<Rightarrow> bytes \<Rightarrow> bytes res" where
  "db_get j db k =
     (if \<not> db_open db then Inl DatabaseClosed
      else bind_res (checkKey k) (\<lambda>_.
           bind_res (access (db_memory db)) (\<lambda>m. multi_get (seg_get j) (db_multi db) k [])))"

text \<open>
  The operations of one thread at a time, what they do to the state; the lock that \<^verbatim>\<open>put\<close> and \<^verbatim>\<open>remove\<close> take, and their
  second release of it, which C++ leaves undefined, are added by the theory \<^verbatim>\<open>Soundness\<close>.
\<close>

definition db_put :: "(nat \<Rightarrow> nat) \<Rightarrow> database \<Rightarrow> bytes \<Rightarrow> bytes \<Rightarrow> database res" where
  "db_put rnd db k v =
     (if \<not> db_open db then Inl DatabaseClosed
      else bind_res (checkKey k) (\<lambda>_.
           bind_res (maybeSwapMemory rnd db) (\<lambda>db1.
           bind_res (access (db_memory db1)) (\<lambda>m.
           bind_res (ms_put m k v) (\<lambda>(old, m').
             Inr (maybeMerge (db1\<lparr>db_memory := Some m'\<rparr>)))))))"

definition db_remove :: "junk \<Rightarrow> (nat \<Rightarrow> nat) \<Rightarrow> database \<Rightarrow> bytes \<Rightarrow> (bytes \<times> database) res" where
  "db_remove j rnd db k =
     (if \<not> db_open db then Inl DatabaseClosed
      else bind_res (checkKey k) (\<lambda>_.
           bind_res (db_get j db k) (\<lambda>value.
             if value = [] then Inr (value, db)
             else bind_res (maybeSwapMemory rnd db) (\<lambda>db1.
                  bind_res (access (db_memory db1)) (\<lambda>m.
                  bind_res (ms_remove m k) (\<lambda>(old, m').
                    Inr (value, maybeMerge (db1\<lparr>db_memory := Some m'\<rparr>))))))))"

definition db_write :: "(nat \<Rightarrow> nat) \<Rightarrow> database \<Rightarrow> write_batch \<Rightarrow> database res" where
  "db_write rnd db batch =
     (if \<not> db_open db then Inl DatabaseClosed
      else bind_res (maybeSwapMemory rnd db) (\<lambda>db1.
           bind_res (access (db_memory db1)) (\<lambda>m.
           bind_res (ms_write m batch) (\<lambda>m'.
             Inr (maybeMerge (db1\<lparr>db_memory := Some m'\<rparr>))))))"

section \<open>Snapshots\<close>

record snapshot =
  sn_multi :: "segment list option"

definition db_snapshot :: "(nat \<Rightarrow> nat) \<Rightarrow> database \<Rightarrow> (snapshot \<times> database) res" where
  "db_snapshot rnd db =
     (if \<not> db_open db then Inl DatabaseClosed
      else bind_res (access (db_memory db)) (\<lambda>m.
             let segments = copyAndAppend (db_segments db) (MemSeg m);
                 (memory, db1) = new_memory rnd db
             in Inr (\<lparr>sn_multi = Some segments\<rparr>, db1\<lparr>db_segments := segments, db_memory := Some memory\<rparr>)))"

definition sn_get :: "junk \<Rightarrow> snapshot \<Rightarrow> bytes \<Rightarrow> bytes res" where
  "sn_get j sn k =
     (case sn_multi sn of None \<Rightarrow> Inl SnapshotClosed | Some segs \<Rightarrow> multi_get (seg_get j) segs k [])"

definition sn_lookup :: "junk \<Rightarrow> kv_compare \<Rightarrow> snapshot \<Rightarrow> bytes \<Rightarrow> bytes \<Rightarrow> seg_iterator list res" where
  "sn_lookup j icmp sn lower upper =
     (case sn_multi sn of
        None \<Rightarrow> Inl SnapshotClosed | Some segs \<Rightarrow> multi_lookup (seg_lookup j icmp) segs lower upper)"

definition db_lookup ::
  "junk \<Rightarrow> (nat \<Rightarrow> nat) \<Rightarrow> database \<Rightarrow> bytes \<Rightarrow> bytes \<Rightarrow> (seg_iterator list \<times> database) res" where
  "db_lookup j rnd db lower upper =
     bind_res (db_snapshot rnd db) (\<lambda>(sn, db1).
     bind_res (sn_lookup j (fst (keyValueCompare (db_static db1) (db_options db1))) sn lower upper) (\<lambda>its.
       Inr (its, db1)))"

section \<open>The layers of a database\<close>

text \<open>
  \<open>db_shape R db rs r\<close>: an open database with the default comparison, whose segments hold the runs \<open>rs\<close> from
  the oldest to the newest, as \<open>R\<close> says, and whose memory segment holds \<open>r\<close>. \<open>R\<close> is \<open>seg_repr\<close>, where every
  operation is defined, or \<open>seg_lists\<close>, where \<^verbatim>\<open>lookup\<close> is.
\<close>

definition db_shape ::
  "(segment \<Rightarrow> keyvalue list \<Rightarrow> bool) \<Rightarrow> database \<Rightarrow> keyvalue list list \<Rightarrow> keyvalue list \<Rightarrow> bool" where
  "db_shape R db rs r \<longleftrightarrow>
     db_open db \<and> userKeyCompare (db_options db) = None \<and> list_all2 R (db_segments db) rs \<and>
     (\<exists>m. db_memory db = Some m \<and> seg_repr (MemSeg m) r \<and> (\<exists>us. ms_logged m us))"

abbreviation db_repr :: "database \<Rightarrow> keyvalue list list \<Rightarrow> keyvalue list \<Rightarrow> bool" where
  "db_repr \<equiv> db_shape seg_repr"

text \<open>The value a reader sees.\<close>

definition visible :: "keyvalue list list \<Rightarrow> bytes \<Rightarrow> bytes" where
  "visible rs k = newest_value (map (\<lambda>r. value_in r k) rs)"

lemma visible_snoc: "visible (rs @ [r]) k = (if value_in r k \<noteq> [] then value_in r k else visible rs k)"
  by (simp add: visible_def newest_value_snoc)

lemma visible_new [simp]:
  "visible (rs @ [[]]) k = visible rs k" "visible (rs @ [r, []]) k = visible (rs @ [r]) k"
  using visible_snoc [of "rs @ [r]" "[]" k] by (simp_all add: visible_snoc)

lemma db_repr_multi:
  assumes "db_repr db rs r"
  shows "list_all2 seg_repr (db_multi db) (rs @ [r])"
  using assms by (auto simp: db_shape_def db_multi_def copyAndAppend_def list_all2_appendI)

lemma checkKey_ok: "k \<noteq> [] \<Longrightarrow> length k \<le> 1024 \<Longrightarrow> checkKey k = Inr ()"
  by (simp add: checkKey_def)

lemma db_get_repr:
  assumes "db_repr db rs r" "length (j_stack j) = maxKeySize" "k \<noteq> []" "length k \<le> 1024"
  shows "db_get j db k = Inr (visible (rs @ [r]) k)"
  using multi_get_repr [OF db_repr_multi [OF assms(1)] assms(2), of k] assms(1) checkKey_ok [OF assms(3,4)]
  by (auto simp: db_get_def visible_def db_shape_def)

lemma new_memory_repr:
  assumes "userKeyCompare (db_options db) = None"
  obtains m db1 where "new_memory rnd db = (m, db1)" "seg_repr (MemSeg m) []" "ms_logged m []"
    "db_options db1 = db_options db" "db_open db1 = db_open db" "db_segments db1 = db_segments db"
    "db_nextSegID db1 = db_nextSegID db + 1" "ms_id m = db_nextSegID db + 1" "db_path db1 = db_path db"
proof -
  have k: "keyValueCompare st (db_options db) = (kv_cmp, st)" for st
    using assms by (rule keyValueCompare_default)
  let ?m = "newMemorySegment kv_cmp rnd (db_path db) (db_nextSegID db + 1) (db_options db)"
  let ?db = "db\<lparr>db_nextSegID := db_nextSegID db + 1, db_static := db_static db\<rparr>"
  have "new_memory rnd db = (?m, ?db)"
    by (simp add: new_memory_def nextSegmentID_def Let_def k)
  moreover have "seg_repr (MemSeg ?m) []"
    by (simp add: newMemorySegment_repr keys_nonempty_def)
  moreover have "ms_logged ?m []" "ms_id ?m = db_nextSegID db + 1"
    by (simp_all add: ms_logged_def newMemorySegment_def)
  ultimately show thesis by (intro that [of ?m ?db]) simp_all
qed

lemma maybeMerge_keeps [simp]:
  "db_shape R (maybeMerge db) rs r \<longleftrightarrow> db_shape R db rs r" "db_segments (maybeMerge db) = db_segments db"
  "db_memory (maybeMerge db) = db_memory db" "db_options (maybeMerge db) = db_options db"
  by (simp_all add: maybeMerge_def db_shape_def)

text \<open>How a write changes the layers: the newest run, possibly fresh, takes the pair.\<close>

definition layers_step ::
  "(keyvalue list \<Rightarrow> keyvalue list) \<Rightarrow> keyvalue list list \<Rightarrow> keyvalue list \<Rightarrow> keyvalue list list \<Rightarrow> keyvalue list \<Rightarrow> bool" where
  "layers_step f rs r rs' r' \<longleftrightarrow> rs' = rs \<and> r' = f r \<or> rs' = rs @ [r] \<and> r' = f []"

lemma run_puts_keys:
  "keys_nonempty r \<Longrightarrow> keys_nonempty kvs \<Longrightarrow> keys_nonempty (run_puts r kvs)"
proof (induction kvs arbitrary: r)
  case (Cons kv kvs)
  have "keys_nonempty (run_put r kv)"
    using Cons.prems run_put_keys [of r kv] by (simp add: keys_nonempty_def)
  moreover have "keys_nonempty kvs" using Cons.prems(2) by (simp add: keys_nonempty_def)
  ultimately show ?case using Cons.IH by simp
qed simp

text \<open>The operations that only add memory segments keep the shape for every such relation.\<close>

locale segment_view =
  fixes R :: "segment \<Rightarrow> keyvalue list \<Rightarrow> bool"
  assumes R_mem: "seg_repr (MemSeg m) r \<Longrightarrow> R (MemSeg m) r"
    and R_lists: "R s r \<Longrightarrow> seg_lists s r"
begin

text \<open>The memory segment may be moved to the segments before a write; what is visible stays.\<close>

lemma swap_shape:
  assumes "db_shape R db rs r"
  shows "\<exists>db' rs' r'. maybeSwapMemory rnd db = Inr db' \<and> db_shape R db' rs' r' \<and>
           (rs' = rs \<and> r' = r \<or> rs' = rs @ [r] \<and> r' = []) \<and>
           db_options db' = db_options db \<and>
           (\<exists>new. db_segments db' = db_segments db @ new)"
proof -
  obtain m us where m: "db_memory db = Some m" "seg_repr (MemSeg m) r" "ms_logged m us"
    using assms by (auto simp: db_shape_def)
  show ?thesis
  proof (cases "of_int (maxMemoryBytes (db_options db)) < ms_bytes m")
    case False
    then have "maybeSwapMemory rnd db = Inr db" using m(1) by (simp add: maybeSwapMemory_def)
    then show ?thesis using assms by (intro exI [of _ db] exI [of _ rs] exI [of _ r]) simp
  next
    case True
    have u: "userKeyCompare (db_options db) = None" using assms by (simp add: db_shape_def)
    obtain m' db1 where n: "new_memory rnd db = (m', db1)" "seg_repr (MemSeg m') []" "ms_logged m' []"
      "db_options db1 = db_options db" "db_open db1 = db_open db"
      using new_memory_repr [OF u, of rnd] by metis
    let ?db = "db1\<lparr>db_segments := db_segments db @ [MemSeg m], db_memory := Some m'\<rparr>"
    have "maybeSwapMemory rnd db = Inr ?db"
      using m(1) True n(1) by (simp add: maybeSwapMemory_def Let_def copyAndAppend_def)
    moreover have "list_all2 R (db_segments db @ [MemSeg m]) (rs @ [r])"
      using assms R_mem [OF m(2)] by (intro list_all2_appendI) (simp_all add: db_shape_def)
    then have "db_shape R ?db (rs @ [r]) []"
      using assms n(2-5) by (auto simp: db_shape_def)
    ultimately show ?thesis using n(4) by (intro exI [of _ ?db] exI [of _ "rs @ [r]"] exI [of _ "[]"]) simp
  qed
qed

lemma memory_shape:
  assumes "db_shape R db rs r" "k \<noteq> []"
  shows "\<exists>m m'. db_memory db = Some m \<and> ms_put m k v = Inr (value_in r k, m') \<and>
           db_shape R (db\<lparr>db_memory := Some m'\<rparr>) rs (run_put r (mk_kv k v))"
proof -
  obtain m us where m: "db_memory db = Some m" "ms_repr m r" "keys_nonempty r" "ms_logged m us"
    using assms by (auto simp: db_shape_def)
  obtain m' where m': "ms_put m k v = Inr (value_in r k, m')"
    "ms_repr m' (run_put r (mk_kv k v))" "ms_logged m' (us @ [Single (mk_kv k v)])"
    using ms_put_repr [OF m(2,4) assms(2), of v] by blast
  have "keys_nonempty (run_put r (mk_kv k v))"
    using m(3) assms(2) run_put_keys [of r "mk_kv k v"] by (simp add: keys_nonempty_def)
  then show ?thesis using m m' assms(1) by (auto simp: db_shape_def)
qed

lemma put_shape:
  assumes "db_shape R db rs r" "k \<noteq> []" "length k \<le> 1024"
  shows "\<exists>db' rs' r'. db_put rnd db k v = Inr db' \<and> db_shape R db' rs' r' \<and>
           layers_step (\<lambda>r. run_put r (mk_kv k v)) rs r rs' r' \<and>
           db_options db' = db_options db \<and> (\<exists>new. db_segments db' = db_segments db @ new)"
proof -
  obtain db1 rs1 r1 where s: "maybeSwapMemory rnd db = Inr db1" "db_shape R db1 rs1 r1"
    "rs1 = rs \<and> r1 = r \<or> rs1 = rs @ [r] \<and> r1 = []" "db_options db1 = db_options db"
    "\<exists>new. db_segments db1 = db_segments db @ new"
    using swap_shape [OF assms(1)] by blast
  obtain m m' where m: "db_memory db1 = Some m" "ms_put m k v = Inr (value_in r1 k, m')"
    "db_shape R (db1\<lparr>db_memory := Some m'\<rparr>) rs1 (run_put r1 (mk_kv k v))"
    using memory_shape [OF s(2) assms(2)] by blast
  have "db_put rnd db k v = Inr (maybeMerge (db1\<lparr>db_memory := Some m'\<rparr>))"
    using assms(1) checkKey_ok [OF assms(2,3)] s(1) m(1,2) by (simp add: db_put_def db_shape_def)
  then show ?thesis
    using m(3) s(3-5)
    by (intro exI [of _ "maybeMerge (db1\<lparr>db_memory := Some m'\<rparr>)"] exI [of _ rs1] exI [of _ "run_put r1 (mk_kv k v)"])
       (auto simp: layers_step_def)
qed

lemma write_shape:
  assumes "db_shape R db rs r" "keys_nonempty (entries b)"
  shows "\<exists>db' rs' r'. db_write rnd db b = Inr db' \<and> db_shape R db' rs' r' \<and>
           layers_step (\<lambda>r. run_puts r (entries b)) rs r rs' r' \<and>
           db_options db' = db_options db \<and> (\<exists>new. db_segments db' = db_segments db @ new)"
proof -
  obtain db1 rs1 r1 where s: "maybeSwapMemory rnd db = Inr db1" "db_shape R db1 rs1 r1"
    "rs1 = rs \<and> r1 = r \<or> rs1 = rs @ [r] \<and> r1 = []" "db_options db1 = db_options db"
    "\<exists>new. db_segments db1 = db_segments db @ new"
    using swap_shape [OF assms(1)] by blast
  obtain m us where m: "db_memory db1 = Some m" "ms_repr m r1" "keys_nonempty r1" "ms_logged m us"
    using s(2) by (auto simp: db_shape_def)
  obtain m' where m': "ms_write m b = Inr m'" "ms_repr m' (run_puts r1 (entries b))"
    "ms_logged m' (us @ [Batch (entries b)])"
    using ms_write_repr [OF m(2,4), of b] by blast
  have "db_shape R (db1\<lparr>db_memory := Some m'\<rparr>) rs1 (run_puts r1 (entries b))"
    using s(2) m' run_puts_keys [OF m(3) assms(2)] by (auto simp: db_shape_def)
  moreover have "db_write rnd db b = Inr (maybeMerge (db1\<lparr>db_memory := Some m'\<rparr>))"
    using assms(1) s(1) m(1) m'(1) by (simp add: db_write_def db_shape_def)
  ultimately show ?thesis
    using s(3-5)
    by (intro exI [of _ "maybeMerge (db1\<lparr>db_memory := Some m'\<rparr>)"] exI [of _ rs1] exI [of _ "run_puts r1 (entries b)"])
       (auto simp: layers_step_def)
qed

lemma snapshot_shape:
  assumes "db_shape R db rs r"
  shows "\<exists>sn db' segs. db_snapshot rnd db = Inr (sn, db') \<and> db_shape R db' (rs @ [r]) [] \<and>
           sn_multi sn = Some segs \<and> db_segments db' = segs \<and> list_all2 R segs (rs @ [r]) \<and>
           db_options db' = db_options db \<and> (\<exists>new. db_segments db' = db_segments db @ new)"
proof -
  obtain m us where m: "db_memory db = Some m" "seg_repr (MemSeg m) r" "ms_logged m us"
    using assms by (auto simp: db_shape_def)
  have u: "userKeyCompare (db_options db) = None" using assms by (simp add: db_shape_def)
  obtain m' db1 where n: "new_memory rnd db = (m', db1)" "seg_repr (MemSeg m') []" "ms_logged m' []"
    "db_options db1 = db_options db" "db_open db1 = db_open db"
    using new_memory_repr [OF u, of rnd] by metis
  let ?segs = "db_segments db @ [MemSeg m]"
  let ?db = "db1\<lparr>db_segments := ?segs, db_memory := Some m'\<rparr>"
  have "db_snapshot rnd db = Inr (\<lparr>sn_multi = Some ?segs\<rparr>, ?db)"
    using assms m(1) n(1) by (simp add: db_snapshot_def Let_def copyAndAppend_def db_shape_def)
  moreover have segs: "list_all2 R ?segs (rs @ [r])"
    using assms R_mem [OF m(2)] by (intro list_all2_appendI) (simp_all add: db_shape_def)
  moreover have "db_shape R ?db (rs @ [r]) []"
    using assms segs n(2-5) by (auto simp: db_shape_def)
  ultimately show ?thesis
    using n(4) by (intro exI [of _ "\<lparr>sn_multi = Some ?segs\<rparr>"] exI [of _ ?db] exI [of _ ?segs]) simp
qed

lemma lookup_shape:
  assumes "db_shape R db rs r" "range_ok lower upper"
  shows "\<exists>its db'. db_lookup j rnd db lower upper = Inr (its, db') \<and> db_shape R db' (rs @ [r]) [] \<and>
           multi_yields seg_yields its (filter (mem_range lower upper) (merge_runs (rs @ [r])))"
proof -
  obtain sn db1 segs where s: "db_snapshot rnd db = Inr (sn, db1)" "db_shape R db1 (rs @ [r]) []"
    "sn_multi sn = Some segs" "list_all2 R segs (rs @ [r])"
    using snapshot_shape [OF assms(1)] by blast
  have k: "fst (keyValueCompare (db_static db1) (db_options db1)) = kv_cmp"
    using s(2) keyValueCompare_default by (simp add: db_shape_def)
  show ?thesis
    using multi_drain [OF list_all2_mono [OF s(4) R_lists] assms(2), of j] s(1-3) by (auto simp: db_lookup_def sn_lookup_def k)
qed

end

interpretation got: segment_view seg_repr
  by unfold_locales (auto intro: seg_repr_lists)

interpretation listed: segment_view seg_lists
  by unfold_locales (auto intro: seg_repr_lists)

lemmas maybeSwapMemory_repr = got.swap_shape
  and put_memory_repr = got.memory_shape
  and db_put_repr = got.put_shape
  and db_write_repr = got.write_shape
  and db_snapshot_repr = got.snapshot_shape
  and db_lookup_repr = got.lookup_shape

lemma db_remove_repr:
  assumes "db_repr db rs r" "length (j_stack j) = maxKeySize" "k \<noteq> []" "length k \<le> 1024"
  shows "\<exists>db' rs' r'. db_remove j rnd db k = Inr (visible (rs @ [r]) k, db') \<and> db_repr db' rs' r' \<and>
           (if visible (rs @ [r]) k = [] then db' = db \<and> rs' = rs \<and> r' = r
            else layers_step (\<lambda>r. run_put r (mk_kv k [])) rs r rs' r') \<and>
           db_options db' = db_options db \<and> (\<exists>new. db_segments db' = db_segments db @ new)"
proof -
  note g = db_get_repr [OF assms]
  have o: "db_open db" using assms(1) by (simp add: db_shape_def)
  show ?thesis
  proof (cases "visible (rs @ [r]) k = []")
    case True
    then have "db_remove j rnd db k = Inr ([], db)"
      using o g checkKey_ok [OF assms(3,4)] by (simp add: db_remove_def)
    then show ?thesis using assms(1) True by (intro exI [of _ db] exI [of _ rs] exI [of _ r]) simp
  next
    case False
    obtain db1 rs1 r1 where s: "maybeSwapMemory rnd db = Inr db1" "db_repr db1 rs1 r1"
      "rs1 = rs \<and> r1 = r \<or> rs1 = rs @ [r] \<and> r1 = []" "db_options db1 = db_options db"
      "\<exists>new. db_segments db1 = db_segments db @ new"
      using maybeSwapMemory_repr [OF assms(1)] by blast
    obtain m m' where m: "db_memory db1 = Some m" "ms_put m k [] = Inr (value_in r1 k, m')"
      "db_repr (db1\<lparr>db_memory := Some m'\<rparr>) rs1 (run_put r1 (mk_kv k []))"
      using put_memory_repr [OF s(2) assms(3)] by blast
    have "db_remove j rnd db k = Inr (visible (rs @ [r]) k, maybeMerge (db1\<lparr>db_memory := Some m'\<rparr>))"
      using o g checkKey_ok [OF assms(3,4)] False s(1) m(1,2) by (simp add: db_remove_def ms_remove_def)
    then show ?thesis
      using m(3) s(3-5) False
      by (intro exI [of _ "maybeMerge (db1\<lparr>db_memory := Some m'\<rparr>)"] exI [of _ rs1] exI [of _ "run_put r1 (mk_kv k [])"])
         (auto simp: layers_step_def)
  qed
qed

text \<open>
  Where a segment may have an empty key file, \<^verbatim>\<open>get\<close> and \<^verbatim>\<open>remove\<close> need not be defined; when they return, they
  follow the runs.
\<close>

lemma db_get_lists:
  assumes "db_shape seg_lists db rs r" "length (j_stack j) = maxKeySize" "db_get j db k = Inr v"
  shows "v = visible (rs @ [r]) k"
proof -
  obtain m where m: "db_memory db = Some m" "seg_repr (MemSeg m) r" using assms(1) by (auto simp: db_shape_def)
  have "list_all2 seg_lists (db_multi db) (rs @ [r])"
    using assms(1) m seg_repr_lists by (auto simp: db_multi_def copyAndAppend_def db_shape_def intro: list_all2_appendI)
  moreover have "multi_get (seg_get j) (db_multi db) k [] = Inr v"
    using assms(3) m(1) by (auto simp: db_get_def bind_res_eq_Inr split: if_splits)
  ultimately show ?thesis unfolding visible_def by (rule multi_get_success [OF _ assms(2)])
qed

lemma db_remove_lists:
  assumes "db_shape seg_lists db rs r" "length (j_stack j) = maxKeySize" "db_remove j rnd db k = Inr (v, db')"
  shows "v = visible (rs @ [r]) k"
    and "if v = [] then db' = db
         else \<exists>rs' r'. db_shape seg_lists db' rs' r' \<and> layers_step (\<lambda>r. run_put r (mk_kv k [])) rs r rs' r' \<and>
                db_options db' = db_options db \<and> (\<exists>new. db_segments db' = db_segments db @ new)"
proof -
  have r: "checkKey k = Inr ()" "db_get j db k = Inr v"
    "(if v = [] then db' = db
      else \<exists>db1 m x m'. maybeSwapMemory rnd db = Inr db1 \<and> db_memory db1 = Some m \<and> ms_put m k [] = Inr (x, m') \<and>
             db' = maybeMerge (db1\<lparr>db_memory := Some m'\<rparr>))"
    using assms(3) by (auto simp: db_remove_def ms_remove_def bind_res_eq_Inr access_eq_Inr split: if_splits)
  show "v = visible (rs @ [r]) k" by (rule db_get_lists [OF assms(1,2) r(2)])
  have k: "k \<noteq> []" using r(1) by (simp add: checkKey_def split: if_splits)
  show "if v = [] then db' = db
        else \<exists>rs' r'. db_shape seg_lists db' rs' r' \<and> layers_step (\<lambda>r. run_put r (mk_kv k [])) rs r rs' r' \<and>
               db_options db' = db_options db \<and> (\<exists>new. db_segments db' = db_segments db @ new)"
  proof (cases "v = []")
    case False
    then obtain db1 m x m' where w: "maybeSwapMemory rnd db = Inr db1" "db_memory db1 = Some m" "ms_put m k [] = Inr (x, m')"
      "db' = maybeMerge (db1\<lparr>db_memory := Some m'\<rparr>)"
      using r(3) by auto
    obtain rs1 r1 where s: "db_shape seg_lists db1 rs1 r1" "rs1 = rs \<and> r1 = r \<or> rs1 = rs @ [r] \<and> r1 = []"
      "db_options db1 = db_options db" "\<exists>new. db_segments db1 = db_segments db @ new"
      using listed.swap_shape [OF assms(1), of rnd] w(1) by auto
    have "db_shape seg_lists (db1\<lparr>db_memory := Some m'\<rparr>) rs1 (run_put r1 (mk_kv k []))"
      using listed.memory_shape [OF s(1) k, of "[]"] w(2,3) by auto
    then show ?thesis
      using False w(4) s(2-4) by (auto simp: layers_step_def intro!: exI [of _ rs1] exI [of _ "run_put r1 (mk_kv k [])"])
  qed (use r(3) in simp)
qed

section \<open>Histories\<close>

text \<open>What becomes visible.\<close>

lemma db_repr_sorted: "db_repr db rs r \<Longrightarrow> sorted_kvs r"
  unfolding db_shape_def by (blast dest: seg_repr_run(1))

lemma visible_put:
  assumes "layers_step (\<lambda>r. run_put r (mk_kv k v)) rs r rs' r'" "sorted_kvs r" "v \<noteq> []"
  shows "visible (rs' @ [r']) q = (if q = k then v else visible (rs @ [r]) q)"
  using assms find_run_put [of r "mk_kv k v" q] find_run_put [of "[]" "mk_kv k v" q]
  by (auto simp: layers_step_def visible_snoc)

lemma visible_puts:
  assumes "layers_step (\<lambda>r. run_puts r kvs) rs r rs' r'" "sorted_kvs r" "\<forall>kv \<in> set kvs. kv_value kv \<noteq> []"
  shows "visible (rs' @ [r']) q =
     foldl (\<lambda>old kv. if q = kv_key kv then kv_value kv else old) (visible (rs @ [r]) q) kvs"
proof -
  have gen: "visible (ls @ [run_puts l kvs]) q =
      foldl (\<lambda>old kv. if q = kv_key kv then kv_value kv else old) (visible (ls @ [l]) q) kvs"
    if "sorted_kvs l" for ls l
    using that assms(3)
  proof (induction kvs arbitrary: l)
    case (Cons kv kvs)
    have "visible (ls @ [run_put l kv]) q = (if q = kv_key kv then kv_value kv else visible (ls @ [l]) q)"
      using Cons.prems find_run_put [of l kv q] by (auto simp: visible_snoc)
    then show ?case using Cons run_put_sorted [of l kv] by simp
  qed simp
  show ?thesis
    using assms(1) gen [OF assms(2), of rs] gen [of "[]" "rs @ [r]"] by (auto simp: layers_step_def)
qed

section \<open>Properties\<close>

text \<open>Operations of a client that writes without removing, and the map they maintain.\<close>

datatype db_op = DoPut bytes bytes | DoWrite write_batch | DoSnapshot

fun db_step :: "(nat \<Rightarrow> nat) \<Rightarrow> database \<Rightarrow> db_op \<Rightarrow> database res" where
  "db_step rnd db (DoPut k v) = db_put rnd db k v"
| "db_step rnd db (DoWrite b) = db_write rnd db b"
| "db_step rnd db DoSnapshot = bind_res (db_snapshot rnd db) (\<lambda>(sn, db'). Inr db')"

fun db_run :: "(nat \<Rightarrow> nat) \<Rightarrow> database \<Rightarrow> db_op list \<Rightarrow> database res" where
  "db_run rnd db [] = Inr db"
| "db_run rnd db (op # ops) = bind_res (db_step rnd db op) (\<lambda>db'. db_run rnd db' ops)"

fun map_step :: "(bytes \<Rightarrow> bytes) \<Rightarrow> db_op \<Rightarrow> bytes \<Rightarrow> bytes" where
  "map_step f (DoPut k v) = f(k := v)"
| "map_step f (DoWrite b) = foldl (\<lambda>f kv. f(kv_key kv := kv_value kv)) f (entries b)"
| "map_step f DoSnapshot = f"

fun op_ok :: "db_op \<Rightarrow> bool" where
  "op_ok (DoPut k v) = (k \<noteq> [] \<and> length k \<le> 1024 \<and> v \<noteq> [])"
| "op_ok (DoWrite b) = (\<forall>kv \<in> set (entries b). kv_key kv \<noteq> [] \<and> kv_value kv \<noteq> [])"
| "op_ok DoSnapshot = True"

lemma foldl_fun_upd:
  "foldl (\<lambda>f kv. f(kv_key kv := kv_value kv)) f kvs q =
     foldl (\<lambda>old kv. if q = kv_key kv then kv_value kv else old) (f q) kvs"
  by (induction kvs arbitrary: f) auto

lemma db_step_repr:
  assumes "db_repr db rs r" "op_ok op" "f = visible (rs @ [r])"
  shows "\<exists>db' rs' r'. db_step rnd db op = Inr db' \<and> db_repr db' rs' r' \<and> visible (rs' @ [r']) = map_step f op"
proof (cases op)
  case (DoPut k v)
  have v: "v \<noteq> []" using assms(2) DoPut by simp
  obtain db' rs' r' where p: "db_put rnd db k v = Inr db'" "db_repr db' rs' r'"
    "layers_step (\<lambda>r. run_put r (mk_kv k v)) rs r rs' r'"
    using db_put_repr [OF assms(1), of k rnd v] assms(2) DoPut by auto
  have "visible (rs' @ [r']) = f(k := v)"
    by (rule ext) (simp only: fun_upd_apply assms(3) visible_put [OF p(3) db_repr_sorted [OF assms(1)] v])
  then show ?thesis using p(1,2) DoPut by auto
next
  case (DoWrite b)
  then have b: "keys_nonempty (entries b)" "\<forall>kv \<in> set (entries b). kv_value kv \<noteq> []"
    using assms(2) by (auto simp: keys_nonempty_def)
  obtain db' rs' r' where p: "db_write rnd db b = Inr db'" "db_repr db' rs' r'"
    "layers_step (\<lambda>r. run_puts r (entries b)) rs r rs' r'"
    using db_write_repr [OF assms(1) b(1), of rnd] by blast
  have "visible (rs' @ [r']) = map_step f (DoWrite b)"
    by (rule ext) (simp only: map_step.simps foldl_fun_upd assms(3)
        visible_puts [OF p(3) db_repr_sorted [OF assms(1)] b(2)])
  then show ?thesis using p(1,2) DoWrite by auto
next
  case DoSnapshot
  obtain sn db' where "db_snapshot rnd db = Inr (sn, db')" "db_repr db' (rs @ [r]) []"
    using db_snapshot_repr [OF assms(1), of rnd] by blast
  then show ?thesis
    using DoSnapshot assms(3) by (intro exI [of _ db'] exI [of _ "rs @ [r]"] exI [of _ "[]"]) (simp add: fun_eq_iff)
qed

lemma db_run_repr:
  assumes "db_repr db rs r" "\<forall>op \<in> set ops. op_ok op"
  shows "\<exists>db' rs' r'. db_run rnd db ops = Inr db' \<and> db_repr db' rs' r' \<and>
           visible (rs' @ [r']) = foldl map_step (visible (rs @ [r])) ops"
  using assms
proof (induction ops arbitrary: db rs r)
  case (Cons op ops)
  obtain db1 rs1 r1 where 1: "db_step rnd db op = Inr db1" "db_repr db1 rs1 r1"
    "visible (rs1 @ [r1]) = map_step (visible (rs @ [r])) op"
    using db_step_repr [OF Cons.prems(1) _ refl, of op rnd] Cons.prems(2) by auto
  then show ?case using Cons.IH [OF 1(2)] Cons.prems(2) by auto
qed auto

section \<open>Opening\<close>

text \<open>
  The part of \<^verbatim>\<open>openImpl\<close> that builds the state from the segments loaded: the options raised to their
  minima, the next segment id after the highest one found, and a new memory segment.
\<close>

definition dbMemorySegment :: int where "dbMemorySegment = 1024 * 1024"
definition dbMaxSegments :: int where "dbMaxSegments = 8"

definition raise_options :: "options \<Rightarrow> options" where
  "raise_options o1 =
     (let o2 = (if maxMemoryBytes o1 < dbMemorySegment then o1\<lparr>maxMemoryBytes := dbMemorySegment\<rparr> else o1)
      in if maxSegments o2 < dbMaxSegments then o2\<lparr>maxSegments := dbMaxSegments\<rparr> else o2)"

definition maxSegID :: "segment list \<Rightarrow> u64" where
  "maxSegID segs = foldl (\<lambda>m s. if m > seg_upperID s then m else seg_upperID s) 0 segs"

definition open_state ::
  "(nat \<Rightarrow> nat) \<Rightarrow> key_compare option \<Rightarrow> string \<Rightarrow> options \<Rightarrow> segment list \<Rightarrow> database" where
  "open_state rnd static path opts segs =
     (let db = \<lparr>db_open = True, db_closing = False, db_path = path, db_options = raise_options opts,
               db_nextSegID = maxSegID segs, db_segments = segs, db_memory = None, db_wakeups = 0,
               db_static = static\<rparr>;
          (m, db1) = new_memory rnd db
      in db1\<lparr>db_memory := Some m\<rparr>)"

lemma raise_options_compare [simp]: "userKeyCompare (raise_options opts) = userKeyCompare opts"
  by (simp add: raise_options_def Let_def)

lemma open_state_repr:
  assumes "userKeyCompare opts = None" "list_all2 R segs rs"
  shows "db_shape R (open_state rnd static path opts segs) rs []"
proof -
  define db where "db = \<lparr>db_open = True, db_closing = False, db_path = path, db_options = raise_options opts,
      db_nextSegID = maxSegID segs, db_segments = segs, db_memory = None, db_wakeups = 0, db_static = static\<rparr>"
  have u: "userKeyCompare (db_options db) = None" using assms(1) by (simp add: db_def)
  obtain m db1 where n: "new_memory rnd db = (m, db1)" "seg_repr (MemSeg m) []" "ms_logged m []"
    "db_options db1 = db_options db" "db_open db1 = db_open db" "db_segments db1 = db_segments db"
    by (rule new_memory_repr [OF u, of rnd])
  have "open_state rnd static path opts segs = db1\<lparr>db_memory := Some m\<rparr>"
    unfolding open_state_def db_def [symmetric] Let_def n(1) by simp
  moreover have "db_open db1" "db_segments db1 = segs" using n(5,6) by (simp_all add: db_def)
  ultimately show ?thesis using n(2-4) u assms(2) by (auto simp: db_shape_def)
qed

lemma open_state_fields [simp]:
  "db_segments (open_state rnd static path opts segs) = segs" "db_path (open_state rnd static path opts segs) = path"
  "db_options (open_state rnd static path opts segs) = raise_options opts"
  by (simp_all add: open_state_def new_memory_def nextSegmentID_def Let_def split: prod.splits)

lemma foldl_max_bounds:
  fixes f :: "'s \<Rightarrow> u64"
  shows "a \<le> foldl (\<lambda>m s. if m > f s then m else f s) a ss"
    and "s \<in> set ss \<Longrightarrow> f s \<le> foldl (\<lambda>m s. if m > f s then m else f s) a ss"
    and "a < b \<Longrightarrow> \<forall>s \<in> set ss. f s < b \<Longrightarrow> foldl (\<lambda>m s. if m > f s then m else f s) a ss < b"
proof -
  show le: "a \<le> foldl (\<lambda>m s. if m > f s then m else f s) a ss" for a ss
  proof (induction ss arbitrary: a)
    case (Cons x xs)
    have "a \<le> (if a > f x then a else f x)" by auto
    also have "\<dots> \<le> foldl (\<lambda>m s. if m > f s then m else f s) (if a > f x then a else f x) xs" by (rule Cons.IH)
    finally show ?case by simp
  qed simp
  show "s \<in> set ss \<Longrightarrow> f s \<le> foldl (\<lambda>m s. if m > f s then m else f s) a ss"
  proof (induction ss arbitrary: a)
    case (Cons x xs)
    have "f x \<le> (if a > f x then a else f x)" by auto
    also have "\<dots> \<le> foldl (\<lambda>m s. if m > f s then m else f s) (if a > f x then a else f x) xs" by (rule le)
    finally have "f x \<le> foldl (\<lambda>m s. if m > f s then m else f s) (if a > f x then a else f x) xs" .
    then show ?case using Cons by (cases "s = x") (simp_all del: if_split)
  qed simp
  show "a < b \<Longrightarrow> \<forall>s \<in> set ss. f s < b \<Longrightarrow> foldl (\<lambda>m s. if m > f s then m else f s) a ss < b"
    by (induction ss arbitrary: a) simp_all
qed

lemmas fresh_repr = open_state_repr [OF _ list_all2_Nil [THEN iffD2, OF refl], of _ seg_repr]

text \<open>Opening: the options are raised to their minima, the new memory segment gets an id above the ids of
  all loaded segments (unless they reach the top of the 64-bit range), and the database shows exactly what
  the loaded segments show.\<close>

theorem open_shows_segments:
  assumes "userKeyCompare opts = None" and "list_all2 seg_repr segs rs" and "\<forall>s \<in> set segs. seg_upperID s < - 1"
  shows "(\<exists>m. db_memory (open_state rnd static path opts segs) = Some m \<and> (\<forall>s \<in> set segs. seg_upperID s < ms_id m)) \<and>
         db_repr (open_state rnd static path opts segs) rs [] \<and>
         dbMemorySegment \<le> maxMemoryBytes (db_options (open_state rnd static path opts segs)) \<and>
         dbMaxSegments \<le> maxSegments (db_options (open_state rnd static path opts segs))"
proof -
  define db where "db = \<lparr>db_open = True, db_closing = False, db_path = path, db_options = raise_options opts,
      db_nextSegID = maxSegID segs, db_segments = segs, db_memory = None, db_wakeups = 0, db_static = static\<rparr>"
  have u: "userKeyCompare (db_options db) = None" using assms(1) by (simp add: db_def)
  obtain m db1 where n: "new_memory rnd db = (m, db1)" "ms_id m = db_nextSegID db + 1"
    "db_options db1 = db_options db"
    by (rule new_memory_repr [OF u, of rnd])
  have o: "open_state rnd static path opts segs = db1\<lparr>db_memory := Some m\<rparr>"
    unfolding open_state_def db_def [symmetric] Let_def n(1) by simp
  have mid: "ms_id m = maxSegID segs + 1" using n(2) by (simp add: db_def)
  have top: "unat (- 1 :: u64) = 2 ^ 64 - 1" by (simp add: unsigned_minus_1_eq_mask mask_eq_exp_minus_1)
  then have "(0 :: u64) < - 1" by (simp add: word_less_nat_alt)
  then have "maxSegID segs < - 1" using foldl_max_bounds(3) [of 0 "- 1" segs seg_upperID] assms(3) by (simp add: maxSegID_def)
  then have "unat (maxSegID segs) < 2 ^ 64 - 1" by (simp only: word_less_nat_alt top)
  then have lt: "maxSegID segs < maxSegID segs + 1" by (simp add: word_less_nat_alt unat_word_ariths)
  have "seg_upperID s < ms_id m" if "s \<in> set segs" for s
    using foldl_max_bounds(2) [OF that, of seg_upperID 0] lt unfolding mid maxSegID_def by (rule le_less_trans)
  moreover have "dbMemorySegment \<le> maxMemoryBytes (raise_options opts)" "dbMaxSegments \<le> maxSegments (raise_options opts)"
    by (simp_all add: raise_options_def Let_def)
  ultimately show ?thesis
    using open_state_repr [OF assms(1,2), of rnd static path] o n(3) by (simp add: db_def)
qed

theorem open_shows_segments_witness:
  "(\<exists>m. db_memory (open_state (\<lambda>i. 0) None ''db'' (mk_options True) [MemSeg (newMemoryOnlySegment kv_cmp (\<lambda>i. 0))]) = Some m \<and>
     (\<forall>s \<in> set [MemSeg (newMemoryOnlySegment kv_cmp (\<lambda>i. 0))]. seg_upperID s < ms_id m)) \<and>
   db_repr (open_state (\<lambda>i. 0) None ''db'' (mk_options True) [MemSeg (newMemoryOnlySegment kv_cmp (\<lambda>i. 0))]) [[]] [] \<and>
   dbMemorySegment \<le> maxMemoryBytes (db_options (open_state (\<lambda>i. 0) None ''db'' (mk_options True) [MemSeg (newMemoryOnlySegment kv_cmp (\<lambda>i. 0))])) \<and>
   dbMaxSegments \<le> maxSegments (db_options (open_state (\<lambda>i. 0) None ''db'' (mk_options True) [MemSeg (newMemoryOnlySegment kv_cmp (\<lambda>i. 0))]))"
proof (rule open_shows_segments)
  have "unat (- 1 :: u64) = 2 ^ 64 - 1" by (simp add: unsigned_minus_1_eq_mask mask_eq_exp_minus_1)
  then show "\<forall>s \<in> set [MemSeg (newMemoryOnlySegment kv_cmp (\<lambda>i. 0))]. seg_upperID s < - 1"
    by (simp add: newMemoryOnlySegment_def newMemorySegment_def word_less_nat_alt)
  have "ms_repr (newMemoryOnlySegment kv_cmp (\<lambda>i. 0)) []"
    unfolding newMemoryOnlySegment_def by (rule newMemorySegment_repr)
  then show "list_all2 seg_repr [MemSeg (newMemoryOnlySegment kv_cmp (\<lambda>i. 0))] [[]]"
    by (simp add: keys_nonempty_def)
qed (simp add: mk_options_def)

text \<open>C1. The database is a map: after any sequence of puts, batches and snapshots with non-empty keys and
  values, \<^verbatim>\<open>get\<close> returns the value last written, or what was visible before; when and how often memory is
  swapped out to further segments makes no difference.\<close>

theorem database_is_map:
  assumes "db_repr db rs r" and "\<forall>op \<in> set ops. op_ok op"
    and "length (j_stack j) = maxKeySize" and "k \<noteq> []" and "length k \<le> 1024"
  shows "\<exists>db'. db_run rnd db ops = Inr db' \<and>
           db_get j db' k = Inr (foldl map_step (visible (rs @ [r])) ops k)"
  using db_run_repr [OF assms(1,2), of rnd] db_get_repr [OF _ assms(3-5)] by metis

theorem database_is_map_witness:
  "\<exists>db'. db_run (\<lambda>i. 0) (open_state (\<lambda>i. 0) None ''db'' (mk_options True) [])
       [DoPut [1] [2], DoSnapshot, DoPut [1] [3], DoWrite \<lparr>entries = [mk_kv [4] [5]]\<rparr>] = Inr db' \<and>
     db_get \<lparr>j_stack = replicate maxKeySize 0, j_buffer = []\<rparr> db' [1] = Inr [3]"
  using database_is_map [OF fresh_repr, of "mk_options True"
      "[DoPut [1] [2], DoSnapshot, DoPut [1] [3], DoWrite \<lparr>entries = [mk_kv [4] [5]]\<rparr>]"
      "\<lparr>j_stack = replicate maxKeySize 0, j_buffer = []\<rparr>" "[1]" "\<lambda>i. 0" "\<lambda>i. 0" None "''db''"]
  by (simp add: mk_options_def)

text \<open>C18. \<^verbatim>\<open>Database::lookup\<close>, drained through the merging iterator over memory, log and disk segments, returns
  the pairs between the bounds in strictly ascending order of keys, each with the value of the newest
  segment that has the key (the empty value for a removed one), and ends.\<close>

theorem database_lookup:
  assumes "db_repr db rs r" and "range_ok lower upper"
  shows "\<exists>its db' out. db_lookup j rnd db lower upper = Inr (its, db') \<and>
           drain (multi_next seg_peekKey seg_next) its = Some (Inr out) \<and> sorted_kvs out \<and>
           (\<forall>k. find_kv out k = (if mem_range lower upper (Key k) then newest (rs @ [r]) k else None))"
proof -
  obtain its db' where l: "db_lookup j rnd db lower upper = Inr (its, db')"
    "multi_yields seg_yields its (filter (mem_range lower upper) (merge_runs (rs @ [r])))"
    using db_lookup_repr [OF assms, of j rnd] by blast
  have "list_all2 seg_repr (db_multi db) (rs @ [r])" by (rule db_repr_multi [OF assms(1)])
  then have s: "\<forall>l \<in> set (rs @ [r]). sorted_kvs l"
    using seg_repr_run(1) by (induction rule: list_all2_induct) auto
  have "sorted_kvs (filter (mem_range lower upper) (merge_runs (rs @ [r])))"
    by (rule sorted_wrt_filter) (rule merge_runs_spec(1) [OF s])
  moreover have "find_kv (filter (mem_range lower upper) (merge_runs (rs @ [r]))) k =
      (if mem_range lower upper (Key k) then newest (rs @ [r]) k else None)" for k
    by (simp only: find_filter merge_runs_spec(2) [OF s])
  ultimately show ?thesis using l seg_it.multi.drain_yields by blast
qed

theorem database_lookup_witness:
  "\<exists>its db' out. db_lookup \<lparr>j_stack = [], j_buffer = []\<rparr> (\<lambda>i. 0) (open_state (\<lambda>i. 0) None ''db'' (mk_options True) []) [1] [2] = Inr (its, db') \<and>
     drain (multi_next seg_peekKey seg_next) its = Some (Inr out) \<and> sorted_kvs out \<and>
     (\<forall>k. find_kv out k = (if mem_range [1] [2] (Key k) then newest ([] @ [[]]) k else None))"
  by (rule database_lookup [OF fresh_repr]) (simp_all add: mk_options_def range_ok_def)

text \<open>\<^verbatim>\<open>Database::remove\<close> returns the value that was visible, changes nothing visible under another key, and
  leaves visible under the removed key what the older segments hold: if one of them has a non-empty value for
  it, the key is not removed.\<close>

theorem database_remove:
  assumes "db_repr db rs r" and "length (j_stack j) = maxKeySize" and "k \<noteq> []" and "length k \<le> 1024"
    and "q \<noteq> []" and "length q \<le> 1024"
  shows "\<exists>db' older. db_remove j rnd db k = Inr (visible (rs @ [r]) k, db') \<and>
           (older = rs \<or> older = rs @ [r]) \<and>
           db_get j db' q = Inr (if q = k \<and> visible (rs @ [r]) k \<noteq> [] then visible older k else visible (rs @ [r]) q)"
proof -
  obtain db' rs' r' where x: "db_remove j rnd db k = Inr (visible (rs @ [r]) k, db')" "db_repr db' rs' r'"
    "if visible (rs @ [r]) k = [] then db' = db \<and> rs' = rs \<and> r' = r
     else layers_step (\<lambda>r. run_put r (mk_kv k [])) rs r rs' r'"
    using db_remove_repr [OF assms(1-4), of rnd] by blast
  note g = db_get_repr [OF x(2) assms(2,5,6)]
  note s = db_repr_sorted [OF assms(1)]
  show ?thesis
  proof (cases "visible (rs @ [r]) k = []")
    case True
    then show ?thesis using x g by (intro exI [of _ db'] exI [of _ rs]) simp
  next
    case False
    then have "layers_step (\<lambda>r. run_put r (mk_kv k [])) rs r rs' r'" using x(3) by simp
    then have "rs' = rs \<and> r' = run_put r (mk_kv k []) \<or> rs' = rs @ [r] \<and> r' = run_put [] (mk_kv k [])"
      by (simp add: layers_step_def)
    then show ?thesis
      using x(1) g False find_run_put [OF s, of "mk_kv k []" q] find_run_put [of "[]" "mk_kv k []" q]
      by (intro exI [of _ db'] exI [of _ rs']) (auto simp: visible_snoc)
  qed
qed

theorem database_remove_witness:
  "\<exists>db' older. db_remove \<lparr>j_stack = replicate maxKeySize 0, j_buffer = []\<rparr> (\<lambda>i. 0)
       (open_state (\<lambda>i. 0) None ''db'' (mk_options True) []) [1] = Inr (visible ([] @ [[]]) [1], db') \<and>
     (older = [] \<or> older = [] @ [[]]) \<and>
     db_get \<lparr>j_stack = replicate maxKeySize 0, j_buffer = []\<rparr> db' [2] =
       Inr (if [2] = ([1] :: bytes) \<and> visible ([] @ [[]]) [1] \<noteq> [] then visible older [1] else visible ([] @ [[]]) [2])"
  by (rule database_remove [OF fresh_repr]) (simp_all add: mk_options_def)

text \<open>C27. A removed key comes back: once the value has been moved out of the memory segment (here by a
  snapshot), \<^verbatim>\<open>remove\<close> returns the value but the next \<^verbatim>\<open>get\<close> of the key still finds it.\<close>

theorem removed_key_visible:
  assumes "db_repr db rs r" and "length (j_stack j) = maxKeySize"
    and "k \<noteq> []" and "length k \<le> 1024" and "v \<noteq> []"
  shows "\<exists>db1 db2. db_run rnd db [DoPut k v, DoSnapshot] = Inr db1 \<and>
           db_remove j rnd db1 k = Inr (v, db2) \<and> db_get j db2 k = Inr v"
proof -
  have ok: "\<forall>op \<in> set [DoPut k v]. op_ok op" using assms(3-5) by simp
  obtain db0 rs0 r0 where 0: "db_run rnd db [DoPut k v] = Inr db0" "db_repr db0 rs0 r0"
    "visible (rs0 @ [r0]) = (visible (rs @ [r]))(k := v)"
    using db_run_repr [OF assms(1) ok, of rnd] by auto
  obtain sn db1 where 1: "db_snapshot rnd db0 = Inr (sn, db1)" "db_repr db1 (rs0 @ [r0]) []"
    using db_snapshot_repr [OF 0(2), of rnd] by blast
  have v: "visible ((rs0 @ [r0]) @ [[]]) k = v" using 0(3) by simp
  obtain db2 rs2 r2 where 2: "db_remove j rnd db1 k = Inr (v, db2)" "db_repr db2 rs2 r2"
    "layers_step (\<lambda>r. run_put r (mk_kv k [])) (rs0 @ [r0]) [] rs2 r2"
    using db_remove_repr [OF 1(2) assms(2-4), of rnd] v assms(5) by auto
  have "value_in (run_put [] (mk_kv k [])) k = []"
    using find_run_put [of "[]" "mk_kv k []" k] by simp
  then have "visible (rs2 @ [r2]) k = v"
    using 2(3) v by (auto simp: layers_step_def visible_snoc)
  then have "db_get j db2 k = Inr v" using db_get_repr [OF 2(2) assms(2-4)] by simp
  moreover have "db_run rnd db [DoPut k v, DoSnapshot] = Inr db1" using 0(1) 1(1) by (auto simp: bind_res_eq_Inr)
  ultimately show ?thesis using 2(1) by blast
qed

theorem removed_key_visible_witness:
  "\<exists>db1 db2. db_run (\<lambda>i. 0) (open_state (\<lambda>i. 0) None ''db'' (mk_options True) []) [DoPut [1] [2], DoSnapshot] = Inr db1 \<and>
     db_remove \<lparr>j_stack = replicate maxKeySize 0, j_buffer = []\<rparr> (\<lambda>i. 0) db1 [1] = Inr ([2], db2) \<and>
     db_get \<lparr>j_stack = replicate maxKeySize 0, j_buffer = []\<rparr> db2 [1] = Inr [2]"
  by (rule removed_key_visible [OF fresh_repr]) (simp_all add: mk_options_def)

text \<open>C28. A snapshot is constant: it answers as the database did when it was taken, and whatever is written
  afterwards only appends segments behind those of the snapshot.\<close>

theorem snapshot_constant:
  assumes "db_repr db rs r" and "length (j_stack j) = maxKeySize" and "k \<noteq> []" and "length k \<le> 1024"
    and "\<forall>op \<in> set ops. op_ok op"
  shows "\<exists>sn db' db'' segs. db_snapshot rnd db = Inr (sn, db') \<and> db_run rnd db' ops = Inr db'' \<and>
           sn_get j sn k = db_get j db k \<and> sn_multi sn = Some segs \<and> take (length segs) (db_segments db'') = segs"
proof -
  obtain sn db' segs where s: "db_snapshot rnd db = Inr (sn, db')" "db_repr db' (rs @ [r]) []"
    "sn_multi sn = Some segs" "db_segments db' = segs" "list_all2 seg_repr segs (rs @ [r])"
    using db_snapshot_repr [OF assms(1), of rnd] by blast
  have "sn_get j sn k = Inr (visible (rs @ [r]) k)"
    using multi_get_repr [OF s(5) assms(2), of k] s(3) by (simp add: sn_get_def visible_def)
  then have g: "sn_get j sn k = db_get j db k" using db_get_repr [OF assms(1-4)] by simp
  have step: "\<exists>db2 rs2 r2 new. db_step rnd db1 op = Inr db2 \<and> db_repr db2 rs2 r2 \<and> db_segments db2 = db_segments db1 @ new"
    if "db_repr db1 rs1 r1" "op_ok op" for db1 rs1 r1 op
  proof (cases op)
    case (DoPut k v)
    then show ?thesis using db_put_repr [OF that(1), of k rnd v] that(2) by fastforce
  next
    case (DoWrite b)
    then show ?thesis using db_write_repr [OF that(1), of b rnd] that(2) by (fastforce simp: keys_nonempty_def)
  next
    case DoSnapshot
    then show ?thesis using db_snapshot_repr [OF that(1), of rnd] by fastforce
  qed
  have "\<exists>db2 new. db_run rnd db1 os = Inr db2 \<and> db_segments db2 = db_segments db1 @ new"
    if "db_repr db1 rs1 r1" "\<forall>op \<in> set os. op_ok op" for db1 rs1 r1 os
    using that
  proof (induction os arbitrary: db1 rs1 r1)
    case (Cons op os)
    obtain db2 rs2 r2 new where d: "db_step rnd db1 op = Inr db2" "db_repr db2 rs2 r2"
      "db_segments db2 = db_segments db1 @ new"
      using step [OF Cons.prems(1), of op] Cons.prems(2) by auto
    then show ?case using Cons.IH [OF d(2)] Cons.prems(2) by auto
  qed simp
  then obtain db'' new where "db_run rnd db' ops = Inr db''" "db_segments db'' = db_segments db' @ new"
    using s(2) assms(5) by blast
  then show ?thesis using s(1,3,4) g by auto
qed

theorem snapshot_constant_witness:
  "\<exists>sn db' db'' segs. db_snapshot (\<lambda>i. 0) (open_state (\<lambda>i. 0) None ''db'' (mk_options True) []) = Inr (sn, db') \<and>
     db_run (\<lambda>i. 0) db' [DoPut [1] [2]] = Inr db'' \<and>
     sn_get \<lparr>j_stack = replicate maxKeySize 0, j_buffer = []\<rparr> sn [1] =
       db_get \<lparr>j_stack = replicate maxKeySize 0, j_buffer = []\<rparr> (open_state (\<lambda>i. 0) None ''db'' (mk_options True) []) [1] \<and>
     sn_multi sn = Some segs \<and> take (length segs) (db_segments db'') = segs"
  by (rule snapshot_constant [OF fresh_repr]) (simp_all add: mk_options_def)

text \<open>Errors: on a closed database every operation throws \<^verbatim>\<open>DatabaseClosed\<close>; on an open one \<^verbatim>\<open>get\<close>, \<^verbatim>\<open>put\<close> and
  \<^verbatim>\<open>remove\<close> throw \<^verbatim>\<open>EmptyKey\<close> for the empty key and \<^verbatim>\<open>KeyTooLong\<close> for a key of more than 1024 bytes, and a
  snapshot without segments throws \<^verbatim>\<open>SnapshotClosed\<close>.\<close>

theorem database_errors:
  "db_get j (db\<lparr>db_open := False\<rparr>) k = Inl DatabaseClosed \<and>
   db_put rnd (db\<lparr>db_open := False\<rparr>) k v = Inl DatabaseClosed \<and>
   db_remove j rnd (db\<lparr>db_open := False\<rparr>) k = Inl DatabaseClosed \<and>
   db_write rnd (db\<lparr>db_open := False\<rparr>) b = Inl DatabaseClosed \<and>
   db_lookup j rnd (db\<lparr>db_open := False\<rparr>) k v = Inl DatabaseClosed \<and>
   db_get j (db\<lparr>db_open := True\<rparr>) [] = Inl EmptyKey \<and>
   db_put rnd (db\<lparr>db_open := True\<rparr>) [] v = Inl EmptyKey \<and>
   db_remove j rnd (db\<lparr>db_open := True\<rparr>) [] = Inl EmptyKey \<and>
   db_get j (db\<lparr>db_open := True\<rparr>) (replicate 1024 x @ y # ys) = Inl KeyTooLong \<and>
   db_put rnd (db\<lparr>db_open := True\<rparr>) (replicate 1024 x @ y # ys) v = Inl KeyTooLong \<and>
   db_remove j rnd (db\<lparr>db_open := True\<rparr>) (replicate 1024 x @ y # ys) = Inl KeyTooLong \<and>
   sn_get j \<lparr>sn_multi = None\<rparr> k = Inl SnapshotClosed"
  by (simp add: db_get_def db_put_def db_remove_def db_write_def db_lookup_def db_snapshot_def checkKey_def sn_get_def)

end
