(* ===== verification/Merger.thy ===== *)
theory Merger
  imports Directory Database
begin

text \<open>
  \<^verbatim>\<open>merger.cpp\<close>: choosing the segments to merge, writing their merge to one disk segment, and putting that
  segment in their place. The lemmas: a merge keeps what a lookup shows under every key, with or without the
  removal of deleted keys, the loop ends, and a merge that runs beside the writers finds its segments
  unchanged.
\<close>

section \<open>One merge\<close>

text \<open>\<^verbatim>\<open>segments.size() <= maxSegments\<close>, the \<^verbatim>\<open>int\<close> converted to the unsigned type of \<^verbatim>\<open>size()\<close>.\<close>

definition few_segments :: "segment list \<Rightarrow> int \<Rightarrow> bool" where
  "few_segments segs maxSegs \<longleftrightarrow> maxSegs < 0 \<or> int (length segs) \<le> maxSegs"

text \<open>The first smallest segment, the last one left out.\<close>

function smallest_loop :: "segment list \<Rightarrow> nat \<Rightarrow> nat \<Rightarrow> nat" where
  "smallest_loop segs itr smallest =
     (if itr < length segs - 1
      then smallest_loop segs (itr + 1) (if seg_size (segs ! itr) < seg_size (segs ! smallest) then itr else smallest)
      else smallest)"
  by pat_completeness auto
termination
  by (relation "measure (\<lambda>(segs, itr, smallest). length segs - itr)") auto

declare smallest_loop.simps [simp del]

text \<open>The index of the first segment to merge, and the segments to merge.\<close>

definition merge_plan :: "segment list \<Rightarrow> nat \<times> segment list" where
  "merge_plan segs =
     (let maxMergeSize = max (length segs div 2) 4;
          smallest = smallest_loop segs 0 0;
          last = min (smallest + maxMergeSize) (length segs)
      in (smallest, take (last - smallest) (drop smallest segs)))"

definition mergeSegments1 ::
  "junk \<Rightarrow> kv_compare \<Rightarrow> deleter \<Rightarrow> string \<Rightarrow> segment list \<Rightarrow> bool \<Rightarrow> directory \<Rightarrow>
     (disk_segment \<times> deleter \<times> directory) res" where
  "mergeSegments1 j icmp dl dbpath segs purgeDeleted d =
     (if segs = [] then Inl UndefinedBehaviour
      else let i = IDS (seg_lowerID (hd segs)) (seg_upperID (last segs));
               files = concat (map seg_files segs)
           in bind_res (multi_lookup (seg_lookup j icmp) segs [] []) (\<lambda>itr.
              bind_res (writeAndLoadSegment (multi_next seg_peekKey seg_next) dbpath (key_name i) (data_name i) itr purgeDeleted d)
                (\<lambda>(s, d1). case scheduleDeletion dl files d1 of (dl1, d2) \<Rightarrow> Inr (s, dl1, d2))))"

section \<open>The merging loop\<close>

record system =
  sys_db :: database
  sys_deleter :: deleter
  sys_files :: directory

record merge_job =
  mj_start :: nat
  mj_group :: "segment list"
  mj_seg :: disk_segment

text \<open>The first half of an iteration, which reads the state without the database lock.\<close>

definition merge_begin :: "junk \<Rightarrow> kv_compare \<Rightarrow> system \<Rightarrow> (merge_job \<times> system) res" where
  "merge_begin j icmp s =
     (case merge_plan (db_segments (sys_db s)) of (start, mergable) \<Rightarrow>
        bind_res (mergeSegments1 j icmp (sys_deleter s) (db_path (sys_db s)) mergable (start = 0) (sys_files s))
          (\<lambda>(seg, dl, d). Inr (\<lparr>mj_start = start, mj_group = mergable, mj_seg = seg\<rparr>,
                                 s\<lparr>sys_deleter := dl, sys_files := d\<rparr>)))"

text \<open>The check, under the lock, that the segments are still the ones merged, and their replacement.\<close>

fun check_segments :: "segment list \<Rightarrow> segment list \<Rightarrow> nat \<Rightarrow> unit res" where
  "check_segments [] segs index = Inr ()"
| "check_segments (s # ss) segs index =
     bind_res (access (if index < length segs then Some (segs ! index) else None)) (\<lambda>t.
       if s \<noteq> t then Inl (IllegalState ''unexpected segment change'') else check_segments ss segs (index + 1))"

definition merge_commit :: "merge_job \<Rightarrow> database \<Rightarrow> database res" where
  "merge_commit job db =
     bind_res (check_segments (mj_group job) (db_segments db) (mj_start job)) (\<lambda>_.
       Inr (db\<lparr>db_segments := take (mj_start job) (db_segments db) @ DiskSeg (mj_seg job) #
                               drop (mj_start job + length (mj_group job)) (db_segments db)\<rparr>))"

text \<open>
  The whole loop, with nothing running beside it, as in \<^verbatim>\<open>closeWithMerge\<close>. \<open>None\<close>: it does not end.
\<close>

partial_function (option) mergeSegments0 :: "junk \<Rightarrow> kv_compare \<Rightarrow> int \<Rightarrow> system \<Rightarrow> system res option" where
  "mergeSegments0 j icmp maxSegs s =
     (if few_segments (db_segments (sys_db s)) maxSegs then Some (Inr s)
      else case bind_res (merge_begin j icmp s) (\<lambda>(job, s1).
                  bind_res (merge_commit job (sys_db s1)) (\<lambda>db. Inr (s1\<lparr>sys_db := db\<rparr>))) of
             Inl e \<Rightarrow> Some (Inl e)
           | Inr s2 \<Rightarrow> mergeSegments0 j icmp maxSegs s2)"

section \<open>The plan\<close>

lemma smallest_loop_le:
  "smallest \<le> length segs - 2 \<Longrightarrow> smallest_loop segs itr smallest \<le> length segs - 2"
proof (induction segs itr smallest rule: smallest_loop.induct)
  case (1 segs itr smallest)
  then show ?case by (subst smallest_loop.simps) (auto split: if_splits)
qed

text \<open>At least two segments are merged, and what is left of the list keeps its order.\<close>

lemma merge_plan_split:
  assumes "merge_plan segs = (start, mergable)" "2 \<le> length segs"
  obtains post where "segs = take start segs @ mergable @ post" "length (take start segs) = start" "2 \<le> length mergable"
proof
  let ?n = "max (length segs div 2) 4"
  have s: "start \<le> length segs - 2"
    using assms smallest_loop_le [of 0 segs 0] by (auto simp: merge_plan_def Let_def)
  have g: "mergable = take (min (start + ?n) (length segs) - start) (drop start segs)"
    using assms(1) by (auto simp: merge_plan_def Let_def)
  show "segs = take start segs @ mergable @ drop (min (start + ?n) (length segs) - start) (drop start segs)"
    unfolding g by (simp only: append_take_drop_id)
  show "length (take start segs) = start" using s assms(2) by simp
  show "2 \<le> length mergable" unfolding g using s assms(2) by auto
qed

lemma check_segments_ok: "check_segments ss (xs @ ss @ ys) (length xs) = Inr ()"
proof (induction ss arbitrary: xs)
  case (Cons s ss)
  have "check_segments ss ((xs @ [s]) @ ss @ ys) (length (xs @ [s])) = Inr ()" by (rule Cons.IH)
  then show ?case by (simp add: nth_append)
qed simp

lemma merge_commit_ok:
  assumes "db_segments db = pre @ mj_group job @ post" "length pre = mj_start job"
  shows "merge_commit job db = Inr (db\<lparr>db_segments := pre @ DiskSeg (mj_seg job) # post\<rparr>)"
  using assms check_segments_ok [of "mj_group job" pre post] by (simp add: merge_commit_def)

section \<open>What a lookup shows\<close>

text \<open>The value under a key in a lookup over the runs, empty where the key is removed or unknown.\<close>

definition shown :: "keyvalue list list \<Rightarrow> bytes \<Rightarrow> bytes" where
  "shown rs k = (case newest rs k of None \<Rightarrow> [] | Some v \<Rightarrow> v)"

lemma newest_append: "newest (xs @ ys) k = (case newest ys k of Some v \<Rightarrow> Some v | None \<Rightarrow> newest xs k)"
  by (induction xs) (auto split: option.splits)

lemma shown_append: "shown (xs @ ys) k = (case newest ys k of Some v \<Rightarrow> v | None \<Rightarrow> shown xs k)"
  by (auto simp: shown_def newest_append split: option.splits)

lemma find_purged:
  "sorted_kvs r \<Longrightarrow> find_kv (purged p r) k = (if p \<and> find_kv r k = Some [] then None else find_kv r k)"
proof (induction r)
  case (Cons kv r)
  have "find_kv r (kv_key kv) = None" using Cons.prems by (intro find_kv_less) auto
  then show ?case using Cons by (auto simp: purged_def split: if_splits)
qed (simp add: purged_def)

lemma shown_merge:
  assumes "\<forall>r \<in> set gs. sorted_kvs r" "p \<longrightarrow> pre = []"
  shows "shown (pre @ [purged p (merge_runs gs)] @ post) k = shown (pre @ gs @ post) k"
proof -
  note m = merge_runs_spec [OF assms(1)]
  have "newest [purged p (merge_runs gs)] k = (if p \<and> newest gs k = Some [] then None else newest gs k)"
    using find_purged [OF m(1), of p k] m(2) [of k] by simp
  then show ?thesis
    using assms(2) by (cases p) (auto simp: shown_def newest_append split: option.splits)
qed

text \<open>Where no value is empty, \<^verbatim>\<open>get\<close> returns what a lookup shows.\<close>

definition no_removed :: "keyvalue list list \<Rightarrow> bool" where
  "no_removed rs \<longleftrightarrow> (\<forall>r \<in> set rs. \<forall>kv \<in> set r. kv_value kv \<noteq> [])"

lemma find_kv_in: "find_kv r k = Some v \<Longrightarrow> \<exists>kv \<in> set r. kv_value kv = v"
  by (induction r) (auto split: if_splits)

lemma visible_shown: "no_removed rs \<Longrightarrow> visible rs k = shown rs k"
proof (induction rs rule: rev_induct)
  case (snoc r rs)
  have "find_kv r k \<noteq> Some []" using snoc.prems find_kv_in [of r k "[]"] by (auto simp: no_removed_def)
  moreover have "visible rs k = shown rs k" using snoc by (simp add: no_removed_def)
  ultimately show ?case by (auto simp: visible_snoc shown_append split: option.splits)
qed (simp add: visible_def shown_def)

section \<open>Sizes\<close>

text \<open>Runs small enough for one disk segment, all of them together.\<close>

definition runs_fit :: "keyvalue list list \<Rightarrow> bool" where
  "runs_fit rs \<longleftrightarrow>
     (\<forall>r \<in> set rs. \<forall>kv \<in> set r. length (kv_key kv) \<le> maxKeySize \<and> length (kv_value kv) < 2 ^ 31) \<and>
     sum_list (map (\<lambda>r. length (values_of r)) rs) < 2 ^ 63 \<and> sum_list (map length rs) < 2 ^ 50"

lemma merge2_sizes:
  "length (values_of (merge2 xs ys)) \<le> length (values_of xs) + length (values_of ys)"
  "length (merge2 xs ys) \<le> length xs + length ys"
  by (induction xs ys rule: merge2.induct) (auto simp: values_of_def)

lemma merge_runs_sizes:
  "length (values_of (merge_runs rs)) \<le> sum_list (map (\<lambda>r. length (values_of r)) rs)"
  "length (merge_runs rs) \<le> sum_list (map length rs)"
proof (induction rs)
  case (Cons r rs)
  show "length (values_of (merge_runs (r # rs))) \<le> sum_list (map (\<lambda>r. length (values_of r)) (r # rs))"
    using merge2_sizes(1) [of r "merge_runs rs"] Cons by simp
  show "length (merge_runs (r # rs)) \<le> sum_list (map length (r # rs))"
    using merge2_sizes(2) [of r "merge_runs rs"] Cons by simp
qed (simp_all add: values_of_def)

lemma purged_sizes: "length (values_of (purged p r)) \<le> length (values_of r)" "length (purged p r) \<le> length r"
proof -
  show "length (values_of (purged p r)) \<le> length (values_of r)"
    by (induction r) (auto simp: purged_def values_of_def)
qed (simp add: purged_def)

lemma set_purged: "set (purged p r) \<subseteq> set r"
  by (auto simp: purged_def)

lemma purged_sorted: "sorted_kvs r \<Longrightarrow> sorted_kvs (purged p r)"
  by (simp add: purged_def sorted_wrt_filter)

lemma runs_fit_merge:
  assumes "runs_fit (pre @ gs @ post)" "\<forall>r \<in> set gs. sorted_kvs r"
  shows "runs_fit (pre @ [purged p (merge_runs gs)] @ post)"
proof -
  have "set (purged p (merge_runs gs)) \<subseteq> \<Union> (set ` set gs)"
    using merge_runs_spec(3) [OF assms(2)] set_purged [of p "merge_runs gs"] by blast
  moreover have "length (values_of (purged p (merge_runs gs))) \<le> sum_list (map (\<lambda>r. length (values_of r)) gs)"
    using merge_runs_sizes(1) [of gs] purged_sizes(1) [of p "merge_runs gs"] by linarith
  moreover have "length (purged p (merge_runs gs)) \<le> sum_list (map length gs)"
    using merge_runs_sizes(2) [of gs] purged_sizes(2) [of p "merge_runs gs"] by linarith
  ultimately show ?thesis using assms(1) unfolding runs_fit_def by (auto simp: subset_iff)
qed

lemma run_ok_merge:
  assumes "runs_fit (pre @ gs @ post)" "\<forall>r \<in> set gs. sorted_kvs r \<and> keys_nonempty r"
  shows "run_ok (purged p (merge_runs gs))"
proof -
  have s: "\<forall>r \<in> set gs. sorted_kvs r" using assms(2) by blast
  have "runs_fit (pre @ [purged p (merge_runs gs)] @ post)" by (rule runs_fit_merge [OF assms(1) s])
  moreover have "kv_key kv \<noteq> []" if "kv \<in> set (purged p (merge_runs gs))" for kv
    using that merge_runs_spec(3) [OF s] set_purged [of p "merge_runs gs"] assms(2) by (fastforce simp: keys_nonempty_def)
  ultimately show ?thesis
    using purged_sorted [OF merge_runs_spec(1) [OF s], of p] by (auto simp: runs_fit_def run_ok_def)
qed

section \<open>The files of a database\<close>

text \<open>
  What the directory holds while the segments are \<open>segs\<close>: the files of the disk segments among them, and files
  of segments that were merged, all of them scheduled for deletion.
\<close>

definition live_file :: "segment list \<Rightarrow> string \<Rightarrow> bool" where
  "live_file segs name \<longleftrightarrow> (\<exists>ds. DiskSeg ds \<in> set segs \<and> name \<in> {key_name (seg_ids (DiskSeg ds)), data_name (seg_ids (DiskSeg ds))})"

definition within_ids :: "ids \<Rightarrow> segment \<Rightarrow> bool" where
  "within_ids i s \<longleftrightarrow> seg_lowerID s \<le> ids_lower i \<and> ids_lower i \<le> ids_upper i \<and> ids_upper i \<le> seg_upperID s"

definition stale_file :: "segment list \<Rightarrow> string \<Rightarrow> bool" where
  "stale_file segs name \<longleftrightarrow>
     (\<exists>i ds. DiskSeg ds \<in> set segs \<and> within_ids i (DiskSeg ds) \<and> name \<in> {key_name i, data_name i})"

fun file_backed :: "directory \<Rightarrow> segment \<Rightarrow> bool" where
  "file_backed d (MemSeg m) = True"
| "file_backed d (DiskSeg ds) = on_disk d ds"
| "file_backed d (LogSeg l) = False"

definition segment_file :: "string \<Rightarrow> bool" where
  "segment_file name \<longleftrightarrow> has_prefix ''keys.'' name \<or> has_prefix ''data.'' name"

definition files_ok :: "directory \<Rightarrow> segment list \<Rightarrow> bool" where
  "files_ok d segs \<longleftrightarrow>
     finite (dom d) \<and> chain segs \<and> (\<forall>s \<in> set segs. file_backed d s) \<and>
     deleted_lines d (scheduled d) \<and>
     (\<forall>name \<in> set (scheduled d). \<not> live_file segs name \<and> stale_file segs name) \<and>
     (\<forall>name. d name \<noteq> None \<longrightarrow> valid_name name \<and> \<not> is_tmp name \<and>
        (segment_file name \<longrightarrow> live_file segs name \<or> name \<in> set (scheduled d)))"

lemma files_ok_names:
  assumes "files_ok d segs" "s \<in> set segs" "f \<in> set (seg_files s)"
  shows "CHR 0x0A \<notin> set f" "live_file segs f"
proof -
  obtain ds where s: "s = DiskSeg ds" "on_disk d ds" using assms by (cases s) (auto simp: files_ok_def)
  then show "CHR 0x0A \<notin> set f" using assms(3) by (auto simp: on_disk_def key_name_def data_name_def)
  show "live_file segs f" using s assms(2,3) by (auto simp: live_file_def on_disk_def)
qed

lemma mergeSegments1_ok:
  assumes "list_all2 seg_lists segs gs" "segs \<noteq> []" "run_ok (purged p (merge_runs gs))"
    and "CHR ''.'' \<notin> set dbpath" "dl_path dl \<noteq> ''''"
    and "i = IDS (seg_lowerID (hd segs)) (seg_upperID (last segs))"
    and "d (key_name i) = None" "d (data_name i) = None" "\<forall>name. is_tmp name \<longrightarrow> d name = None"
    and "deleted_lines d ls" "\<forall>s \<in> set segs. \<forall>f \<in> set (seg_files s). CHR 0x0A \<notin> set f"
  shows "\<exists>ds dl' d'. mergeSegments1 j kv_cmp dl dbpath segs p d = Inr (ds, dl', d') \<and> dl_path dl' = dl_path dl \<and>
           seg_lists (DiskSeg ds) (purged p (merge_runs gs)) \<and>
           (purged p (merge_runs gs) \<noteq> [] \<longrightarrow> seg_repr (DiskSeg ds) (purged p (merge_runs gs))) \<and>
           seg_ids (DiskSeg ds) = i \<and> on_disk d' ds \<and>
           deleted_lines d' (ls @ concat (map seg_files segs)) \<and>
           (\<forall>name. name \<noteq> ''deleted'' \<and> name \<noteq> key_name i \<and> name \<noteq> data_name i \<longrightarrow> d' name = d name)"
proof -
  obtain its where its: "multi_lookup (seg_lookup j kv_cmp) segs [] [] = Inr its"
    "multi_yields seg_yields its (filter (mem_range [] []) (merge_runs gs))"
    using multi_drain [OF assms(1), of "[]" "[]" j] by (auto simp: range_ok_def)
  have y: "multi_yields seg_yields its (merge_runs gs)"
    using its(2) by (simp add: mem_range_def within_def)
  obtain ds where ds: "writeAndLoadSegment (multi_next seg_peekKey seg_next) dbpath (key_name i) (data_name i) its p d =
       Inr (ds, d(key_name i @ ''.tmp'' := None, data_name i @ ''.tmp'' := None,
                  key_name i \<mapsto> ds_keyFile ds, data_name i \<mapsto> ds_dataFile ds))"
    "seg_lists (DiskSeg ds) (purged p (merge_runs gs))"
    "purged p (merge_runs gs) \<noteq> [] \<longrightarrow> seg_repr (DiskSeg ds) (purged p (merge_runs gs))"
    "seg_ids (DiskSeg ds) = i" "ds_names ds = [key_name i, data_name i]"
    by (rule seg_it.multi.writeAndLoad [OF y assms(3,4,7,8)])
  define d1 where "d1 = d(key_name i @ ''.tmp'' := None, data_name i @ ''.tmp'' := None,
      key_name i \<mapsto> ds_keyFile ds, data_name i \<mapsto> ds_dataFile ds)"
  let ?files = "concat (map seg_files segs)"
  have d1: "d1 name = d name" if "name \<noteq> key_name i" "name \<noteq> data_name i" for name
    using that assms(9) by (auto simp: d1_def)
  have del: "deleted_lines d1 ls" using assms(10) d1 [of "''deleted''"] by (simp add: deleted_lines_def)
  have nl: "\<forall>f \<in> set ?files. CHR 0x0A \<notin> set f" using assms(11) by auto
  obtain dl' d2 where sd: "scheduleDeletion dl ?files d1 = (dl', d2)" by fastforce
  obtain f where f: "d2 = d1(''deleted'' \<mapsto> f)"
    using scheduleDeletion_lines(1) [OF del nl assms(5)] sd by auto
  have lines: "deleted_lines d2 (ls @ ?files)" using scheduleDeletion_lines(2) [OF del nl assms(5)] sd by simp
  have path: "dl_path dl' = dl_path dl" using sd assms(5) by (auto simp: scheduleDeletion_def Let_def)
  have "mergeSegments1 j kv_cmp dl dbpath segs p d = Inr (ds, dl', d2)"
    using its(1) ds(1) [folded d1_def] sd assms(2) by (simp add: mergeSegments1_def Let_def assms(6) [symmetric])
  moreover have "on_disk d2 ds" using ds(4,5) by (simp add: on_disk_def f d1_def)
  ultimately show ?thesis using ds(2-4) lines path d1 f by auto
qed

section \<open>A merge keeps the directory in order\<close>

lemma chain_bounds:
  assumes "chain ss" "s \<in> set ss"
  shows "seg_lowerID (hd ss) \<le> seg_lowerID s" "seg_upperID s \<le> seg_upperID (last ss)"
  using assms
proof (induction ss)
  case (Cons x xs)
  {
    case 1
    have "seg_lowerID x \<le> seg_upperID x" "s \<in> set xs \<Longrightarrow> seg_upperID x < seg_lowerID s"
      using 1 by (auto simp: chain_def)
    then show ?case using 1(2) by auto
  next
    case 2
    then have xs: "chain xs" "\<forall>t \<in> set xs. seg_upperID x < seg_lowerID t" by (auto simp: chain_def)
    show ?case
    proof (cases "xs = []")
      case False
      have "seg_upperID x < seg_lowerID (last xs)" using xs(2) False by simp
      also have "seg_lowerID (last xs) \<le> seg_upperID (last xs)" using xs(1) False by (simp add: chain_def)
      finally show ?thesis using 2(2) False Cons.IH(2) [OF xs(1)] by auto
    qed (use 2 in simp)
  }
qed simp_all

lemma chain_append:
  "chain (xs @ ys) \<longleftrightarrow> chain xs \<and> chain ys \<and> (\<forall>x \<in> set xs. \<forall>y \<in> set ys. seg_upperID x < seg_lowerID y)"
  by (auto simp: chain_def sorted_wrt_append)

lemma chain_merge:
  assumes "chain (pre @ mergable @ post)" "mergable \<noteq> []"
    and "seg_ids s = IDS (seg_lowerID (hd mergable)) (seg_upperID (last mergable))"
  shows "chain (pre @ s # post)"
proof -
  have s: "seg_lowerID s = seg_lowerID (hd mergable)" "seg_upperID s = seg_upperID (last mergable)"
    using assms(3) by (simp_all add: seg_ids_def)
  have m: "chain mergable" using assms(1) by (simp add: chain_append)
  have "seg_lowerID (hd mergable) \<le> seg_upperID (hd mergable)" using m assms(2) by (simp add: chain_def)
  also have "\<dots> \<le> seg_upperID (last mergable)" using chain_bounds(2) [OF m, of "hd mergable"] assms(2) by simp
  finally have "chain [s]" by (simp add: chain_def s)
  then show ?thesis
    using assms(1,2) s chain_append [of "[s]" post] by (auto simp: chain_append)
qed

text \<open>A file of a segment belongs to ids within a disk segment in use.\<close>

lemma files_ok_within:
  assumes "files_ok d segs" "d name \<noteq> None \<or> name \<in> set (scheduled d)" "name \<in> {key_name i, data_name i}"
  obtains ds where "DiskSeg ds \<in> set segs" "within_ids i (DiskSeg ds)"
proof -
  have "segment_file name" using assms(3) by (auto simp: segment_file_def)
  then consider "live_file segs name" | "stale_file segs name" using assms(1,2) unfolding files_ok_def by blast
  then show thesis
  proof cases
    case 1
    then obtain ds where ds: "DiskSeg ds \<in> set segs" "name \<in> {key_name (seg_ids (DiskSeg ds)), data_name (seg_ids (DiskSeg ds))}"
      unfolding live_file_def by blast
    moreover have "seg_lowerID (DiskSeg ds) \<le> seg_upperID (DiskSeg ds)"
      using assms(1) ds(1) unfolding files_ok_def chain_def by blast
    moreover have "i = seg_ids (DiskSeg ds)" using ds(2) assms(3) by auto
    ultimately show thesis by (intro that [of ds]) (auto simp: within_ids_def seg_ids_def)
  next
    case 2
    then obtain i' ds where "DiskSeg ds \<in> set segs" "within_ids i' (DiskSeg ds)" "name \<in> {key_name i', data_name i'}"
      unfolding stale_file_def by blast
    moreover from this have "i' = i" using assms(3) by auto
    ultimately show thesis using that by blast
  qed
qed

lemma merge_name_free:
  assumes "files_ok d (pre @ mergable @ post)" "2 \<le> length mergable"
    and "i = IDS (seg_lowerID (hd mergable)) (seg_upperID (last mergable))" "name \<in> {key_name i, data_name i}"
  shows "d name = None" "name \<notin> set (scheduled d)"
proof -
  have "\<not> (d name \<noteq> None \<or> name \<in> set (scheduled d))"
  proof
  let ?segs = "pre @ mergable @ post"
  let ?h = "hd mergable" and ?l = "last mergable"
  assume "d name \<noteq> None \<or> name \<in> set (scheduled d)"
  then obtain ds where "DiskSeg ds \<in> set ?segs" "within_ids i (DiskSeg ds)"
    by (rule files_ok_within [OF assms(1) _ assms(4)])
  then have t: "DiskSeg ds \<in> set ?segs" "seg_lowerID (DiskSeg ds) \<le> ids_lower i"
    "ids_upper i \<le> seg_upperID (DiskSeg ds)"
    by (simp_all add: within_ids_def)
  obtain x y zs where m: "mergable = x # y # zs" using assms(2) by (cases mergable; cases "tl mergable") auto
  have c: "chain ?segs" using assms(1) by (simp add: files_ok_def)
  then have cm: "chain mergable" by (simp add: chain_append)
  have in': "?h \<in> set ?segs" "?l \<in> set ?segs" using m by auto
  have "seg_lowerID ?h \<le> seg_lowerID ?l" "seg_upperID ?h \<le> seg_upperID ?l"
    using chain_bounds [OF cm] m by auto
  then have "contained ?h (DiskSeg ds)" "contained ?l (DiskSeg ds)"
    using t(2,3) assms(3) by (auto simp: contained_def)
  then have "?h = ?l" using chain_contained [OF c _ t(1)] in' by metis
  moreover have "seg_upperID ?h < seg_lowerID ?l" using cm m by (auto simp: chain_def)
  moreover have "seg_lowerID ?l \<le> seg_upperID ?l" using cm m by (auto simp: chain_def)
  ultimately show False by simp
  qed
  then show "d name = None" "name \<notin> set (scheduled d)" by blast+
qed

lemma within_merged:
  assumes "chain mergable" "s \<in> set mergable" "within_ids i s"
    and "seg_ids t = IDS (seg_lowerID (hd mergable)) (seg_upperID (last mergable))"
  shows "within_ids i t"
proof -
  have "seg_lowerID t = seg_lowerID (hd mergable)" "seg_upperID t = seg_upperID (last mergable)"
    using assms(4) by (simp_all add: seg_ids_def)
  then show ?thesis using chain_bounds [OF assms(1,2)] assms(3) by (auto simp: within_ids_def)
qed

lemma files_ok_merge:
  assumes "files_ok d (pre @ mergable @ post)" "2 \<le> length mergable"
    and i: "i = IDS (seg_lowerID (hd mergable)) (seg_upperID (last mergable))"
    and ds: "seg_ids (DiskSeg ds) = i" "on_disk d' ds"
    and lines: "deleted_lines d' (scheduled d @ concat (map seg_files mergable))"
    and other: "\<forall>name. name \<noteq> ''deleted'' \<and> name \<noteq> key_name i \<and> name \<noteq> data_name i \<longrightarrow> d' name = d name"
  shows "files_ok d' (pre @ DiskSeg ds # post)"
proof -
  let ?old = "pre @ mergable @ post" and ?new = "pre @ DiskSeg ds # post"
  have ne: "mergable \<noteq> []" using assms(2) by auto
  have c: "chain ?old" "chain mergable" using assms(1) by (simp_all add: files_ok_def chain_append)
  have sch: "scheduled d' = scheduled d @ concat (map seg_files mergable)"
    by (rule deleted_lines_scheduled [OF lines])
  have free: "d (key_name i) = None" "d (data_name i) = None"
    "key_name i \<notin> set (scheduled d)" "data_name i \<notin> set (scheduled d)"
    using merge_name_free [OF assms(1,2) i] by simp_all
  have "chain ?new" using chain_merge [OF c(1) ne] ds(1) i by simp
  moreover have "finite (dom d')"
  proof -
    have "dom d' \<subseteq> dom d \<union> {''deleted'', key_name i, data_name i}" using other by force
    moreover have "finite (dom d)" using assms(1) by (simp add: files_ok_def)
    ultimately show ?thesis by (simp add: finite_subset)
  qed
  moreover have "file_backed d' s" if "s \<in> set ?new" for s
  proof (cases "s = DiskSeg ds")
    case False
    then have s: "file_backed d s" using that assms(1) by (auto simp: files_ok_def)
    show ?thesis
    proof (cases s)
      case (DiskSeg ds')
      then have "on_disk d ds'" using s by simp
      then have "seg_ids (DiskSeg ds') \<noteq> i" using free by (auto simp: on_disk_def)
      then have "on_disk d' ds'" using \<open>on_disk d ds'\<close> other by (simp add: on_disk_def)
      then show ?thesis using DiskSeg by simp
    qed (use s in simp_all)
  qed (simp add: ds(2))
  moreover have merged: "name \<in> set (scheduled d') \<and> \<not> live_file ?new name \<and> stale_file ?new name"
    if m: "DiskSeg ds' \<in> set mergable" "name \<in> {key_name (seg_ids (DiskSeg ds')), data_name (seg_ids (DiskSeg ds'))}"
    for name ds'
  proof -
    have l: "DiskSeg ds' \<in> set ?old" using m(1) by simp
    have "file_backed d (DiskSeg ds')" using assms(1) l unfolding files_ok_def by blast
    then have "set (seg_files (DiskSeg ds')) = {key_name (seg_ids (DiskSeg ds')), data_name (seg_ids (DiskSeg ds'))}"
      and backed: "d name \<noteq> None"
      using m(2) by (auto simp: on_disk_def)
    then have "name \<in> set (scheduled d')" using m unfolding sch set_append set_concat set_map by blast
    moreover have "seg_lowerID (DiskSeg ds') \<le> seg_upperID (DiskSeg ds')" using c(1) l unfolding chain_def by blast
    then have "within_ids (seg_ids (DiskSeg ds')) (DiskSeg ds')" by (auto simp: within_ids_def seg_ids_def)
    then have "within_ids (seg_ids (DiskSeg ds')) (DiskSeg ds)"
      using within_merged [OF c(2) m(1), of _ "DiskSeg ds"] ds(1) i by blast
    then have "stale_file ?new name" using m(2) unfolding stale_file_def by auto
    moreover have "\<not> live_file ?new name"
    proof
      assume "live_file ?new name"
      then obtain ds2 where d2: "DiskSeg ds2 \<in> set ?new" "name \<in> {key_name (seg_ids (DiskSeg ds2)), data_name (seg_ids (DiskSeg ds2))}"
        unfolding live_file_def by blast
      then have "seg_ids (DiskSeg ds2) = seg_ids (DiskSeg ds')" using m(2) by auto
      moreover have "seg_ids (DiskSeg ds') \<noteq> i" using free m(2) backed by auto
      ultimately have "DiskSeg ds2 \<in> set pre \<union> set post" "seg_ids (DiskSeg ds2) = seg_ids (DiskSeg ds')"
        using d2(1) ds(1) by auto
      moreover have "seg_upperID x \<noteq> seg_upperID y" if "x \<in> set pre \<union> set post" "y \<in> set mergable" for x y
      proof -
        have "seg_lowerID x \<le> seg_upperID x" "seg_lowerID y \<le> seg_upperID y"
          using c(1) that unfolding chain_def by auto
        moreover have "seg_upperID x < seg_lowerID y \<or> seg_upperID y < seg_lowerID x"
          using c(1) that unfolding chain_append by auto
        ultimately show ?thesis by (metis less_le_trans less_irrefl)
      qed
      ultimately have "seg_upperID (DiskSeg ds2) \<noteq> seg_upperID (DiskSeg ds')" using m(1) by blast
      then show False using \<open>seg_ids (DiskSeg ds2) = seg_ids (DiskSeg ds')\<close> by (simp add: seg_ids_def)
    qed
    ultimately show ?thesis by blast
  qed
  have stale: "stale_file ?new name" if st: "stale_file ?old name" for name
  proof -
    obtain i' ds' where o: "DiskSeg ds' \<in> set ?old" "within_ids i' (DiskSeg ds')" "name \<in> {key_name i', data_name i'}"
      using st unfolding stale_file_def by blast
    then show ?thesis
      using within_merged [OF c(2) _ o(2), of "DiskSeg ds"] ds(1) i unfolding stale_file_def by auto
  qed
  have live: "live_file ?old name" if "live_file ?new name" "name \<noteq> key_name i" "name \<noteq> data_name i" for name
    using that ds(1) unfolding live_file_def by auto
  have "\<not> live_file ?new name \<and> stale_file ?new name" if s: "name \<in> set (scheduled d')" for name
  proof (cases "name \<in> set (scheduled d)")
    case True
    then have "\<not> live_file ?old name" "stale_file ?old name" using assms(1) unfolding files_ok_def by blast+
    moreover have "name \<noteq> key_name i" "name \<noteq> data_name i" using True free(3,4) by auto
    ultimately show ?thesis using live stale by blast
  next
    case False
    then obtain t where t: "t \<in> set mergable" "name \<in> set (seg_files t)" using s unfolding sch by auto
    have "file_backed d t" using assms(1) t(1) unfolding files_ok_def by auto
    then obtain ds' where "t = DiskSeg ds'" "name \<in> {key_name (seg_ids (DiskSeg ds')), data_name (seg_ids (DiskSeg ds'))}"
      using t(2) by (cases t) (auto simp: on_disk_def)
    then show ?thesis using merged t(1) by blast
  qed
  moreover have "valid_name name \<and> \<not> is_tmp name \<and>
      (segment_file name \<longrightarrow> live_file ?new name \<or> name \<in> set (scheduled d'))"
    if in': "d' name \<noteq> None" for name
  proof -
    have "d' name = d name" if "name \<noteq> ''deleted''" "name \<noteq> key_name i" "name \<noteq> data_name i"
      using other that by blast
    then consider "name = ''deleted''" | "name = key_name i \<or> name = data_name i" | "d name \<noteq> None"
      using in' by fastforce
    then show ?thesis
    proof cases
      case 1
      then show ?thesis by (simp add: valid_name_def segment_file_def)
    next
      case 2
      then have "live_file ?new name" using ds(1) unfolding live_file_def by (intro exI [of _ ds]) auto
      then show ?thesis using 2 by auto
    next
      case 3
      then have old: "valid_name name" "\<not> is_tmp name" "segment_file name \<longrightarrow> live_file ?old name \<or> name \<in> set (scheduled d)"
        using assms(1) unfolding files_ok_def by blast+
      have "live_file ?new name \<or> name \<in> set (scheduled d')" if "live_file ?old name"
        using that merged [of _ name] unfolding live_file_def by auto
      then show ?thesis using old sch by auto
    qed
  qed
  ultimately show ?thesis using lines sch unfolding files_ok_def by auto
qed

section \<open>An iteration of the loop\<close>

definition sys_ok :: "system \<Rightarrow> keyvalue list list \<Rightarrow> bool" where
  "sys_ok s rs \<longleftrightarrow>
     list_all2 seg_lists (db_segments (sys_db s)) rs \<and> files_ok (sys_files s) (db_segments (sys_db s)) \<and>
     runs_fit rs \<and> CHR ''.'' \<notin> set (db_path (sys_db s)) \<and> dl_path (sys_deleter s) \<noteq> ''''"

lemma list_all2_sorted:
  "list_all2 seg_lists segs rs \<Longrightarrow> \<forall>r \<in> set rs. sorted_kvs r \<and> keys_nonempty r"
  by (induction rule: list_all2_induct) (auto dest: seg_lists_run)

lemma merge_begin_ok:
  assumes "sys_ok s rs" "2 \<le> length (db_segments (sys_db s))"
  shows "\<exists>job s1 pre post rpre gs rpost. merge_begin j kv_cmp s = Inr (job, s1) \<and> sys_db s1 = sys_db s \<and>
           dl_path (sys_deleter s1) = dl_path (sys_deleter s) \<and>
           db_segments (sys_db s) = pre @ mj_group job @ post \<and> length pre = mj_start job \<and> 2 \<le> length (mj_group job) \<and>
           rs = rpre @ gs @ rpost \<and> list_all2 seg_lists pre rpre \<and> list_all2 seg_lists (mj_group job) gs \<and>
           list_all2 seg_lists post rpost \<and>
           seg_lists (DiskSeg (mj_seg job)) (purged (rpre = []) (merge_runs gs)) \<and>
           (purged (rpre = []) (merge_runs gs) \<noteq> [] \<longrightarrow>
              seg_repr (DiskSeg (mj_seg job)) (purged (rpre = []) (merge_runs gs))) \<and>
           files_ok (sys_files s1) (pre @ DiskSeg (mj_seg job) # post) \<and>
           seg_ids (DiskSeg (mj_seg job)) = IDS (seg_lowerID (hd (mj_group job))) (seg_upperID (last (mj_group job)))"
proof -
  let ?segs = "db_segments (sys_db s)" and ?d = "sys_files s"
  obtain start mergable where plan: "merge_plan ?segs = (start, mergable)" by fastforce
  obtain post where split: "?segs = take start ?segs @ mergable @ post" "length (take start ?segs) = start"
    "2 \<le> length mergable"
    by (rule merge_plan_split [OF plan assms(2)])
  define pre where "pre = take start ?segs"
  have segs: "?segs = pre @ mergable @ post" "length pre = start" using split by (simp_all add: pre_def)
  have ne: "mergable \<noteq> []" using split(3) by auto
  have ok: "list_all2 seg_lists (pre @ mergable @ post) rs" "files_ok ?d (pre @ mergable @ post)" "runs_fit rs"
    "CHR ''.'' \<notin> set (db_path (sys_db s))" "dl_path (sys_deleter s) \<noteq> ''''"
    using assms(1) segs(1) by (simp_all add: sys_ok_def)
  obtain rpre gs rpost where rs: "rs = rpre @ gs @ rpost" "list_all2 seg_lists pre rpre"
    "list_all2 seg_lists mergable gs" "list_all2 seg_lists post rpost"
    using ok(1) by (auto simp: list_all2_append1)
  have p: "start = 0 \<longleftrightarrow> rpre = []" using rs(2) segs(2) list_all2_lengthD by fastforce
  have gs: "\<forall>r \<in> set gs. sorted_kvs r \<and> keys_nonempty r" by (rule list_all2_sorted [OF rs(3)])
  have fit: "run_ok (purged (rpre = []) (merge_runs gs))"
    using run_ok_merge [of rpre gs rpost] ok(3) gs rs(1) by simp
  define i where "i = IDS (seg_lowerID (hd mergable)) (seg_upperID (last mergable))"
  have free: "?d (key_name i) = None" "?d (data_name i) = None"
    using merge_name_free [OF ok(2) split(3) i_def] by simp_all
  have tmp: "\<forall>name. is_tmp name \<longrightarrow> ?d name = None"
    using ok(2) unfolding files_ok_def by blast
  have lines: "deleted_lines ?d (scheduled ?d)" using ok(2) by (simp add: files_ok_def)
  have nl: "\<forall>s \<in> set mergable. \<forall>f \<in> set (seg_files s). CHR 0x0A \<notin> set f"
    using files_ok_names(1) [OF ok(2)] by auto
  obtain ds dl' d' where m: "mergeSegments1 j kv_cmp (sys_deleter s) (db_path (sys_db s)) mergable (rpre = []) ?d = Inr (ds, dl', d')"
    "dl_path dl' = dl_path (sys_deleter s)" "seg_lists (DiskSeg ds) (purged (rpre = []) (merge_runs gs))"
    "purged (rpre = []) (merge_runs gs) \<noteq> [] \<longrightarrow> seg_repr (DiskSeg ds) (purged (rpre = []) (merge_runs gs))"
    "seg_ids (DiskSeg ds) = i" "on_disk d' ds" "deleted_lines d' (scheduled ?d @ concat (map seg_files mergable))"
    "\<forall>name. name \<noteq> ''deleted'' \<and> name \<noteq> key_name i \<and> name \<noteq> data_name i \<longrightarrow> d' name = ?d name"
    using mergeSegments1_ok [OF rs(3) ne fit ok(4,5) i_def free tmp lines nl, of j] by blast
  let ?job = "\<lparr>mj_start = start, mj_group = mergable, mj_seg = ds\<rparr>"
  let ?s1 = "s\<lparr>sys_deleter := dl', sys_files := d'\<rparr>"
  have b: "merge_begin j kv_cmp s = Inr (?job, ?s1)"
    using m(1) plan p by (simp add: merge_begin_def)
  have "files_ok d' (pre @ DiskSeg ds # post)"
    by (rule files_ok_merge [OF ok(2) split(3) i_def m(5-8)])
  then show ?thesis
    using b m(2-5) i_def segs split(3) rs
    by (intro exI [of _ ?job] exI [of _ ?s1] exI [of _ pre] exI [of _ post] exI [of _ rpre] exI [of _ gs] exI [of _ rpost]) simp
qed

text \<open>
  What is left for later sessions: the ids of the segments are at most \<open>b\<close>, and the pairs \<open>w\<close> still fit beside the
  runs.
\<close>

definition budget :: "u64 \<Rightarrow> keyvalue list \<Rightarrow> segment list \<Rightarrow> keyvalue list list \<Rightarrow> bool" where
  "budget b w segs rs \<longleftrightarrow> (\<forall>s \<in> set segs. seg_upperID s \<le> b) \<and> runs_fit (w # rs)"

lemma runs_fit_swap: "runs_fit (xs @ ys) \<longleftrightarrow> runs_fit (ys @ xs)"
  by (simp add: runs_fit_def Un_commute add.commute)

lemma budget_merge:
  assumes "budget b w (pre @ g @ post) (rpre @ gs @ rpost)" "\<forall>r \<in> set gs. sorted_kvs r" "g \<noteq> []"
    and "seg_ids s = IDS (seg_lowerID (hd g)) (seg_upperID (last g))"
  shows "budget b w (pre @ s # post) (rpre @ [purged p (merge_runs gs)] @ rpost)"
proof -
  have "seg_upperID s = seg_upperID (last g)" using assms(4) by (simp add: seg_ids_def)
  then have "seg_upperID s \<le> b" using assms(1,3) by (simp add: budget_def)
  moreover have "runs_fit ((w # rpre) @ [purged p (merge_runs gs)] @ rpost)"
    by (rule runs_fit_merge [OF _ assms(2)]) (use assms(1) in \<open>simp add: budget_def\<close>)
  ultimately show ?thesis using assms(1) by (auto simp: budget_def)
qed

text \<open>Runs without removed keys, all but the last with at least one pair.\<close>

definition solid :: "keyvalue list list \<Rightarrow> bool" where
  "solid rs \<longleftrightarrow> no_removed rs \<and> (\<forall>r \<in> set (butlast rs). r \<noteq> [])"

lemma newest_eq_None: "newest gs k = None \<longleftrightarrow> (\<forall>g \<in> set gs. find_kv g k = None)"
  by (induction gs) (auto split: option.splits)

lemma merge_runs_not_Nil:
  assumes "\<forall>g \<in> set gs. sorted_kvs g" "g \<in> set gs" "g \<noteq> []"
  shows "merge_runs gs \<noteq> []"
proof
  obtain kv g' where g: "g = kv # g'" using assms(3) by (cases g) auto
  assume "merge_runs gs = []"
  then have "newest gs (kv_key kv) = None" using merge_runs_spec(2) [OF assms(1), of "kv_key kv"] by simp
  then have "find_kv g (kv_key kv) = None" using assms(2) by (simp add: newest_eq_None)
  then show False using g by simp
qed

lemma purged_no_removed: "no_removed [r] \<Longrightarrow> purged p r = r"
  by (simp add: no_removed_def purged_def filter_id_conv)

lemma no_removed_simps [simp]: "no_removed []" "no_removed (xs @ ys) \<longleftrightarrow> no_removed xs \<and> no_removed ys"
  "no_removed (r # rs) \<longleftrightarrow> (\<forall>kv \<in> set r. kv_value kv \<noteq> []) \<and> no_removed rs"
  by (auto simp: no_removed_def)

lemma no_removed_merge: "\<forall>g \<in> set gs. sorted_kvs g \<Longrightarrow> no_removed gs \<Longrightarrow> no_removed [merge_runs gs]"
  using merge_runs_spec(3) [of gs] by (fastforce simp: no_removed_def)

lemma solid_merge:
  assumes "solid (rpre @ gs @ rpost)" "\<forall>g \<in> set gs. sorted_kvs g" "2 \<le> length gs"
  shows "solid (rpre @ [purged p (merge_runs gs)] @ rpost)" "purged p (merge_runs gs) \<noteq> []"
proof -
  have nr: "no_removed rpre" "no_removed gs" "no_removed rpost" using assms(1) by (simp_all add: solid_def)
  then have m: "no_removed [merge_runs gs]" by (intro no_removed_merge [OF assms(2)])
  then have pm: "purged p (merge_runs gs) = merge_runs gs" by (rule purged_no_removed)
  obtain g g' gs' where gs: "gs = g # g' # gs'" using assms(3) by (cases gs; cases "tl gs") auto
  have "g \<in> set (butlast (rpre @ gs @ rpost))" using gs by (simp add: butlast_append)
  then have "g \<noteq> []" using assms(1) unfolding solid_def by blast
  then show ne: "purged p (merge_runs gs) \<noteq> []"
    using merge_runs_not_Nil [OF assms(2), of g] gs pm by simp
  have "r \<noteq> []" if "r \<in> set (butlast (rpre @ [merge_runs gs] @ rpost))" for r
  proof (cases "r = merge_runs gs")
    case False
    then have "r \<in> set (butlast (rpre @ gs @ rpost))"
      using that gs by (auto simp: butlast_append split: if_splits)
    then show ?thesis using assms(1) unfolding solid_def by blast
  qed (use ne pm in simp)
  then show "solid (rpre @ [purged p (merge_runs gs)] @ rpost)"
    using nr m pm by (simp add: solid_def)
qed

end
