(* ===== verification/MergeLoop.thy ===== *)
theory MergeLoop
  imports Merger
begin

text \<open>
  The merging loop of \<^verbatim>\<open>Merger::mergeSegments0\<close> run to its end, and run beside the writers: a step relation
  whose steps are the operations of the database and the two halves of an iteration. The lemmas: the loop
  ends with few enough segments and shows what was shown before; beside the writers, a merge finds its
  segments unchanged and what is shown follows the writes alone.
\<close>

section \<open>The loop\<close>

lemma merge_round:
  assumes "sys_ok s rs" "2 \<le> length (db_segments (sys_db s))"
  shows "\<exists>job s1 segs rs'. merge_begin j kv_cmp s = Inr (job, s1) \<and>
           merge_commit job (sys_db s1) = Inr ((sys_db s)\<lparr>db_segments := segs\<rparr>) \<and>
           sys_ok (s1\<lparr>sys_db := (sys_db s)\<lparr>db_segments := segs\<rparr>\<rparr>) rs' \<and>
           length segs < length (db_segments (sys_db s)) \<and> (\<forall>k. shown rs' k = shown rs k) \<and>
           (solid rs \<longrightarrow> solid rs') \<and>
           (solid rs \<and> list_all2 seg_repr (db_segments (sys_db s)) rs \<longrightarrow> list_all2 seg_repr segs rs') \<and>
           (\<forall>b w. budget b w (db_segments (sys_db s)) rs \<longrightarrow> budget b w segs rs')"
proof -
  obtain job s1 pre post rpre gs rpost where b: "merge_begin j kv_cmp s = Inr (job, s1)" "sys_db s1 = sys_db s"
    "dl_path (sys_deleter s1) = dl_path (sys_deleter s)"
    "db_segments (sys_db s) = pre @ mj_group job @ post" "length pre = mj_start job" "2 \<le> length (mj_group job)"
    "rs = rpre @ gs @ rpost" "list_all2 seg_lists pre rpre" "list_all2 seg_lists (mj_group job) gs"
    "list_all2 seg_lists post rpost"
    "seg_lists (DiskSeg (mj_seg job)) (purged (rpre = []) (merge_runs gs))"
    "purged (rpre = []) (merge_runs gs) \<noteq> [] \<longrightarrow>
       seg_repr (DiskSeg (mj_seg job)) (purged (rpre = []) (merge_runs gs))"
    "files_ok (sys_files s1) (pre @ DiskSeg (mj_seg job) # post)"
    "seg_ids (DiskSeg (mj_seg job)) = IDS (seg_lowerID (hd (mj_group job))) (seg_upperID (last (mj_group job)))"
    using merge_begin_ok [OF assms, of j] by blast
  let ?m = "purged (rpre = []) (merge_runs gs)"
  let ?segs = "pre @ DiskSeg (mj_seg job) # post" and ?rs = "rpre @ [?m] @ rpost"
  have sorted: "\<forall>g \<in> set gs. sorted_kvs g" using list_all2_sorted [OF b(9)] by blast
  have len: "2 \<le> length gs" using b(6) list_all2_lengthD [OF b(9)] by simp
  have "merge_commit job (sys_db s1) = Inr ((sys_db s)\<lparr>db_segments := ?segs\<rparr>)"
    using merge_commit_ok [of "sys_db s1" pre job post] b(2,4,5) by simp
  moreover have "runs_fit ?rs"
    using runs_fit_merge [OF _ sorted, of rpre rpost] assms(1) b(7) by (simp add: sys_ok_def)
  then have "sys_ok (s1\<lparr>sys_db := (sys_db s)\<lparr>db_segments := ?segs\<rparr>\<rparr>) ?rs"
    using assms(1) b(3,8,10,11,13) unfolding sys_ok_def by (simp add: list_all2_appendI)
  moreover have "length ?segs < length (db_segments (sys_db s))" using b(4,6) by simp
  moreover have "shown ?rs k = shown rs k" for k
    unfolding b(7) by (rule shown_merge [OF sorted]) simp
  moreover have "solid ?rs" "?m \<noteq> []" if "solid rs"
    using solid_merge [OF _ sorted len, of rpre rpost] that b(7) by simp_all
  moreover have "list_all2 seg_repr ?segs ?rs" if "?m \<noteq> []" "list_all2 seg_repr (db_segments (sys_db s)) rs"
  proof -
    have "list_all2 seg_repr pre rpre" "list_all2 seg_repr post rpost"
      using that(2) b(4,7) list_all2_lengthD [OF b(8)] list_all2_lengthD [OF b(9)] by (simp_all add: list_all2_append)
    then show ?thesis using b(12) that(1) by (simp add: list_all2_appendI)
  qed
  moreover have "budget bd w ?segs ?rs" if "budget bd w (db_segments (sys_db s)) rs" for bd w
    using budget_merge [OF _ sorted _ b(14)] that b(4,6,7) by fastforce
  ultimately show ?thesis
    using b(1) by (intro exI [of _ job] exI [of _ s1] exI [of _ ?segs] exI [of _ ?rs]) simp
qed

lemma mergeSegments0_ok:
  assumes "sys_ok s rs" "1 \<le> maxSegs"
  shows "\<exists>s' rs'. mergeSegments0 j kv_cmp maxSegs s = Some (Inr s') \<and> sys_ok s' rs' \<and>
           few_segments (db_segments (sys_db s')) maxSegs \<and> (\<forall>k. shown rs' k = shown rs k) \<and>
           sys_db s' = (sys_db s)\<lparr>db_segments := db_segments (sys_db s')\<rparr> \<and> (solid rs \<longrightarrow> solid rs') \<and>
           (solid rs \<and> list_all2 seg_repr (db_segments (sys_db s)) rs \<longrightarrow> list_all2 seg_repr (db_segments (sys_db s')) rs') \<and>
           (\<forall>b w. budget b w (db_segments (sys_db s)) rs \<longrightarrow> budget b w (db_segments (sys_db s')) rs')"
  using assms(1)
proof (induction "length (db_segments (sys_db s))" arbitrary: s rs rule: less_induct)
  case less
  show ?case
  proof (cases "few_segments (db_segments (sys_db s)) maxSegs")
    case True
    then have "mergeSegments0 j kv_cmp maxSegs s = Some (Inr s)" by (simp add: mergeSegments0.simps)
    then show ?thesis using less.prems True by (intro exI [of _ s] exI [of _ rs]) simp
  next
    case False
    then have "2 \<le> length (db_segments (sys_db s))" using assms(2) by (simp add: few_segments_def)
    then obtain job s1 segs rs1 where r: "merge_begin j kv_cmp s = Inr (job, s1)"
      "merge_commit job (sys_db s1) = Inr ((sys_db s)\<lparr>db_segments := segs\<rparr>)"
      "sys_ok (s1\<lparr>sys_db := (sys_db s)\<lparr>db_segments := segs\<rparr>\<rparr>) rs1"
      "length segs < length (db_segments (sys_db s))" "\<forall>k. shown rs1 k = shown rs k" "solid rs \<longrightarrow> solid rs1"
      "solid rs \<and> list_all2 seg_repr (db_segments (sys_db s)) rs \<longrightarrow> list_all2 seg_repr segs rs1"
      "\<forall>b w. budget b w (db_segments (sys_db s)) rs \<longrightarrow> budget b w segs rs1"
      using merge_round [OF less.prems, of j] by blast
    let ?s2 = "s1\<lparr>sys_db := (sys_db s)\<lparr>db_segments := segs\<rparr>\<rparr>"
    have "mergeSegments0 j kv_cmp maxSegs s = mergeSegments0 j kv_cmp maxSegs ?s2"
      using False r(1,2) by (simp add: mergeSegments0.simps [of j kv_cmp maxSegs s])
    moreover have "length (db_segments (sys_db ?s2)) < length (db_segments (sys_db s))" using r(4) by simp
    from less.hyps [OF this r(3)]
    obtain s' rs' where "mergeSegments0 j kv_cmp maxSegs ?s2 = Some (Inr s')" "sys_ok s' rs'"
      "few_segments (db_segments (sys_db s')) maxSegs" "\<forall>k. shown rs' k = shown rs1 k"
      "sys_db s' = (sys_db ?s2)\<lparr>db_segments := db_segments (sys_db s')\<rparr>" "solid rs1 \<longrightarrow> solid rs'"
      "solid rs1 \<and> list_all2 seg_repr (db_segments (sys_db ?s2)) rs1 \<longrightarrow> list_all2 seg_repr (db_segments (sys_db s')) rs'"
      "\<forall>b w. budget b w (db_segments (sys_db ?s2)) rs1 \<longrightarrow> budget b w (db_segments (sys_db s')) rs'"
      by blast
    ultimately show ?thesis using r(5-8) by (intro exI [of _ s'] exI [of _ rs']) simp
  qed
qed

section \<open>Merging beside the writers\<close>

datatype action = Put bytes bytes | Remove bytes | Write write_batch | Snap

fun perform :: "junk \<Rightarrow> (nat \<Rightarrow> nat) \<Rightarrow> database \<Rightarrow> action \<Rightarrow> database res" where
  "perform j rnd db (Put k v) = db_put rnd db k v"
| "perform j rnd db (Remove k) = bind_res (db_remove j rnd db k) (\<lambda>(v, db'). Inr db')"
| "perform j rnd db (Write b) = db_write rnd db b"
| "perform j rnd db Snap = bind_res (db_snapshot rnd db) (\<lambda>(sn, db'). Inr db')"

text \<open>What an operation does to the map a lookup shows.\<close>

fun shown_step :: "(bytes \<Rightarrow> bytes) \<Rightarrow> action \<Rightarrow> bytes \<Rightarrow> bytes" where
  "shown_step f (Put k v) = f(k := v)"
| "shown_step f (Remove k) = f(k := [])"
| "shown_step f (Write b) = foldl (\<lambda>f kv. f(kv_key kv := kv_value kv)) f (entries b)"
| "shown_step f Snap = f"

datatype event = Client action | MergeBegin | MergeCommit

text \<open>
  The system with the merge that is under way. Each operation of a client is one step (it holds the database
  lock), and so is the commit; the first half of an iteration reads the state once. The mutex of the merger
  allows one merge at a time.
\<close>

inductive sys_step ::
  "junk \<Rightarrow> (nat \<Rightarrow> nat) \<Rightarrow> system \<times> merge_job option \<Rightarrow> event \<Rightarrow> system \<times> merge_job option \<Rightarrow> bool"
  for j :: junk and rnd :: "nat \<Rightarrow> nat" where
  client: "perform j rnd (sys_db s) a = Inr db \<Longrightarrow> sys_step j rnd (s, p) (Client a) (s\<lparr>sys_db := db\<rparr>, p)"
| merge_begin: "\<not> few_segments (db_segments (sys_db s)) (maxSegments (db_options (sys_db s))) \<Longrightarrow>
     merge_begin j kv_cmp s = Inr (job, s') \<Longrightarrow> sys_step j rnd (s, None) MergeBegin (s', Some job)"
| merge_commit: "merge_commit job (sys_db s) = Inr db \<Longrightarrow>
     sys_step j rnd (s, Some job) MergeCommit (s\<lparr>sys_db := db\<rparr>, None)"

inductive_cases sys_stepE [elim]: "sys_step j rnd sp e sp'"

inductive sys_run ::
  "junk \<Rightarrow> (nat \<Rightarrow> nat) \<Rightarrow> system \<times> merge_job option \<Rightarrow> event list \<Rightarrow> system \<times> merge_job option \<Rightarrow> bool"
  for j :: junk and rnd :: "nat \<Rightarrow> nat" where
  run_refl: "sys_run j rnd sp [] sp"
| run_step: "sys_run j rnd sp es sp1 \<Longrightarrow> sys_step j rnd sp1 e sp2 \<Longrightarrow> sys_run j rnd sp (es @ [e]) sp2"

fun client_actions :: "event list \<Rightarrow> action list" where
  "client_actions [] = []"
| "client_actions (Client a # es) = a # client_actions es"
| "client_actions (_ # es) = client_actions es"

lemma client_actions_append [simp]: "client_actions (xs @ ys) = client_actions xs @ client_actions ys"
  by (induction xs rule: client_actions.induct) simp_all

text \<open>
  The pairs the operations write. \<open>room rs es\<close>: the runs and all that the events write stay within the sizes of
  one disk segment, and no batch has an empty key, which the code checks nowhere.
\<close>

fun action_pairs :: "action \<Rightarrow> keyvalue list" where
  "action_pairs (Put k v) = [mk_kv k v]"
| "action_pairs (Remove k) = [mk_kv k []]"
| "action_pairs (Write b) = entries b"
| "action_pairs Snap = []"

definition pairs_written :: "event list \<Rightarrow> keyvalue list" where
  "pairs_written es = concat (map action_pairs (client_actions es))"

definition room :: "keyvalue list list \<Rightarrow> event list \<Rightarrow> bool" where
  "room rs es \<longleftrightarrow> runs_fit (rs @ [pairs_written es]) \<and> keys_nonempty (pairs_written es)"

lemma pairs_written_simps [simp]: "pairs_written [] = []"
  "pairs_written (es @ es') = pairs_written es @ pairs_written es'"
  "pairs_written [Client a] = action_pairs a" "pairs_written [MergeBegin] = []" "pairs_written [MergeCommit] = []"
  by (simp_all add: pairs_written_def)

lemma keys_nonempty_simps [simp]: "keys_nonempty []"
  "keys_nonempty (kv # r) \<longleftrightarrow> kv_key kv \<noteq> [] \<and> keys_nonempty r"
  "keys_nonempty (r @ r') \<longleftrightarrow> keys_nonempty r \<and> keys_nonempty r'"
  by (auto simp: keys_nonempty_def)

text \<open>Writing moves pairs from what is still to be written to the newest run.\<close>

lemma runs_fit_shrink:
  assumes "runs_fit (xs @ ys)" "\<Union> (set ` set zs) \<subseteq> \<Union> (set ` set ys)"
    and "sum_list (map (\<lambda>r. length (values_of r)) zs) \<le> sum_list (map (\<lambda>r. length (values_of r)) ys)"
    and "sum_list (map length zs) \<le> sum_list (map length ys)"
  shows "runs_fit (xs @ zs)"
proof -
  have "\<forall>r \<in> set (xs @ zs). \<forall>kv \<in> set r. length (kv_key kv) \<le> maxKeySize \<and> length (kv_value kv) < 2 ^ 31"
  proof (intro ballI)
    fix r kv assume "r \<in> set (xs @ zs)" "kv \<in> set r"
    then obtain r' where "r' \<in> set (xs @ ys)" "kv \<in> set r'" using assms(2) by auto
    then show "length (kv_key kv) \<le> maxKeySize \<and> length (kv_value kv) < 2 ^ 31"
      using assms(1) unfolding runs_fit_def by blast
  qed
  then show ?thesis using assms(1,3,4) unfolding runs_fit_def by simp
qed

lemma run_put_sizes:
  "set (run_put r kv) \<subseteq> insert kv (set r)" "length (run_put r kv) \<le> length r + 1"
  "length (values_of (run_put r kv)) \<le> length (values_of r) + length (kv_value kv)"
  unfolding run_put_def by (induction r) (auto simp: values_of_def)

lemma run_puts_sizes:
  "set (run_puts r kvs) \<subseteq> set kvs \<union> set r \<and> length (run_puts r kvs) \<le> length r + length kvs \<and>
   length (values_of (run_puts r kvs)) \<le> length (values_of r) + length (values_of kvs)"
proof (induction kvs arbitrary: r)
  case (Cons kv kvs)
  have v: "length (values_of (kv # kvs)) = length (kv_value kv) + length (values_of kvs)" by (simp add: values_of_def)
  show ?case using Cons [of "run_put r kv"] run_put_sizes [of r kv] unfolding v by auto
qed (simp add: values_of_def)

text \<open>The sizes of the runs from which the last but one and the pairs to be written are taken.\<close>

lemma runs_fit_puts:
  assumes "runs_fit (xs @ [r, kvs @ w])"
  shows "runs_fit (xs @ [run_puts r kvs, w])"
proof (rule runs_fit_shrink [OF assms])
  note s = run_puts_sizes [of r kvs]
  show "\<Union> (set ` set [run_puts r kvs, w]) \<subseteq> \<Union> (set ` set [r, kvs @ w])" using s by auto
  have "length (values_of (kvs @ w)) = length (values_of kvs) + length (values_of w)" by (simp add: values_of_def)
  then show "sum_list (map (\<lambda>r. length (values_of r)) [run_puts r kvs, w]) \<le> sum_list (map (\<lambda>r. length (values_of r)) [r, kvs @ w])"
    using s by simp
  show "sum_list (map length [run_puts r kvs, w]) \<le> sum_list (map length [r, kvs @ w])" using s by simp
qed

lemma runs_fit_Nil: "runs_fit (xs @ ys) \<longleftrightarrow> runs_fit (xs @ [] # ys)"
  by (simp add: runs_fit_def values_of_def)

lemma layers_puts_fit:
  assumes "layers_step (\<lambda>r. run_puts r kvs) rs r rs' r'" "runs_fit (rs @ [r, kvs @ w])"
  shows "runs_fit (rs' @ [r', w])"
  using assms(1) unfolding layers_step_def
proof
  assume "rs' = rs \<and> r' = run_puts r kvs"
  then show ?thesis using runs_fit_puts [OF assms(2)] by simp
next
  assume "rs' = rs @ [r] \<and> r' = run_puts [] kvs"
  then show ?thesis using runs_fit_puts [of "rs @ [r]" "[]" kvs w] assms(2) runs_fit_Nil [of "rs @ [r]" "[kvs @ w]"] by simp
qed

text \<open>An operation of a client follows the map and only adds segments.\<close>

lemma shown_run_puts:
  "sorted_kvs r \<Longrightarrow>
     shown (rs @ [run_puts r kvs]) = foldl (\<lambda>f kv. f(kv_key kv := kv_value kv)) (shown (rs @ [r])) kvs"
proof (induction kvs arbitrary: r)
  case (Cons kv kvs)
  have "shown (rs @ [run_put r kv]) = (shown (rs @ [r]))(kv_key kv := kv_value kv)"
    using find_run_put [OF Cons.prems, of kv] by (auto simp: shown_append fun_eq_iff split: option.splits)
  then show ?case using Cons run_put_sorted by simp
qed simp

lemma shown_new: "shown (rs @ [[]]) = shown rs"
  by (simp add: fun_eq_iff shown_append)

lemma shown_layers_puts:
  assumes "layers_step (\<lambda>r. run_puts r kvs) rs r rs' r'" "sorted_kvs r"
  shows "shown (rs' @ [r']) = foldl (\<lambda>f kv. f(kv_key kv := kv_value kv)) (shown (rs @ [r])) kvs"
  using assms(1) shown_run_puts [OF assms(2), of rs kvs] shown_run_puts [of "[]" "rs @ [r]" kvs] shown_new [of "rs @ [r]"]
  by (auto simp: layers_step_def)

lemma invisible_shown: "visible rs k = [] \<Longrightarrow> shown rs k = []"
proof (induction rs rule: rev_induct)
  case (snoc r rs)
  then show ?case by (auto simp: visible_snoc shown_append split: option.splits if_splits)
qed (simp add: shown_def)


text \<open>
  What an operation does: either nothing is written because a removed key is not visible, or the pairs of the
  operation are written.
\<close>

lemma perform_layers:
  assumes "db_shape seg_lists db rs r" "length (j_stack j) = maxKeySize" "keys_nonempty (action_pairs a)"
    and "perform j rnd db a = Inr db'"
  shows "\<exists>rs' r'. db_shape seg_lists db' rs' r' \<and> db_options db' = db_options db \<and>
           (\<exists>new. db_segments db' = db_segments db @ new) \<and>
           (layers_step (\<lambda>r. run_puts r (action_pairs a)) rs r rs' r' \<or>
            rs' = rs \<and> r' = r \<and> (\<exists>k. a = Remove k \<and> shown (rs @ [r]) k = []))"
proof (cases a)
  case (Put k v)
  then have k: "k \<noteq> []" "length k \<le> 1024"
    using assms(4) by (auto simp: db_put_def checkKey_def bind_res_eq_Inr split: if_splits)
  show ?thesis
    using listed.put_shape [OF assms(1) k, of rnd v] assms(4) Put by auto
next
  case (Remove k)
  then obtain v where v: "db_remove j rnd db k = Inr (v, db')" using assms(4) by (auto simp: bind_res_eq_Inr)
  note r = db_remove_lists [OF assms(1,2) v]
  show ?thesis
  proof (cases "v = []")
    case True
    then show ?thesis using r assms(1) Remove invisible_shown by (intro exI [of _ rs] exI [of _ r]) simp
  next
    case False
    then show ?thesis using r(2) Remove by auto
  qed
next
  case (Write b)
  then show ?thesis using listed.write_shape [OF assms(1), of b rnd] assms(3,4) by auto
next
  case Snap
  then obtain sn where "db_snapshot rnd db = Inr (sn, db')" using assms(4) by (auto simp: bind_res_eq_Inr)
  then show ?thesis
    using listed.snapshot_shape [OF assms(1), of rnd] Snap
    by (intro exI [of _ "rs @ [r]"] exI [of _ "[]"]) (auto simp: layers_step_def)
qed

lemma shape_sorted: "db_shape seg_lists db rs r \<Longrightarrow> sorted_kvs r"
  unfolding db_shape_def by (blast dest: seg_repr_run(1))

lemma shown_step_pairs: "shown_step f a = foldl (\<lambda>f kv. f(kv_key kv := kv_value kv)) f (action_pairs a)"
  by (cases a) simp_all

lemma layers_more: "layers_step f rs r rs' r' \<Longrightarrow> \<exists>rest. rs' = rs @ rest"
  by (auto simp: layers_step_def)

lemma perform_shown:
  assumes "db_shape seg_lists db rs r" "length (j_stack j) = maxKeySize" "keys_nonempty (action_pairs a)"
    and "perform j rnd db a = Inr db'" "runs_fit (rs @ [r, action_pairs a @ w])"
  shows "\<exists>rest r'. db_shape seg_lists db' (rs @ rest) r' \<and> shown (rs @ rest @ [r']) = shown_step (shown (rs @ [r])) a \<and>
           db_options db' = db_options db \<and> (\<exists>new. db_segments db' = db_segments db @ new) \<and>
           runs_fit (rs @ rest @ [r', w])"
proof -
  obtain rs' r' where p: "db_shape seg_lists db' rs' r'" "db_options db' = db_options db"
    "\<exists>new. db_segments db' = db_segments db @ new"
    "layers_step (\<lambda>r. run_puts r (action_pairs a)) rs r rs' r' \<or>
     rs' = rs \<and> r' = r \<and> (\<exists>k. a = Remove k \<and> shown (rs @ [r]) k = [])"
    using perform_layers [OF assms(1-4)] by blast
  from p(4) show ?thesis
  proof
    assume l: "layers_step (\<lambda>r. run_puts r (action_pairs a)) rs r rs' r'"
    obtain rest where "rs' = rs @ rest" using layers_more [OF l] by blast
    then show ?thesis
      using p(1-3) shown_layers_puts [OF l shape_sorted [OF assms(1)]] layers_puts_fit [OF l assms(5)]
      by (intro exI [of _ rest] exI [of _ r']) (simp add: shown_step_pairs)
  next
    assume same: "rs' = rs \<and> r' = r \<and> (\<exists>k. a = Remove k \<and> shown (rs @ [r]) k = [])"
    then obtain k where k: "a = Remove k" "shown (rs @ [r]) k = []" by blast
    then have "shown_step (shown (rs @ [r])) a = shown (rs @ [r])" by (auto simp: fun_upd_idem)
    moreover have "runs_fit ((rs @ [r]) @ [w])"
      by (rule runs_fit_shrink [of "rs @ [r]" "[action_pairs a @ w]"]) (use assms(5) in \<open>auto simp: values_of_def\<close>)
    ultimately show ?thesis
      using p(1-3) same by (intro exI [of _ "[]"] exI [of _ r]) simp
  qed
qed

section \<open>The invariant of the system\<close>

text \<open>
  The segments of a merge under way are where they were when it began, and the segment it has written holds
  their merge.
\<close>

definition job_ok :: "segment list \<Rightarrow> keyvalue list list \<Rightarrow> merge_job \<Rightarrow> bool" where
  "job_ok segs rs job \<longleftrightarrow>
     (\<exists>pre post rpre gs rpost. segs = pre @ mj_group job @ post \<and> length pre = mj_start job \<and>
        2 \<le> length (mj_group job) \<and> rs = rpre @ gs @ rpost \<and> list_all2 seg_lists pre rpre \<and> list_all2 seg_lists (mj_group job) gs \<and>
        list_all2 seg_lists post rpost \<and>
        seg_lists (DiskSeg (mj_seg job)) (purged (rpre = []) (merge_runs gs)))"

text \<open>\<open>f\<close> is what a lookup shows, \<open>w\<close> are the pairs that are still to be written.\<close>

definition sys_inv :: "(bytes \<Rightarrow> bytes) \<Rightarrow> keyvalue list \<Rightarrow> system \<times> merge_job option \<Rightarrow> bool" where
  "sys_inv f w sp \<longleftrightarrow>
     (\<exists>rs r. db_shape seg_lists (sys_db (fst sp)) rs r \<and> shown (rs @ [r]) = f \<and>
        runs_fit (rs @ [r, w]) \<and> keys_nonempty w \<and> 1 \<le> maxSegments (db_options (sys_db (fst sp))) \<and>
        (case snd sp of None \<Rightarrow> True | Some job \<Rightarrow> job_ok (db_segments (sys_db (fst sp))) rs job))"

lemma job_ok_append:
  assumes "job_ok segs rs job" "list_all2 seg_lists new rest"
  shows "job_ok (segs @ new) (rs @ rest) job"
proof -
  obtain pre post rpre gs rpost where j: "segs = pre @ mj_group job @ post" "length pre = mj_start job" "2 \<le> length (mj_group job)"
    "rs = rpre @ gs @ rpost" "list_all2 seg_lists pre rpre" "list_all2 seg_lists (mj_group job) gs"
    "list_all2 seg_lists post rpost" "seg_lists (DiskSeg (mj_seg job)) (purged (rpre = []) (merge_runs gs))"
    using assms(1) unfolding job_ok_def by blast
  then show ?thesis
    using assms(2) unfolding job_ok_def
    by (intro exI [of _ pre] exI [of _ "post @ new"] exI [of _ rpre] exI [of _ gs] exI [of _ "rpost @ rest"])
       (simp add: list_all2_appendI)
qed

lemma job_commit:
  assumes "job_ok (db_segments db) rs job" "db_shape seg_lists db rs r" "runs_fit (rs @ [r, w])"
  shows "\<exists>db' rs'. merge_commit job db = Inr db' \<and> db_shape seg_lists db' rs' r \<and> shown (rs' @ [r]) = shown (rs @ [r]) \<and>
           db_options db' = db_options db \<and> runs_fit (rs' @ [r, w])"
proof -
  obtain pre post rpre gs rpost where j: "db_segments db = pre @ mj_group job @ post" "length pre = mj_start job"
    "rs = rpre @ gs @ rpost" "list_all2 seg_lists pre rpre" "list_all2 seg_lists (mj_group job) gs"
    "list_all2 seg_lists post rpost" "seg_lists (DiskSeg (mj_seg job)) (purged (rpre = []) (merge_runs gs))"
    using assms(1) unfolding job_ok_def by blast
  let ?m = "purged (rpre = []) (merge_runs gs)"
  let ?db = "db\<lparr>db_segments := pre @ DiskSeg (mj_seg job) # post\<rparr>"
  have "list_all2 seg_lists (pre @ DiskSeg (mj_seg job) # post) (rpre @ ?m # rpost)"
    using j(4,6,7) by (intro list_all2_appendI) simp_all
  then have "db_shape seg_lists ?db (rpre @ ?m # rpost) r" using assms(2) by (simp add: db_shape_def)
  moreover have gs: "\<forall>g \<in> set gs. sorted_kvs g"
    using list_all2_sorted [OF j(5)] by blast
  then have "shown ((rpre @ ?m # rpost) @ [r]) k = shown (rs @ [r]) k" for k
    using shown_merge [of gs "rpre = []" rpre "rpost @ [r]" k] j(3) by simp
  then have "shown ((rpre @ ?m # rpost) @ [r]) = shown (rs @ [r])" by (rule ext)
  moreover have "runs_fit ((rpre @ ?m # rpost) @ [r, w])"
    using runs_fit_merge [of rpre gs "rpost @ [r, w]" "rpre = []"] gs assms(3) j(3) by simp
  ultimately show ?thesis
    using merge_commit_ok [OF j(1,2)] by (intro exI [of _ ?db] exI [of _ "rpre @ ?m # rpost"]) simp
qed

text \<open>What a merge that succeeds has written.\<close>

lemma writeAndLoad_success:
  assumes "multi_yields seg_yields its out" "run_ok (purged p out)"
    and "writeAndLoadSegment (multi_next seg_peekKey seg_next) dbpath (key_name i) (data_name i) its p d = Inr (ds, d')"
  shows "seg_lists (DiskSeg ds) (purged p out)"
proof -
  let ?r = "purged p out"
  have w: "writeSegmentFiles (multi_next seg_peekKey seg_next) p its = Some (Inr (written ?r))"
    by (rule seg_it.multi.writeSegmentFiles_yields [OF assms(1)])
  obtain lo hi names where n: "newDiskSegment names lo hi (key_bytes (written ?r)) (data_bytes (written ?r)) (index_keys (written ?r)) = Inr ds"
    using assms(3) w
    by (auto simp: writeAndLoadSegment_def Let_def fs_rename_def fs_read_def load_disk_segment_def bind_res_eq_Inr
        split: if_splits)
  moreover obtain ds' where "newDiskSegment names lo hi (key_bytes (written ?r)) (data_bytes (written ?r)) (index_keys (written ?r)) = Inr ds'"
    "seg_lists (DiskSeg ds') ?r"
    by (rule newDiskSegment_written [OF assms(2), of names lo hi])
  ultimately show ?thesis by simp
qed

lemma runs_fit_prefix: "runs_fit (xs @ ys) \<Longrightarrow> runs_fit xs"
  using runs_fit_shrink [of xs ys "[]"] by simp

lemma merge_begin_job:
  assumes "list_all2 seg_lists (db_segments (sys_db s)) rs" "runs_fit rs" "2 \<le> length (db_segments (sys_db s))"
    and "merge_begin j kv_cmp s = Inr (job, s')"
  shows "job_ok (db_segments (sys_db s)) rs job" "sys_db s' = sys_db s"
proof -
  let ?segs = "db_segments (sys_db s)"
  obtain start mergable where plan: "merge_plan ?segs = (start, mergable)" by fastforce
  obtain post where split: "?segs = take start ?segs @ mergable @ post" "length (take start ?segs) = start"
    "2 \<le> length mergable"
    by (rule merge_plan_split [OF plan assms(3)])
  define pre where "pre = take start ?segs"
  have segs: "?segs = pre @ mergable @ post" "length pre = start" using split by (simp_all add: pre_def)
  obtain rpre gs rpost where rs: "rs = rpre @ gs @ rpost" "list_all2 seg_lists pre rpre"
    "list_all2 seg_lists mergable gs" "list_all2 seg_lists post rpost"
    using assms(1) unfolding segs(1) by (auto simp: list_all2_append1)
  have p: "start = 0 \<longleftrightarrow> rpre = []" using rs(2) segs(2) list_all2_lengthD by fastforce
  obtain its where its: "multi_lookup (seg_lookup j kv_cmp) mergable [] [] = Inr its"
    "multi_yields seg_yields its (merge_runs gs)"
    using multi_drain [OF rs(3), of "[]" "[]" j] by (auto simp: range_ok_def mem_range_def within_def)
  have fit: "run_ok (purged (rpre = []) (merge_runs gs))"
    using run_ok_merge [of rpre gs rpost] assms(2) rs(1) list_all2_sorted [OF rs(3)] by simp
  obtain dl d where m: "mergeSegments1 j kv_cmp (sys_deleter s) (db_path (sys_db s)) mergable (start = 0) (sys_files s) =
      Inr (mj_seg job, dl, d)" "mj_start job = start" "mj_group job = mergable" "sys_db s' = sys_db s"
    using assms(4) plan by (auto simp: merge_begin_def bind_res_eq_Inr)
  then obtain i d1 where "writeAndLoadSegment (multi_next seg_peekKey seg_next) (db_path (sys_db s)) (key_name i) (data_name i)
      its (rpre = []) (sys_files s) = Inr (mj_seg job, d1)"
    using its(1) p by (auto simp: mergeSegments1_def Let_def bind_res_eq_Inr split: if_splits prod.splits)
  then have "seg_lists (DiskSeg (mj_seg job)) (purged (rpre = []) (merge_runs gs))"
    by (rule writeAndLoad_success [OF its(2) fit])
  then show "job_ok ?segs rs job"
    unfolding job_ok_def using segs rs m(2,3) split(3)
    by (intro exI [of _ pre] exI [of _ post] exI [of _ rpre] exI [of _ gs] exI [of _ rpost]) simp
  show "sys_db s' = sys_db s" by (rule m(4))
qed

lemma sys_step_inv:
  assumes "sys_step j rnd sp e sp'" "sys_inv f (pairs_written [e] @ w) sp" "length (j_stack j) = maxKeySize"
  shows "sys_inv (foldl shown_step f (client_actions [e])) w sp'"
proof -
  obtain rs r where i: "db_shape seg_lists (sys_db (fst sp)) rs r" "shown (rs @ [r]) = f"
    "runs_fit (rs @ [r, pairs_written [e] @ w])" "keys_nonempty (pairs_written [e] @ w)"
    "1 \<le> maxSegments (db_options (sys_db (fst sp)))"
    "case snd sp of None \<Rightarrow> True | Some job \<Rightarrow> job_ok (db_segments (sys_db (fst sp))) rs job"
    using assms(2) unfolding sys_inv_def by blast
  show ?thesis
    using assms(1)
  proof cases
    case (client s a db p)
    obtain rest r' new where a: "db_shape seg_lists db (rs @ rest) r'" "shown (rs @ rest @ [r']) = shown_step f a"
      "db_options db = db_options (sys_db s)" "db_segments db = db_segments (sys_db s) @ new" "runs_fit (rs @ rest @ [r', w])"
      using perform_shown [OF _ assms(3) _ client(4), of rs r w] i(1-4) client(1,2) by auto
    have "list_all2 seg_lists new rest"
      using a(1,4) i(1) client(1) by (auto simp: db_shape_def list_all2_append dest: list_all2_lengthD)
    then show ?thesis
      using a i job_ok_append [of "db_segments (sys_db s)" rs _ new rest] client(1-3)
      unfolding sys_inv_def by (intro exI [of _ "rs @ rest"] exI [of _ r']) (auto split: option.splits)
  next
    case (merge_begin s job s')
    have "2 \<le> length (db_segments (sys_db s))" using merge_begin(1,4) i(5) by (simp add: few_segments_def)
    moreover have "list_all2 seg_lists (db_segments (sys_db s)) rs" using i(1) merge_begin(1) by (simp add: db_shape_def)
    moreover have "runs_fit rs" using i(3) by (rule runs_fit_prefix)
    ultimately have "job_ok (db_segments (sys_db s)) rs job" "sys_db s' = sys_db s"
      using merge_begin_job merge_begin(5) by blast+
    then show ?thesis using i merge_begin(1-3) by (auto simp: sys_inv_def)
  next
    case (merge_commit job s db)
    obtain db' rs' where "merge_commit job (sys_db s) = Inr db'" "db_shape seg_lists db' rs' r"
      "shown (rs' @ [r]) = shown (rs @ [r])" "db_options db' = db_options (sys_db s)" "runs_fit (rs' @ [r, w])"
      using job_commit [of "sys_db s" rs job r w] i(1,3,6) merge_commit(1,2) by auto
    then show ?thesis
      using i(2,4,5) merge_commit unfolding sys_inv_def by (intro exI [of _ rs'] exI [of _ r]) simp
  qed
qed

lemma sys_run_inv:
  assumes "sys_run j rnd sp es sp'" "sys_inv f (pairs_written es @ w) sp" "length (j_stack j) = maxKeySize"
  shows "sys_inv (foldl shown_step f (client_actions es)) w sp'"
  using assms
proof (induction arbitrary: w rule: sys_run.induct)
  case (run_step sp es sp1 e sp2)
  have "sys_inv (foldl shown_step f (client_actions es)) (pairs_written [e] @ w) sp1"
    using run_step.IH [of "pairs_written [e] @ w"] run_step.prems by simp
  from sys_step_inv [OF run_step.hyps(2) this run_step.prems(2)] show ?case by simp
qed simp

lemma sys_inv_start:
  assumes "db_shape seg_lists (sys_db s) rs r" "1 \<le> maxSegments (db_options (sys_db s))" "room (rs @ [r]) es"
  shows "sys_inv (shown (rs @ [r])) (pairs_written es) (s, None)"
  using assms unfolding sys_inv_def room_def by auto

section \<open>The segments chosen\<close>

lemma smallest_loop_min:
  "\<forall>i < itr. seg_size (segs ! smallest) \<le> seg_size (segs ! i) \<Longrightarrow>
     \<forall>i < max itr (length segs - 1). seg_size (segs ! smallest_loop segs itr smallest) \<le> seg_size (segs ! i)"
proof (induction segs itr smallest rule: smallest_loop.induct)
  case (1 segs itr smallest)
  show ?case
  proof (cases "itr < length segs - 1")
    case True
    let ?next = "if seg_size (segs ! itr) < seg_size (segs ! smallest) then itr else smallest"
    have "\<forall>i < itr + 1. seg_size (segs ! ?next) \<le> seg_size (segs ! i)"
    proof (intro allI impI)
      fix i
      assume "i < itr + 1"
      then consider "i < itr" | "i = itr" by linarith
      then show "seg_size (segs ! ?next) \<le> seg_size (segs ! i)"
        using 1(2) by cases (auto intro: order_trans [OF less_imp_le])
    qed
    from 1(1) [OF True this] show ?thesis using True by (subst smallest_loop.simps) (simp add: max_def)
  next
    case False
    then show ?thesis using 1(2) by (subst smallest_loop.simps) (simp add: max_def)
  qed
qed

section \<open>Properties\<close>

text \<open>A memory segment with one pair, and a database over two of them, for the witnesses.\<close>

definition sample_memory :: "u64 \<Rightarrow> bytes \<Rightarrow> bytes \<Rightarrow> memory_segment" where
  "sample_memory i k v = snd (projr (ms_put (newMemorySegment kv_cmp (\<lambda>i. 0) ''db'' i (mk_options True)) k v))"

lemma ms_put_id: "ms_put m k v = Inr (x, m') \<Longrightarrow> ms_id m' = ms_id m"
  by (auto simp: ms_put_def Let_def bind_res_eq_Inr maybeCreateLogFile_def split: if_splits)

lemma sample_memory_repr:
  assumes "k \<noteq> []"
  shows "seg_repr (MemSeg (sample_memory i k v)) [mk_kv k v]" "ms_id (sample_memory i k v) = i"
proof -
  let ?m = "newMemorySegment kv_cmp (\<lambda>i. 0) ''db'' i (mk_options True)"
  have "ms_logged ?m []" by (simp add: ms_logged_def newMemorySegment_def)
  then obtain m' where m: "ms_put ?m k v = Inr (value_in [] k, m')" "ms_repr m' (run_put [] (mk_kv k v))"
    using ms_put_repr [OF newMemorySegment_repr _ assms] by blast
  then have "sample_memory i k v = m'" by (simp add: sample_memory_def)
  then show "seg_repr (MemSeg (sample_memory i k v)) [mk_kv k v]"
    using m(2) assms by (simp add: run_put_def keys_nonempty_def)
  show "ms_id (sample_memory i k v) = i"
    using ms_put_id [OF m(1)] \<open>sample_memory i k v = m'\<close> by (simp add: newMemorySegment_def)
qed

definition sample_segments :: "segment list" where
  "sample_segments = [MemSeg (sample_memory 1 [1] [2]), MemSeg (sample_memory 2 [1] [3])]"

definition sample_system :: system where
  "sample_system =
     \<lparr>sys_db = (open_state (\<lambda>i. 0) None ''db'' (mk_options True) sample_segments)\<lparr>db_options := (mk_options True)\<lparr>maxSegments := 1\<rparr>\<rparr>,
      sys_deleter = \<lparr>dl_path = ''db'', dl_open = False\<rparr>, sys_files = Map.empty\<rparr>"

lemma sample_segments_repr: "list_all2 seg_repr sample_segments [[mk_kv [1] [2]], [mk_kv [1] [3]]]"
  using sample_memory_repr(1) by (simp add: sample_segments_def)

lemma sample_system_ok: "sys_ok sample_system [[mk_kv [1] [2]], [mk_kv [1] [3]]]"
proof -
  have "list_all2 seg_lists sample_segments [[mk_kv [1] [2]], [mk_kv [1] [3]]]"
    using sample_segments_repr by (rule all_repr_lists)
  moreover have "files_ok Map.empty sample_segments"
    by (simp add: files_ok_def chain_def sample_segments_def sample_memory_repr deleted_lines_def scheduled_def)
  ultimately show ?thesis
    by (simp add: sys_ok_def sample_system_def runs_fit_def values_of_def maxKeySize_def)
qed

lemma sample_system_repr: "db_repr (sys_db sample_system) [[mk_kv [1] [2]], [mk_kv [1] [3]]] []"
  using open_state_repr [OF _ sample_segments_repr, of "mk_options True" "\<lambda>i. 0" None "''db''"]
  by (simp add: sample_system_def db_shape_def mk_options_def)

text \<open>C15. The merging loop ends for every limit of at least one segment: it leaves no more segments than the
  limit, and they show under every key what the segments showed before; \<^verbatim>\<open>get\<close> is kept too where nothing was
  removed.\<close>

theorem merge_loop_ends:
  assumes "sys_ok s rs" and "1 \<le> maxSegs"
  shows "\<exists>s' rs'. mergeSegments0 j kv_cmp maxSegs s = Some (Inr s') \<and>
           int (length (db_segments (sys_db s'))) \<le> maxSegs \<and> list_all2 seg_lists (db_segments (sys_db s')) rs' \<and>
           shown rs' = shown rs \<and> (solid rs \<longrightarrow> visible rs' = visible rs)"
proof -
  obtain s' rs' where m: "mergeSegments0 j kv_cmp maxSegs s = Some (Inr s')" "sys_ok s' rs'"
    "few_segments (db_segments (sys_db s')) maxSegs" "\<forall>k. shown rs' k = shown rs k" "solid rs \<longrightarrow> solid rs'"
    using mergeSegments0_ok [OF assms, of j] by blast
  moreover have "solid rs \<Longrightarrow> visible rs' = visible rs"
    using m(4,5) visible_shown by (simp add: solid_def fun_eq_iff)
  ultimately show ?thesis using assms(2)
    by (intro exI [of _ s'] exI [of _ rs']) (auto simp: few_segments_def sys_ok_def fun_eq_iff)
qed

theorem merge_loop_ends_witness:
  "\<exists>s' rs'. mergeSegments0 \<lparr>j_stack = [], j_buffer = []\<rparr> kv_cmp 1 sample_system = Some (Inr s') \<and>
     int (length (db_segments (sys_db s'))) \<le> 1 \<and> list_all2 seg_lists (db_segments (sys_db s')) rs' \<and>
     shown rs' = shown [[mk_kv [1] [2]], [mk_kv [1] [3]]] \<and>
     (solid [[mk_kv [1] [2]], [mk_kv [1] [3]]] \<longrightarrow> visible rs' = visible [[mk_kv [1] [2]], [mk_kv [1] [3]]])"
  by (rule merge_loop_ends [OF sample_system_ok]) simp

text \<open>C9. Merging beside the writers: in every interleaving of puts, removes, batches, snapshots and merges, a
  merge that was begun can be committed (it finds its segments unchanged), and what a lookup of the database
  returns under each key follows the client operations alone. The bound is on what is written altogether.\<close>

theorem merge_beside_writers:
  assumes "db_shape seg_lists (sys_db s) rs r" and "1 \<le> maxSegments (db_options (sys_db s))"
    and "length (j_stack j) = maxKeySize" and "room (rs @ [r]) es" and "sys_run j rnd (s, None) es (s', p)"
  shows "(\<forall>job. p = Some job \<longrightarrow> (\<exists>db. merge_commit job (sys_db s') = Inr db)) \<and>
         (\<exists>its db out. db_lookup j rnd (sys_db s') [] [] = Inr (its, db) \<and>
            drain (multi_next seg_peekKey seg_next) its = Some (Inr out) \<and>
            (\<forall>k. value_in out k = foldl shown_step (shown (rs @ [r])) (client_actions es) k))"
proof -
  have "sys_inv (foldl shown_step (shown (rs @ [r])) (client_actions es)) [] (s', p)"
    using sys_run_inv [OF assms(5) _ assms(3), of "shown (rs @ [r])" "[]"] sys_inv_start [OF assms(1,2,4)] by simp
  then obtain rs' r' where i: "db_shape seg_lists (sys_db s') rs' r'"
    "shown (rs' @ [r']) = foldl shown_step (shown (rs @ [r])) (client_actions es)" "runs_fit (rs' @ [r', []])"
    "case p of None \<Rightarrow> True | Some job \<Rightarrow> job_ok (db_segments (sys_db s')) rs' job"
    unfolding sys_inv_def fst_conv snd_conv by blast
  obtain its db where l: "db_lookup j rnd (sys_db s') [] [] = Inr (its, db)"
    "multi_yields seg_yields its (filter (mem_range [] []) (merge_runs (rs' @ [r'])))"
    using listed.lookup_shape [OF i(1), of "[]" "[]" j rnd] by (auto simp: range_ok_def)
  have "list_all2 seg_lists (db_segments (sys_db s')) rs'" using i(1) by (simp add: db_shape_def)
  then have sorted: "\<forall>l \<in> set (rs' @ [r']). sorted_kvs l"
    using list_all2_sorted shape_sorted [OF i(1)] by auto
  have "drain (multi_next seg_peekKey seg_next) its = Some (Inr (merge_runs (rs' @ [r'])))"
    using seg_it.multi.drain_yields [OF l(2)] by (simp add: mem_range_def within_def)
  moreover have "\<forall>k. value_in (merge_runs (rs' @ [r'])) k = foldl shown_step (shown (rs @ [r])) (client_actions es) k"
    using merge_runs_spec(2) [OF sorted] unfolding i(2) [symmetric] by (simp add: shown_def)
  moreover have "\<exists>db. merge_commit job (sys_db s') = Inr db" if "p = Some job" for job
  proof -
    have "job_ok (db_segments (sys_db s')) rs' job" using i(4) that by simp
    then show ?thesis using job_commit [OF _ i(1,3)] by blast
  qed
  ultimately show ?thesis using l(1) by blast
qed

lemma sample_run:
  "\<exists>s' job. sys_run j (\<lambda>i. 0) (sample_system, None) [MergeBegin, Client (Put [5] [6])] (s', Some job)"
proof -
  have len: "2 \<le> length (db_segments (sys_db sample_system))"
    by (simp add: sample_system_def sample_segments_def)
  obtain job s1 where b: "merge_begin j kv_cmp sample_system = Inr (job, s1)" "sys_db s1 = sys_db sample_system"
    using merge_begin_ok [OF sample_system_ok len, of j] by blast
  have "\<not> few_segments (db_segments (sys_db sample_system)) (maxSegments (db_options (sys_db sample_system)))"
    by (simp add: few_segments_def sample_system_def sample_segments_def)
  then have "sys_step j (\<lambda>i. 0) (sample_system, None) MergeBegin (s1, Some job)"
    using b(1) by (intro sys_step.merge_begin)
  moreover obtain db where "db_put (\<lambda>i. 0) (sys_db s1) [5] [6] = Inr db"
    using db_put_repr [OF sample_system_repr, of "[5]" "\<lambda>i. 0" "[6]"] b(2) by auto
  then have "sys_step j (\<lambda>i. 0) (s1, Some job) (Client (Put [5] [6])) (s1\<lparr>sys_db := db\<rparr>, Some job)"
    by (intro sys_step.client) simp_all
  ultimately have "sys_run j (\<lambda>i. 0) (sample_system, None) (([] @ [MergeBegin]) @ [Client (Put [5] [6])])
      (s1\<lparr>sys_db := db\<rparr>, Some job)"
    by (intro sys_run.run_step [OF sys_run.run_step [OF sys_run.run_refl]])
  then show ?thesis by auto
qed

lemma repr_shape: "db_repr db rs r \<Longrightarrow> db_shape seg_lists db rs r"
  using all_repr_lists by (simp add: db_shape_def)

theorem merge_beside_writers_witness:
  "\<exists>(s' :: system) job. (\<exists>db. merge_commit job (sys_db s') = Inr db) \<and>
     (\<exists>its db out. db_lookup \<lparr>j_stack = replicate maxKeySize 0, j_buffer = []\<rparr> (\<lambda>i. 0) (sys_db s') [] [] = Inr (its, db) \<and>
        drain (multi_next seg_peekKey seg_next) its = Some (Inr out) \<and>
        value_in out [5] = [6] \<and> value_in out [1] = [3])"
proof -
  let ?j = "\<lparr>j_stack = replicate maxKeySize 0, j_buffer = []\<rparr>"
  have j: "length (j_stack ?j) = maxKeySize" by simp
  have m: "1 \<le> maxSegments (db_options (sys_db sample_system))" by (simp add: sample_system_def)
  obtain s' job where r: "sys_run ?j (\<lambda>i. 0) (sample_system, None) [MergeBegin, Client (Put [5] [6])] (s', Some job)"
    using sample_run by blast
  have fit: "room ([[mk_kv [1] [2]], [mk_kv [1] [3]]] @ [[]]) [MergeBegin, Client (Put [5] [6])]"
    by (simp add: room_def runs_fit_def values_of_def pairs_written_def maxKeySize_def)
  note w = merge_beside_writers [OF repr_shape [OF sample_system_repr] m j fit r]
  obtain its db out where l: "db_lookup ?j (\<lambda>i. 0) (sys_db s') [] [] = Inr (its, db)"
    "drain (multi_next seg_peekKey seg_next) its = Some (Inr out)"
    "\<forall>k. value_in out k = foldl shown_step (shown ([[mk_kv [1] [2]], [mk_kv [1] [3]]] @ [[]]))
       (client_actions [MergeBegin, Client (Put [5] [6])]) k"
    using w by blast
  have c: "\<exists>db. merge_commit job (sys_db s') = Inr db" using w by blast
  have v: "value_in out [5] = [6]" "value_in out [1] = [3]" using l(3) by (simp_all add: shown_def)
  have "\<exists>its db out. db_lookup ?j (\<lambda>i. 0) (sys_db s') [] [] = Inr (its, db) \<and>
      drain (multi_next seg_peekKey seg_next) its = Some (Inr out) \<and> value_in out [5] = [6] \<and> value_in out [1] = [3]"
    using l(1,2) v by (intro exI conjI)
  then show ?thesis using c by (intro exI [of _ s'] exI [of _ job] conjI)
qed

text \<open>What is merged: at least two neighbouring segments, at most half of them or four, and the first is the
  smallest of all segments but the last.\<close>

theorem merge_plan_smallest:
  assumes "2 \<le> length segs"
  shows "\<exists>start mergable. merge_plan segs = (start, mergable) \<and> 2 \<le> length mergable \<and>
           length mergable \<le> max (length segs div 2) 4 \<and> mergable = take (length mergable) (drop start segs) \<and>
           (\<forall>i < length segs - 1. seg_size (segs ! start) \<le> seg_size (segs ! i))"
proof -
  obtain start mergable where plan: "merge_plan segs = (start, mergable)" by fastforce
  have start: "start = smallest_loop segs 0 0" using plan by (simp add: merge_plan_def Let_def)
  obtain post where p: "segs = take start segs @ mergable @ post" "length (take start segs) = start" "2 \<le> length mergable"
    by (rule merge_plan_split [OF plan assms])
  have "mergable = take (length mergable) (drop start segs)"
    using arg_cong [OF p(1), of "drop start"] p(2) by simp
  moreover have "length mergable \<le> max (length segs div 2) 4"
    using plan by (auto simp: merge_plan_def Let_def)
  moreover have "\<forall>i < length segs - 1. seg_size (segs ! start) \<le> seg_size (segs ! i)"
    using smallest_loop_min [of 0 segs 0] unfolding start by simp
  ultimately show ?thesis using plan p(3) by blast
qed

theorem merge_plan_smallest_witness:
  "\<exists>start mergable. merge_plan sample_segments = (start, mergable) \<and> 2 \<le> length mergable \<and>
     length mergable \<le> max (length sample_segments div 2) 4 \<and> mergable = take (length mergable) (drop start sample_segments) \<and>
     (\<forall>i < length sample_segments - 1. seg_size (sample_segments ! start) \<le> seg_size (sample_segments ! i))"
  by (rule merge_plan_smallest) (simp add: sample_segments_def)

end
