(* ===== verification/LockFile.thy ===== *)
theory LockFile
  imports Prelude
begin

text \<open>
  \<^verbatim>\<open>include/lockfile.h\<close>: a lock between processes, over \<^verbatim>\<open>flock\<close>. The state of the system is its table of
  open file descriptions; a step relation takes the operations of any number of lock objects in any order.
  The theorems: two lock objects never hold a lock on one path, unless one was copied from the other, and
  then the first one destroyed releases it.
\<close>

section \<open>Open files and locks\<close>

text \<open>An open file: its descriptor, the path, and whether it holds the exclusive lock.\<close>

record open_file =
  of_fd :: int
  of_path :: string
  of_held :: bool

type_synonym os = "open_file list"

text \<open>The lowest descriptor that is not in use.\<close>

definition free_fd :: "os \<Rightarrow> int" where
  "free_fd os = hd (filter (\<lambda>n. n \<notin> of_fd ` set os) (map int [0..<Suc (length os)]))"

definition os_open :: "string \<Rightarrow> os \<Rightarrow> int \<times> os" where
  "os_open path os = (free_fd os, \<lparr>of_fd = free_fd os, of_path = path, of_held = False\<rparr> # os)"

definition os_close :: "int \<Rightarrow> os \<Rightarrow> os" where
  "os_close fd os = filter (\<lambda>f. of_fd f \<noteq> fd) os"

text \<open>\<^verbatim>\<open>flock(fd, LOCK_EX | LOCK_NB)\<close>: it succeeds unless another open file holds the lock on the path.\<close>

definition os_flock :: "int \<Rightarrow> os \<Rightarrow> bool \<times> os" where
  "os_flock fd os =
     (case find (\<lambda>f. of_fd f = fd) os of
        None \<Rightarrow> (False, os)
      | Some f \<Rightarrow>
          if \<exists>g \<in> set os. of_path g = of_path f \<and> of_held g \<and> of_fd g \<noteq> fd then (False, os)
          else (True, map (\<lambda>g. if of_fd g = fd then g\<lparr>of_held := True\<rparr> else g) os))"

section \<open>The lock object\<close>

record lock_file =
  lk_path :: string
  lk_fd :: int
  lk_locked :: bool

definition newLockFile :: "string \<Rightarrow> lock_file" where
  "newLockFile path = \<lparr>lk_path = path, lk_fd = - 1, lk_locked = False\<rparr>"

definition tryLock :: "lock_file \<Rightarrow> os \<Rightarrow> bool \<times> lock_file \<times> os" where
  "tryLock l os =
     (if lk_locked l then (True, l, os)
      else case os_open (lk_path l) os of (fd, os1) \<Rightarrow>
        if fd \<le> 0 then (False, l\<lparr>lk_fd := fd\<rparr>, os1)
        else case os_flock fd os1 of (ok, os2) \<Rightarrow>
          (ok, l\<lparr>lk_fd := fd, lk_locked := ok\<rparr>, if ok then os2 else os_close fd os2))"

definition unlock :: "lock_file \<Rightarrow> os \<Rightarrow> lock_file \<times> os" where
  "unlock l os = (if lk_locked l then (l\<lparr>lk_locked := False\<rparr>, os_close (lk_fd l) os) else (l, os))"

text \<open>The destructor; what is left of the object is gone.\<close>

definition destroy :: "lock_file \<Rightarrow> os \<Rightarrow> os" where
  "destroy l os = (if lk_locked l then snd (unlock l os) else os)"

section \<open>The table of open files\<close>

lemma free_fd: "free_fd os \<notin> of_fd ` set os" "0 \<le> free_fd os"
proof -
  let ?ns = "map int [0..<Suc (length os)]"
  have "\<not> set ?ns \<subseteq> of_fd ` set os"
  proof
    assume "set ?ns \<subseteq> of_fd ` set os"
    then have "card (set ?ns) \<le> card (of_fd ` set os)" by (intro card_mono) simp_all
    also have "\<dots> \<le> length os" by (meson card_image_le card_length finite_set le_trans)
    finally have "card (set ?ns) \<le> length os" .
    moreover have "card (set ?ns) = Suc (length os)"
      using distinct_card [of ?ns] by (simp add: distinct_map inj_on_def del: upt_Suc)
    ultimately show False by simp
  qed
  then have "filter (\<lambda>n. n \<notin> of_fd ` set os) ?ns \<noteq> []" by (auto simp: filter_empty_conv simp del: upt_Suc)
  then have "free_fd os \<in> set (filter (\<lambda>n. n \<notin> of_fd ` set os) ?ns)" unfolding free_fd_def by (rule hd_in_set)
  then have "free_fd os \<in> set ?ns \<and> free_fd os \<notin> of_fd ` set os" by (simp only: set_filter mem_Collect_eq simp_thms)
  then show "free_fd os \<notin> of_fd ` set os" "0 \<le> free_fd os" by (auto simp del: upt_Suc)
qed

text \<open>Descriptors are distinct, and at most one open file holds the lock on a path.\<close>

definition os_ok :: "os \<Rightarrow> bool" where
  "os_ok os \<longleftrightarrow> distinct (map of_fd os) \<and>
     (\<forall>f \<in> set os. \<forall>g \<in> set os. of_held f \<and> of_held g \<and> of_path f = of_path g \<longrightarrow> f = g)"

definition holds :: "os \<Rightarrow> lock_file \<Rightarrow> bool" where
  "holds os l \<longleftrightarrow> (\<exists>f \<in> set os. of_fd f = lk_fd l \<and> of_path f = lk_path l \<and> of_held f)"

definition path_held :: "os \<Rightarrow> string \<Rightarrow> bool" where
  "path_held os path \<longleftrightarrow> (\<exists>f \<in> set os. of_path f = path \<and> of_held f)"

lemma os_ok_Cons:
  "os_ok (f # os) \<longleftrightarrow> os_ok os \<and> of_fd f \<notin> of_fd ` set os \<and>
     (of_held f \<longrightarrow> (\<forall>g \<in> set os. of_held g \<longrightarrow> of_path g \<noteq> of_path f))"
  by (auto simp: os_ok_def)

lemma os_ok_filter: "os_ok os \<Longrightarrow> os_ok (filter P os)"
  by (induction os) (auto simp: os_ok_Cons os_ok_def)

text \<open>What \<^verbatim>\<open>tryLock\<close> does on an object without the lock: it gets it exactly when nobody holds the path.\<close>

lemma tryLock_cases:
  assumes "os_ok os" "\<not> lk_locked l"
  obtains (bad) "tryLock l os = (False, l\<lparr>lk_fd := 0\<rparr>, \<lparr>of_fd = 0, of_path = lk_path l, of_held = False\<rparr> # os)"
      "free_fd os = 0"
    | (busy) fd where "tryLock l os = (False, l\<lparr>lk_fd := fd, lk_locked := False\<rparr>, os)" "path_held os (lk_path l)" "0 < fd"
    | (got) fd where "tryLock l os = (True, l\<lparr>lk_fd := fd, lk_locked := True\<rparr>,
        \<lparr>of_fd = fd, of_path = lk_path l, of_held = True\<rparr> # os)" "\<not> path_held os (lk_path l)" "0 < fd"
        "fd \<notin> of_fd ` set os"
proof -
  let ?fd = "free_fd os" and ?p = "lk_path l"
  note fd = free_fd [of os]
  have nofd: "of_fd f \<noteq> ?fd" if "f \<in> set os" for f using that fd(1) by (metis imageI)
  consider "?fd = 0" | "0 < ?fd" using fd(2) by linarith
  then show thesis
  proof cases
    case 1
    then show thesis by (intro bad) (simp_all add: tryLock_def os_open_def assms(2))
  next
    case 2
    have same: "map (\<lambda>g. if of_fd g = ?fd then g\<lparr>of_held := True\<rparr> else g) os = os"
      using nofd by (intro map_idI) auto
    have other: "(\<exists>g \<in> set os. of_path g = ?p \<and> of_held g \<and> of_fd g \<noteq> ?fd) \<longleftrightarrow> path_held os ?p"
      using nofd by (auto simp: path_held_def)
    have gone: "filter (\<lambda>f. of_fd f \<noteq> ?fd) os = os" using nofd by (intro filter_True) auto
    show thesis
    proof (cases "path_held os ?p")
      case True
      then have "tryLock l os = (False, l\<lparr>lk_fd := ?fd, lk_locked := False\<rparr>, os)"
        using 2 assms(2) other by (simp add: tryLock_def os_open_def os_flock_def os_close_def gone)
      then show thesis using True 2 by (intro busy)
    next
      case False
      then have "tryLock l os = (True, l\<lparr>lk_fd := ?fd, lk_locked := True\<rparr>,
          \<lparr>of_fd = ?fd, of_path = ?p, of_held = True\<rparr> # os)"
        using 2 assms(2) other by (simp add: tryLock_def os_open_def os_flock_def same)
      then show thesis using False 2 fd(1) by (intro got)
    qed
  qed
qed

section \<open>Many lock objects\<close>

text \<open>
  Lock objects are made, copied, locked and unlocked (a destruction is an unlock) in any order and by any process, and
  other files are opened and closed meanwhile.
\<close>

datatype lock_event = Make string | Copy nat | Lock nat | Release nat | Open_other string | Close_other int

inductive lock_step :: "os \<times> lock_file list \<Rightarrow> lock_event \<Rightarrow> os \<times> lock_file list \<Rightarrow> bool" where
  make: "lock_step (os, ls) (Make path) (os, ls @ [newLockFile path])"
| copy: "i < length ls \<Longrightarrow> lock_step (os, ls) (Copy i) (os, ls @ [ls ! i])"
| lock: "i < length ls \<Longrightarrow> tryLock (ls ! i) os = (ok, l, os') \<Longrightarrow> lock_step (os, ls) (Lock i) (os', ls[i := l])"
| release: "i < length ls \<Longrightarrow> unlock (ls ! i) os = (l, os') \<Longrightarrow> lock_step (os, ls) (Release i) (os', ls[i := l])"
| open_other: "lock_step (os, ls) (Open_other path) (snd (os_open path os), ls)"
| close_other: "\<forall>l \<in> set ls. lk_locked l \<longrightarrow> lk_fd l \<noteq> fd \<Longrightarrow> lock_step (os, ls) (Close_other fd) (os_close fd os, ls)"

inductive_cases lock_stepE [elim]: "lock_step s e s'"

inductive lock_run :: "os \<times> lock_file list \<Rightarrow> lock_event list \<Rightarrow> os \<times> lock_file list \<Rightarrow> bool" where
  lock_refl: "lock_run s [] s"
| lock_more: "lock_run s es s1 \<Longrightarrow> lock_step s1 e s2 \<Longrightarrow> lock_run s (es @ [e]) s2"

definition lock_inv :: "os \<times> lock_file list \<Rightarrow> bool" where
  "lock_inv s \<longleftrightarrow>
     os_ok (fst s) \<and>
     (\<forall>i < length (snd s). lk_locked (snd s ! i) \<longrightarrow> holds (fst s) (snd s ! i)) \<and>
     (\<forall>i < length (snd s). \<forall>j < length (snd s).
        lk_locked (snd s ! i) \<and> lk_locked (snd s ! j) \<and> lk_fd (snd s ! i) = lk_fd (snd s ! j) \<longrightarrow> i = j)"

lemma holds_Cons: "holds os l \<Longrightarrow> holds (f # os) l"
  by (auto simp: holds_def)

lemma holds_close: "holds os l \<Longrightarrow> lk_fd l \<noteq> fd \<Longrightarrow> holds (os_close fd os) l"
  by (auto simp: holds_def os_close_def)

lemma holds_fd: "holds os l \<Longrightarrow> lk_fd l \<in> of_fd ` set os"
  unfolding holds_def by (metis imageI)

lemma lock_step_inv:
  assumes "lock_step s e s'" "lock_inv s" "\<forall>i. e \<noteq> Copy i"
  shows "lock_inv s'"
  using assms(1)
proof cases
  case (make os ls path)
  then show ?thesis
    using assms(2) by (auto simp: lock_inv_def nth_append newLockFile_def less_Suc_eq)
next
  case (copy i ls os)
  then show ?thesis using assms(3) by simp
next
  case (lock i ls os ok l os')
  have inv: "os_ok os" "\<And>k. k < length ls \<Longrightarrow> lk_locked (ls ! k) \<Longrightarrow> holds os (ls ! k)"
    "\<And>k k'. k < length ls \<Longrightarrow> k' < length ls \<Longrightarrow> lk_locked (ls ! k) \<Longrightarrow> lk_locked (ls ! k') \<Longrightarrow>
       lk_fd (ls ! k) = lk_fd (ls ! k') \<Longrightarrow> k = k'"
    using assms(2) lock(1) by (auto simp: lock_inv_def)
  show ?thesis
  proof (cases "lk_locked (ls ! i)")
    case True
    then have "l = ls ! i" "os' = os" using lock(5) by (simp_all add: tryLock_def)
    then show ?thesis using assms(2) lock(1,3) by simp
  next
    case False
    show ?thesis
    proof (rule tryLock_cases [OF inv(1) False])
      assume t: "tryLock (ls ! i) os = (False, (ls ! i)\<lparr>lk_fd := 0\<rparr>, \<lparr>of_fd = 0, of_path = lk_path (ls ! i), of_held = False\<rparr> # os)"
        and z: "free_fd os = 0"
      have "0 \<notin> of_fd ` set os" using free_fd(1) [of os] z by simp
      then have "os_ok os'" using t lock(5) inv(1) by (auto simp: os_ok_Cons)
      then show ?thesis
        using t lock(3-5) False inv holds_Cons by (auto simp: lock_inv_def nth_list_update)
    next
      fix fd
      assume t: "tryLock (ls ! i) os = (False, (ls ! i)\<lparr>lk_fd := fd, lk_locked := False\<rparr>, os)"
      then show ?thesis
        using lock(3-5) inv by (auto simp: lock_inv_def nth_list_update)
    next
      fix fd
      assume t: "tryLock (ls ! i) os = (True, (ls ! i)\<lparr>lk_fd := fd, lk_locked := True\<rparr>,
          \<lparr>of_fd = fd, of_path = lk_path (ls ! i), of_held = True\<rparr> # os)"
        and free: "\<not> path_held os (lk_path (ls ! i))" "fd \<notin> of_fd ` set os"
      have "os_ok os'" using t lock(5) inv(1) free by (auto simp: os_ok_Cons path_held_def)
      moreover have "holds os' ((ls ! i)\<lparr>lk_fd := fd, lk_locked := True\<rparr>)"
        using t lock(5) by (auto simp: holds_def)
      moreover have "lk_fd (ls ! k) \<noteq> fd" if "k < length ls" "lk_locked (ls ! k)" for k
        using holds_fd [OF inv(2) [OF that]] free(2) by auto
      ultimately show ?thesis
        using t lock(3-5) inv holds_Cons by (auto simp: lock_inv_def nth_list_update)
    qed
  qed
next
  case (release i ls os l os')
  have inv: "os_ok os" "\<And>k. k < length ls \<Longrightarrow> lk_locked (ls ! k) \<Longrightarrow> holds os (ls ! k)"
    "\<And>k k'. k < length ls \<Longrightarrow> k' < length ls \<Longrightarrow> lk_locked (ls ! k) \<Longrightarrow> lk_locked (ls ! k') \<Longrightarrow>
       lk_fd (ls ! k) = lk_fd (ls ! k') \<Longrightarrow> k = k'"
    using assms(2) release(1) by (auto simp: lock_inv_def)
  show ?thesis
  proof (cases "lk_locked (ls ! i)")
    case True
    then have u: "l = (ls ! i)\<lparr>lk_locked := False\<rparr>" "os' = os_close (lk_fd (ls ! i)) os"
      using release(5) by (simp_all add: unlock_def)
    have "os_ok os'" using inv(1) u(2) by (simp add: os_close_def os_ok_filter)
    moreover have "holds os' (ls ! k)" if "k < length ls" "lk_locked (ls ! k)" "k \<noteq> i" for k
      unfolding u(2) using inv(3) [of k i] that True release(4) by (intro holds_close inv(2)) auto
    ultimately show ?thesis
      using release(3,4) u(1) inv(3) by (auto simp: lock_inv_def nth_list_update)
  next
    case False
    then have "l = ls ! i" "os' = os" using release(5) by (simp_all add: unlock_def)
    then show ?thesis using assms(2) release(1,3) by simp
  qed
next
  case (open_other os ls path)
  have "os_ok (snd (os_open path os))"
    using assms(2) open_other(1) free_fd(1) [of os] by (simp add: lock_inv_def os_open_def os_ok_Cons)
  then show ?thesis
    using assms(2) open_other holds_Cons by (auto simp: lock_inv_def os_open_def)
next
  case (close_other ls fd os)
  then show ?thesis
    using assms(2) holds_close by (auto simp: lock_inv_def os_close_def os_ok_filter)
qed

lemma lock_run_inv: "lock_run s es s' \<Longrightarrow> lock_inv s \<Longrightarrow> \<forall>i. Copy i \<notin> set es \<Longrightarrow> lock_inv s'"
proof (induction rule: lock_run.induct)
  case (lock_more s es s1 e s2)
  then show ?case using lock_step_inv [OF lock_more.hyps(2)] by auto
qed

text \<open>Of this, copies leave the part about the open files.\<close>

lemma lock_step_os_ok:
  assumes "lock_step s e s'" "os_ok (fst s)"
  shows "os_ok (fst s')"
  using assms(1)
proof cases
  case (lock i ls os ok l os')
  then have ok: "os_ok os" using assms(2) by simp
  show ?thesis
  proof (cases "lk_locked (ls ! i)")
    case True
    then show ?thesis using lock ok by (simp add: tryLock_def)
  next
    case False
    have z: "free_fd os = 0 \<Longrightarrow> 0 \<notin> of_fd ` set os" using free_fd(1) [of os] by simp
    show ?thesis
      by (rule tryLock_cases [OF ok False]) (use lock ok z in \<open>auto simp: os_ok_Cons path_held_def\<close>)
  qed
next
  case (release i ls os l os')
  then show ?thesis using assms(2) by (auto simp: unlock_def os_close_def os_ok_filter split: if_splits)
next
  case (open_other os ls path)
  then show ?thesis using assms(2) free_fd(1) [of os] by (simp add: os_open_def os_ok_Cons)
next
  case (close_other ls fd os)
  then show ?thesis using assms(2) by (simp add: os_close_def os_ok_filter)
qed (use assms(2) in simp_all)

lemma lock_run_os_ok: "lock_run s es s' \<Longrightarrow> os_ok (fst s) \<Longrightarrow> os_ok (fst s')"
  by (induction rule: lock_run.induct) (auto dest: lock_step_os_ok)

section \<open>Properties\<close>

text \<open>C23. Mutual exclusion: whatever lock objects were made, copied, locked and unlocked, and whatever other files were
  opened, two objects that hold the lock on one path share a descriptor, and \<^verbatim>\<open>tryLock\<close> of a further object fails while
  one holds the path. If no object was copied, an object that says it is locked does hold its lock, and no other object that
  says so has its path.\<close>

theorem lock_exclusive:
  assumes "os_ok os0" and "lock_run (os0, []) es (os, ls)" and "i < length ls"
  shows "(holds os (ls ! i) \<longrightarrow> \<not> fst (tryLock (newLockFile (lk_path (ls ! i))) os) \<and>
           (\<forall>j < length ls. holds os (ls ! j) \<and> lk_path (ls ! j) = lk_path (ls ! i) \<longrightarrow> lk_fd (ls ! j) = lk_fd (ls ! i))) \<and>
         ((\<forall>k. Copy k \<notin> set es) \<and> lk_locked (ls ! i) \<longrightarrow> holds os (ls ! i) \<and>
           (\<forall>j < length ls. lk_locked (ls ! j) \<and> lk_path (ls ! j) = lk_path (ls ! i) \<longrightarrow> j = i))"
proof (intro conjI impI allI)
  have ok: "os_ok os" using lock_run_os_ok [OF assms(2)] assms(1) by simp
  have same: "lk_fd (ls ! j) = lk_fd (ls ! i)"
    if h: "holds os (ls ! i)" "holds os (ls ! j)" "lk_path (ls ! j) = lk_path (ls ! i)" for j
  proof -
    obtain f g where f: "f \<in> set os" "of_fd f = lk_fd (ls ! i)" "of_path f = lk_path (ls ! i)" "of_held f"
      and g: "g \<in> set os" "of_fd g = lk_fd (ls ! j)" "of_path g = lk_path (ls ! j)" "of_held g"
      using h(1,2) unfolding holds_def by blast
    then have "f = g" using ok h(3) unfolding os_ok_def by auto
    then show ?thesis using f(2) g(2) by simp
  qed
  {
    assume h: "holds os (ls ! i)"
    then have "path_held os (lk_path (ls ! i))" by (auto simp: holds_def path_held_def)
    then show "\<not> fst (tryLock (newLockFile (lk_path (ls ! i))) os)"
      by (rule_tac l = "newLockFile (lk_path (ls ! i))" in tryLock_cases [OF ok]) (simp_all add: newLockFile_def)
    show "lk_fd (ls ! j) = lk_fd (ls ! i)" if "holds os (ls ! j) \<and> lk_path (ls ! j) = lk_path (ls ! i)" for j
      using same [OF h] that by blast
  }
  assume a: "(\<forall>k. Copy k \<notin> set es) \<and> lk_locked (ls ! i)"
  have "lock_inv (os0, [])" using assms(1) by (simp add: lock_inv_def)
  then have "lock_inv (os, ls)" using lock_run_inv [OF assms(2)] a by blast
  then have inv: "\<And>k. k < length ls \<Longrightarrow> lk_locked (ls ! k) \<Longrightarrow> holds os (ls ! k)"
    "\<And>k k'. k < length ls \<Longrightarrow> k' < length ls \<Longrightarrow> lk_locked (ls ! k) \<Longrightarrow> lk_locked (ls ! k') \<Longrightarrow>
       lk_fd (ls ! k) = lk_fd (ls ! k') \<Longrightarrow> k = k'"
    by (auto simp: lock_inv_def)
  show h: "holds os (ls ! i)" using inv(1) [OF assms(3)] a by blast
  show "j = i" if "j < length ls" "lk_locked (ls ! j) \<and> lk_path (ls ! j) = lk_path (ls ! i)" for j
    using inv(2) [OF that(1) assms(3)] same [OF h inv(1) [OF that(1)]] that(2) a by blast
qed

text \<open>The standard streams of a process, and an object that got the lock.\<close>

definition std_os :: os where
  "std_os = map (\<lambda>fd. \<lparr>of_fd = fd, of_path = ''tty'', of_held = False\<rparr>) [0, 1, 2]"

lemma std_os_free: "free_fd std_os = 3" "os_ok std_os" "\<not> path_held std_os p"
  by (auto simp: free_fd_def std_os_def os_ok_def path_held_def)

lemma std_os_lock:
  "tryLock (newLockFile p) std_os =
     (True, \<lparr>lk_path = p, lk_fd = 3, lk_locked = True\<rparr>, \<lparr>of_fd = 3, of_path = p, of_held = True\<rparr> # std_os)"
proof (rule tryLock_cases [OF std_os_free(2), of "newLockFile p"])
  fix fd
  assume t: "tryLock (newLockFile p) std_os = (True, (newLockFile p)\<lparr>lk_fd := fd, lk_locked := True\<rparr>,
      \<lparr>of_fd = fd, of_path = lk_path (newLockFile p), of_held = True\<rparr> # std_os)"
  have "lk_fd (fst (snd (tryLock (newLockFile p) std_os))) = 3"
    by (simp add: tryLock_def os_open_def std_os_free newLockFile_def split: prod.splits)
  then show ?thesis using t by (simp add: newLockFile_def)
qed (simp_all add: newLockFile_def std_os_free)

theorem lock_exclusive_witness:
  "\<exists>os ls. lock_run (std_os, []) [Make ''f'', Lock 0, Copy 0, Make ''f''] (os, ls) \<and> lk_locked (ls ! 0) \<and>
     lk_fd (ls ! 1) = lk_fd (ls ! 0) \<and> \<not> fst (tryLock (ls ! 2) os)"
proof -
  let ?l = "\<lparr>lk_path = ''f'', lk_fd = 3, lk_locked = True\<rparr>" and ?os = "\<lparr>of_fd = 3, of_path = ''f'', of_held = True\<rparr> # std_os"
  have 1: "lock_step (std_os, []) (Make ''f'') (std_os, [newLockFile ''f''])" using lock_step.make [of std_os "[]" "''f''"] by simp
  have 2: "lock_step (std_os, [newLockFile ''f'']) (Lock 0) (?os, [?l])"
    using lock_step.lock [of 0 "[newLockFile ''f'']" std_os True ?l ?os] by (simp add: std_os_lock)
  have 3: "lock_step (?os, [?l]) (Copy 0) (?os, [?l, ?l])" using lock_step.copy [of 0 "[?l]" ?os] by simp
  have 4: "lock_step (?os, [?l, ?l]) (Make ''f'') (?os, [?l, ?l, newLockFile ''f''])" using lock_step.make [of ?os "[?l, ?l]" "''f''"] by simp
  have "lock_run (std_os, []) (((([] @ [Make ''f'']) @ [Lock 0]) @ [Copy 0]) @ [Make ''f'']) (?os, [?l, ?l, newLockFile ''f''])"
    by (rule lock_more [OF lock_more [OF lock_more [OF lock_more [OF lock_refl 1] 2] 3] 4])
  then have run: "lock_run (std_os, []) [Make ''f'', Lock 0, Copy 0, Make ''f''] (?os, [?l, ?l, newLockFile ''f''])" by simp
  have "holds ?os ?l" by (simp add: holds_def)
  then have "\<not> fst (tryLock (newLockFile ''f'') ?os)" using lock_exclusive [OF std_os_free(2) run, of 0] by simp
  then show ?thesis using run by (intro exI [of _ ?os] exI [of _ "[?l, ?l, newLockFile ''f'']"]) simp
qed

text \<open>A copied lock is lost: once the object that took the lock is destroyed, its copy still counts as
  locked, but the path is free and a further object gets the lock.\<close>

theorem lock_copy_released:
  assumes "os_ok os" and "tryLock (newLockFile path) os = (True, l, os1)"
  shows "lk_locked l \<and> \<not> path_held (destroy l os1) path \<and>
         (free_fd (destroy l os1) \<noteq> 0 \<longrightarrow> fst (tryLock (newLockFile path) (destroy l os1)))"
proof (rule tryLock_cases [OF assms(1), of "newLockFile path"])
  fix fd
  assume t: "tryLock (newLockFile path) os = (True, (newLockFile path)\<lparr>lk_fd := fd, lk_locked := True\<rparr>,
      \<lparr>of_fd = fd, of_path = lk_path (newLockFile path), of_held = True\<rparr> # os)"
    and free: "\<not> path_held os (lk_path (newLockFile path))" "fd \<notin> of_fd ` set os"
  have l: "l = (newLockFile path)\<lparr>lk_fd := fd, lk_locked := True\<rparr>"
    "os1 = \<lparr>of_fd = fd, of_path = lk_path (newLockFile path), of_held = True\<rparr> # os"
    using t assms(2) by simp_all
  have "os_close fd os = os" using free(2) by (auto simp: os_close_def intro!: filter_True)
  then have "destroy l os1 = os" using l by (simp add: destroy_def unlock_def os_close_def)
  moreover have "fst (tryLock (newLockFile path) os)" using t by simp
  ultimately show ?thesis using l free(1) by (simp add: newLockFile_def)
qed (use assms(2) in \<open>simp_all add: newLockFile_def\<close>)

theorem lock_copy_released_witness:
  "\<not> path_held (destroy \<lparr>lk_path = ''f'', lk_fd = 3, lk_locked = True\<rparr> (\<lparr>of_fd = 3, of_path = ''f'', of_held = True\<rparr> # std_os)) ''f'' \<and>
   fst (tryLock (newLockFile ''f'') (destroy \<lparr>lk_path = ''f'', lk_fd = 3, lk_locked = True\<rparr> (\<lparr>of_fd = 3, of_path = ''f'', of_held = True\<rparr> # std_os)))"
proof -
  let ?l = "\<lparr>lk_path = ''f'', lk_fd = 3, lk_locked = True\<rparr>" and ?os = "\<lparr>of_fd = 3, of_path = ''f'', of_held = True\<rparr> # std_os"
  have "destroy ?l ?os = std_os" by (simp add: destroy_def unlock_def os_close_def std_os_def)
  then have "free_fd (destroy ?l ?os) \<noteq> 0" by (simp add: std_os_free)
  then show ?thesis using lock_copy_released [OF std_os_free(2) std_os_lock [of "''f''"]] by blast
qed

end
