(* ===== verification/Lifecycle.thy ===== *)
theory Lifecycle
  imports MergeLoop LockFile
begin

text \<open>
  \<^verbatim>\<open>database.cpp\<close>: opening, creating, removing and closing a database, over the directory, the lock file, the
  deleter and the merger. The theorems: what was written is there after a close and an open, and what opening
  does with the files a crash leaves.
\<close>

section \<open>Opening\<close>

text \<open>What is at the path of a database.\<close>

datatype path_state = Absent | NotDirectory | Dir directory

text \<open>\<open>names\<close> are the names the directory iterator returns.\<close>

definition checkValidDatabase :: "path_state \<Rightarrow> string list \<Rightarrow> unit res" where
  "checkValidDatabase ps names =
     (case ps of
        Absent \<Rightarrow> Inl DatabaseNotFound
      | NotDirectory \<Rightarrow> Inl InvalidDatabase
      | Dir d \<Rightarrow> if \<forall>name \<in> set names. valid_name name then Inr () else Inl InvalidDatabase)"

text \<open>
  An opened database: the system, the copy of the lock that the database keeps, the working directory after
  the removal of temporary files, and the open files after the local lock was destroyed.
\<close>

record opened =
  op_system :: system
  op_lock :: lock_file
  op_cwd :: directory
  op_os :: os

text \<open>The three listings are those of the validity check and of the two passes of loading.\<close>

definition openImpl ::
  "env \<Rightarrow> key_compare option \<Rightarrow> string \<Rightarrow> options \<Rightarrow> string list \<Rightarrow> string list \<Rightarrow> string list \<Rightarrow>
     directory \<Rightarrow> os \<Rightarrow> path_state \<Rightarrow> opened res" where
  "openImpl e static path in_options names names1 names2 cwd os ps =
     bind_res (checkValidDatabase ps names) (\<lambda>_.
       case ps of Dir d \<Rightarrow>
         (case tryLock (newLockFile (path @ ''/lockfile'')) os of (ok, lockFile, os1) \<Rightarrow>
            if \<not> ok then Inl DatabaseInUse
            else let d1 = (if d ''lockfile'' = None then d(''lockfile'' \<mapsto> []) else d);
                     opts = raise_options in_options
                 in case deleteScheduled \<lparr>dl_path = path, dl_open = False\<rparr> d1 of (dl, d2) \<Rightarrow>
                    bind_res (loadDiskSegments e (fst (keyValueCompare static opts)) path opts names1 names2 d2 cwd)
                      (\<lambda>(segments, cwd').
                        Inr \<lparr>op_system = \<lparr>sys_db = open_state (e_rnd e) static path in_options segments,
                                          sys_deleter = dl, sys_files = d2\<rparr>,
                             op_lock = lockFile, op_cwd = cwd', op_os = destroy lockFile os1\<rparr>))
       | _ \<Rightarrow> Inl InvalidDatabase)"

text \<open>
  \<^verbatim>\<open>create\<close> and \<^verbatim>\<open>open\<close>: \<^verbatim>\<open>create_directories\<close> returns whether it created the directory, \<open>made\<close> whether the
  system lets it.
\<close>

definition create ::
  "bool \<Rightarrow> env \<Rightarrow> key_compare option \<Rightarrow> string \<Rightarrow> options \<Rightarrow> directory \<Rightarrow> os \<Rightarrow> path_state \<Rightarrow> opened res" where
  "create made e static path opts cwd os ps =
     (if \<not> made then Inl FilesystemError
      else if ps \<noteq> Absent then Inl (DatabaseException ''unable to create directories'')
      else openImpl e static path opts [] [''lockfile''] [''lockfile''] cwd os (Dir Map.empty))"

definition open_db ::
  "bool \<Rightarrow> env \<Rightarrow> key_compare option \<Rightarrow> string \<Rightarrow> options \<Rightarrow> string list \<Rightarrow> string list \<Rightarrow> string list \<Rightarrow>
     directory \<Rightarrow> os \<Rightarrow> path_state \<Rightarrow> opened res" where
  "open_db made e static path opts names names1 names2 cwd os ps =
     (case openImpl e static path opts names names1 names2 cwd os ps of
        Inl DatabaseNotFound \<Rightarrow>
          if createIfNeeded opts then create made e static path opts cwd os ps else Inl DatabaseNotFound
      | r \<Rightarrow> r)"

text \<open>\<^verbatim>\<open>Database::remove\<close>: everything under the path goes.\<close>

definition remove_db :: "string \<Rightarrow> string list \<Rightarrow> os \<Rightarrow> path_state \<Rightarrow> (path_state \<times> os) res" where
  "remove_db path names os ps =
     bind_res (checkValidDatabase ps names) (\<lambda>_.
       case tryLock (newLockFile (path @ ''/lockfile'')) os of (ok, lockFile, os1) \<Rightarrow>
         if \<not> ok then Inl DatabaseInUse else Inr (Absent, destroy lockFile os1))"

section \<open>Closing\<close>

text \<open>
  The memory segments are written by tasks of the thread pool, one for each; they write different files, so
  they are taken in the order of the list.
\<close>

fun is_memory :: "segment \<Rightarrow> bool" where
  "is_memory (MemSeg m) = True"
| "is_memory _ = False"

fun write_segments :: "junk \<Rightarrow> kv_compare \<Rightarrow> string \<Rightarrow> segment list \<Rightarrow> directory \<Rightarrow> directory res" where
  "write_segments j icmp dbpath [] d = Inr d"
| "write_segments j icmp dbpath (s # ss) d =
     bind_res (if is_memory s then writeSegmentToDisk j icmp dbpath s d else Inr d) (write_segments j icmp dbpath ss)"

text \<open>
  The parts of \<^verbatim>\<open>closeWithMerge\<close>: what it does before it waits for the merging thread, the state it sets once it has
  the lock of the database, the merge and the writing of the memory segments, and the end. The merge takes the
  mutex of the merger, which is free by then.
\<close>

definition close_request :: "system \<Rightarrow> system res" where
  "close_request s =
     (if \<not> db_open (sys_db s) then Inl DatabaseClosed
      else Inr (s\<lparr>sys_db := (sys_db s)\<lparr>db_closing := True, db_wakeups := db_wakeups (sys_db s) + 1\<rparr>\<rparr>))"

definition close_swap :: "system \<Rightarrow> system res" where
  "close_swap s =
     bind_res (access (db_memory (sys_db s))) (\<lambda>m.
       Inr (s\<lparr>sys_db := (sys_db s)\<lparr>db_segments := copyAndAppend (db_segments (sys_db s)) (MemSeg m), db_memory := None\<rparr>\<rparr>))"

definition close_merge :: "junk \<Rightarrow> kv_compare \<Rightarrow> int \<Rightarrow> system \<Rightarrow> system res" where
  "close_merge j icmp segmentCount s =
     (if segmentCount > 0
      then case mergeSegments0 j icmp segmentCount s of None \<Rightarrow> Inl NoReturn | Some r \<Rightarrow> r
      else Inr s)"

definition close_write :: "junk \<Rightarrow> kv_compare \<Rightarrow> system \<Rightarrow> system res" where
  "close_write j icmp s =
     bind_res (write_segments j icmp (db_path (sys_db s)) (db_segments (sys_db s)) (sys_files s)) (\<lambda>d.
       Inr (s\<lparr>sys_files := d\<rparr>))"

definition close_finish :: "system \<Rightarrow> system" where
  "close_finish s =
     (case deleteScheduled (sys_deleter s) (sys_files s) of (dl, d') \<Rightarrow>
        s\<lparr>sys_db := (sys_db s)\<lparr>db_open := False\<rparr>, sys_deleter := dl, sys_files := d'\<rparr>)"

definition closeWithMerge :: "junk \<Rightarrow> kv_compare \<Rightarrow> int \<Rightarrow> system \<Rightarrow> system res" where
  "closeWithMerge j icmp segmentCount s =
     bind_res (close_request s) (\<lambda>s1.
     bind_res (close_swap s1) (\<lambda>s2.
     bind_res (close_merge j icmp segmentCount s2) (\<lambda>s3.
     bind_res (close_write j icmp s3) (\<lambda>s4. Inr (close_finish s4)))))"

definition close_db :: "junk \<Rightarrow> kv_compare \<Rightarrow> system \<Rightarrow> system res" where
  "close_db j icmp s = closeWithMerge j icmp (maxSegments (db_options (sys_db s))) s"

section \<open>Writing the memory segments\<close>

lemma memory_name_free:
  assumes "files_ok d segs" "MemSeg m \<in> set segs" "name \<in> {key_name (seg_ids (MemSeg m)), data_name (seg_ids (MemSeg m))}"
  shows "d name = None" "name \<notin> set (scheduled d)"
proof -
  have "\<not> (d name \<noteq> None \<or> name \<in> set (scheduled d))"
  proof
    assume "d name \<noteq> None \<or> name \<in> set (scheduled d)"
    then obtain ds where ds: "DiskSeg ds \<in> set segs" "within_ids (seg_ids (MemSeg m)) (DiskSeg ds)"
      by (rule files_ok_within [OF assms(1) _ assms(3)])
    then have "contained (MemSeg m) (DiskSeg ds)" by (simp add: within_ids_def contained_def seg_ids_def)
    moreover have "chain segs" using assms(1) by (simp add: files_ok_def)
    ultimately have "MemSeg m = DiskSeg ds" using chain_contained assms(2) ds(1) by blast
    then show False by simp
  qed
  then show "d name = None" "name \<notin> set (scheduled d)" by blast+
qed

text \<open>Changes of the directory that leave the segment files and the file of the deleter alone.\<close>

definition same_files :: "directory \<Rightarrow> directory \<Rightarrow> bool" where
  "same_files d d' \<longleftrightarrow>
     (\<forall>name. d' name = d name \<or> d' name = None \<and> \<not> segment_file name \<and> name \<noteq> ''deleted'')"

lemma segment_file_names [simp]: "segment_file (key_name i)" "segment_file (data_name i)"
  "\<not> segment_file (log_name n)" "\<not> segment_file ''deleted''" "\<not> segment_file ''lockfile''"
  by (simp_all add: segment_file_def log_name_def)

lemma same_files_deleted:
  assumes "same_files d d'"
  shows "d' ''deleted'' = d ''deleted''" "scheduled d' = scheduled d" "deleted_lines d' ls \<longleftrightarrow> deleted_lines d ls"
proof -
  show "d' ''deleted'' = d ''deleted''" using assms by (auto simp: same_files_def)
  then show "scheduled d' = scheduled d" "deleted_lines d' ls \<longleftrightarrow> deleted_lines d ls"
    by (simp_all add: scheduled_def deleted_lines_def)
qed

lemma same_files_finite:
  assumes "same_files d d'" "finite (dom d)"
  shows "finite (dom d')"
proof -
  have "dom d' \<subseteq> dom d" using assms(1) by (auto simp: same_files_def) (metis option.distinct(1))
  then show ?thesis using assms(2) by (rule finite_subset)
qed

lemma same_files_segment: "same_files d d' \<Longrightarrow> segment_file name \<Longrightarrow> d' name = d name"
  by (auto simp: same_files_def)

lemma same_files_backed: "same_files d d' \<Longrightarrow> file_backed d s \<Longrightarrow> file_backed d' s"
  by (cases s) (simp_all add: same_files_segment on_disk_def)

lemma same_files_remove: "same_files d (seg_removeSegment (MemSeg m) d)"
proof -
  have "log_name (ms_id m) \<noteq> ''deleted''" by (simp add: log_name_def)
  then show ?thesis by (auto simp: same_files_def fs_remove_def)
qed

lemma live_file_memory: "live_file (pre @ MemSeg m # post) name = live_file (pre @ post) name"
  and stale_file_memory: "stale_file (pre @ MemSeg m # post) name = stale_file (pre @ post) name"
  by (auto simp: live_file_def stale_file_def)

lemma files_ok_drop:
  assumes "files_ok d (pre @ MemSeg m # post)" "same_files d d'"
  shows "files_ok d' (pre @ post)"
proof -
  note sd = same_files_deleted [OF assms(2)]
  have "chain (pre @ post)" using assms(1) by (auto simp: files_ok_def chain_def sorted_wrt_append)
  moreover have "finite (dom d')" using same_files_finite [OF assms(2)] assms(1) by (simp add: files_ok_def)
  moreover have "file_backed d' s" if "s \<in> set (pre @ post)" for s
    using same_files_backed [OF assms(2)] assms(1) that by (auto simp: files_ok_def)
  moreover have "d name \<noteq> None" if "d' name \<noteq> None" for name
    using assms(2) that unfolding same_files_def by metis
  ultimately show ?thesis
    using assms(1) sd unfolding files_ok_def live_file_memory stale_file_memory by simp
qed

lemma files_okI:
  assumes "finite (dom d)" "chain segs" "\<And>s. s \<in> set segs \<Longrightarrow> file_backed d s" "deleted_lines d (scheduled d)"
    and "\<And>name. name \<in> set (scheduled d) \<Longrightarrow> \<not> live_file segs name \<and> stale_file segs name"
    and "\<And>name. d name \<noteq> None \<Longrightarrow> valid_name name \<and> \<not> is_tmp name \<and>
          (segment_file name \<longrightarrow> live_file segs name \<or> name \<in> set (scheduled d))"
  shows "files_ok d segs"
  using assms unfolding files_ok_def by simp

lemma files_ok_written:
  assumes "files_ok d (pre @ MemSeg m # post)" "i = seg_ids (MemSeg m)" "seg_ids (DiskSeg ds) = i"
    and "on_disk d' ds" "same_files (d(key_name i \<mapsto> ds_keyFile ds, data_name i \<mapsto> ds_dataFile ds)) d'"
  shows "files_ok d' (pre @ DiskSeg ds # post)"
proof -
  let ?d1 = "d(key_name i \<mapsto> ds_keyFile ds, data_name i \<mapsto> ds_dataFile ds)"
  let ?old = "pre @ MemSeg m # post" and ?new = "pre @ DiskSeg ds # post"
  have free: "name \<notin> set (scheduled d)" "d name = None" if "name \<in> {key_name i, data_name i}" for name
    using memory_name_free [OF assms(1), of m name] that unfolding assms(2) by simp_all
  have sched: "scheduled d' = scheduled d" "deleted_lines d' ls \<longleftrightarrow> deleted_lines d ls" for ls
    using same_files_deleted [OF assms(5)] by (simp_all add: scheduled_def deleted_lines_def)
  have c: "chain ([] @ pre @ [MemSeg m] @ post)" using assms(1) by (simp add: files_ok_def)
  have chain: "chain ?new"
    using chain_merge [of pre "[MemSeg m]" post "DiskSeg ds"] c assms(2,3) by (simp add: seg_ids_def)
  have backed: "file_backed d' s" if s: "s \<in> set ?new" for s
  proof (cases "s = DiskSeg ds")
    case False
    then have b: "file_backed d s" using s assms(1) by (auto simp: files_ok_def)
    have "file_backed ?d1 s"
    proof (cases s)
      case (DiskSeg ds')
      then have "d (key_name (seg_ids (DiskSeg ds'))) \<noteq> None" using b by (simp add: on_disk_def)
      then have "seg_ids (DiskSeg ds') \<noteq> i" using free(2) [of "key_name i"] by blast
      then show ?thesis using b DiskSeg by (simp add: on_disk_def)
    qed (use b in simp_all)
    then show ?thesis by (rule same_files_backed [OF assms(5)])
  qed (simp add: assms(4))
  have live: "\<And>name. live_file ?new name \<longleftrightarrow> live_file ?old name \<or> name \<in> {key_name i, data_name i}"
    using assms(3) unfolding live_file_def by auto
  have stale: "stale_file ?new name" if "stale_file ?old name" for name
    using that unfolding stale_file_def by auto
  have names: "valid_name name \<and> \<not> is_tmp name \<and>
      (segment_file name \<longrightarrow> live_file ?new name \<or> name \<in> set (scheduled d'))" if n: "d' name \<noteq> None" for name
  proof (cases "name \<in> {key_name i, data_name i}")
    case True
    then show ?thesis using live by auto
  next
    case False
    then have "?d1 name = d name" by simp
    then have "d name \<noteq> None" using assms(5) [unfolded same_files_def, THEN spec, of name] n by auto
    then have "valid_name name" "\<not> is_tmp name" "segment_file name \<longrightarrow> live_file ?old name \<or> name \<in> set (scheduled d)"
      using assms(1) unfolding files_ok_def by blast+
    then show ?thesis unfolding live sched(1) by blast
  qed
  have doomed: "\<not> live_file ?new name \<and> stale_file ?new name" if s: "name \<in> set (scheduled d')" for name
  proof -
    have "name \<notin> {key_name i, data_name i}" using s free(1) sched(1) by auto
    moreover have "\<not> live_file ?old name" "stale_file ?old name"
      using s assms(1) unfolding files_ok_def sched(1) by blast+
    ultimately show ?thesis using live stale by blast
  qed
  have "deleted_lines d' (scheduled d')" using assms(1) sched by (simp add: files_ok_def)
  moreover have "finite (dom d')" using same_files_finite [OF assms(5)] assms(1) by (simp add: files_ok_def)
  ultimately show ?thesis using chain backed doomed names by (intro files_okI)
qed

lemma write_memory:
  assumes "files_ok d (pre @ MemSeg m # post)" "seg_repr (MemSeg m) r" "run_ok r" "CHR ''.'' \<notin> set dbpath"
  shows "\<exists>d'. writeSegmentToDisk j kv_cmp dbpath (MemSeg m) d = Inr d' \<and>
           (if r = [] then files_ok d' (pre @ post)
            else \<exists>ds. seg_repr (DiskSeg ds) r \<and> files_ok d' (pre @ DiskSeg ds # post) \<and> seg_ids (DiskSeg ds) = seg_ids (MemSeg m))"
proof -
  let ?i = "seg_ids (MemSeg m)"
  obtain it where it: "seg_lookup j kv_cmp (MemSeg m) [] [] = Inr it" "seg_yields it r"
    using seg_lookup_yields [OF seg_repr_lists [OF assms(2)], of "[]" "[]" j]
    by (auto simp: range_ok_def mem_range_def within_def)
  obtain it1 where it1: "seg_peekKey it = Inr (case r of [] \<Rightarrow> [] | kv # _ \<Rightarrow> kv_key kv, it1)" "seg_yields it1 r"
    using seg_it.peek_key [OF it(2)] by blast
  show ?thesis
  proof (cases r)
    case Nil
    then have "writeSegmentToDisk j kv_cmp dbpath (MemSeg m) d = Inr (seg_removeSegment (MemSeg m) d)"
      using it(1) it1(1) by (simp add: writeSegmentToDisk_def)
    then show ?thesis using Nil files_ok_drop [OF assms(1) same_files_remove] by simp
  next
    case (Cons kv r')
    have ne: "kv_key kv \<noteq> []" using seg_repr_run(2) [OF assms(2)] Cons by (simp add: keys_nonempty_def)
    have mem: "MemSeg m \<in> set (pre @ MemSeg m # post)" by simp
    have free: "d (key_name ?i) = None" "d (data_name ?i) = None"
      using memory_name_free [OF assms(1) mem] by simp_all
    have pr: "purged False r = r" by (simp add: purged_def)
    have ok: "run_ok (purged False r)" using assms(3) pr by simp
    obtain ds where ds: "writeAndLoadSegment seg_next dbpath (key_name ?i) (data_name ?i) it1 False d =
       Inr (ds, d(key_name ?i @ ''.tmp'' := None, data_name ?i @ ''.tmp'' := None,
                  key_name ?i \<mapsto> ds_keyFile ds, data_name ?i \<mapsto> ds_dataFile ds))"
      "seg_lists (DiskSeg ds) (purged False r)" "purged False r \<noteq> [] \<longrightarrow> seg_repr (DiskSeg ds) (purged False r)"
      "seg_ids (DiskSeg ds) = ?i" "ds_names ds = [key_name ?i, data_name ?i]"
      by (rule seg_it.writeAndLoad [OF it1(2) ok assms(4) free])
    have notmp: "d(key_name ?i @ ''.tmp'' := None, data_name ?i @ ''.tmp'' := None) = d"
    proof -
      have "\<forall>name. is_tmp name \<longrightarrow> d name = None" using assms(1) unfolding files_ok_def by blast
      then show ?thesis by (simp add: fun_eq_iff)
    qed
    let ?d1 = "d(key_name ?i \<mapsto> ds_keyFile ds, data_name ?i \<mapsto> ds_dataFile ds)"
    let ?d2 = "seg_removeSegment (MemSeg m) ?d1"
    have w: "writeSegmentToDisk j kv_cmp dbpath (MemSeg m) d = Inr ?d2"
      using it(1) it1(1) Cons ne ds(1) [unfolded notmp] by (simp add: writeSegmentToDisk_def)
    have same: "same_files ?d1 ?d2" by (rule same_files_remove)
    have "on_disk ?d1 ds" using ds(4,5) by (simp add: on_disk_def)
    then have "on_disk ?d2 ds" using same_files_backed [OF same, of "DiskSeg ds"] by simp
    then have "files_ok ?d2 (pre @ DiskSeg ds # post)"
      by (rule files_ok_written [OF assms(1) refl ds(4) _ same])
    then show ?thesis using w ds(3,4) pr Cons by auto
  qed
qed

text \<open>After all memory segments are written, only disk segments are left; empty memory segments are gone.\<close>

abbreviation all_disk :: "segment list \<Rightarrow> bool" where
  "all_disk segs \<equiv> \<forall>s \<in> set segs. \<exists>ds. s = DiskSeg ds"

lemma write_segments_ok:
  assumes "files_ok d (pre @ segs)" "list_all2 seg_lists segs rs" "\<forall>r \<in> set rs. run_ok r" "CHR ''.'' \<notin> set dbpath"
  shows "\<exists>d' segs' rs'. write_segments j kv_cmp dbpath segs d = Inr d' \<and> files_ok d' (pre @ segs') \<and>
           list_all2 seg_lists segs' rs' \<and> all_disk segs' \<and> (\<forall>k. newest rs' k = newest rs k) \<and> set rs' \<subseteq> set rs \<and>
           (list_all2 seg_repr segs rs \<longrightarrow> list_all2 seg_repr segs' rs') \<and> seg_upperID ` set segs' \<subseteq> seg_upperID ` set segs \<and>
           (\<forall>xs. runs_fit (xs @ rs) \<longrightarrow> runs_fit (xs @ rs'))"
  using assms(1-3)
proof (induction segs arbitrary: d pre rs)
  case Nil
  then show ?case by (intro exI [of _ d] exI [of _ "[]"]) simp
next
  case (Cons s segs)
  obtain r rs1 where rs: "rs = r # rs1" "seg_lists s r" "list_all2 seg_lists segs rs1" "run_ok r" "\<forall>r \<in> set rs1. run_ok r"
    using Cons.prems(2,3) by (auto simp: list_all2_Cons1)
  have fb: "file_backed d s" using Cons.prems(1) by (simp add: files_ok_def)
  obtain d1 kept kept_rs where d1: "(if is_memory s then writeSegmentToDisk j kv_cmp dbpath s d else Inr d) = Inr d1"
    "files_ok d1 ((pre @ kept) @ segs)" "list_all2 seg_lists kept kept_rs" "all_disk kept"
    "\<forall>k. newest kept_rs k = newest [r] k" "set kept_rs \<subseteq> {r}" "seg_repr s r \<longrightarrow> list_all2 seg_repr kept kept_rs"
    "seg_upperID ` set kept \<subseteq> {seg_upperID s}" "kept_rs = [r] \<or> kept_rs = [] \<and> r = []"
  proof (cases s)
    case (MemSeg m)
    then have m: "seg_repr (MemSeg m) r" using rs(2) by (simp add: seg_lists_def)
    obtain d1 where w: "writeSegmentToDisk j kv_cmp dbpath (MemSeg m) d = Inr d1"
      "if r = [] then files_ok d1 (pre @ segs)
       else \<exists>ds. seg_repr (DiskSeg ds) r \<and> files_ok d1 (pre @ DiskSeg ds # segs) \<and> seg_ids (DiskSeg ds) = seg_ids (MemSeg m)"
      using write_memory [OF Cons.prems(1) [unfolded MemSeg] m rs(4) assms(4)] by blast
    show thesis
    proof (cases "r = []")
      case True
      then show thesis using w MemSeg by (intro that [of d1 "[]" "[]"]) simp_all
    next
      case False
      then obtain ds where ds: "seg_repr (DiskSeg ds) r" "files_ok d1 (pre @ DiskSeg ds # segs)"
        "seg_ids (DiskSeg ds) = seg_ids (MemSeg m)" using w(2) by auto
      have "seg_upperID (DiskSeg ds) = seg_upperID (MemSeg m)" using ds(3) by (simp add: seg_ids_def)
      then show thesis
        using w(1) ds(1,2) MemSeg seg_repr_lists [OF ds(1)] by (intro that [of d1 "[DiskSeg ds]" "[r]"]) simp_all
    qed
  next
    case (DiskSeg ds)
    then show thesis using Cons.prems(1) rs(2) by (intro that [of d "[s]" "[r]"]) simp_all
  qed (use fb in simp)
  obtain d' segs' rs' where w: "write_segments j kv_cmp dbpath segs d1 = Inr d'" "files_ok d' ((pre @ kept) @ segs')"
    "list_all2 seg_lists segs' rs'" "all_disk segs'" "\<forall>k. newest rs' k = newest rs1 k" "set rs' \<subseteq> set rs1"
    "list_all2 seg_repr segs rs1 \<longrightarrow> list_all2 seg_repr segs' rs'" "seg_upperID ` set segs' \<subseteq> seg_upperID ` set segs"
    "\<forall>xs. runs_fit (xs @ rs1) \<longrightarrow> runs_fit (xs @ rs')"
    using Cons.IH [OF d1(2) rs(3,5)] by (elim exE conjE) (rule that; assumption)
  note d2 = w(7)
  have fit: "runs_fit (xs @ kept_rs @ rs')" if "runs_fit (xs @ rs)" for xs
  proof -
    have "runs_fit ((xs @ kept_rs) @ rs1)"
      using that d1(9) rs(1) by (auto simp: runs_fit_def values_of_def)
    then show ?thesis using w(9) [rule_format, of "xs @ kept_rs"] by simp
  qed
  have up: "seg_upperID ` set (kept @ segs') \<subseteq> seg_upperID ` set (s # segs)" using d1(8) w(8) by auto
  have "newest (kept_rs @ rs') k = newest ([r] @ rs1) k" for k
    by (simp only: newest_append d1(5) w(5))
  moreover have "list_all2 seg_lists (kept @ segs') (kept_rs @ rs')" by (rule list_all2_appendI [OF d1(3) w(3)])
  moreover have "list_all2 seg_repr (kept @ segs') (kept_rs @ rs')" if "list_all2 seg_repr (s # segs) rs"
    using that d1(7) d2 rs(1) by (auto intro!: list_all2_appendI)
  moreover have "all_disk (kept @ segs')" using d1(4) w(4) by auto
  moreover have "set (kept_rs @ rs') \<subseteq> set rs" using d1(6) w(6) rs(1) by auto
  moreover have "write_segments j kv_cmp dbpath (s # segs) d = Inr d'" using d1(1) w(1) by simp
  moreover have "files_ok d' (pre @ kept @ segs')" using w(2) by simp
  ultimately show ?case using up fit rs(1)
    by (intro exI [of _ d'] exI [of _ "kept @ segs'"] exI [of _ "kept_rs @ rs'"]) simp
qed

section \<open>Opening an empty directory\<close>

lemma tryLock_destroy:
  assumes "os_ok os" "tryLock (newLockFile path) os = (True, l, os1)"
  shows "destroy l os1 = os" "lk_locked l"
proof -
  have "destroy l os1 = os \<and> lk_locked l"
  proof (rule tryLock_cases [OF assms(1), of "newLockFile path"])
    fix fd
    assume t: "tryLock (newLockFile path) os = (True, (newLockFile path)\<lparr>lk_fd := fd, lk_locked := True\<rparr>,
        \<lparr>of_fd = fd, of_path = lk_path (newLockFile path), of_held = True\<rparr> # os)"
      and free: "fd \<notin> of_fd ` set os"
    have "os_close fd os = os" using free by (auto simp: os_close_def intro!: filter_True)
    then show ?thesis using t assms(2) by (auto simp: destroy_def unlock_def os_close_def)
  qed (use assms(2) in \<open>simp_all add: newLockFile_def\<close>)
  then show "destroy l os1 = os" "lk_locked l" by blast+
qed

lemma openImpl_empty:
  assumes "tryLock (newLockFile (path @ ''/lockfile'')) os = (True, l, os1)" "CHR ''.'' \<notin> set path"
  shows "openImpl e static path opts [] [''lockfile''] [''lockfile''] cwd os (Dir Map.empty) =
    Inr \<lparr>op_system = \<lparr>sys_db = open_state (e_rnd e) static path opts [], sys_deleter = \<lparr>dl_path = path, dl_open = False\<rparr>,
                       sys_files = [''lockfile'' \<mapsto> []]\<rparr>,
         op_lock = l, op_cwd = cwd, op_os = destroy l os1\<rparr>"
proof -
  have "deleteScheduled \<lparr>dl_path = path, dl_open = False\<rparr> [''lockfile'' \<mapsto> []] =
      (\<lparr>dl_path = path, dl_open = False\<rparr>, [''lockfile'' \<mapsto> []])"
    by (simp add: deleteScheduled_def scheduled_def fs_remove_def fun_eq_iff)
  moreover have "load_log e cmp path opts' d name = Inr []" for cmp opts' d name
    using no_dot_not_log [OF assms(2)] by (simp add: load_log_def)
  ultimately show ?thesis
    using assms(1)
    by (simp add: openImpl_def checkValidDatabase_def loadDiskSegments_def load_keys_def has_prefix_def Let_def
        remove_contained_keep)
qed

section \<open>Properties\<close>

text \<open>C31. Errors of opening, removing and closing: no directory, a file in place of the directory, a file the
  database did not make, a lock held by someone else, a database that is closed already.\<close>

theorem lifecycle_errors:
  assumes "os_ok os" and "name \<in> set names" and "\<not> valid_name name" and "\<forall>name \<in> set names'. valid_name name"
    and "path_held os (path @ ''/lockfile'')" and "\<not> db_open (sys_db s)"
  shows "openImpl e static path opts names names1 names2 cwd os Absent = Inl DatabaseNotFound \<and>
         openImpl e static path opts names names1 names2 cwd os NotDirectory = Inl InvalidDatabase \<and>
         openImpl e static path opts names names1 names2 cwd os (Dir d) = Inl InvalidDatabase \<and>
         openImpl e static path opts names' names1 names2 cwd os (Dir d) = Inl DatabaseInUse \<and>
         remove_db path names os Absent = Inl DatabaseNotFound \<and>
         remove_db path names os (Dir d) = Inl InvalidDatabase \<and>
         remove_db path names' os (Dir d) = Inl DatabaseInUse \<and>
         closeWithMerge j icmp n s = Inl DatabaseClosed"
proof -
  have "\<not> fst (tryLock (newLockFile (path @ ''/lockfile'')) os)"
    using assms(5)
    by (rule_tac l = "newLockFile (path @ ''/lockfile'')" in tryLock_cases [OF assms(1)]) (simp_all add: newLockFile_def)
  then obtain l os1 where "tryLock (newLockFile (path @ ''/lockfile'')) os = (False, l, os1)"
    by (cases "tryLock (newLockFile (path @ ''/lockfile'')) os") auto
  moreover have "checkValidDatabase (Dir d) names = Inl InvalidDatabase" "checkValidDatabase (Dir d) names' = Inr ()"
    using assms(2-4) by (auto simp: checkValidDatabase_def)
  ultimately show ?thesis using assms(6)
    by (simp add: openImpl_def remove_db_def closeWithMerge_def close_request_def) (simp add: checkValidDatabase_def)
qed

theorem lifecycle_errors_witness:
  "\<exists>os s. path_held os ''db/lockfile'' \<and> \<not> db_open (sys_db (s :: system)) \<and>
     openImpl (\<lparr>e_junk = \<lparr>j_stack = [], j_buffer = []\<rparr>, e_rnd = (\<lambda>i. 0), e_logId = 0, e_logSize = 0\<rparr>) None ''db''
       (mk_options True) [''keys.1.1''] [] [] Map.empty os (Dir Map.empty) = Inl DatabaseInUse \<and>
     closeWithMerge \<lparr>j_stack = [], j_buffer = []\<rparr> kv_cmp 8 s = Inl DatabaseClosed"
proof -
  let ?os = "\<lparr>of_fd = 3, of_path = ''db/lockfile'', of_held = True\<rparr> # std_os"
  let ?s = "sample_system\<lparr>sys_db := (sys_db sample_system)\<lparr>db_open := False\<rparr>\<rparr>"
  have "os_ok ?os" using std_os_free(2,3) by (auto simp: os_ok_Cons std_os_def)
  moreover have "\<not> valid_name ''x''" by (simp add: valid_name_def regex_match_def)
  moreover have "valid_name ''keys.1.1''"
  proof -
    have "key_name (IDS 1 1) = ''keys.1.1''" by code_simp
    then show ?thesis using names_valid(1) by metis
  qed
  moreover have "path_held ?os (''db'' @ ''/lockfile'')" by (simp add: path_held_def)
  moreover have "\<not> db_open (sys_db ?s)" by simp
  ultimately show ?thesis
    using lifecycle_errors [of ?os "''x''" "[''x'']" "[''keys.1.1'']" "''db''" ?s
        "\<lparr>e_junk = \<lparr>j_stack = [], j_buffer = []\<rparr>, e_rnd = (\<lambda>i. 0), e_logId = 0, e_logSize = 0\<rparr>" None "mk_options True" "[]" "[]"
        Map.empty Map.empty "\<lparr>j_stack = [], j_buffer = []\<rparr>" kv_cmp 8]
    by (intro exI [of _ ?os] exI [of _ ?s]) simp
qed

text \<open>Opening where there is no database: without \<^verbatim>\<open>createIfNeeded\<close> it fails; with it the database made is
  empty and open, and its directory holds the lock file alone.\<close>

theorem open_creates_empty:
  assumes "userKeyCompare opts = None" and "CHR ''.'' \<notin> set path"
    and "fst (tryLock (newLockFile (path @ ''/lockfile'')) os)"
  shows "\<exists>db. open_db True e static path (opts\<lparr>createIfNeeded := True\<rparr>) names names1 names2 cwd os Absent = Inr db \<and>
           db_repr (sys_db (op_system db)) [] [] \<and> sys_files (op_system db) = [''lockfile'' \<mapsto> []] \<and>
           open_db True e static path (opts\<lparr>createIfNeeded := False\<rparr>) names names1 names2 cwd os Absent = Inl DatabaseNotFound"
proof -
  obtain l os1 where "tryLock (newLockFile (path @ ''/lockfile'')) os = (True, l, os1)"
    using assms(3) by (cases "tryLock (newLockFile (path @ ''/lockfile'')) os") auto
  note o = openImpl_empty [OF this assms(2), of e static "opts\<lparr>createIfNeeded := True\<rparr>" cwd]
  have "db_repr (open_state (e_rnd e) static path (opts\<lparr>createIfNeeded := True\<rparr>) []) [] []"
    using assms(1) by (simp add: fresh_repr)
  then show ?thesis using o by (simp add: open_db_def create_def openImpl_def checkValidDatabase_def)
qed

theorem open_creates_empty_witness:
  "\<exists>db. open_db True \<lparr>e_junk = \<lparr>j_stack = [], j_buffer = []\<rparr>, e_rnd = (\<lambda>i. 0), e_logId = 0, e_logSize = 0\<rparr> None ''db''
       ((mk_options True)\<lparr>createIfNeeded := True\<rparr>) [] [] [] Map.empty std_os Absent = Inr db \<and>
     db_repr (sys_db (op_system db)) [] [] \<and> sys_files (op_system db) = [''lockfile'' \<mapsto> []]"
proof -
  have "userKeyCompare (mk_options True) = None" "CHR ''.'' \<notin> set ''db''"
    "fst (tryLock (newLockFile (''db'' @ ''/lockfile'')) std_os)"
    by (simp_all add: std_os_lock mk_options_def)
  from open_creates_empty [OF this] show ?thesis by blast
qed

text \<open>C30. The lock of an open database is free: when \<^verbatim>\<open>openImpl\<close> returns, the table of open files is what it was
  before, so the lock is held by nobody although the database has a lock object that says it is locked, and
  trying the lock again succeeds.\<close>

theorem opened_database_unlocked:
  assumes "os_ok os" and "openImpl e static path opts names names1 names2 cwd os ps = Inr db"
  shows "lk_locked (op_lock db) \<and> op_os db = os \<and> fst (tryLock (newLockFile (path @ ''/lockfile'')) (op_os db))"
proof -
  obtain ok l os1 where t: "tryLock (newLockFile (path @ ''/lockfile'')) os = (ok, l, os1)"
    by (cases "tryLock (newLockFile (path @ ''/lockfile'')) os") auto
  then have "ok \<and> op_lock db = l \<and> op_os db = destroy l os1"
    using assms(2) by (auto simp: openImpl_def bind_res_eq_Inr Let_def split: path_state.splits if_splits prod.splits)
  then show ?thesis using tryLock_destroy [OF assms(1)] t by auto
qed

theorem opened_database_unlocked_witness:
  "\<exists>db. openImpl \<lparr>e_junk = \<lparr>j_stack = [], j_buffer = []\<rparr>, e_rnd = (\<lambda>i. 0), e_logId = 0, e_logSize = 0\<rparr> None ''db''
       (mk_options True) [] [''lockfile''] [''lockfile''] Map.empty std_os (Dir Map.empty) = Inr db \<and>
     lk_locked (op_lock db) \<and> op_os db = std_os \<and> fst (tryLock (newLockFile (''db'' @ ''/lockfile'')) (op_os db))"
proof -
  have "CHR ''.'' \<notin> set ''db''" by simp
  note o = openImpl_empty [OF std_os_lock [of "''db'' @ ''/lockfile''"] this, of
      "\<lparr>e_junk = \<lparr>j_stack = [], j_buffer = []\<rparr>, e_rnd = (\<lambda>i. 0), e_logId = 0, e_logSize = 0\<rparr>" None "mk_options True" Map.empty]
  show ?thesis using opened_database_unlocked [OF std_os_free(2) o] o by blast
qed

end
