(* ===== verification/Reopen.thy ===== *)
theory Reopen
  imports Lifecycle
begin

text \<open>
  Closing a database and opening it again, \<^verbatim>\<open>database.cpp\<close>. The lemmas: a close writes every memory segment and
  leaves a directory from which opening loads segments that show the same pairs; so does a directory in which
  a merge was interrupted after its files had their names. The theorems follow a database through a session
  of operations, a close and an open, and state what opening does with other files a crash leaves.
\<close>

section \<open>Closing\<close>

lemma scheduled_deleteScheduled: "scheduled (snd (deleteScheduled dl d)) = []"
  by (simp add: deleteScheduled_files scheduled_def)

lemma files_ok_deleted:
  assumes "files_ok d segs"
  shows "files_ok (snd (deleteScheduled dl d)) segs"
proof (rule files_okI)
  let ?d = "snd (deleteScheduled dl d)"
  have doomed: "\<forall>name \<in> set (scheduled d). \<not> live_file segs name" using assms unfolding files_ok_def by blast
  have "dom ?d \<subseteq> dom d" by (auto simp: deleteScheduled_files split: if_splits)
  then show "finite (dom ?d)" by (rule finite_subset) (use assms in \<open>simp add: files_ok_def\<close>)
  show "chain segs" using assms by (simp add: files_ok_def)
  fix s assume s: "s \<in> set segs"
  then have b: "file_backed d s" using assms by (simp add: files_ok_def)
  show "file_backed ?d s"
  proof (cases s)
    case (DiskSeg ds)
    then have "live_file segs (key_name (seg_ids (DiskSeg ds)))" "live_file segs (data_name (seg_ids (DiskSeg ds)))"
      using s unfolding live_file_def by blast+
    then have "key_name (seg_ids (DiskSeg ds)) \<notin> set (scheduled d)" "data_name (seg_ids (DiskSeg ds)) \<notin> set (scheduled d)"
      using doomed by blast+
    moreover have "key_name i \<noteq> ''deleted''" "data_name i \<noteq> ''deleted''" for i by (simp_all add: key_name_def data_name_def)
    ultimately show ?thesis using b DiskSeg by (simp add: on_disk_def deleteScheduled_files)
  qed (use b in simp_all)
next
  show "deleted_lines (snd (deleteScheduled dl d)) (scheduled (snd (deleteScheduled dl d)))"
    by (simp add: scheduled_deleteScheduled) (simp add: deleted_lines_def deleteScheduled_files)
next
  fix name assume n: "snd (deleteScheduled dl d) name \<noteq> None"
  then have "d name \<noteq> None" "name \<notin> set (scheduled d)" by (auto simp: deleteScheduled_files split: if_splits)
  moreover have "valid_name name \<and> \<not> is_tmp name \<and> (segment_file name \<longrightarrow> live_file segs name \<or> name \<in> set (scheduled d))"
    using assms \<open>d name \<noteq> None\<close> unfolding files_ok_def by blast
  ultimately show "valid_name name \<and> \<not> is_tmp name \<and>
      (segment_file name \<longrightarrow> live_file segs name \<or> name \<in> set (scheduled (snd (deleteScheduled dl d))))"
    by blast
qed (simp add: scheduled_deleteScheduled)

text \<open>A database in use: its runs, the newest last, and the directory that belongs to its segments.\<close>

definition session :: "system \<Rightarrow> keyvalue list list \<Rightarrow> keyvalue list \<Rightarrow> bool" where
  "session s rs r \<longleftrightarrow>
     db_shape seg_lists (sys_db s) rs r \<and> runs_fit (rs @ [r]) \<and> files_ok (sys_files s) (db_multi (sys_db s)) \<and>
     CHR ''.'' \<notin> set (db_path (sys_db s)) \<and> dl_path (sys_deleter s) \<noteq> ''''"

lemma runs_fit_ok:
  assumes "runs_fit rs" "list_all2 seg_lists segs rs"
  shows "\<forall>r \<in> set rs. run_ok r"
proof
  fix r assume "r \<in> set rs"
  then obtain xs ys where rs: "rs = xs @ [r] @ ys" by (auto dest: split_list)
  moreover have "sorted_kvs r \<and> keys_nonempty r" using list_all2_sorted [OF assms(2)] rs by simp
  ultimately have "run_ok (purged False (merge_runs [r]))"
    using run_ok_merge [of xs "[r]" ys False] assms(1) by simp
  moreover have "merge2 r [] = r" by (cases r) simp_all
  ultimately show "run_ok r" by (simp add: purged_def)
qed

text \<open>A close from the point where it has the lock of the database, up to its merge.\<close>

lemma close_merged:
  assumes "session s rs r"
  shows "\<exists>s2 s3 rs2. close_swap s = Inr s2 \<and> close_merge j kv_cmp n s2 = Inr s3 \<and> sys_ok s3 rs2 \<and>
           shown rs2 = shown (rs @ [r]) \<and> db_path (sys_db s3) = db_path (sys_db s) \<and>
           (solid (rs @ [r]) \<and> db_repr (sys_db s) rs r \<longrightarrow>
              solid rs2 \<and> list_all2 seg_repr (db_segments (sys_db s3)) rs2) \<and>
           (\<forall>b w. budget b w (db_multi (sys_db s)) (rs @ [r]) \<longrightarrow> budget b w (db_segments (sys_db s3)) rs2)"
proof -
  obtain m where m: "db_memory (sys_db s) = Some m" "seg_repr (MemSeg m) r"
    "list_all2 seg_lists (db_segments (sys_db s)) rs"
    using assms by (auto simp: session_def db_shape_def)
  let ?db = "(sys_db s)\<lparr>db_segments := copyAndAppend (db_segments (sys_db s)) (MemSeg m), db_memory := None\<rparr>"
  let ?s2 = "s\<lparr>sys_db := ?db\<rparr>"
  have swap: "close_swap s = Inr ?s2" using m(1) by (simp add: close_swap_def)
  have l1: "list_all2 seg_lists (db_segments ?db) (rs @ [r])"
    using m(2,3) seg_repr_lists by (auto simp: copyAndAppend_def intro: list_all2_appendI)
  then have ok: "sys_ok ?s2 (rs @ [r])"
    using assms m(1) by (simp add: session_def sys_ok_def db_multi_def)
  have multi: "db_multi (sys_db s) = db_segments ?db" using m(1) by (simp add: db_multi_def)
  have l2: "list_all2 seg_repr (db_segments ?db) (rs @ [r])" if "db_repr (sys_db s) rs r"
    using that m(1,2) by (auto simp: db_shape_def copyAndAppend_def intro: list_all2_appendI)
  show ?thesis
  proof (cases "n > 0")
    case True
    then have "1 \<le> n" by simp
    then obtain s3 rs2 where s3: "mergeSegments0 j kv_cmp n ?s2 = Some (Inr s3)" "sys_ok s3 rs2"
      "\<forall>k. shown rs2 k = shown (rs @ [r]) k" "sys_db s3 = ?db\<lparr>db_segments := db_segments (sys_db s3)\<rparr>"
      "solid (rs @ [r]) \<longrightarrow> solid rs2"
      "solid (rs @ [r]) \<and> list_all2 seg_repr (db_segments ?db) (rs @ [r]) \<longrightarrow> list_all2 seg_repr (db_segments (sys_db s3)) rs2"
      "\<forall>b w. budget b w (db_segments ?db) (rs @ [r]) \<longrightarrow> budget b w (db_segments (sys_db s3)) rs2"
      using mergeSegments0_ok [OF ok, of n j] by auto
    have "db_path (sys_db s3) = db_path (sys_db s)" using arg_cong [OF s3(4), of db_path] by simp
    then show ?thesis
      using swap s3 l2 True multi by (intro exI [of _ ?s2] exI [of _ s3] exI [of _ rs2]) (simp add: close_merge_def fun_eq_iff)
  next
    case False
    then show ?thesis
      using swap ok l2 multi by (intro exI [of _ ?s2] exI [of _ "rs @ [r]"]) (simp add: close_merge_def)
  qed
qed

text \<open>The whole of it: it leaves a directory whose segments show what the database showed.\<close>

lemma close_written:
  assumes "sys_ok s3 rs2"
  shows "\<exists>s4 segs rs'. close_write j kv_cmp s3 = Inr s4 \<and>
           \<not> db_open (sys_db (close_finish s4)) \<and> db_path (sys_db (close_finish s4)) = db_path (sys_db s3) \<and>
           list_all2 seg_lists segs rs' \<and> all_disk segs \<and> files_ok (sys_files (close_finish s4)) segs \<and>
           sys_files (close_finish s4) ''deleted'' = None \<and> shown rs' = shown rs2 \<and> set rs' \<subseteq> set rs2 \<and>
           (list_all2 seg_repr (db_segments (sys_db s3)) rs2 \<longrightarrow> list_all2 seg_repr segs rs') \<and>
           (\<forall>b w. budget b w (db_segments (sys_db s3)) rs2 \<longrightarrow> budget b w segs rs')"
proof -
  have ok2: "files_ok (sys_files s3) ([] @ db_segments (sys_db s3))" "list_all2 seg_lists (db_segments (sys_db s3)) rs2"
    "\<forall>r \<in> set rs2. run_ok r" "CHR ''.'' \<notin> set (db_path (sys_db s3))"
    using assms runs_fit_ok unfolding sys_ok_def by auto
  obtain d segs rs3 where w: "write_segments j kv_cmp (db_path (sys_db s3)) (db_segments (sys_db s3)) (sys_files s3) = Inr d"
    "files_ok d segs" "list_all2 seg_lists segs rs3" "all_disk segs" "\<forall>k. newest rs3 k = newest rs2 k" "set rs3 \<subseteq> set rs2"
    "list_all2 seg_repr (db_segments (sys_db s3)) rs2 \<longrightarrow> list_all2 seg_repr segs rs3"
    "seg_upperID ` set segs \<subseteq> seg_upperID ` set (db_segments (sys_db s3))" "\<forall>xs. runs_fit (xs @ rs2) \<longrightarrow> runs_fit (xs @ rs3)"
    using write_segments_ok [OF ok2, of j] by auto
  have bud: "budget b v segs rs3" if "budget b v (db_segments (sys_db s3)) rs2" for b v
    using that w(8) w(9) [rule_format, of "[v]"] unfolding budget_def by force
  let ?s4 = "s3\<lparr>sys_files := d\<rparr>"
  let ?del = "deleteScheduled (sys_deleter s3) d"
  have fin: "close_finish ?s4 = ?s4\<lparr>sys_db := (sys_db s3)\<lparr>db_open := False\<rparr>, sys_deleter := fst ?del, sys_files := snd ?del\<rparr>"
    by (simp add: close_finish_def split: prod.splits)
  have wr: "close_write j kv_cmp s3 = Inr ?s4" using w(1) by (simp add: close_write_def)
  have sh: "shown rs3 = shown rs2" using w(5) by (simp add: fun_eq_iff shown_def)
  have "snd ?del ''deleted'' = None" by (simp add: deleteScheduled_files)
  then show ?thesis
    using wr w(3,4,6,7) bud files_ok_deleted [OF w(2), of "sys_deleter s3"] sh
    by (intro exI [of _ ?s4] exI [of _ segs] exI [of _ rs3]) (simp add: fin)
qed

lemma close_rest_ok:
  assumes "session s rs r"
  shows "\<exists>s2 s3 s4 segs rs'. close_swap s = Inr s2 \<and> close_merge j kv_cmp n s2 = Inr s3 \<and> close_write j kv_cmp s3 = Inr s4 \<and>
           \<not> db_open (sys_db (close_finish s4)) \<and> db_path (sys_db (close_finish s4)) = db_path (sys_db s) \<and>
           list_all2 seg_lists segs rs' \<and> all_disk segs \<and> files_ok (sys_files (close_finish s4)) segs \<and>
           sys_files (close_finish s4) ''deleted'' = None \<and> shown rs' = shown (rs @ [r]) \<and>
           (solid (rs @ [r]) \<and> db_repr (sys_db s) rs r \<longrightarrow> list_all2 seg_repr segs rs' \<and> no_removed rs')"
proof -
  obtain s2 s3 rs2 where s3: "close_swap s = Inr s2" "close_merge j kv_cmp n s2 = Inr s3" "sys_ok s3 rs2"
    "shown rs2 = shown (rs @ [r])" "db_path (sys_db s3) = db_path (sys_db s)"
    "solid (rs @ [r]) \<and> db_repr (sys_db s) rs r \<longrightarrow> solid rs2 \<and> list_all2 seg_repr (db_segments (sys_db s3)) rs2"
    using close_merged [OF assms, of j n] by blast
  obtain s4 segs rs' where w: "close_write j kv_cmp s3 = Inr s4"
    "\<not> db_open (sys_db (close_finish s4))" "db_path (sys_db (close_finish s4)) = db_path (sys_db s3)"
    "list_all2 seg_lists segs rs'" "all_disk segs" "files_ok (sys_files (close_finish s4)) segs"
    "sys_files (close_finish s4) ''deleted'' = None" "shown rs' = shown rs2" "set rs' \<subseteq> set rs2"
    "list_all2 seg_repr (db_segments (sys_db s3)) rs2 \<longrightarrow> list_all2 seg_repr segs rs'"
    using close_written [OF s3(3), of j] by blast
  have "list_all2 seg_repr segs rs' \<and> no_removed rs'" if "solid (rs @ [r])" "db_repr (sys_db s) rs r"
    using s3(6) that w(9,10) unfolding solid_def no_removed_def by blast
  then show ?thesis
    using s3(1,2,4,5) w(1-8) by (intro exI [of _ s2] exI [of _ s3] exI [of _ s4] exI [of _ segs] exI [of _ rs']) simp
qed

lemma session_request:
  assumes "session s rs r"
  shows "\<exists>s1. close_request s = Inr s1 \<and> session s1 rs r \<and> db_path (sys_db s1) = db_path (sys_db s) \<and>
           (db_repr (sys_db s) rs r \<longrightarrow> db_repr (sys_db s1) rs r)"
  using assms by (auto simp: session_def close_request_def db_shape_def db_multi_def)

lemma closeWithMerge_ok:
  assumes "session s rs r"
  shows "\<exists>s' segs rs'. closeWithMerge j kv_cmp n s = Inr s' \<and> \<not> db_open (sys_db s') \<and>
           db_path (sys_db s') = db_path (sys_db s) \<and> list_all2 seg_lists segs rs' \<and> all_disk segs \<and>
           files_ok (sys_files s') segs \<and> sys_files s' ''deleted'' = None \<and> shown rs' = shown (rs @ [r]) \<and>
           (solid (rs @ [r]) \<and> db_repr (sys_db s) rs r \<longrightarrow> list_all2 seg_repr segs rs' \<and> no_removed rs')"
proof -
  obtain s1 where s1: "close_request s = Inr s1" "session s1 rs r" "db_path (sys_db s1) = db_path (sys_db s)"
    "db_repr (sys_db s) rs r \<longrightarrow> db_repr (sys_db s1) rs r"
    using session_request [OF assms] by blast
  obtain s2 s3 s4 segs rs' where c: "close_swap s1 = Inr s2" "close_merge j kv_cmp n s2 = Inr s3" "close_write j kv_cmp s3 = Inr s4"
    "\<not> db_open (sys_db (close_finish s4))" "db_path (sys_db (close_finish s4)) = db_path (sys_db s1)"
    "list_all2 seg_lists segs rs'" "all_disk segs" "files_ok (sys_files (close_finish s4)) segs"
    "sys_files (close_finish s4) ''deleted'' = None" "shown rs' = shown (rs @ [r])"
    "solid (rs @ [r]) \<and> db_repr (sys_db s1) rs r \<longrightarrow> list_all2 seg_repr segs rs' \<and> no_removed rs'"
    using close_rest_ok [OF s1(2), of j n] by blast
  have "closeWithMerge j kv_cmp n s = Inr (close_finish s4)" using s1(1) c(1-3) by (simp add: closeWithMerge_def)
  then show ?thesis
    using c s1(3,4) by (intro exI [of _ "close_finish s4"] exI [of _ segs] exI [of _ rs']) simp
qed

section \<open>Opening\<close>

text \<open>
  A directory from which the segments \<open>segs\<close> are loaded. Beside their files it may hold files the deleter has
  not removed yet, and segments contained in one of \<open>segs\<close>: a merge was interrupted before it told the deleter.
\<close>

definition leftover :: "directory \<Rightarrow> segment list \<Rightarrow> string \<Rightarrow> bool" where
  "leftover d segs name \<longleftrightarrow>
     (\<exists>ds r. name = key_name (seg_ids (DiskSeg ds)) \<and> seg_lists (DiskSeg ds) r \<and> on_disk d ds \<and>
        data_name (seg_ids (DiskSeg ds)) \<notin> set (scheduled d) \<and> (\<exists>t \<in> set segs. contained (DiskSeg ds) t))"

definition openable :: "directory \<Rightarrow> segment list \<Rightarrow> bool" where
  "openable d segs \<longleftrightarrow>
     finite (dom d) \<and> chain segs \<and> all_disk segs \<and> (\<forall>s \<in> set segs. file_backed d s) \<and>
     (\<forall>name \<in> set (scheduled d). \<not> live_file segs name) \<and>
     (\<forall>name. d name \<noteq> None \<longrightarrow> valid_name name \<and> \<not> is_tmp name \<and>
        (has_prefix ''keys.'' name \<longrightarrow> live_file segs name \<or> name \<in> set (scheduled d) \<or> leftover d segs name))"

lemma files_ok_openable: "files_ok d segs \<Longrightarrow> all_disk segs \<Longrightarrow> openable d segs"
  unfolding files_ok_def openable_def by (simp add: segment_file_def) blast

lemma openable_name:
  assumes "openable d segs" "d name \<noteq> None"
  shows "valid_name name \<and> \<not> is_tmp name \<and>
    (has_prefix ''keys.'' name \<longrightarrow> live_file segs name \<or> name \<in> set (scheduled d) \<or> leftover d segs name)"
  using assms(1) unfolding openable_def by (elim conjE) (erule allE, erule mp, rule assms(2))

text \<open>The directory when the segments are loaded: the lock file is there, the scheduled files are gone.\<close>

definition opened_dir :: "directory \<Rightarrow> directory" where
  "opened_dir d =
     snd (deleteScheduled \<lparr>dl_path = [], dl_open = False\<rparr> (if d ''lockfile'' = None then d(''lockfile'' \<mapsto> []) else d))"

lemma opened_dir_file:
  "opened_dir d name =
     (if name = ''deleted'' \<or> name \<in> set (scheduled d) then None
      else if name = ''lockfile'' \<and> d name = None then Some [] else d name)"
  by (auto simp: opened_dir_def deleteScheduled_files scheduled_def)

lemma openable_files:
  assumes "openable d segs" "DiskSeg ds \<in> set segs \<or> leftover d segs (key_name (seg_ids (DiskSeg ds)))" "on_disk d ds"
    and "key_name (seg_ids (DiskSeg ds)) \<notin> set (scheduled d)" "data_name (seg_ids (DiskSeg ds)) \<notin> set (scheduled d)"
  shows "on_disk (opened_dir d) ds"
proof -
  have "key_name i \<noteq> ''deleted''" "data_name i \<noteq> ''deleted''" "key_name i \<noteq> ''lockfile''" "data_name i \<noteq> ''lockfile''" for i
    by (simp_all add: key_name_def data_name_def)
  then show ?thesis using assms(3-5) by (simp add: on_disk_def opened_dir_file)
qed

text \<open>Two disk segments with the same files are the same.\<close>

lemma on_disk_unique:
  assumes "on_disk d ds" "on_disk d ds'" "seg_ids (DiskSeg ds) = seg_ids (DiskSeg ds')"
    and "seg_lists (DiskSeg ds) r" "seg_lists (DiskSeg ds') r'"
  shows "ds = ds'"
proof -
  have eq: "ds_names ds = ds_names ds'" "ds_keyFile ds = ds_keyFile ds'" "ds_dataFile ds = ds_dataFile ds'"
    "ds_lowerID ds = ds_lowerID ds'" "ds_upperID ds = ds_upperID ds'"
    using assms(1-3) by (simp_all add: on_disk_def seg_ids_def)
  show ?thesis
    using newDiskSegment_again [OF assms(4)] unfolding eq newDiskSegment_again [OF assms(5)] by (simp only: sum.inject)
qed

lemma loadDiskSegments_ok:
  assumes "openable d segs" "list_all2 seg_lists segs rs" "CHR ''.'' \<notin> set dbpath"
    and "set names1 = dom (opened_dir d)" "set names2 = dom (opened_dir d)" "distinct names2"
  shows "loadDiskSegments e cmp dbpath opts names1 names2 (opened_dir d) cwd = Inr (segs, cwd)"
proof -
  let ?d = "opened_dir d"
  have dir: "valid_name name \<and> \<not> is_tmp name \<and>
      (has_prefix ''keys.'' name \<longrightarrow> live_file segs name \<or> leftover d segs name)" if "?d name \<noteq> None" for name
  proof (cases "name = ''lockfile''")
    case False
    then have "d name \<noteq> None" "name \<notin> set (scheduled d)" using that by (auto simp: opened_dir_file split: if_splits)
    then show ?thesis using openable_name [OF assms(1), of name] by simp
  qed (simp add: valid_name_def has_prefix_def)
  have live: "on_disk ?d ds \<and> (\<exists>r. seg_lists (DiskSeg ds) r)" if s: "DiskSeg ds \<in> set segs" for ds
  proof -
    have "on_disk d ds" using assms(1) s unfolding openable_def by fastforce
    moreover have "live_file segs (key_name (seg_ids (DiskSeg ds)))" "live_file segs (data_name (seg_ids (DiskSeg ds)))"
      using s unfolding live_file_def by blast+
    then have "key_name (seg_ids (DiskSeg ds)) \<notin> set (scheduled d)" "data_name (seg_ids (DiskSeg ds)) \<notin> set (scheduled d)"
      using assms(1) unfolding openable_def by blast+
    ultimately have "on_disk ?d ds" using openable_files [OF assms(1)] s by blast
    moreover obtain i where "i < length segs" "segs ! i = DiskSeg ds" using s by (auto simp: in_set_conv_nth)
    ultimately show ?thesis using list_all2_nthD [OF assms(2), of i] by auto
  qed
  have files: "\<exists>ds r. name = key_name (seg_ids (DiskSeg ds)) \<and> seg_lists (DiskSeg ds) r \<and> on_disk ?d ds \<and>
      (\<exists>t \<in> set segs. contained (DiskSeg ds) t)"
    if n: "name \<in> set names2" "has_prefix ''keys.'' name" for name
  proof -
    have in': "?d name \<noteq> None" using n(1) assms(5) by auto
    then consider "live_file segs name" | "leftover d segs name" using dir n(2) by blast
    then show ?thesis
    proof cases
      case 1
      then obtain ds where ds: "DiskSeg ds \<in> set segs" "name \<in> {key_name (seg_ids (DiskSeg ds)), data_name (seg_ids (DiskSeg ds))}"
        unfolding live_file_def by blast
      then have "name = key_name (seg_ids (DiskSeg ds))" using n(2) by auto
      moreover have "contained (DiskSeg ds) (DiskSeg ds)" by (simp add: contained_def)
      ultimately show ?thesis using live [OF ds(1)] ds(1) by blast
    next
      case 2
      then obtain ds r where ds: "name = key_name (seg_ids (DiskSeg ds))" "seg_lists (DiskSeg ds) r" "on_disk d ds"
        "data_name (seg_ids (DiskSeg ds)) \<notin> set (scheduled d)" "\<exists>t \<in> set segs. contained (DiskSeg ds) t"
        unfolding leftover_def by blast
      have "name \<notin> set (scheduled d)" using in' by (auto simp: opened_dir_file)
      then have "on_disk ?d ds" using openable_files [OF assms(1) _ ds(3) _ ds(4)] 2 ds(1) by blast
      then show ?thesis using ds(1,2,5) by blast
    qed
  qed
  obtain dss where dss: "load_files e cmp dbpath opts ?d names2 = Inr (map DiskSeg dss)"
    "map (\<lambda>ds. key_name (seg_ids (DiskSeg ds))) dss = filter (has_prefix ''keys.'') names2"
    "\<forall>ds \<in> set dss. on_disk ?d ds \<and> (\<exists>r. seg_lists (DiskSeg ds) r)"
    using load_files_ok [OF assms(3), of names2 ?d e cmp opts] files by blast
  have same: "ds = ds'" if "ds \<in> set dss" "seg_ids (DiskSeg ds) = seg_ids (DiskSeg ds')" "on_disk ?d ds'" "seg_lists (DiskSeg ds') r"
    for ds ds' r
    using on_disk_unique that dss(3) by blast
  have tmp: "remove_tmp_files names1 cwd = Inr cwd"
  proof -
    have "\<forall>name \<in> set names1. \<not> is_tmp name" using dir assms(4) by blast
    then show ?thesis by (induction names1) simp_all
  qed
  have "remove_contained (sort_key seg_ids (map DiskSeg dss)) = segs"
  proof (rule load_order)
    show "chain segs" using assms(1) by (simp add: openable_def)
    show "set segs \<subseteq> set (map DiskSeg dss)"
    proof
      fix s assume s: "s \<in> set segs"
      then obtain ds where ds: "s = DiskSeg ds" using assms(1) unfolding openable_def by blast
      obtain r where l: "on_disk ?d ds" "seg_lists (DiskSeg ds) r" using live s ds by blast
      then have "key_name (seg_ids (DiskSeg ds)) \<in> set (filter (has_prefix ''keys.'') names2)"
        using assms(5) by (auto simp: on_disk_def)
      then obtain ds' where "ds' \<in> set dss" "seg_ids (DiskSeg ds') = seg_ids (DiskSeg ds)"
        unfolding dss(2) [symmetric] by auto
      then show "s \<in> set (map DiskSeg dss)" using same [OF _ _ l] ds by auto
    qed
    have "distinct (map (\<lambda>ds. key_name (seg_ids (DiskSeg ds))) dss)" unfolding dss(2) using assms(6) by simp
    then show "distinct (map seg_ids (map DiskSeg dss))" by (auto simp: distinct_map inj_on_def)
    fix s assume "s \<in> set (map DiskSeg dss)" "s \<notin> set segs"
    then obtain ds where ds: "s = DiskSeg ds" "ds \<in> set dss" by auto
    then have "key_name (seg_ids (DiskSeg ds)) \<in> set (filter (has_prefix ''keys.'') names2)"
      unfolding dss(2) [symmetric] by auto
    then obtain ds' r where ds': "key_name (seg_ids (DiskSeg ds)) = key_name (seg_ids (DiskSeg ds'))"
      "seg_lists (DiskSeg ds') r" "on_disk ?d ds'" "\<exists>t \<in> set segs. contained (DiskSeg ds') t"
      using files by fastforce
    then have "ds = ds'" using same [OF ds(2) _ ds'(3,2)] by simp
    then show "\<exists>t \<in> set segs. contained s t" using ds'(4) ds(1) by blast
  qed
  then show ?thesis using tmp dss(1) by (simp add: loadDiskSegments_def)
qed

lemma openImpl_ok:
  assumes "openable d segs" "list_all2 seg_lists segs rs" "CHR ''.'' \<notin> set path"
    and "set names = dom d" "set names1 = dom (opened_dir d)" "set names2 = dom (opened_dir d)" "distinct names2"
    and "fst (tryLock (newLockFile (path @ ''/lockfile'')) os)"
  shows "\<exists>db. openImpl e static path opts names names1 names2 cwd os (Dir d) = Inr db \<and>
           sys_db (op_system db) = open_state (e_rnd e) static path opts segs \<and>
           sys_files (op_system db) = opened_dir d \<and> dl_path (sys_deleter (op_system db)) = path \<and> op_cwd db = cwd"
proof -
  have "\<forall>name \<in> set names. valid_name name" using openable_name [OF assms(1)] assms(4) by auto
  then have v: "checkValidDatabase (Dir d) names = Inr ()" by (simp add: checkValidDatabase_def)
  obtain lk os1 where lk: "tryLock (newLockFile (path @ ''/lockfile'')) os = (True, lk, os1)"
    using assms(8) by (cases "tryLock (newLockFile (path @ ''/lockfile'')) os") auto
  have d: "deleteScheduled \<lparr>dl_path = path, dl_open = False\<rparr> (if d ''lockfile'' = None then d(''lockfile'' \<mapsto> []) else d) =
      (\<lparr>dl_path = path, dl_open = False\<rparr>, opened_dir d)"
    unfolding opened_dir_def by (simp add: deleteScheduled_def Let_def)
  show ?thesis
    unfolding openImpl_def v
    using lk loadDiskSegments_ok [OF assms(1-3,5-7), of e "fst (keyValueCompare static (raise_options opts))" "raise_options opts" cwd]
    by (simp add: Let_def d [simplified])
qed

end
