(* ===== verification/Session.thy ===== *)
theory Session
  imports Reopen
begin

text \<open>
  A database through a session: the ids of its segments and the files of its directory under the operations,
  with merges beside them, and from there through a close and an open.
\<close>

section \<open>Segment ids\<close>

text \<open>The memory segment has the last id given out, and the ids of the segments are in order.\<close>

definition ids_ok :: "database \<Rightarrow> bool" where
  "ids_ok db \<longleftrightarrow> chain (db_multi db) \<and> (\<exists>m. db_memory db = Some m \<and> ms_id m = db_nextSegID db)"

text \<open>What an operation does to the segments.\<close>

definition grown :: "database \<Rightarrow> database \<Rightarrow> bool" where
  "grown db db' \<longleftrightarrow>
     db_path db' = db_path db \<and>
     (\<exists>m m'. db_memory db = Some m \<and> db_memory db' = Some m' \<and>
        (db_segments db' = db_segments db \<and> ms_id m' = ms_id m \<and> db_nextSegID db' = db_nextSegID db \<or>
         db_segments db' = db_segments db @ [MemSeg m] \<and> ms_id m' = db_nextSegID db + 1 \<and>
         db_nextSegID db' = db_nextSegID db + 1))"

lemma new_memory_ids:
  assumes "new_memory rnd db = (m, db1)"
  shows "ms_id m = db_nextSegID db + 1" "db_nextSegID db1 = db_nextSegID db + 1" "db_path db1 = db_path db"
    "db_segments db1 = db_segments db"
  using assms by (auto simp: new_memory_def nextSegmentID_def newMemorySegment_def Let_def split: prod.splits)

lemma maybeSwapMemory_grown:
  assumes "maybeSwapMemory rnd db = Inr db'"
  shows "grown db db'"
  using assms new_memory_ids [of rnd db]
  by (cases "new_memory rnd db")
     (auto simp: maybeSwapMemory_def Let_def bind_res_eq_Inr access_eq_Inr copyAndAppend_def grown_def split: if_splits prod.splits)

lemma snapshot_grown:
  assumes "db_snapshot rnd db = Inr (sn, db')"
  shows "grown db db'"
  using assms new_memory_ids [of rnd db]
  by (cases "new_memory rnd db")
     (auto simp: db_snapshot_def Let_def bind_res_eq_Inr access_eq_Inr copyAndAppend_def grown_def split: if_splits prod.splits)

text \<open>Writing to the memory segment keeps its id.\<close>

lemma grown_memory:
  assumes "grown db db1" "db_memory db1 = Some m" "ms_id m' = ms_id m"
  shows "grown db (maybeMerge (db1\<lparr>db_memory := Some m'\<rparr>))"
  using assms by (auto simp: grown_def maybeMerge_def)

lemma maybeCreate_id: "ms_id (maybeCreateLogFile m) = ms_id m"
  by (simp add: maybeCreateLogFile_def)

lemma ms_write_loop_id: "ms_write_loop m kvs = Inr m' \<Longrightarrow> ms_id m' = ms_id m"
  by (induction m kvs rule: ms_write_loop.induct) (fastforce simp: bind_res_eq_Inr split: prod.splits)+

lemma ms_write_id: "ms_write m b = Inr m' \<Longrightarrow> ms_id m' = ms_id m"
  by (auto simp: ms_write_def Let_def bind_res_eq_Inr maybeCreate_id dest!: ms_write_loop_id)

lemma perform_grown:
  assumes "perform j rnd db a = Inr db'" "db_memory db \<noteq> None"
  shows "grown db db'"
proof (cases a)
  case (Put k v)
  obtain db1 m x m' where "maybeSwapMemory rnd db = Inr db1" "db_memory db1 = Some m" "ms_put m k v = Inr (x, m')"
    "db' = maybeMerge (db1\<lparr>db_memory := Some m'\<rparr>)"
    using assms(1) Put by (auto simp: db_put_def bind_res_eq_Inr access_eq_Inr split: if_splits)
  then show ?thesis using grown_memory [OF maybeSwapMemory_grown] ms_put_id by blast
next
  case (Remove k)
  then obtain old where rem: "db_remove j rnd db k = Inr (old, db')" using assms(1) by (auto simp: bind_res_eq_Inr)
  show ?thesis
  proof (cases "old = []")
    case True
    then have "db' = db"
      using rem by (auto simp: db_remove_def bind_res_eq_Inr split: if_splits)
    then show ?thesis using assms(2) by (auto simp: grown_def)
  next
    case False
    then obtain db1 m x m' where "maybeSwapMemory rnd db = Inr db1" "db_memory db1 = Some m" "ms_put m k [] = Inr (x, m')"
      "db' = maybeMerge (db1\<lparr>db_memory := Some m'\<rparr>)"
      using rem by (auto simp: db_remove_def ms_remove_def bind_res_eq_Inr access_eq_Inr split: if_splits)
    then show ?thesis using grown_memory [OF maybeSwapMemory_grown] ms_put_id by blast
  qed
next
  case (Write b)
  obtain db1 m m' where "maybeSwapMemory rnd db = Inr db1" "db_memory db1 = Some m" "ms_write m b = Inr m'"
    "db' = maybeMerge (db1\<lparr>db_memory := Some m'\<rparr>)"
    using assms(1) Write by (auto simp: db_write_def bind_res_eq_Inr access_eq_Inr split: if_splits)
  then show ?thesis using grown_memory [OF maybeSwapMemory_grown] ms_write_id by blast
next
  case Snap
  then show ?thesis using assms(1) snapshot_grown by (auto simp: bind_res_eq_Inr)
qed

lemma chain_snoc: "chain (segs @ [s]) \<longleftrightarrow>
    chain segs \<and> seg_lowerID s \<le> seg_upperID s \<and> (\<forall>t \<in> set segs. seg_upperID t < seg_lowerID s)"
  by (auto simp: chain_def sorted_wrt_append)

lemma next_less: "x < (- 1 :: u64) \<Longrightarrow> x < x + 1"
proof -
  assume "x < (- 1 :: u64)"
  then have "unat x < unat (- 1 :: u64)" by (simp only: word_less_nat_alt)
  then have "unat x < 2 ^ 64 - 1" by (simp add: unsigned_minus_1_eq_mask mask_eq_exp_minus_1)
  then show "x < x + 1" by (simp add: word_less_nat_alt unat_word_ariths)
qed

lemma grown_ids:
  assumes "grown db db'" "ids_ok db" "db_nextSegID db < - 1"
  shows "ids_ok db'"
proof -
  obtain m m' where m: "db_memory db = Some m" "db_memory db' = Some m'" "ms_id m = db_nextSegID db"
    "db_segments db' = db_segments db \<and> ms_id m' = ms_id m \<and> db_nextSegID db' = db_nextSegID db \<or>
     db_segments db' = db_segments db @ [MemSeg m] \<and> ms_id m' = db_nextSegID db + 1 \<and>
     db_nextSegID db' = db_nextSegID db + 1"
    using assms(1,2) unfolding grown_def ids_ok_def by fastforce
  have c: "chain (db_segments db @ [MemSeg m])"
    using assms(2) m(1) by (simp add: ids_ok_def db_multi_def copyAndAppend_def)
  have lt: "db_nextSegID db < db_nextSegID db + 1" by (rule next_less [OF assms(3)])
  have "chain (db_segments db' @ [MemSeg m'])"
    using m(4)
  proof
    assume "db_segments db' = db_segments db \<and> ms_id m' = ms_id m \<and> db_nextSegID db' = db_nextSegID db"
    then show ?thesis using c by (simp add: chain_snoc)
  next
    assume n: "db_segments db' = db_segments db @ [MemSeg m] \<and> ms_id m' = db_nextSegID db + 1 \<and>
      db_nextSegID db' = db_nextSegID db + 1"
    have "seg_upperID t < db_nextSegID db + 1" if "t \<in> set (db_segments db @ [MemSeg m])" for t
    proof -
      have "seg_upperID t \<le> ms_id m" using that c by (auto simp: chain_snoc intro: less_imp_le)
      then show ?thesis using lt m(3) by (auto intro: le_less_trans)
    qed
    then have "chain ((db_segments db @ [MemSeg m]) @ [MemSeg m'])"
      unfolding chain_snoc [of "db_segments db @ [MemSeg m]"] using n c by simp
    then show ?thesis using n by simp
  qed
  then show ?thesis using m by (auto simp: ids_ok_def db_multi_def copyAndAppend_def)
qed

section \<open>The files of the directory\<close>

text \<open>The directory belongs to the disk segments; adding and changing memory segments does not concern it.\<close>

lemma disk_files_cong:
  assumes "\<forall>ds. DiskSeg ds \<in> set segs \<longleftrightarrow> DiskSeg ds \<in> set segs'"
  shows "live_file segs = live_file segs'" "stale_file segs = stale_file segs'"
  using assms by (auto simp: fun_eq_iff live_file_def stale_file_def)

lemma files_ok_memory:
  assumes "files_ok d segs" "chain segs'" "\<forall>s \<in> set segs'. s \<in> set segs \<or> is_memory s"
    and "\<forall>s \<in> set segs. s \<in> set segs' \<or> is_memory s"
  shows "files_ok d segs'"
proof -
  have "\<forall>ds. DiskSeg ds \<in> set segs \<longleftrightarrow> DiskSeg ds \<in> set segs'" using assms(3,4) by fastforce
  note disk_files_cong [OF this]
  moreover have "file_backed d s" if s: "s \<in> set segs'" for s
  proof -
    have "s \<in> set segs \<or> is_memory s" using assms(3) s by blast
    then show ?thesis using assms(1) by (cases s) (auto simp: files_ok_def)
  qed
  ultimately show ?thesis using assms(1,2) unfolding files_ok_def by simp
qed

text \<open>The segments once the merge under way is committed.\<close>

definition committed :: "merge_job option \<Rightarrow> segment list \<Rightarrow> segment list" where
  "committed p segs =
     (case p of None \<Rightarrow> segs
      | Some job \<Rightarrow> take (mj_start job) segs @ DiskSeg (mj_seg job) # drop (mj_start job + length (mj_group job)) segs)"

definition files_inv :: "system \<times> merge_job option \<Rightarrow> bool" where
  "files_inv sp \<longleftrightarrow>
     ids_ok (sys_db (fst sp)) \<and> files_ok (sys_files (fst sp)) (committed (snd sp) (db_multi (sys_db (fst sp)))) \<and>
     CHR ''.'' \<notin> set (db_path (sys_db (fst sp))) \<and> dl_path (sys_deleter (fst sp)) \<noteq> ''''"

text \<open>A merge under way lies within the segments.\<close>

definition job_fits :: "merge_job option \<Rightarrow> segment list \<Rightarrow> bool" where
  "job_fits p segs \<longleftrightarrow> (\<forall>job. p = Some job \<longrightarrow> mj_start job + length (mj_group job) \<le> length segs)"

lemma committed_append: "job_fits p segs \<Longrightarrow> committed p (segs @ ys) = committed p segs @ ys"
  by (auto simp: job_fits_def committed_def split: option.splits)

lemma sys_inv_fits: "sys_inv f w (s, p) \<Longrightarrow> job_fits p (db_segments (sys_db s))"
  by (auto simp: sys_inv_def job_fits_def job_ok_def)

lemma grown_files:
  assumes "grown db db'" "ids_ok db" "db_nextSegID db < - 1" "db_memory db = Some m" "files_ok d (xs @ [MemSeg m])"
  shows "\<exists>new m'. db_memory db' = Some m' \<and> db_segments db' = db_segments db @ new \<and> files_ok d (xs @ new @ [MemSeg m'])"
proof -
  obtain m' where m: "db_memory db' = Some m'"
    "db_segments db' = db_segments db \<and> ms_id m' = ms_id m \<or>
     db_segments db' = db_segments db @ [MemSeg m] \<and> ms_id m' = db_nextSegID db + 1"
    using assms(1,4) unfolding grown_def by auto
  have id: "ms_id m = db_nextSegID db" using assms(2,4) by (auto simp: ids_ok_def)
  have lt: "ms_id m < db_nextSegID db + 1" using next_less [OF assms(3)] id by simp
  have c: "chain (xs @ [MemSeg m])" using assms(5) by (simp add: files_ok_def)
  show ?thesis
    using m(2)
  proof
    assume same: "db_segments db' = db_segments db \<and> ms_id m' = ms_id m"
    then have "chain (xs @ [MemSeg m'])" using c by (simp add: chain_snoc)
    then have "files_ok d (xs @ [MemSeg m'])" by (rule files_ok_memory [OF assms(5)]) auto
    then show ?thesis using m(1) same by (intro exI [of _ "[]"] exI [of _ m']) simp
  next
    assume more: "db_segments db' = db_segments db @ [MemSeg m] \<and> ms_id m' = db_nextSegID db + 1"
    have "\<forall>t \<in> set (xs @ [MemSeg m]). seg_upperID t < ms_id m'"
      using c lt more by (auto simp: chain_snoc intro: less_trans)
    then have "chain ((xs @ [MemSeg m]) @ [MemSeg m'])"
      using c unfolding chain_snoc [of "xs @ [MemSeg m]"] by simp
    then have "files_ok d ((xs @ [MemSeg m]) @ [MemSeg m'])" by (rule files_ok_memory [OF assms(5)]) auto
    then show ?thesis using m(1) more by (intro exI [of _ "[MemSeg m]"] exI [of _ m']) simp
  qed
qed

lemma files_inv_client:
  assumes "files_inv (s, p)" "grown (sys_db s) db" "db_nextSegID (sys_db s) < - 1" "job_fits p (db_segments (sys_db s))"
  shows "files_inv (s\<lparr>sys_db := db\<rparr>, p)"
proof -
  obtain m where m: "db_memory (sys_db s) = Some m" using assms(2) by (auto simp: grown_def)
  have ids: "ids_ok (sys_db s)" and
    f: "files_ok (sys_files s) (committed p (db_segments (sys_db s)) @ [MemSeg m])"
    using assms(1) m committed_append [OF assms(4)] by (simp_all add: files_inv_def db_multi_def copyAndAppend_def)
  obtain new m' where n: "db_memory db = Some m'" "db_segments db = db_segments (sys_db s) @ new"
    "files_ok (sys_files s) (committed p (db_segments (sys_db s)) @ new @ [MemSeg m'])"
    using grown_files [OF assms(2) ids assms(3) m f] by blast
  have "ids_ok db" by (rule grown_ids [OF assms(2) ids assms(3)])
  moreover have "db_path db = db_path (sys_db s)" using assms(2) by (simp add: grown_def)
  ultimately show ?thesis
    using assms(1) n committed_append [OF assms(4)] by (simp add: files_inv_def db_multi_def copyAndAppend_def)
qed

lemma files_inv_ok:
  assumes "files_inv (s, None)" "list_all2 seg_lists (db_segments (sys_db s)) rs" "runs_fit rs"
  shows "sys_ok s rs"
proof -
  obtain m where m: "db_memory (sys_db s) = Some m" using assms(1) by (auto simp: files_inv_def ids_ok_def)
  have f: "files_ok (sys_files s) (db_segments (sys_db s) @ [MemSeg m])"
    using assms(1) m by (simp add: files_inv_def committed_def db_multi_def copyAndAppend_def)
  then have "chain (db_segments (sys_db s) @ [MemSeg m])" by (simp add: files_ok_def)
  then have "files_ok (sys_files s) (db_segments (sys_db s))" by (intro files_ok_memory [OF f]) (simp_all add: chain_append)
  then show ?thesis using assms by (simp add: sys_ok_def files_inv_def)
qed

lemma files_inv_begin:
  assumes "files_inv (s, None)" "list_all2 seg_lists (db_segments (sys_db s)) rs" "runs_fit rs"
    and "2 \<le> length (db_segments (sys_db s))" "merge_begin j kv_cmp s = Inr (job, s')"
  shows "files_inv (s', Some job)"
proof -
  obtain m where m: "db_memory (sys_db s) = Some m" using assms(1) by (auto simp: files_inv_def ids_ok_def)
  let ?segs = "db_segments (sys_db s)"
  have "files_ok (sys_files s) (?segs @ [MemSeg m])"
    using assms(1) m by (simp add: files_inv_def committed_def db_multi_def copyAndAppend_def)
  then have c: "chain (?segs @ [MemSeg m])" by (simp add: files_ok_def)
  note ok = files_inv_ok [OF assms(1-3)]
  obtain pre post where b: "sys_db s' = sys_db s" "dl_path (sys_deleter s') = dl_path (sys_deleter s)"
    "?segs = pre @ mj_group job @ post" "length pre = mj_start job" "2 \<le> length (mj_group job)"
    "files_ok (sys_files s') (pre @ DiskSeg (mj_seg job) # post)"
    "seg_ids (DiskSeg (mj_seg job)) = IDS (seg_lowerID (hd (mj_group job))) (seg_upperID (last (mj_group job)))"
    using merge_begin_ok [OF ok assms(4), of j] assms(5) by auto
  have "mj_group job \<noteq> []" using b(5) by auto
  then have "chain (pre @ DiskSeg (mj_seg job) # (post @ [MemSeg m]))"
    using chain_merge [of pre "mj_group job" "post @ [MemSeg m]" "DiskSeg (mj_seg job)"] c b(3,7) by simp
  then have "files_ok (sys_files s') (pre @ DiskSeg (mj_seg job) # (post @ [MemSeg m]))"
    by (rule files_ok_memory [OF b(6)]) auto
  moreover have "committed (Some job) (db_multi (sys_db s)) = pre @ DiskSeg (mj_seg job) # (post @ [MemSeg m])"
    using m b(3,4) by (simp add: committed_def db_multi_def copyAndAppend_def)
  ultimately show ?thesis using assms(1) b(1,2) by (simp add: files_inv_def)
qed

lemma files_inv_commit:
  assumes "files_inv (s, Some job)" "merge_commit job (sys_db s) = Inr db" "job_fits (Some job) (db_segments (sys_db s))"
  shows "files_inv (s\<lparr>sys_db := db\<rparr>, None)"
proof -
  obtain m where m: "db_memory (sys_db s) = Some m" "ms_id m = db_nextSegID (sys_db s)"
    using assms(1) by (auto simp: files_inv_def ids_ok_def)
  have db: "db = (sys_db s)\<lparr>db_segments := committed (Some job) (db_segments (sys_db s))\<rparr>"
    using assms(2) by (auto simp: merge_commit_def bind_res_eq_Inr committed_def)
  have "files_ok (sys_files s) (committed (Some job) (db_segments (sys_db s)) @ [MemSeg m])"
    using assms(1) m committed_append [OF assms(3)] by (simp add: files_inv_def db_multi_def copyAndAppend_def)
  then have "files_ok (sys_files s) (db_multi db)" "db_memory db = Some m" "db_nextSegID db = db_nextSegID (sys_db s)"
    "db_path db = db_path (sys_db s)"
    using db m by (simp_all add: db_multi_def copyAndAppend_def)
  then show ?thesis
    using assms(1) m(2) by (simp add: files_inv_def ids_ok_def files_ok_def committed_def)
qed

lemma files_inv_step:
  assumes "sys_step j rnd sp e sp'" "files_inv sp" "sys_inv f w sp" "db_nextSegID (sys_db (fst sp)) < - 1"
  shows "files_inv sp'" "unat (db_nextSegID (sys_db (fst sp'))) \<le> unat (db_nextSegID (sys_db (fst sp))) + 1"
proof -
  have "files_inv sp' \<and> unat (db_nextSegID (sys_db (fst sp'))) \<le> unat (db_nextSegID (sys_db (fst sp))) + 1"
    using assms(1)
  proof cases
    case (client s a db p)
    have "db_memory (sys_db s) \<noteq> None" using assms(2) client(1) by (auto simp: files_inv_def ids_ok_def)
    then have g: "grown (sys_db s) db" by (rule perform_grown [OF client(4)])
    have "job_fits p (db_segments (sys_db s))" using assms(3) client(1) by (simp add: sys_inv_fits)
    then have "files_inv (s\<lparr>sys_db := db\<rparr>, p)" using files_inv_client [OF _ g] assms(2,4) client(1) by simp
    moreover have "unat (db_nextSegID db) \<le> unat (db_nextSegID (sys_db s)) + 1"
      using g by (auto simp: grown_def unat_word_ariths)
    ultimately show ?thesis using client(1,3) by simp
  next
    case (merge_begin s job s')
    obtain rs r where i: "db_shape seg_lists (sys_db s) rs r" "runs_fit (rs @ [r, w])" "1 \<le> maxSegments (db_options (sys_db s))"
      using assms(3) merge_begin(1) by (auto simp: sys_inv_def)
    have "2 \<le> length (db_segments (sys_db s))" using merge_begin(4) i(3) by (simp add: few_segments_def)
    moreover have "list_all2 seg_lists (db_segments (sys_db s)) rs" using i(1) by (simp add: db_shape_def)
    ultimately have "files_inv (s', Some job)"
      using files_inv_begin [OF _ _ runs_fit_prefix [OF i(2)] _ merge_begin(5)] assms(2) merge_begin(1) by simp
    moreover have "sys_db s' = sys_db s" using merge_begin(5) by (auto simp: merge_begin_def bind_res_eq_Inr split: prod.splits)
    ultimately show ?thesis using merge_begin(1,3) by simp
  next
    case (merge_commit job s db)
    have "files_inv (s\<lparr>sys_db := db\<rparr>, None)"
      using files_inv_commit [OF _ merge_commit(4)] assms(2,3) merge_commit(1) sys_inv_fits by simp
    moreover have "db_nextSegID db = db_nextSegID (sys_db s)"
      using merge_commit(4) by (auto simp: merge_commit_def bind_res_eq_Inr)
    ultimately show ?thesis using merge_commit(1,3) by simp
  qed
  then show "files_inv sp'" "unat (db_nextSegID (sys_db (fst sp'))) \<le> unat (db_nextSegID (sys_db (fst sp))) + 1" by blast+
qed

lemma files_inv_run:
  assumes "sys_run j rnd sp es sp'" "files_inv sp" "sys_inv f (pairs_written es @ w) sp" "length (j_stack j) = maxKeySize"
    and "unat (db_nextSegID (sys_db (fst sp))) + length es < 2 ^ 64"
  shows "files_inv sp' \<and> unat (db_nextSegID (sys_db (fst sp'))) \<le> unat (db_nextSegID (sys_db (fst sp))) + length es"
  using assms
proof (induction arbitrary: w rule: sys_run.induct)
  case (run_step sp es sp1 e sp2)
  have 0: "sys_inv f (pairs_written es @ (pairs_written [e] @ w)) sp" using run_step.prems(2) by simp
  have 1: "files_inv sp1" "unat (db_nextSegID (sys_db (fst sp1))) \<le> unat (db_nextSegID (sys_db (fst sp))) + length es"
    using run_step.IH [OF run_step.prems(1) 0 run_step.prems(3)] run_step.prems(4) by simp_all
  note i = sys_run_inv [OF run_step.hyps(1) 0 run_step.prems(3)]
  have "unat (db_nextSegID (sys_db (fst sp1))) < unat (- 1 :: u64)"
    using 1(2) run_step.prems(4) by (simp add: unsigned_minus_1_eq_mask mask_eq_exp_minus_1)
  then have "db_nextSegID (sys_db (fst sp1)) < - 1" by (simp only: word_less_nat_alt)
  from files_inv_step [OF run_step.hyps(2) 1(1) i this] show ?case using 1(2) by simp
qed simp

text \<open>Both invariants at the end of a run.\<close>

lemma session_run:
  assumes "db_shape seg_lists (sys_db s) rs r" "files_inv (s, None)" "1 \<le> maxSegments (db_options (sys_db s))"
    and "length (j_stack j) = maxKeySize" "room (rs @ [r]) es" "unat (db_nextSegID (sys_db s)) + length es < 2 ^ 64"
    and "sys_run j rnd (s, None) es sp"
  shows "files_inv sp" "sys_inv (foldl shown_step (shown (rs @ [r])) (client_actions es)) [] sp"
proof -
  have i: "sys_inv (shown (rs @ [r])) (pairs_written es @ []) (s, None)" using sys_inv_start [OF assms(1,3,5)] by simp
  show "files_inv sp" using files_inv_run [OF assms(7,2) i assms(4)] assms(6) by simp
  show "sys_inv (foldl shown_step (shown (rs @ [r])) (client_actions es)) [] sp" by (rule sys_run_inv [OF assms(7) i assms(4)])
qed

section \<open>What opening shows\<close>

text \<open>
  Opening a database with the directory \<open>d\<close> succeeds, whatever the order in which the directory is listed, when
  nobody holds the lock, and a full lookup returns a value under each key as \<open>f\<close> says (empty: removed or unknown).
\<close>

definition reopens :: "junk \<Rightarrow> string \<Rightarrow> directory \<Rightarrow> (bytes \<Rightarrow> bytes) \<Rightarrow> bool" where
  "reopens j path d f \<longleftrightarrow> finite (dom d) \<and>
     (\<forall>e static opts names names1 names2 cwd os.
        userKeyCompare opts = None \<and> set names = dom d \<and> set names1 = dom (opened_dir d) \<and>
        set names2 = dom (opened_dir d) \<and> distinct names2 \<and> fst (tryLock (newLockFile (path @ ''/lockfile'')) os) \<longrightarrow>
        (\<exists>db its db' out.
           openImpl e static path opts names names1 names2 cwd os (Dir d) = Inr db \<and>
           db_lookup j (e_rnd e) (sys_db (op_system db)) [] [] = Inr (its, db') \<and>
           drain (multi_next seg_peekKey seg_next) its = Some (Inr out) \<and> (\<forall>k. value_in out k = f k)))"

lemma openable_reopens:
  assumes "openable d segs" "list_all2 seg_lists segs rs" "CHR ''.'' \<notin> set path"
  shows "reopens j path d (shown rs)"
  unfolding reopens_def
proof (intro conjI allI impI)
  show "finite (dom d)" using assms(1) by (simp add: openable_def)
  fix e static and opts :: options and names names1 names2 cwd os
  assume o: "userKeyCompare opts = None \<and> set names = dom d \<and> set names1 = dom (opened_dir d) \<and>
    set names2 = dom (opened_dir d) \<and> distinct names2 \<and> fst (tryLock (newLockFile (path @ ''/lockfile'')) os)"
  obtain db where db: "openImpl e static path opts names names1 names2 cwd os (Dir d) = Inr db"
    "sys_db (op_system db) = open_state (e_rnd e) static path opts segs"
    using openImpl_ok [OF assms, of names names1 names2 os e static opts cwd] o by blast
  have sh: "db_shape seg_lists (sys_db (op_system db)) rs []"
    unfolding db(2) using o by (intro open_state_repr [OF _ assms(2)]) blast
  obtain its db' where l: "db_lookup j (e_rnd e) (sys_db (op_system db)) [] [] = Inr (its, db')"
    "multi_yields seg_yields its (filter (mem_range [] []) (merge_runs (rs @ [[]])))"
    using listed.lookup_shape [OF sh, of "[]" "[]" j "e_rnd e"] by (auto simp: range_ok_def)
  have dr: "drain (multi_next seg_peekKey seg_next) its = Some (Inr (merge_runs (rs @ [[]])))"
    using seg_it.multi.drain_yields [OF l(2)] by (simp add: mem_range_def within_def)
  have "\<forall>r \<in> set (rs @ [[]]). sorted_kvs r" using list_all2_sorted [OF assms(2)] by auto
  then have "value_in (merge_runs (rs @ [[]])) k = shown (rs @ [[]]) k" for k
    by (simp only: merge_runs_spec(2) shown_def)
  then have "\<forall>k. value_in (merge_runs (rs @ [[]])) k = shown rs k" unfolding shown_new by blast
  then show "\<exists>db its db' out.
      openImpl e static path opts names names1 names2 cwd os (Dir d) = Inr db \<and>
      db_lookup j (e_rnd e) (sys_db (op_system db)) [] [] = Inr (its, db') \<and>
      drain (multi_next seg_peekKey seg_next) its = Some (Inr out) \<and> (\<forall>k. value_in out k = shown rs k)"
    using db(1) l(1) dr by blast
qed

lemma session_end:
  assumes "sys_inv f w (s, None)" "files_inv (s, None)"
  shows "\<exists>rs r. session s rs r \<and> shown (rs @ [r]) = f"
proof -
  obtain rs r where i: "db_shape seg_lists (sys_db s) rs r" "shown (rs @ [r]) = f" "runs_fit (rs @ [r, w])"
    using assms(1) by (auto simp: sys_inv_def)
  have "runs_fit (rs @ [r])" using i(3) runs_fit_prefix [of "rs @ [r]" "[w]"] by simp
  then show ?thesis
    using assms(2) i(1,2) by (intro exI [of _ rs] exI [of _ r]) (simp add: session_def files_inv_def committed_def)
qed

text \<open>A fresh database, for the witnesses.\<close>

definition fresh_system :: system where
  "fresh_system =
     \<lparr>sys_db = open_state (\<lambda>i. 0) None ''db'' (mk_options True) [],
      sys_deleter = \<lparr>dl_path = ''db'', dl_open = False\<rparr>, sys_files = [''lockfile'' \<mapsto> []]\<rparr>"

lemma fresh_memory:
  obtains m where "db_memory (sys_db fresh_system) = Some m" "ms_id m = 1" "db_nextSegID (sys_db fresh_system) = 1"
    "db_segments (sys_db fresh_system) = []" "db_path (sys_db fresh_system) = ''db''"
  by (cases "keyValueCompare None (raise_options (mk_options True))")
     (simp add: fresh_system_def open_state_def new_memory_def nextSegmentID_def newMemorySegment_def maxSegID_def)

lemma fresh_inv: "files_inv (fresh_system, None)" "db_repr (sys_db fresh_system) [] []"
  "1 \<le> maxSegments (db_options (sys_db fresh_system))"
proof -
  obtain m where m: "db_memory (sys_db fresh_system) = Some m" "ms_id m = 1" "db_nextSegID (sys_db fresh_system) = 1"
    "db_segments (sys_db fresh_system) = []" "db_path (sys_db fresh_system) = ''db''"
    by (rule fresh_memory)
  have f: "sys_files fresh_system = [''lockfile'' \<mapsto> []]" "dl_path (sys_deleter fresh_system) = ''db''"
    by (simp_all add: fresh_system_def)
  have "chain [MemSeg m]" by (simp add: chain_def)
  moreover have "scheduled [''lockfile'' \<mapsto> []] = []" by (simp add: scheduled_def)
  ultimately have "files_ok [''lockfile'' \<mapsto> []] [MemSeg m]"
    by (intro files_okI) (auto simp: deleted_lines_def valid_name_def split: if_splits)
  then show "files_inv (fresh_system, None)"
    using m f \<open>chain [MemSeg m]\<close>
    by (simp add: files_inv_def ids_ok_def db_multi_def copyAndAppend_def committed_def)
  show "db_repr (sys_db fresh_system) [] []"
    unfolding fresh_system_def by (simp add: fresh_repr mk_options_def)
  show "1 \<le> maxSegments (db_options (sys_db fresh_system))"
    by (simp add: fresh_system_def raise_options_def dbMaxSegments_def Let_def mk_options_def)
qed

section \<open>Properties\<close>

text \<open>C2. A session is kept: from a database whose directory belongs to it, run any sequence of puts, removes,
  batches, snapshots and merges that leaves no merge under way, and close it with any number of segments to
  merge to. The close succeeds, and opening the directory again succeeds and shows under every key what the
  operations made of it. The bounds are on the segment ids (64 bits) and on what is written altogether.\<close>

theorem session_reopens:
  assumes "db_shape seg_lists (sys_db s) rs r" and "files_inv (s, None)" and "1 \<le> maxSegments (db_options (sys_db s))"
    and "length (j_stack j) = maxKeySize" and "room (rs @ [r]) es" and "unat (db_nextSegID (sys_db s)) + length es < 2 ^ 64"
    and "sys_run j rnd (s, None) es (s', None)"
  shows "\<exists>closed. closeWithMerge j kv_cmp n s' = Inr closed \<and> \<not> db_open (sys_db closed) \<and>
           reopens j (db_path (sys_db s')) (sys_files closed) (foldl shown_step (shown (rs @ [r])) (client_actions es))"
proof -
  obtain rs1 r1 where s': "session s' rs1 r1"
    "shown (rs1 @ [r1]) = foldl shown_step (shown (rs @ [r])) (client_actions es)"
    using session_end session_run [OF assms] by blast
  obtain closed segs rs2 where c: "closeWithMerge j kv_cmp n s' = Inr closed" "\<not> db_open (sys_db closed)"
    "list_all2 seg_lists segs rs2" "all_disk segs" "files_ok (sys_files closed) segs" "shown rs2 = shown (rs1 @ [r1])"
    using closeWithMerge_ok [OF s'(1), of j n] by blast
  have "CHR ''.'' \<notin> set (db_path (sys_db s'))" using s'(1) by (simp add: session_def)
  then show ?thesis
    using openable_reopens [OF files_ok_openable [OF c(5,4)] c(3), of "db_path (sys_db s')" j] c(1,2,6) s'(2) by auto
qed

theorem session_reopens_witness:
  "\<exists>(s' :: system) closed.
     sys_run \<lparr>j_stack = replicate maxKeySize 0, j_buffer = []\<rparr> (\<lambda>i. 0) (fresh_system, None) [Client (Put [1] [2])] (s', None) \<and>
     closeWithMerge \<lparr>j_stack = replicate maxKeySize 0, j_buffer = []\<rparr> kv_cmp 8 s' = Inr closed \<and> \<not> db_open (sys_db closed) \<and>
     reopens \<lparr>j_stack = replicate maxKeySize 0, j_buffer = []\<rparr> (db_path (sys_db s')) (sys_files closed)
       (foldl shown_step (shown ([] @ [[]])) (client_actions [Client (Put [1] [2])]))"
proof -
  let ?j = "\<lparr>j_stack = replicate maxKeySize 0, j_buffer = []\<rparr>" and ?a = "Put [1] [2]"
  have j: "length (j_stack ?j) = maxKeySize" by simp
  obtain db where "db_put (\<lambda>i. 0) (sys_db fresh_system) [1] [2] = Inr db"
    using db_put_repr [OF fresh_inv(2), of "[1]" "\<lambda>i. 0" "[2]"] by auto
  then have "sys_step ?j (\<lambda>i. 0) (fresh_system, None) (Client ?a) (fresh_system\<lparr>sys_db := db\<rparr>, None)"
    by (intro sys_step.client) simp_all
  then have run: "sys_run ?j (\<lambda>i. 0) (fresh_system, None) ([] @ [Client ?a]) (fresh_system\<lparr>sys_db := db\<rparr>, None)"
    by (rule sys_run.run_step [OF sys_run.run_refl])
  have fit: "room ([] @ [[]]) ([] @ [Client ?a])"
    by (simp add: room_def runs_fit_def values_of_def pairs_written_def maxKeySize_def)
  obtain m where "db_nextSegID (sys_db fresh_system) = 1" by (rule fresh_memory)
  then have "unat (db_nextSegID (sys_db fresh_system)) + length ([] @ [Client ?a]) < 2 ^ 64" by simp
  from session_reopens [OF repr_shape [OF fresh_inv(2)] fresh_inv(1,3) j fit this run, of 8]
  show ?thesis using run unfolding append_Nil by blast
qed

end
