(* ===== verification/Crash.thy ===== *)
theory Crash
  imports Session
begin

text \<open>
  What opening does with the directory a crash leaves. A crash between the steps of the system leaves a directory
  that opens. In a merge it depends on the point: while the temporary files are there the directory does not open,
  once both files have their names it does. Segments loaded are ordered and none is contained in another.
\<close>

section \<open>A crash between steps\<close>

abbreviation disk_only :: "segment list \<Rightarrow> segment list" where
  "disk_only segs \<equiv> filter (\<lambda>s. \<not> is_memory s) segs"

lemma chain_filter: "chain segs \<Longrightarrow> chain (filter P segs)"
  by (auto simp: chain_def sorted_wrt_filter)

lemma files_ok_disk_only:
  assumes "files_ok d segs"
  shows "files_ok d (disk_only segs)" "all_disk (disk_only segs)"
proof -
  have "chain (disk_only segs)" using assms chain_filter by (simp add: files_ok_def)
  then show "files_ok d (disk_only segs)" by (rule files_ok_memory [OF assms]) auto
  have "\<forall>s \<in> set segs. file_backed d s" using assms by (simp add: files_ok_def)
  then show "all_disk (disk_only segs)" by (auto elim!: is_memory.elims(3) ballE)
qed

lemma lists_filter:
  assumes "list_all2 R segs rs"
  shows "\<exists>rs'. list_all2 R (filter P segs) rs'"
  using assms
proof (induction rule: list_all2_induct)
  case (Cons s segs r rs)
  then obtain rs' where "list_all2 R (filter P segs) rs'" by blast
  then show ?case using Cons(1) by (cases "P s") (auto intro: exI [of _ "r # rs'"])
qed auto

lemma committed_lists:
  assumes "list_all2 seg_lists segs rs" "case p of None \<Rightarrow> True | Some job \<Rightarrow> job_ok segs rs job"
  shows "\<exists>rs'. list_all2 seg_lists (committed p segs) rs'"
proof (cases p)
  case None
  then show ?thesis using assms(1) by (auto simp: committed_def)
next
  case (Some job)
  then have job: "job_ok segs rs job" using assms(2) by simp
  obtain pre post rpre gs rpost where j: "segs = pre @ mj_group job @ post" "length pre = mj_start job"
    "list_all2 seg_lists pre rpre" "list_all2 seg_lists post rpost"
    "seg_lists (DiskSeg (mj_seg job)) (purged (rpre = []) (merge_runs gs))"
    using job unfolding job_ok_def by blast
  have "list_all2 seg_lists (pre @ DiskSeg (mj_seg job) # post) (rpre @ purged (rpre = []) (merge_runs gs) # rpost)"
    using j(3-5) by (intro list_all2_appendI) simp_all
  moreover have "committed p segs = pre @ DiskSeg (mj_seg job) # post" using Some j(1,2) by (simp add: committed_def)
  ultimately show ?thesis by auto
qed

section \<open>A crash in a merge\<close>

lemma merge_renamed:
  assumes "files_ok d (pre @ mergable @ post)" "2 \<le> length mergable"
    and "list_all2 seg_lists mergable gs" "i = IDS (seg_lowerID (hd mergable)) (seg_upperID (last mergable))"
    and "seg_ids (DiskSeg ds) = i" "ds_names ds = [key_name i, data_name i]"
  shows "openable (d(key_name i \<mapsto> ds_keyFile ds, data_name i \<mapsto> ds_dataFile ds)) (disk_only (pre @ DiskSeg ds # post))"
proof -
  let ?d = "d(key_name i \<mapsto> ds_keyFile ds, data_name i \<mapsto> ds_dataFile ds)"
  let ?old = "pre @ mergable @ post" and ?new = "disk_only (pre @ DiskSeg ds # post)"
  have ne: "mergable \<noteq> []" using assms(2) by auto
  have c: "chain ?old" "chain mergable" using assms(1) by (simp_all add: files_ok_def chain_append)
  have free: "d (key_name i) = None" "d (data_name i) = None"
    "key_name i \<notin> set (scheduled d)" "data_name i \<notin> set (scheduled d)"
    using merge_name_free [OF assms(1,2,4)] by simp_all
  have sch: "scheduled ?d = scheduled d" by (simp add: scheduled_def)
  have other: "on_disk ?d ds'" if o: "on_disk d ds'" for ds'
  proof -
    have "seg_ids (DiskSeg ds') \<noteq> i" using o free by (auto simp: on_disk_def)
    then show ?thesis using o by (simp add: on_disk_def)
  qed
  have backed: "file_backed ?d s" if s: "s \<in> set ?new" for s
  proof (cases "s = DiskSeg ds")
    case True
    then show ?thesis using assms(5,6) by (simp add: on_disk_def)
  next
    case False
    then have "file_backed d s" using s assms(1) by (auto simp: files_ok_def)
    then show ?thesis using other by (cases s) simp_all
  qed
  have doomed: "\<not> live_file ?new name" if n: "name \<in> set (scheduled d)" for name
  proof -
    have "\<not> live_file ?old name" using n assms(1) unfolding files_ok_def by blast
    moreover have "name \<noteq> key_name i" "name \<noteq> data_name i" using n free(3,4) by auto
    ultimately show ?thesis using assms(5) unfolding live_file_def by auto
  qed
  have left: "leftover ?d ?new name" if l: "DiskSeg ds' \<in> set mergable" "name = key_name (seg_ids (DiskSeg ds'))" for ds' name
  proof -
    have in': "DiskSeg ds' \<in> set ?old" using l(1) by simp
    then have "on_disk ?d ds'" using other assms(1) unfolding files_ok_def by fastforce
    moreover obtain k where "k < length mergable" "mergable ! k = DiskSeg ds'" using l(1) by (auto simp: in_set_conv_nth)
    then have "\<exists>r. seg_lists (DiskSeg ds') r" using list_all2_nthD [OF assms(3), of k] by auto
    moreover have "data_name (seg_ids (DiskSeg ds')) \<notin> set (scheduled d)"
    proof
      assume "data_name (seg_ids (DiskSeg ds')) \<in> set (scheduled d)"
      then have "\<not> live_file ?old (data_name (seg_ids (DiskSeg ds')))" using assms(1) unfolding files_ok_def by blast
      then show False using in' unfolding live_file_def by blast
    qed
    moreover have "contained (DiskSeg ds') (DiskSeg ds)"
    proof -
      have "seg_lowerID (DiskSeg ds) = seg_lowerID (hd mergable)" "seg_upperID (DiskSeg ds) = seg_upperID (last mergable)"
        using assms(4,5) by (simp_all add: seg_ids_def)
      then show ?thesis using chain_bounds [OF c(2) l(1)] by (simp add: contained_def)
    qed
    ultimately show ?thesis using l(2) sch unfolding leftover_def by auto
  qed
  have names: "valid_name name \<and> \<not> is_tmp name \<and>
      (has_prefix ''keys.'' name \<longrightarrow> live_file ?new name \<or> name \<in> set (scheduled d) \<or> leftover ?d ?new name)"
    if n: "?d name \<noteq> None" for name
  proof (cases "name \<in> {key_name i, data_name i}")
    case True
    then have "live_file ?new name" using assms(5) unfolding live_file_def by (intro exI [of _ ds]) auto
    then show ?thesis using True by auto
  next
    case False
    then have "d name \<noteq> None" using n by simp
    then have old: "valid_name name" "\<not> is_tmp name" "segment_file name \<longrightarrow> live_file ?old name \<or> name \<in> set (scheduled d)"
      using assms(1) unfolding files_ok_def by blast+
    have "live_file ?new name \<or> leftover ?d ?new name" if "live_file ?old name" "has_prefix ''keys.'' name"
    proof -
      obtain ds' where d': "DiskSeg ds' \<in> set ?old" "name \<in> {key_name (seg_ids (DiskSeg ds')), data_name (seg_ids (DiskSeg ds'))}"
        using \<open>live_file ?old name\<close> unfolding live_file_def by blast
      then consider "DiskSeg ds' \<in> set mergable" | "DiskSeg ds' \<in> set ?new" by auto
      then show ?thesis
      proof cases
        case 1
        then show ?thesis using left d'(2) that(2) by auto
      next
        case 2
        then show ?thesis using d'(2) unfolding live_file_def by blast
      qed
    qed
    then show ?thesis using old by (auto simp: segment_file_def)
  qed
  have "\<exists>ds'. x = DiskSeg ds'" if x: "x \<in> set ?new" for x using backed [OF x] x by (cases x) auto
  then have "all_disk ?new" by blast
  moreover have "chain (pre @ DiskSeg ds # post)" using chain_merge [OF c(1) ne] assms(4,5) by simp
  then have "chain ?new" by (rule chain_filter)
  moreover have "finite (dom ?d)" using assms(1) by (simp add: files_ok_def)
  ultimately show ?thesis using backed doomed names unfolding openable_def sch by simp
qed

section \<open>A crash while a merge writes its files\<close>

lemma load_keys_tmp:
  assumes "d (key_name i) = None"
  shows "load_keys dbpath d (key_name i @ ''.tmp'') = Inl FilesystemError"
proof -
  have "has_prefix ''keys.'' (key_name i @ ''.tmp'')" by (simp add: key_name_def has_prefix_def)
  then show ?thesis using assms by (simp add: load_keys_def getSegmentIDs_tmp load_disk_segment_def fs_read_def)
qed

lemma load_files_error:
  assumes "name \<in> set names" "load_keys dbpath d name = Inl err"
  shows "\<exists>err. load_files e cmp dbpath opts d names = Inl err"
  using assms(1)
proof (induction names)
  case (Cons n names)
  then consider "n = name" | "\<exists>err. load_files e cmp dbpath opts d names = Inl err" by auto
  then show ?case
  proof cases
    case 1
    then show ?thesis using assms(2) by (cases "load_log e cmp dbpath opts d name") simp_all
  next
    case 2
    then obtain err' where "load_files e cmp dbpath opts d names = Inl err'" by blast
    then show ?thesis
      by (cases "load_log e cmp dbpath opts d n"; cases "load_keys dbpath d n") simp_all
  qed
qed simp

lemma load_error_blocks:
  assumes "name \<in> set names2" "load_keys path (opened_dir d) name = Inl err"
  shows "\<exists>err. openImpl e static path opts names names1 names2 cwd os (Dir d) = Inl err"
proof -
  have loaded: "\<exists>err. loadDiskSegments e cmp path opts' names1 names2 (opened_dir d) cwd = Inl err" for cmp opts'
  proof -
    obtain err where "load_files e cmp path opts' (opened_dir d) names2 = Inl err" using load_files_error [OF assms] by blast
    then show ?thesis by (cases "remove_tmp_files names1 cwd") (simp_all add: loadDiskSegments_def)
  qed
  obtain ok lk os1 where lk: "tryLock (newLockFile (path @ ''/lockfile'')) os = (ok, lk, os1)"
    by (cases "tryLock (newLockFile (path @ ''/lockfile'')) os") auto
  have "snd (deleteScheduled \<lparr>dl_path = path, dl_open = False\<rparr> (if d ''lockfile'' = None then d(''lockfile'' \<mapsto> []) else d)) =
      opened_dir d"
    unfolding opened_dir_def by (simp add: deleteScheduled_def Let_def)
  then obtain dl where dl: "deleteScheduled \<lparr>dl_path = path, dl_open = False\<rparr>
      (if d ''lockfile'' = None then d(''lockfile'' \<mapsto> []) else d) = (dl, opened_dir d)"
    by (metis prod.collapse)
  show ?thesis
  proof (cases "checkValidDatabase (Dir d) names")
    case (Inr u)
    obtain err where "loadDiskSegments e (fst (keyValueCompare static (raise_options opts))) path (raise_options opts)
        names1 names2 (opened_dir d) cwd = Inl err"
      using loaded by blast
    then show ?thesis using Inr lk dl by (simp add: openImpl_def Let_def)
  qed (simp add: openImpl_def)
qed

lemma tmp_key_blocks:
  assumes "d (key_name i @ ''.tmp'') \<noteq> None" "d (key_name i) = None" "key_name i @ ''.tmp'' \<notin> set (scheduled d)"
    and "set names2 = dom (opened_dir d)"
  shows "\<exists>err. openImpl e static path opts names names1 names2 cwd os (Dir d) = Inl err"
proof -
  have "key_name i \<noteq> ''lockfile''" "key_name i @ ''.tmp'' \<noteq> ''deleted''" by (simp_all add: key_name_def)
  then have "key_name i @ ''.tmp'' \<in> set names2" "opened_dir d (key_name i) = None"
    using assms by (auto simp: opened_dir_file)
  then show ?thesis using load_error_blocks load_keys_tmp by blast
qed

lemma key_file_blocks:
  assumes "d (key_name i) \<noteq> None" "d (data_name i) = None" "key_name i \<notin> set (scheduled d)"
    and "set names2 = dom (opened_dir d)"
  shows "\<exists>err. openImpl e static path opts names names1 names2 cwd os (Dir d) = Inl err"
proof -
  have n: "key_name i \<noteq> ''deleted''" "key_name i \<noteq> ''lockfile''" "data_name i \<noteq> ''lockfile''" "has_prefix ''keys.'' (key_name i)"
    by (simp_all add: key_name_def data_name_def has_prefix_def)
  then have f: "opened_dir d (key_name i) \<noteq> None" "opened_dir d (data_name i) = None" "key_name i \<in> set names2"
    using assms by (auto simp: opened_dir_file)
  have "getSegmentIDs ([] @ key_name i) = Inr i" by (rule getSegmentIDs_name) simp
  then have "load_keys path (opened_dir d) (key_name i) = Inl FilesystemError"
    using f(1,2) n(4) by (auto simp: load_keys_def load_disk_segment_def fs_read_def)
  then show ?thesis using load_error_blocks [OF f(3)] by blast
qed

text \<open>
  The points in the writing of a merge at which it can stop: \<^verbatim>\<open>writeSegmentFiles\<close> has opened the temporary key file, then
  also the temporary data file, each with some of its bytes; \<^verbatim>\<open>writeAndLoadSegment\<close> has renamed the key file, then also
  the data file. After that the files of the merged segments are scheduled for deletion, in one write of all names.
\<close>

datatype merge_point = KeyFileOpen bytes | BothFilesOpen bytes bytes | KeyFileRenamed | BothFilesRenamed

fun crash_dir :: "merge_point \<Rightarrow> disk_segment \<Rightarrow> directory \<Rightarrow> directory" where
  "crash_dir (KeyFileOpen kf) ds d = d(key_name (seg_ids (DiskSeg ds)) @ ''.tmp'' \<mapsto> kf)"
| "crash_dir (BothFilesOpen kf df) ds d =
     d(key_name (seg_ids (DiskSeg ds)) @ ''.tmp'' \<mapsto> kf, data_name (seg_ids (DiskSeg ds)) @ ''.tmp'' \<mapsto> df)"
| "crash_dir KeyFileRenamed ds d =
     d(key_name (seg_ids (DiskSeg ds)) \<mapsto> ds_keyFile ds, data_name (seg_ids (DiskSeg ds)) @ ''.tmp'' \<mapsto> ds_dataFile ds)"
| "crash_dir BothFilesRenamed ds d =
     d(key_name (seg_ids (DiskSeg ds)) \<mapsto> ds_keyFile ds, data_name (seg_ids (DiskSeg ds)) \<mapsto> ds_dataFile ds)"

text \<open>However the directory is listed, whatever the options, opening ends with an error.\<close>

definition unopenable :: "string \<Rightarrow> directory \<Rightarrow> bool" where
  "unopenable path d \<longleftrightarrow>
     (\<forall>e static opts names names1 names2 cwd os. set names2 = dom (opened_dir d) \<longrightarrow>
        (\<exists>err. openImpl e static path opts names names1 names2 cwd os (Dir d) = Inl err))"

lemma crash_dir_unopenable:
  assumes "i = seg_ids (DiskSeg ds)" "d (key_name i) = None" "d (data_name i) = None"
    and "key_name i \<notin> set (scheduled d)" "key_name i @ ''.tmp'' \<notin> set (scheduled d)" "pt \<noteq> BothFilesRenamed"
  shows "unopenable path (crash_dir pt ds d)"
  unfolding unopenable_def
proof (intro allI impI)
  fix e static opts names names1 names2 cwd os assume l: "set names2 = dom (opened_dir (crash_dir pt ds d))"
  have "scheduled (crash_dir pt ds d) = scheduled d" by (cases pt) (simp_all add: scheduled_def key_name_def data_name_def)
  then have s: "key_name i \<notin> set (scheduled (crash_dir pt ds d))" "key_name i @ ''.tmp'' \<notin> set (scheduled (crash_dir pt ds d))"
    using assms(4,5) by simp_all
  have ne: "key_name i \<noteq> data_name i @ ''.tmp''" "key_name i @ ''.tmp'' \<noteq> data_name i @ ''.tmp''"
    "data_name i \<noteq> data_name i @ ''.tmp''" "key_name i \<noteq> key_name i @ ''.tmp''"
    by (simp_all add: key_name_def data_name_def)
  show "\<exists>err. openImpl e static path opts names names1 names2 cwd os (Dir (crash_dir pt ds d)) = Inl err"
  proof (cases "pt = KeyFileRenamed")
    case True
    have "crash_dir pt ds d (key_name i) \<noteq> None" "crash_dir pt ds d (data_name i) = None"
      using True assms(1,3) ne by (simp_all add: key_name_def data_name_def)
    then show ?thesis using key_file_blocks [OF _ _ s(1) l] by blast
  next
    case False
    then have "crash_dir pt ds d (key_name i @ ''.tmp'') \<noteq> None" "crash_dir pt ds d (key_name i) = None"
      using assms(1,2,6) ne by (cases pt; simp)+
    then show ?thesis using tmp_key_blocks [OF _ _ s(2) l] by blast
  qed
qed

text \<open>The last of the points, followed by the scheduling, is what the step of the merge leaves.\<close>

lemma write_files_crash:
  assumes "writeAndLoadSegment nxt path (key_name i) (data_name i) it p d = Inr (ds, d1)" "CHR ''.'' \<notin> set path"
    and "d (key_name i @ ''.tmp'') = None" "d (data_name i @ ''.tmp'') = None"
  shows "d1 = crash_dir BothFilesRenamed ds d"
proof -
  have ids: "getSegmentIDs (path @ ''/'' @ key_name i) = Inr i" by (rule getSegmentIDs_path [OF assms(2)])
  have ne: "key_name i \<noteq> data_name i @ ''.tmp''" "key_name i @ ''.tmp'' \<noteq> data_name i @ ''.tmp''" "key_name i \<noteq> data_name i"
    "data_name i \<noteq> key_name i @ ''.tmp''"
    by (simp_all add: key_name_def data_name_def)
  obtain f where w: "writeSegmentFiles nxt p it = Some (Inr f)"
    using assms(1) by (auto simp: writeAndLoadSegment_def bind_res_eq_Inr split: if_splits option.splits)
  then have f: "d1 = d(data_name i \<mapsto> data_bytes f, key_name i \<mapsto> key_bytes f, data_name i @ ''.tmp'' := None, key_name i @ ''.tmp'' := None)"
    "newDiskSegment [key_name i, data_name i] (ids_lower i) (ids_upper i) (key_bytes f) (data_bytes f) (index_keys f) = Inr ds"
    using assms(1) ids ne
    by (auto simp: writeAndLoadSegment_def fs_rename_def fs_read_def load_disk_segment_def Let_def bind_res_eq_Inr fun_upd_twist
        split: if_splits)
  have "ds_lowerID ds = ids_lower i \<and> ds_upperID ds = ids_upper i" using f(2) by (auto simp: newDiskSegment_def bind_res_eq_Inr)
  then have "seg_ids (DiskSeg ds) = i" by (simp add: seg_ids_def)
  moreover have "d1 = d(key_name i \<mapsto> key_bytes f, data_name i \<mapsto> data_bytes f)"
    using f(1) assms(3,4) ne by (auto simp: fun_eq_iff)
  ultimately show ?thesis using newDiskSegment_files [OF f(2)] by simp
qed

lemma merge_begin_files:
  assumes "merge_begin j kv_cmp s = Inr (job, s1)" "CHR ''.'' \<notin> set (db_path (sys_db s))"
    and "\<forall>name. is_tmp name \<longrightarrow> sys_files s name = None"
  shows "sys_files s1 = snd (scheduleDeletion (sys_deleter s) (concat (map seg_files (mj_group job)))
           (crash_dir BothFilesRenamed (mj_seg job) (sys_files s)))"
proof -
  obtain start mergable where pl: "merge_plan (db_segments (sys_db s)) = (start, mergable)" by fastforce
  obtain ds dl d where m: "mergeSegments1 j kv_cmp (sys_deleter s) (db_path (sys_db s)) mergable (start = 0) (sys_files s) = Inr (ds, dl, d)"
    "sys_files s1 = d" "mj_group job = mergable" "mj_seg job = ds"
    using assms(1) pl by (auto simp: merge_begin_def bind_res_eq_Inr)
  then obtain i itr d1 where w: "writeAndLoadSegment (multi_next seg_peekKey seg_next) (db_path (sys_db s)) (key_name i) (data_name i)
      itr (start = 0) (sys_files s) = Inr (ds, d1)"
    "scheduleDeletion (sys_deleter s) (concat (map seg_files mergable)) d1 = (dl, d)"
    by (auto simp: mergeSegments1_def Let_def bind_res_eq_Inr split: if_splits prod.splits)
  have "sys_files s (key_name i @ ''.tmp'') = None" "sys_files s (data_name i @ ''.tmp'') = None" using assms(3) by simp_all
  from write_files_crash [OF w(1) assms(2) this] show ?thesis using m w(2) by simp
qed

text \<open>Two segments on disk, for the witness.\<close>

lemma two_on_disk:
  obtains s :: system where "sys_ok s [[mk_kv [1] [2]], [mk_kv [1] [3]]]" "all_disk (db_segments (sys_db s))"
    "2 \<le> length (db_segments (sys_db s))" "db_path (sys_db s) = ''db''" "files_inv (s, None)"
    "db_shape seg_lists (sys_db s) [[mk_kv [1] [2]], [mk_kv [1] [3]]] []" "maxSegments (db_options (sys_db s)) = 1"
    "unat (db_nextSegID (sys_db s)) = 3"
proof -
  have ok: "run_ok [mk_kv [1] [2]]" "run_ok [mk_kv [1] [3]]" by (simp_all add: run_ok_def maxKeySize_def values_of_def)
  obtain a where a: "seg_lists (DiskSeg a) [mk_kv [1] [2]]" "ds_lowerID a = 1" "ds_upperID a = 1"
    "ds_names a = [key_name (IDS 1 1), data_name (IDS 1 1)]"
    by (rule newDiskSegment_written [OF ok(1), of "[key_name (IDS 1 1), data_name (IDS 1 1)]" 1 1])
  obtain b where b: "seg_lists (DiskSeg b) [mk_kv [1] [3]]" "ds_lowerID b = 2" "ds_upperID b = 2"
    "ds_names b = [key_name (IDS 2 2), data_name (IDS 2 2)]"
    by (rule newDiskSegment_written [OF ok(2), of "[key_name (IDS 2 2), data_name (IDS 2 2)]" 2 2])
  define d :: directory where "d = [key_name (IDS 1 1) \<mapsto> ds_keyFile a, data_name (IDS 1 1) \<mapsto> ds_dataFile a,
      key_name (IDS 2 2) \<mapsto> ds_keyFile b, data_name (IDS 2 2) \<mapsto> ds_dataFile b]"
  have i: "seg_ids (DiskSeg a) = IDS 1 1" "seg_ids (DiskSeg b) = IDS 2 2" using a(2,3) b(2,3) by (simp_all add: seg_ids_def)
  have del: "d ''deleted'' = None" by (simp add: d_def key_name_def data_name_def)
  then have sch: "scheduled d = []" by (simp add: scheduled_def)
  have live: "live_file [DiskSeg a, DiskSeg b] name \<longleftrightarrow>
      name \<in> {key_name (IDS 1 1), data_name (IDS 1 1), key_name (IDS 2 2), data_name (IDS 2 2)}" for name
    using i by (auto simp: live_file_def)
  have "files_ok d [DiskSeg a, DiskSeg b]"
  proof (rule files_okI)
    show "finite (dom d)" by (simp add: d_def)
    show "chain [DiskSeg a, DiskSeg b]" using a(2,3) b(2,3) by (simp add: chain_def)
    have "on_disk d a" "on_disk d b" by (simp_all add: on_disk_def d_def i a(4) b(4))
    then show "file_backed d s" if "s \<in> set [DiskSeg a, DiskSeg b]" for s using that by auto
    show "deleted_lines d (scheduled d)" using sch del by (simp add: deleted_lines_def)
    fix name assume n: "d name \<noteq> None"
    have "name \<in> {key_name (IDS 1 1), data_name (IDS 1 1), key_name (IDS 2 2), data_name (IDS 2 2)}"
    proof (rule ccontr)
      assume "name \<notin> {key_name (IDS 1 1), data_name (IDS 1 1), key_name (IDS 2 2), data_name (IDS 2 2)}"
      then have "d name = None" by (simp add: d_def)
      then show False using n by simp
    qed
    then have "live_file [DiskSeg a, DiskSeg b] name" "\<exists>i. name = key_name i \<or> name = data_name i" unfolding live by blast+
    then show "valid_name name \<and> \<not> is_tmp name \<and>
        (segment_file name \<longrightarrow> live_file [DiskSeg a, DiskSeg b] name \<or> name \<in> set (scheduled d))"
      by auto
  qed (simp add: sch)
  note files = this
  define db where "db = (open_state (\<lambda>i. 0) None ''db'' (mk_options True) [DiskSeg a, DiskSeg b])\<lparr>db_options := (mk_options True)\<lparr>maxSegments := 1\<rparr>\<rparr>"
  define s where "s = \<lparr>sys_db = db, sys_deleter = \<lparr>dl_path = ''db'', dl_open = False\<rparr>, sys_files = d\<rparr>"
  have l: "list_all2 seg_lists [DiskSeg a, DiskSeg b] [[mk_kv [1] [2]], [mk_kv [1] [3]]]" using a(1) b(1) by simp
  have "maxSegID [DiskSeg a, DiskSeg b] = 2" using a(3) b(3) by (simp add: maxSegID_def)
  then obtain m where m: "db_memory db = Some m" "ms_id m = 3" "db_nextSegID db = 3"
    "db_segments db = [DiskSeg a, DiskSeg b]" "db_path db = ''db''"
    by (cases "keyValueCompare None (raise_options (mk_options True))")
       (simp add: db_def open_state_def new_memory_def nextSegmentID_def newMemorySegment_def)
  have ch: "chain [DiskSeg a, DiskSeg b, MemSeg m]" using a(2,3) b(2,3) m(2) by (simp add: chain_def)
  then have fm: "files_ok d [DiskSeg a, DiskSeg b, MemSeg m]" by (intro files_ok_memory [OF files]) auto
  show thesis
  proof (rule that [of s])
    show "sys_ok s [[mk_kv [1] [2]], [mk_kv [1] [3]]]"
      using l m(4,5) files by (simp add: s_def sys_ok_def runs_fit_def values_of_def maxKeySize_def)
    show "files_inv (s, None)"
      using m ch fm by (simp add: s_def files_inv_def ids_ok_def committed_def db_multi_def copyAndAppend_def)
    show "db_shape seg_lists (sys_db s) [[mk_kv [1] [2]], [mk_kv [1] [3]]] []"
      using open_state_repr [OF _ l, of "mk_options True" "\<lambda>i. 0" None "''db''"]
      by (simp add: s_def db_def db_shape_def mk_options_def)
  qed (use m in \<open>simp_all add: s_def\<close>, simp add: db_def)
qed

section \<open>Properties\<close>

text \<open>C14. A crash between the steps of a run: after any interleaving of operations, merges (each in two steps: its
  files are written and the old ones scheduled for deletion, then its segment is put in place) and snapshots, also
  with a merge written and not committed, the directory as it is then opens, and shows exactly what the disk
  segments hold. The pairs in memory segments are lost: their logs are not used when a database is opened.\<close>

theorem crash_reopens:
  assumes "db_shape seg_lists (sys_db s) rs r" and "files_inv (s, None)" and "1 \<le> maxSegments (db_options (sys_db s))"
    and "length (j_stack j) = maxKeySize" and "room (rs @ [r]) es" and "unat (db_nextSegID (sys_db s)) + length es < 2 ^ 64"
    and "sys_run j rnd (s, None) es (s', p)"
  shows "\<exists>rs'. list_all2 seg_lists (disk_only (committed p (db_segments (sys_db s')))) rs' \<and>
           reopens j (db_path (sys_db s')) (sys_files s') (shown rs')"
proof -
  note f = session_run(1) [OF assms] and i' = session_run(2) [OF assms]
  let ?segs = "committed p (db_segments (sys_db s'))"
  obtain rs1 r1 where "db_shape seg_lists (sys_db s') rs1 r1"
    "case p of None \<Rightarrow> True | Some job \<Rightarrow> job_ok (db_segments (sys_db s')) rs1 job"
    using i' unfolding sys_inv_def fst_conv snd_conv by blast
  then have "\<exists>rs'. list_all2 seg_lists ?segs rs'" by (intro committed_lists) (simp_all add: db_shape_def)
  then obtain rs' where l: "list_all2 seg_lists (disk_only ?segs) rs'" using lists_filter by blast
  obtain m where "db_memory (sys_db s') = Some m" using f by (auto simp: files_inv_def ids_ok_def)
  then have "committed p (db_multi (sys_db s')) = ?segs @ [MemSeg m]"
    using committed_append [OF sys_inv_fits [OF i']] by (simp add: db_multi_def copyAndAppend_def)
  then have "disk_only (committed p (db_multi (sys_db s'))) = disk_only ?segs" by simp
  then have "openable (sys_files s') (disk_only ?segs)"
    using files_ok_disk_only [of "sys_files s'" "committed p (db_multi (sys_db s'))"] f files_ok_openable
    by (simp add: files_inv_def)
  then show ?thesis using openable_reopens l f by (auto simp: files_inv_def)
qed

theorem crash_reopens_witness:
  "\<exists>(s :: system) s' job rs'.
     sys_run \<lparr>j_stack = replicate maxKeySize 0, j_buffer = []\<rparr> (\<lambda>i. 0) (s, None) [MergeBegin] (s', Some job) \<and>
     list_all2 seg_lists (disk_only (committed (Some job) (db_segments (sys_db s')))) rs' \<and>
     reopens \<lparr>j_stack = replicate maxKeySize 0, j_buffer = []\<rparr> (db_path (sys_db s')) (sys_files s') (shown rs')"
proof -
  let ?j = "\<lparr>j_stack = replicate maxKeySize 0, j_buffer = []\<rparr>"
  obtain s :: system where s: "sys_ok s [[mk_kv [1] [2]], [mk_kv [1] [3]]]" "2 \<le> length (db_segments (sys_db s))"
    "files_inv (s, None)" "db_shape seg_lists (sys_db s) [[mk_kv [1] [2]], [mk_kv [1] [3]]] []"
    "maxSegments (db_options (sys_db s)) = 1" "unat (db_nextSegID (sys_db s)) = 3"
    by (rule two_on_disk)
  obtain job s' where b: "merge_begin ?j kv_cmp s = Inr (job, s')" using merge_begin_ok [OF s(1,2), of ?j] by blast
  have "\<not> few_segments (db_segments (sys_db s)) (maxSegments (db_options (sys_db s)))" using s(2,5) by (simp add: few_segments_def)
  then have "sys_step ?j (\<lambda>i. 0) (s, None) MergeBegin (s', Some job)" using b by (rule sys_step.merge_begin)
  then have run: "sys_run ?j (\<lambda>i. 0) (s, None) ([] @ [MergeBegin]) (s', Some job)" by (rule sys_run.run_step [OF sys_run.run_refl])
  have j: "length (j_stack ?j) = maxKeySize" by simp
  have fit: "room ([[mk_kv [1] [2]], [mk_kv [1] [3]]] @ [[]]) ([] @ [MergeBegin])"
    by (simp add: room_def runs_fit_def values_of_def pairs_written_def maxKeySize_def)
  have m: "1 \<le> maxSegments (db_options (sys_db s))" "unat (db_nextSegID (sys_db s)) + length ([] @ [MergeBegin]) < 2 ^ 64"
    using s(5,6) by simp_all
  from crash_reopens [OF s(4,3) m(1) j fit m(2) run] show ?thesis using run unfolding append_Nil by blast
qed

text \<open>C19. A crash while a merge writes its files, after any run of operations and merges: while there are temporary
  files, complete or not, and also when only the key file has its name, the directory does not open. Once both
  files have their names, before and after the old ones are scheduled for deletion, it opens and shows exactly
  what the disk segments hold with the merged one in place of its group; if all segments were on disk, this is
  what they showed before the merge (pairs in memory segments outside the group are lost, as in any crash).\<close>

theorem merge_crash_reopens:
  assumes "db_shape seg_lists (sys_db s) rs r" and "files_inv (s, None)" and "1 \<le> maxSegments (db_options (sys_db s))"
    and "length (j_stack j) = maxKeySize" and "room (rs @ [r]) es" and "unat (db_nextSegID (sys_db s)) + length es < 2 ^ 64"
    and "sys_run j rnd (s, None) es (s', None)" and "2 \<le> length (db_segments (sys_db s'))"
  shows "\<exists>job s1 rs1 r1 rs2. merge_begin j kv_cmp s' = Inr (job, s1) \<and> db_shape seg_lists (sys_db s') rs1 r1 \<and>
           list_all2 seg_lists (disk_only (committed (Some job) (db_segments (sys_db s')))) rs2 \<and>
           (all_disk (db_segments (sys_db s')) \<longrightarrow> shown rs2 = shown rs1) \<and>
           (\<forall>pt. pt \<noteq> BothFilesRenamed \<longrightarrow> unopenable (db_path (sys_db s')) (crash_dir pt (mj_seg job) (sys_files s'))) \<and>
           reopens j (db_path (sys_db s')) (crash_dir BothFilesRenamed (mj_seg job) (sys_files s')) (shown rs2) \<and>
           sys_files s1 = snd (scheduleDeletion (sys_deleter s') (concat (map seg_files (mj_group job)))
             (crash_dir BothFilesRenamed (mj_seg job) (sys_files s'))) \<and>
           reopens j (db_path (sys_db s')) (sys_files s1) (shown rs2)"
proof -
  note f = session_run(1) [OF assms(1-7)] and i' = session_run(2) [OF assms(1-7)]
  obtain rs1 r1 where sh: "db_shape seg_lists (sys_db s') rs1 r1" "runs_fit (rs1 @ [r1, []])"
    using i' unfolding sys_inv_def fst_conv snd_conv by blast
  have l1: "list_all2 seg_lists (db_segments (sys_db s')) rs1" using sh(1) by (simp add: db_shape_def)
  have ok: "sys_ok s' rs1" by (rule files_inv_ok [OF f l1]) (use sh(2) runs_fit_prefix [of rs1 "[r1, []]"] in simp)
  obtain job s1 pre post rpre gs rpost where b: "merge_begin j kv_cmp s' = Inr (job, s1)"
    "db_segments (sys_db s') = pre @ mj_group job @ post" "length pre = mj_start job" "2 \<le> length (mj_group job)"
    "rs1 = rpre @ gs @ rpost" "list_all2 seg_lists pre rpre" "list_all2 seg_lists (mj_group job) gs"
    "list_all2 seg_lists post rpost" "seg_lists (DiskSeg (mj_seg job)) (purged (rpre = []) (merge_runs gs))"
    "files_ok (sys_files s1) (pre @ DiskSeg (mj_seg job) # post)"
    "seg_ids (DiskSeg (mj_seg job)) = IDS (seg_lowerID (hd (mj_group job))) (seg_upperID (last (mj_group job)))"
    using merge_begin_ok [OF ok assms(8), of j] by blast
  let ?new = "pre @ DiskSeg (mj_seg job) # post" and ?rs = "rpre @ [purged (rpre = []) (merge_runs gs)] @ rpost"
  let ?i = "seg_ids (DiskSeg (mj_seg job))" and ?d = "sys_files s'" and ?path = "db_path (sys_db s')"
  have com: "committed (Some job) (db_segments (sys_db s')) = ?new" using b(2,3) by (simp add: committed_def)
  have l: "list_all2 seg_lists ?new ?rs" using b(6,8,9) by (intro list_all2_appendI) simp_all
  have shown: "shown ?rs = shown rs1" using list_all2_sorted [OF b(7)] unfolding b(5) by (intro ext shown_merge) simp_all
  obtain rs2 where rs2: "list_all2 seg_lists (disk_only ?new) rs2" "all_disk (db_segments (sys_db s')) \<longrightarrow> rs2 = ?rs"
  proof (cases "all_disk (db_segments (sys_db s'))")
    case True
    then have "\<exists>ds. x = DiskSeg ds" if "x \<in> set ?new" for x using that unfolding b(2) by auto
    then have "\<forall>x \<in> set ?new. \<not> is_memory x" by fastforce
    then have "disk_only ?new = ?new" by (rule filter_True)
    then show thesis using l that by simp
  qed (use lists_filter [OF l] that in blast)
  have fs: "files_ok ?d (pre @ mj_group job @ post)" "CHR ''.'' \<notin> set ?path" using ok b(2) by (simp_all add: sys_ok_def)
  have free: "?d (key_name ?i) = None" "?d (data_name ?i) = None" "key_name ?i \<notin> set (scheduled ?d)"
    using merge_name_free [OF fs(1) b(4,11)] by simp_all
  have tmp: "\<forall>name. is_tmp name \<longrightarrow> ?d name = None" using fs(1) unfolding files_ok_def by blast
  have "key_name ?i @ ''.tmp'' \<notin> set (scheduled ?d)"
  proof
    assume "key_name ?i @ ''.tmp'' \<in> set (scheduled ?d)"
    then have "stale_file (pre @ mj_group job @ post) (key_name ?i @ ''.tmp'')" using fs(1) unfolding files_ok_def by blast
    then obtain i where "key_name ?i @ ''.tmp'' \<in> {key_name i, data_name i}" unfolding stale_file_def by blast
    then have "\<not> is_tmp (key_name ?i @ ''.tmp'')" by auto
    then show False by simp
  qed
  note un = crash_dir_unopenable [OF refl free this]
  have "file_backed (sys_files s1) (DiskSeg (mj_seg job))" using b(10) by (simp add: files_ok_def)
  then have n: "ds_names (mj_seg job) = [key_name ?i, data_name ?i]" by (simp add: on_disk_def)
  have o1: "openable (crash_dir BothFilesRenamed (mj_seg job) ?d) (disk_only ?new)"
    using merge_renamed [OF fs(1) b(4,7,11) refl n] by simp
  have o2: "openable (sys_files s1) (disk_only ?new)" by (rule files_ok_openable [OF files_ok_disk_only [OF b(10)]])
  have g: "sys_files s1 = snd (scheduleDeletion (sys_deleter s') (concat (map seg_files (mj_group job)))
      (crash_dir BothFilesRenamed (mj_seg job) ?d))"
    by (rule merge_begin_files [OF b(1) fs(2) tmp])
  have sh2: "all_disk (db_segments (sys_db s')) \<longrightarrow> shown rs2 = shown rs1" using rs2(2) shown by blast
  have un': "\<forall>pt. pt \<noteq> BothFilesRenamed \<longrightarrow> unopenable ?path (crash_dir pt (mj_seg job) ?d)" using un by blast
  have "list_all2 seg_lists (disk_only (committed (Some job) (db_segments (sys_db s')))) rs2" using rs2(1) unfolding com .
  then show ?thesis
    using b(1) sh(1) sh2 un' openable_reopens [OF o1 rs2(1) fs(2)] g openable_reopens [OF o2 rs2(1) fs(2)]
    by (intro exI [of _ job] exI [of _ s1] exI [of _ rs1] exI [of _ r1] exI [of _ rs2] conjI)
qed

theorem merge_crash_reopens_witness:
  "\<exists>(s :: system) job s1 rs2. all_disk (db_segments (sys_db s)) \<and>
     merge_begin \<lparr>j_stack = replicate maxKeySize 0, j_buffer = []\<rparr> kv_cmp s = Inr (job, s1) \<and>
     unopenable ''db'' (crash_dir (KeyFileOpen []) (mj_seg job) (sys_files s)) \<and>
     unopenable ''db'' (crash_dir KeyFileRenamed (mj_seg job) (sys_files s)) \<and>
     reopens \<lparr>j_stack = replicate maxKeySize 0, j_buffer = []\<rparr> ''db'' (crash_dir BothFilesRenamed (mj_seg job) (sys_files s)) (shown rs2) \<and>
     reopens \<lparr>j_stack = replicate maxKeySize 0, j_buffer = []\<rparr> ''db'' (sys_files s1) (shown rs2)"
proof -
  let ?j = "\<lparr>j_stack = replicate maxKeySize 0, j_buffer = []\<rparr>"
  obtain s :: system where s: "all_disk (db_segments (sys_db s))" "2 \<le> length (db_segments (sys_db s))" "db_path (sys_db s) = ''db''"
    "files_inv (s, None)" "db_shape seg_lists (sys_db s) [[mk_kv [1] [2]], [mk_kv [1] [3]]] []"
    "maxSegments (db_options (sys_db s)) = 1" "unat (db_nextSegID (sys_db s)) = 3"
    by (rule two_on_disk)
  have j: "length (j_stack ?j) = maxKeySize" by simp
  have fit: "room ([[mk_kv [1] [2]], [mk_kv [1] [3]]] @ [[]]) []" by (simp add: room_def runs_fit_def values_of_def maxKeySize_def)
  have m: "1 \<le> maxSegments (db_options (sys_db s))" "unat (db_nextSegID (sys_db s)) + length ([] :: event list) < 2 ^ 64"
    using s(6,7) by simp_all
  have pt: "KeyFileOpen [] \<noteq> BothFilesRenamed" "KeyFileRenamed \<noteq> BothFilesRenamed" by simp_all
  from merge_crash_reopens [OF s(5,4) m(1) j fit m(2) sys_run.run_refl s(2)] s(1) pt show ?thesis unfolding s(3) by blast
qed

section \<open>Files that are not a segment\<close>

text \<open>C29. A crash while the key file of a segment is written: a directory with the temporary key file of a segment
  and without its key file does not open again, in any order of listing, with or without the lock: the removal
  of temporary files looks in the working directory of the process, and the file is then taken for a segment.\<close>

theorem tmp_file_blocks_open:
  assumes "d (key_name i @ ''.tmp'') \<noteq> None" and "d (key_name i) = None"
    and "key_name i @ ''.tmp'' \<notin> set (scheduled d)" and "set names2 = dom (opened_dir d)"
  shows "\<exists>err. openImpl e static path opts names names1 names2 cwd os (Dir d) = Inl err"
  by (rule tmp_key_blocks [OF assms])

theorem tmp_file_blocks_open_witness:
  "\<exists>err. openImpl \<lparr>e_junk = \<lparr>j_stack = [], j_buffer = []\<rparr>, e_rnd = (\<lambda>i. 0), e_logId = 0, e_logSize = 0\<rparr> None ''db''
     (mk_options True) [''keys.1.3.tmp''] [''lockfile'', ''keys.1.3.tmp''] [''lockfile'', ''keys.1.3.tmp''] Map.empty std_os
     (Dir [''keys.1.3.tmp'' \<mapsto> []]) = Inl err"
proof (rule tmp_file_blocks_open)
  have n: "key_name (IDS 1 3) = ''keys.1.3''"
    by code_simp
  show "[''keys.1.3.tmp'' \<mapsto> []] (key_name (IDS 1 3) @ ''.tmp'') \<noteq> None"
    "[''keys.1.3.tmp'' \<mapsto> []] (key_name (IDS 1 3)) = None"
    "key_name (IDS 1 3) @ ''.tmp'' \<notin> set (scheduled [''keys.1.3.tmp'' \<mapsto> []])"
    unfolding n by (simp_all add: scheduled_def)
  show "set [''lockfile'', ''keys.1.3.tmp''] = dom (opened_dir [''keys.1.3.tmp'' \<mapsto> []])"
    by (auto simp: opened_dir_file scheduled_def dom_def split: if_splits)
qed

text \<open>Logs are never replayed: for a database path without a dot, loading gives the same segments whatever log
  files the directory lists, since the test for a log looks at the beginning of the whole path.\<close>

theorem logs_not_loaded:
  assumes "CHR ''.'' \<notin> set dbpath"
  shows "load_files e cmp dbpath opts d names =
           load_files e cmp dbpath opts d (filter (\<lambda>name. \<not> has_prefix ''log.'' name) names)"
proof (induction names)
  case (Cons name names)
  have "load_keys dbpath d name = Inr []" if "has_prefix ''log.'' name"
  proof -
    have "take (length ''log.'') name = ''log.''" using that unfolding has_prefix_def .
    then have "name = ''log.'' @ drop (length ''log.'') name" using append_take_drop_id [of "length ''log.''" name] by presburger
    then obtain rest where "name = ''log.'' @ rest" by blast
    then have "\<not> has_prefix ''keys.'' name" by (simp add: has_prefix_def)
    then show ?thesis by (simp add: load_keys_def)
  qed
  then show ?case using Cons no_dot_not_log [OF assms] by (simp add: load_log_def bind_res_def split: sum.split)
qed simp

theorem logs_not_loaded_witness:
  "load_files \<lparr>e_junk = \<lparr>j_stack = [], j_buffer = []\<rparr>, e_rnd = (\<lambda>i. 0), e_logId = 0, e_logSize = 0\<rparr> kv_cmp ''db''
     (mk_options True) [''log.1'' \<mapsto> [1, 2, 3]] [''log.1'', ''lockfile''] = Inr []"
proof -
  have "CHR ''.'' \<notin> set ''db''" by simp
  from logs_not_loaded [OF this] show ?thesis
    by (subst logs_not_loaded) (simp_all add: has_prefix_def load_log_def load_keys_def)
qed

end
