(* ===== verification/CloseTasks.thy ===== *)
theory CloseTasks
  imports Session "HOL-Library.Multiset"
begin

text \<open>
  The tasks of \<^verbatim>\<open>Database::closeWithMerge\<close>, \<^verbatim>\<open>database.cpp\<close>: each memory segment is written to disk by a task of the
  thread pool. The tasks touch different files, so the directory does not depend on the order in which they run.
  While they run the database is still marked as open, but it has no state to read from.
\<close>

section \<open>What a task does to the directory\<close>

text \<open>The files a successful \<^verbatim>\<open>writeAndLoadSegment\<close> has written.\<close>

context lookup_iterator
begin

lemma writeAndLoad_contents:
  assumes "yields it kvs" "writeAndLoadSegment nextKv dbpath kname dname it p d = Inr (ds, d')"
  shows "ds_keyFile ds = key_bytes (written (purged p kvs))" "ds_dataFile ds = data_bytes (written (purged p kvs))"
proof -
  have w: "writeSegmentFiles nextKv p it = Some (Inr (written (purged p kvs)))"
    by (rule writeSegmentFiles_yields [OF assms(1)])
  obtain names lo hi where
    "newDiskSegment names lo hi (key_bytes (written (purged p kvs))) (data_bytes (written (purged p kvs)))
       (index_keys (written (purged p kvs))) = Inr ds"
    using assms(2) w
    by (auto simp: writeAndLoadSegment_def Let_def fs_rename_def fs_read_def load_disk_segment_def bind_res_eq_Inr
        split: if_splits)
  from newDiskSegment_files [OF this]
  show "ds_keyFile ds = key_bytes (written (purged p kvs))" "ds_dataFile ds = data_bytes (written (purged p kvs))" by simp_all
qed

end

text \<open>The effect of the task for a segment with the run \<open>r\<close>; there is no task for a disk segment.\<close>

fun task_effect :: "segment \<times> keyvalue list \<Rightarrow> directory \<Rightarrow> directory" where
  "task_effect (MemSeg m, r) d =
     seg_removeSegment (MemSeg m)
       (if r = [] then d
        else d(key_name (seg_ids (MemSeg m)) \<mapsto> key_bytes (written r), data_name (seg_ids (MemSeg m)) \<mapsto> data_bytes (written r)))"
| "task_effect (s, r) d = d"

text \<open>The directory has none of the names a task creates.\<close>

definition names_free :: "directory \<Rightarrow> segment list \<Rightarrow> bool" where
  "names_free d segs \<longleftrightarrow>
     (\<forall>name. is_tmp name \<longrightarrow> d name = None) \<and>
     (\<forall>m. MemSeg m \<in> set segs \<longrightarrow> d (key_name (seg_ids (MemSeg m))) = None \<and> d (data_name (seg_ids (MemSeg m))) = None)"

lemma task_writes:
  assumes "seg_lists (MemSeg m) r" "run_ok r" "CHR ''.'' \<notin> set dbpath" "names_free d [MemSeg m]"
  shows "writeSegmentToDisk j kv_cmp dbpath (MemSeg m) d = Inr (task_effect (MemSeg m, r) d)"
proof -
  let ?i = "seg_ids (MemSeg m)"
  have free: "d (key_name ?i) = None" "d (data_name ?i) = None" and notmp: "\<forall>name. is_tmp name \<longrightarrow> d name = None"
    using assms(4) by (simp_all add: names_free_def)
  obtain it where it: "seg_lookup j kv_cmp (MemSeg m) [] [] = Inr it" "seg_yields it r"
    using seg_lookup_yields [OF assms(1), of "[]" "[]" j] by (auto simp: range_ok_def mem_range_def within_def)
  obtain it1 where it1: "seg_peekKey it = Inr (case r of [] \<Rightarrow> [] | kv # _ \<Rightarrow> kv_key kv, it1)" "seg_yields it1 r"
    using seg_it.peek_key [OF it(2)] by blast
  show ?thesis
  proof (cases r)
    case Nil
    then show ?thesis using it(1) it1(1) by (simp add: writeSegmentToDisk_def)
  next
    case (Cons kv r')
    have ne: "kv_key kv \<noteq> []" using seg_lists_run(2) [OF assms(1)] Cons by (simp add: keys_nonempty_def)
    have pr: "purged False r = r" by (simp add: purged_def)
    then have ok: "run_ok (purged False r)" using assms(2) by simp
    obtain ds where ds: "writeAndLoadSegment seg_next dbpath (key_name ?i) (data_name ?i) it1 False d =
       Inr (ds, d(key_name ?i @ ''.tmp'' := None, data_name ?i @ ''.tmp'' := None,
                  key_name ?i \<mapsto> ds_keyFile ds, data_name ?i \<mapsto> ds_dataFile ds))"
      by (rule seg_it.writeAndLoad [OF it1(2) ok assms(3) free])
    have "d(key_name ?i @ ''.tmp'' := None, data_name ?i @ ''.tmp'' := None) = d"
      using notmp by (simp add: fun_eq_iff)
    moreover have "ds_keyFile ds = key_bytes (written r)" "ds_dataFile ds = data_bytes (written r)"
      using seg_it.writeAndLoad_contents [OF it1(2) ds] pr by simp_all
    ultimately show ?thesis using it(1) it1(1) Cons ne ds by (simp add: writeSegmentToDisk_def del: seg_removeSegment.simps)
  qed
qed

lemma log_name_other [simp]: "log_name n \<noteq> key_name i" "log_name n \<noteq> data_name i" "key_name i \<noteq> log_name n" "data_name i \<noteq> log_name n"
  by (simp_all add: log_name_def key_name_def data_name_def)

lemma task_keeps_free:
  assumes "names_free d (s # segs)" "\<forall>t \<in> set segs. seg_ids t \<noteq> seg_ids s"
  shows "names_free (task_effect (s, r) d) segs"
proof (cases s)
  case (MemSeg m)
  have "seg_ids (MemSeg t) \<noteq> seg_ids (MemSeg m)" if "MemSeg t \<in> set segs" for t using that assms(2) MemSeg by blast
  moreover have "\<not> is_tmp (key_name i)" "\<not> is_tmp (data_name i)" for i by simp_all
  ultimately show ?thesis
    using assms(1) MemSeg unfolding names_free_def by (auto simp: fs_remove_def)
qed (use assms(1) in \<open>auto simp: names_free_def\<close>)

lemma write_segments_effects:
  assumes "list_all2 seg_lists segs rs" "\<forall>r \<in> set rs. run_ok r" "CHR ''.'' \<notin> set dbpath"
    and "names_free d segs" "distinct (map seg_ids segs)"
  shows "write_segments j kv_cmp dbpath segs d = Inr (fold task_effect (zip segs rs) d)"
  using assms(1,2,4,5)
proof (induction arbitrary: d rule: list_all2_induct)
  case (Cons s segs r rs)
  have "names_free (task_effect (s, r) d) segs"
    using Cons.prems(3) by (intro task_keeps_free [OF Cons.prems(2)]) (metis distinct.simps(2) image_eqI list.simps(9) set_map)
  then have "write_segments j kv_cmp dbpath segs (task_effect (s, r) d) = Inr (fold task_effect (zip segs rs) (task_effect (s, r) d))"
    using Cons.IH Cons.prems by simp
  moreover have "(if is_memory s then writeSegmentToDisk j kv_cmp dbpath s d else Inr d) = Inr (task_effect (s, r) d)"
  proof (cases s)
    case (MemSeg m)
    have "names_free d [MemSeg m]" using Cons.prems(2) MemSeg by (simp add: names_free_def)
    then show ?thesis using task_writes [OF _ _ assms(3), of m r d j] Cons.hyps(1) Cons.prems(1) MemSeg by simp
  qed simp_all
  ultimately show ?case by simp
qed simp

section \<open>The order of the tasks\<close>

lemma effects_commute:
  assumes "seg_ids s \<noteq> seg_ids t"
  shows "task_effect (s, r) \<circ> task_effect (t, q) = task_effect (t, q) \<circ> task_effect (s, r)"
proof (cases "\<exists>m n. s = MemSeg m \<and> t = MemSeg n")
  case True
  then obtain m n where st: "s = MemSeg m" "t = MemSeg n" by blast
  have "seg_ids (MemSeg m) \<noteq> seg_ids (MemSeg n)" using assms st by simp
  then show ?thesis unfolding st by (intro ext) (simp add: fs_remove_def fun_upd_def)
next
  case False
  then show ?thesis by (cases s; cases t) (auto simp: fun_eq_iff)
qed

text \<open>A segment has one run: what its iterator returns.\<close>

lemma run_unique:
  assumes "seg_lists s r" "seg_lists s r'"
  shows "r = r'"
proof -
  obtain it where it: "seg_lookup undefined kv_cmp s [] [] = Inr it" "seg_yields it r"
    using seg_lookup_yields [OF assms(1), of "[]" "[]" undefined]
    by (auto simp: range_ok_def mem_range_def within_def)
  moreover obtain it' where "seg_lookup undefined kv_cmp s [] [] = Inr it'" "seg_yields it' r'"
    using seg_lookup_yields [OF assms(2), of "[]" "[]" undefined]
    by (auto simp: range_ok_def mem_range_def within_def)
  ultimately show ?thesis using seg_it.drain_yields [of it r] seg_it.drain_yields [of it r'] by simp
qed

lemma chain_distinct: "chain segs \<Longrightarrow> distinct (map seg_ids segs)"
proof (induction segs)
  case (Cons s segs)
  have "seg_lowerID s \<le> seg_upperID s" "\<forall>t \<in> set segs. seg_upperID s < seg_lowerID t"
    using Cons.prems by (auto simp: chain_def)
  then have "seg_ids s \<noteq> seg_ids t" if "t \<in> set segs" for t
    using that by (auto simp: seg_ids_def dest: le_less_trans)
  moreover have "chain segs" using Cons.prems by (simp add: chain_def)
  ultimately show ?case using Cons.IH by auto
qed simp

lemma write_segments_order:
  assumes "list_all2 seg_lists segs rs" "\<forall>r \<in> set rs. run_ok r" "CHR ''.'' \<notin> set dbpath"
    and "names_free d segs" "distinct (map seg_ids segs)" "mset order = mset segs"
  shows "write_segments j kv_cmp dbpath order d = write_segments j kv_cmp dbpath segs d"
    and "\<exists>d'. write_segments j kv_cmp dbpath segs d = Inr d'"
proof -
  define run where "run = (\<lambda>s. SOME r. seg_lists s r)"
  have run: "seg_lists s (run s)" if "seg_lists s r" for s r
    using that unfolding run_def by (rule someI)
  have set: "set order = set segs" using mset_eq_setD [OF assms(6)] .
  have "rs = map run segs"
    using assms(1) run run_unique by (induction rule: list_all2_induct) auto
  then have l: "list_all2 seg_lists segs (map run segs)" and ok: "\<forall>r \<in> set (map run segs). run_ok r"
    using assms(1,2) by simp_all
  have "\<forall>s \<in> set segs. seg_lists s (run s)" using l by (simp add: list_all2_map2 list_all2_same)
  then have l': "list_all2 seg_lists order (map run order)" using set by (simp add: list_all2_map2 list_all2_same)
  have ok': "\<forall>r \<in> set (map run order). run_ok r" using ok set by simp
  have free: "names_free d order" using assms(4) set by (simp add: names_free_def)
  have d: "distinct (map seg_ids order)"
    using assms(5,6) by (metis mset_map mset_eq_imp_distinct_iff)
  have z: "zip xs (map run xs) = map (\<lambda>s. (s, run s)) xs" for xs by (induction xs) simp_all
  have "fold (\<lambda>s. task_effect (s, run s)) order = fold (\<lambda>s. task_effect (s, run s)) segs"
  proof (rule fold_multiset_equiv)
    show "mset order = mset segs" by (rule assms(6))
    fix s t assume "s \<in> set order" "t \<in> set order"
    then show "task_effect (s, run s) \<circ> task_effect (t, run t) = task_effect (t, run t) \<circ> task_effect (s, run s)"
      using d effects_commute [of s t] by (cases "s = t") (auto simp: distinct_map inj_on_def)
  qed
  then have "fold task_effect (zip order (map run order)) d = fold task_effect (zip segs (map run segs)) d"
    unfolding z by (simp add: fold_map comp_def)
  then show "write_segments j kv_cmp dbpath order d = write_segments j kv_cmp dbpath segs d"
    "\<exists>d'. write_segments j kv_cmp dbpath segs d = Inr d'"
    using write_segments_effects [OF l ok assms(3-5), of j] write_segments_effects [OF l' ok' assms(3) free d, of j] by simp_all
qed

section \<open>The state while the tasks run\<close>

text \<open>The merging loop changes nothing of the database but its segments.\<close>

lemma merge_commit_keeps:
  "merge_commit job db = Inr db' \<Longrightarrow> db_open db' = db_open db \<and> db_memory db' = db_memory db"
  by (auto simp: merge_commit_def bind_res_eq_Inr)

lemma merge_begin_db: "merge_begin j icmp s = Inr (job, s') \<Longrightarrow> sys_db s' = sys_db s"
  by (auto simp: merge_begin_def bind_res_eq_Inr split: prod.splits)

lemma mergeSegments0_keeps:
  assumes "mergeSegments0 j icmp n s = Some y"
  shows "\<forall>s'. y = Inr s' \<longrightarrow> db_open (sys_db s') = db_open (sys_db s) \<and> db_memory (sys_db s') = db_memory (sys_db s)"
proof (rule mergeSegments0.raw_induct [OF _ assms], intro allI impI)
  fix loop :: "junk \<Rightarrow> kv_compare \<Rightarrow> int \<Rightarrow> system \<Rightarrow> system res option" and j icmp n s y s'
  assume loop: "\<And>j icmp n s y. loop j icmp n s = Some y \<Longrightarrow>
      \<forall>s'. y = Inr s' \<longrightarrow> db_open (sys_db s') = db_open (sys_db s) \<and> db_memory (sys_db s') = db_memory (sys_db s)"
    and body: "(if few_segments (db_segments (sys_db s)) n then Some (Inr s)
      else case bind_res (merge_begin j icmp s) (\<lambda>(job, s1).
             bind_res (merge_commit job (sys_db s1)) (\<lambda>db. Inr (s1\<lparr>sys_db := db\<rparr>))) of
             Inl e \<Rightarrow> Some (Inl e) | Inr s2 \<Rightarrow> loop j icmp n s2) = Some y" and y: "y = Inr s'"
  show "db_open (sys_db s') = db_open (sys_db s) \<and> db_memory (sys_db s') = db_memory (sys_db s)"
  proof (cases "few_segments (db_segments (sys_db s)) n")
    case False
    then obtain job s1 db where m: "merge_begin j icmp s = Inr (job, s1)" "merge_commit job (sys_db s1) = Inr db"
      "loop j icmp n (s1\<lparr>sys_db := db\<rparr>) = Some (Inr s')"
      using body y by (auto simp: bind_res_def split: sum.splits)
    then show ?thesis using loop [OF m(3)] merge_begin_db [OF m(1)] merge_commit_keeps [OF m(2)] by simp
  qed (use body y in simp)
qed

section \<open>Properties\<close>

text \<open>C25. Closing does not depend on the order in which the tasks of the pool write the memory segments: whatever
  order the tasks run in, all of them succeed and the directory is the same.\<close>

theorem close_any_order:
  assumes "session s rs r" and "close_swap s = Inr s2" and "close_merge j kv_cmp n s2 = Inr s3"
    and "mset order = mset (db_segments (sys_db s3))"
  shows "write_segments j kv_cmp (db_path (sys_db s3)) order (sys_files s3) =
           write_segments j kv_cmp (db_path (sys_db s3)) (db_segments (sys_db s3)) (sys_files s3) \<and>
         (\<exists>s4. close_write j kv_cmp s3 = Inr s4)"
proof -
  obtain rs2 where ok: "sys_ok s3 rs2" using close_merged [OF assms(1), of j n] assms(2,3) by auto
  let ?segs = "db_segments (sys_db s3)" and ?d = "sys_files s3"
  have l: "list_all2 seg_lists ?segs rs2" "\<forall>r \<in> set rs2. run_ok r" "CHR ''.'' \<notin> set (db_path (sys_db s3))" "files_ok ?d ?segs"
    using ok runs_fit_ok unfolding sys_ok_def by auto
  have "chain ?segs" using l(4) by (simp add: files_ok_def)
  then have "distinct (map seg_ids ?segs)" by (rule chain_distinct)
  moreover have "names_free ?d ?segs"
  proof -
    have "\<forall>name. is_tmp name \<longrightarrow> ?d name = None" using l(4) unfolding files_ok_def by blast
    then show ?thesis using memory_name_free(1) [OF l(4)] unfolding names_free_def by blast
  qed
  ultimately show ?thesis
    using write_segments_order [OF l(1-3) _ _ assms(4), of ?d j] by (auto simp: close_write_def)
qed

text \<open>A session with two memory segments at least, for the witness.\<close>

lemma two_memories:
  obtains s rs r where "session (s :: system) rs r" "db_segments (sys_db s) \<noteq> []"
proof -
  let ?j = "\<lparr>j_stack = replicate maxKeySize 0, j_buffer = []\<rparr>" and ?es = "[Client (Put [1] [2]), Client Snap]"
  obtain db1 rs1 r1 where p: "db_put (\<lambda>i. 0) (sys_db fresh_system) [1] [2] = Inr db1" "db_repr db1 rs1 r1"
    using db_put_repr [OF fresh_inv(2), of "[1]" "\<lambda>i. 0" "[2]"] by auto
  obtain sn db2 where q: "db_snapshot (\<lambda>i. 0) db1 = Inr (sn, db2)" "list_all2 seg_repr (db_segments db2) (rs1 @ [r1])"
    using db_snapshot_repr [OF p(2), of "\<lambda>i. 0"] by auto
  let ?s = "fresh_system\<lparr>sys_db := db2\<rparr>"
  have "sys_step ?j (\<lambda>i. 0) (fresh_system, None) (Client (Put [1] [2])) (fresh_system\<lparr>sys_db := db1\<rparr>, None)"
    using p(1) by (intro sys_step.client) simp_all
  moreover have "sys_step ?j (\<lambda>i. 0) (fresh_system\<lparr>sys_db := db1\<rparr>, None) (Client Snap) ((fresh_system\<lparr>sys_db := db1\<rparr>)\<lparr>sys_db := db2\<rparr>, None)"
    using q(1) by (intro sys_step.client) simp_all
  ultimately have run: "sys_run ?j (\<lambda>i. 0) (fresh_system, None) (([] @ [Client (Put [1] [2])]) @ [Client Snap]) (?s, None)"
    by (intro sys_run.run_step [OF sys_run.run_step [OF sys_run.run_refl]]) simp_all
  obtain m where "db_nextSegID (sys_db fresh_system) = 1" by (rule fresh_memory)
  then have ids: "unat (db_nextSegID (sys_db fresh_system)) + length (([] @ [Client (Put [1] [2])]) @ [Client Snap]) < 2 ^ 64" by simp
  have j: "length (j_stack ?j) = maxKeySize" by simp
  have fit: "room ([] @ [[]]) (([] @ [Client (Put [1] [2])]) @ [Client Snap])"
    by (simp add: room_def runs_fit_def values_of_def pairs_written_def maxKeySize_def)
  note run' = session_run [OF repr_shape [OF fresh_inv(2)] fresh_inv(1,3) j fit ids run]
  obtain rs r where "session ?s rs r" using session_end [OF run'(2,1)] by blast
  moreover have "db_segments (sys_db ?s) \<noteq> []" using q(2) by auto
  ultimately show thesis by (rule that)
qed

theorem close_any_order_witness:
  "\<exists>(s :: system) s2. close_swap s = Inr s2 \<and> 2 \<le> length (db_segments (sys_db s2)) \<and>
     write_segments \<lparr>j_stack = [], j_buffer = []\<rparr> kv_cmp (db_path (sys_db s2)) (rev (db_segments (sys_db s2))) (sys_files s2) =
       write_segments \<lparr>j_stack = [], j_buffer = []\<rparr> kv_cmp (db_path (sys_db s2)) (db_segments (sys_db s2)) (sys_files s2) \<and>
     (\<exists>s4. close_write \<lparr>j_stack = [], j_buffer = []\<rparr> kv_cmp s2 = Inr s4)"
proof -
  obtain s rs r where s: "session (s :: system) rs r" "db_segments (sys_db s) \<noteq> []" by (rule two_memories)
  obtain s2 where s2: "close_swap s = Inr s2" using close_merged [OF s(1)] by blast
  have "2 \<le> length (db_segments (sys_db s2))"
    using s2 s(2) by (cases "db_segments (sys_db s)") (auto simp: close_swap_def bind_res_eq_Inr copyAndAppend_def)
  moreover have "close_merge \<lparr>j_stack = [], j_buffer = []\<rparr> kv_cmp 0 s2 = Inr s2" by (simp add: close_merge_def)
  from close_any_order [OF s(1) s2 this, of "rev (db_segments (sys_db s2))"]
  have "write_segments \<lparr>j_stack = [], j_buffer = []\<rparr> kv_cmp (db_path (sys_db s2)) (rev (db_segments (sys_db s2))) (sys_files s2) =
       write_segments \<lparr>j_stack = [], j_buffer = []\<rparr> kv_cmp (db_path (sys_db s2)) (db_segments (sys_db s2)) (sys_files s2)"
    "\<exists>s4. close_write \<lparr>j_stack = [], j_buffer = []\<rparr> kv_cmp s2 = Inr s4" by simp_all
  ultimately show ?thesis using s2 by blast
qed

text \<open>From the moment a close sets the state without a memory segment to its end, the database still says it is
  open, and a \<^verbatim>\<open>get\<close> of another thread, which takes no lock, reads through a null pointer. If the merge of the
  close throws, the database stays like that for every operation.\<close>

theorem get_while_closing:
  assumes "db_open (sys_db s)" and "k \<noteq> []" and "length k \<le> 1024"
    and "close_request s = Inr s1" and "close_swap s1 = Inr s2" and "close_merge j icmp n s2 = Inr s3"
  shows "db_open (sys_db s2) \<and> db_get j (sys_db s2) k = Inl UndefinedBehaviour \<and>
         db_put rnd (sys_db s2) k v = Inl UndefinedBehaviour \<and>
         db_open (sys_db s3) \<and> db_get j (sys_db s3) k = Inl UndefinedBehaviour"
proof -
  have s2: "db_open (sys_db s2)" "db_memory (sys_db s2) = None"
    using assms(1,4,5) by (auto simp: close_request_def close_swap_def bind_res_eq_Inr)
  moreover have "db_open (sys_db s3) = db_open (sys_db s2) \<and> db_memory (sys_db s3) = db_memory (sys_db s2)"
  proof (cases "n > 0")
    case True
    then have "mergeSegments0 j icmp n s2 = Some (Inr s3)" using assms(6) by (simp add: close_merge_def split: option.splits)
    from mergeSegments0_keeps [OF this] show ?thesis by simp
  qed (use assms(6) in \<open>simp add: close_merge_def\<close>)
  ultimately show ?thesis
    using s2 checkKey_ok [OF assms(2,3)] by (simp add: db_get_def db_put_def maybeSwapMemory_def)
qed

theorem get_while_closing_witness:
  "\<exists>s1 s2. close_request fresh_system = Inr s1 \<and> close_swap s1 = Inr s2 \<and> db_open (sys_db s2) \<and>
     db_get \<lparr>j_stack = [], j_buffer = []\<rparr> (sys_db s2) [1] = Inl UndefinedBehaviour"
proof -
  obtain m where m: "db_memory (sys_db fresh_system) = Some m" by (rule fresh_memory)
  have o: "db_open (sys_db fresh_system)" using fresh_inv(2) by (simp add: db_shape_def)
  obtain s1 where s1: "close_request fresh_system = Inr s1" "db_memory (sys_db s1) = Some m"
    using o m by (simp add: close_request_def)
  obtain s2 where s2: "close_swap s1 = Inr s2" using s1(2) by (simp add: close_swap_def)
  have "close_merge \<lparr>j_stack = [], j_buffer = []\<rparr> kv_cmp 0 s2 = Inr s2" by (simp add: close_merge_def)
  from get_while_closing [OF o _ _ s1(1) s2 this, of "[1]"] s1(1) s2 show ?thesis by simp
qed

end
