(* ===== verification/ThreadPool.thy ===== *)
theory ThreadPool
  imports Prelude "HOL-Library.Multiset"
begin

text \<open>
  \<^verbatim>\<open>include/threadpool.h\<close> and \<^verbatim>\<open>include/waitgroup.h\<close> as step relations: a step is a critical section of a thread or
  what happens between two of them. The theorems: every task is run once and in the order of the queue, no
  wake-up is lost, and the destructor of the pool ends with every task run; one waiter of a wait group is
  woken, two need not be.
\<close>

section \<open>The pool\<close>

text \<open>
  A worker is before its critical section, waits on the condition variable, runs a task outside the lock, or has
  returned. \<open>pl_notify\<close> counts the calls of \<^verbatim>\<open>notify_one\<close> that are due, \<open>pl_notify_all\<close> is set while the one of
  \<^verbatim>\<open>notify_all\<close> is. The last three fields record what happened: they are no part of the code.
\<close>

datatype 'a worker = Checking | Waiting | Running 'a | Exited

record 'a pool =
  pl_workers :: "'a worker list"
  pl_tasks :: "'a list"
  pl_stop :: bool
  pl_notify :: nat
  pl_notify_all :: bool
  pl_enqueued :: "'a list"
  pl_started :: "'a list"
  pl_done :: "'a list"

definition newThreadPool :: "nat \<Rightarrow> 'a pool" where
  "newThreadPool n =
     \<lparr>pl_workers = replicate n Checking, pl_tasks = [], pl_stop = False, pl_notify = 0, pl_notify_all = False,
      pl_enqueued = [], pl_started = [], pl_done = []\<rparr>"

text \<open>The critical section of a worker: it waits, returns, or takes the first task.\<close>

definition worker_section :: "nat \<Rightarrow> 'a pool \<Rightarrow> 'a pool" where
  "worker_section i p =
     (case pl_tasks p of
        [] \<Rightarrow> p\<lparr>pl_workers := (pl_workers p)[i := if pl_stop p then Exited else Waiting]\<rparr>
      | t # ts \<Rightarrow> p\<lparr>pl_workers := (pl_workers p)[i := Running t], pl_tasks := ts, pl_started := pl_started p @ [t]\<rparr>)"

definition enqueue :: "'a \<Rightarrow> 'a pool \<Rightarrow> 'a pool" where
  "enqueue t p = p\<lparr>pl_tasks := pl_tasks p @ [t], pl_notify := pl_notify p + 1, pl_enqueued := pl_enqueued p @ [t]\<rparr>"

definition wake_up :: "'a worker \<Rightarrow> 'a worker" where
  "wake_up w = (case w of Waiting \<Rightarrow> Checking | _ \<Rightarrow> w)"

text \<open>
  The steps. Waiting may end at any time (a spurious wake-up); the condition is then tested again. A pool is not
  used once its destructor runs, so nothing is enqueued after \<open>stop\<close>.
\<close>

inductive pool_step :: "'a pool \<Rightarrow> 'a pool \<Rightarrow> bool" where
  critical: "i < length (pl_workers p) \<Longrightarrow> pl_workers p ! i = Checking \<Longrightarrow> pool_step p (worker_section i p)"
| finish: "i < length (pl_workers p) \<Longrightarrow> pl_workers p ! i = Running t \<Longrightarrow>
    pool_step p (p\<lparr>pl_workers := (pl_workers p)[i := Checking], pl_done := pl_done p @ [t]\<rparr>)"
| spurious: "i < length (pl_workers p) \<Longrightarrow> pl_workers p ! i = Waiting \<Longrightarrow>
    pool_step p (p\<lparr>pl_workers := (pl_workers p)[i := Checking]\<rparr>)"
| enqueued: "\<not> pl_stop p \<Longrightarrow> pool_step p (enqueue t p)"
| notify_one: "pl_notify p > 0 \<Longrightarrow> i < length (pl_workers p) \<Longrightarrow> pl_workers p ! i = Waiting \<Longrightarrow>
    pool_step p (p\<lparr>pl_workers := (pl_workers p)[i := Checking], pl_notify := pl_notify p - 1\<rparr>)"
| notify_nobody: "pl_notify p > 0 \<Longrightarrow> Waiting \<notin> set (pl_workers p) \<Longrightarrow>
    pool_step p (p\<lparr>pl_notify := pl_notify p - 1\<rparr>)"
| stopping: "\<not> pl_stop p \<Longrightarrow> pool_step p (p\<lparr>pl_stop := True, pl_notify_all := True\<rparr>)"
| notify_all: "pl_notify_all p \<Longrightarrow>
    pool_step p (p\<lparr>pl_workers := map wake_up (pl_workers p), pl_notify_all := False\<rparr>)"

inductive_cases pool_stepE [elim]: "pool_step p p'"

section \<open>The invariant of the pool\<close>

text \<open>Counting over the workers.\<close>

definition over :: "('a worker \<Rightarrow> 'b::comm_monoid_add) \<Rightarrow> 'a worker list \<Rightarrow> 'b" where
  "over f ws = sum_list (map f ws)"

lemma over_update: "i < length ws \<Longrightarrow> over f (ws[i := w]) + f (ws ! i) = over f ws + f w"
proof (induction ws arbitrary: i)
  case (Cons v ws)
  then show ?case by (cases i) (simp_all add: over_def ac_simps)
qed simp

fun awake :: "'a worker \<Rightarrow> nat" where
  "awake Checking = 1" | "awake (Running t) = 1" | "awake _ = 0"

fun task_of :: "'a worker \<Rightarrow> 'a multiset" where
  "task_of (Running t) = {#t#}" | "task_of _ = {#}"

definition pool_inv :: "nat \<Rightarrow> 'a pool \<Rightarrow> bool" where
  "pool_inv n p \<longleftrightarrow>
     length (pl_workers p) = n \<and>
     pl_enqueued p = pl_started p @ pl_tasks p \<and>
     mset (pl_started p) = mset (pl_done p) + over task_of (pl_workers p) \<and>
     (Waiting \<in> set (pl_workers p) \<longrightarrow> length (pl_tasks p) \<le> pl_notify p + over awake (pl_workers p)) \<and>
     (pl_notify_all p \<longrightarrow> pl_stop p) \<and>
     (pl_stop p \<and> \<not> pl_notify_all p \<longrightarrow> Waiting \<notin> set (pl_workers p)) \<and>
     (Exited \<in> set (pl_workers p) \<longrightarrow> pl_stop p \<and> pl_tasks p = [])"

lemma waiting_update: "Waiting \<in> set (ws[i := w]) \<Longrightarrow> w = Waiting \<or> Waiting \<in> set ws"
  "Exited \<in> set (ws[i := w]) \<Longrightarrow> w = Exited \<or> Exited \<in> set ws"
  using set_update_subset_insert by fastforce+

lemma over_wake_up:
  "over task_of (map wake_up ws) = over task_of ws" "over awake ws \<le> over awake (map wake_up ws)"
  by (induction ws) (auto simp: over_def wake_up_def split: worker.splits)

lemma set_wake_up: "Waiting \<notin> set (map wake_up ws)" "Exited \<in> set (map wake_up ws) \<longleftrightarrow> Exited \<in> set ws"
  by (induction ws) (auto simp: wake_up_def split: worker.splits)

lemma pool_inv_new: "pool_inv n (newThreadPool n)"
proof -
  have "over task_of (replicate n Checking) = {#}" by (induction n) (simp_all add: over_def)
  then show ?thesis by (auto simp: pool_inv_def newThreadPool_def)
qed

lemma over_update_zero:
  assumes "i < length ws" "f (ws ! i) = 0"
  shows "over f (ws[i := w]) = over f ws + f w"
  using over_update [OF assms(1), of f w] assms(2) by simp

lemma pool_step_inv:
  assumes "pool_step p p'" "pool_inv n p"
  shows "pool_inv n p'"
  using assms(1)
proof cases
  case (critical i)
  let ?ws = "pl_workers p"
  have a: "over awake (?ws[i := w]) + 1 = over awake ?ws + awake w" for w
    using over_update [OF critical(2), of awake w] critical(3) by simp
  have t: "over task_of (?ws[i := w]) = over task_of ?ws + task_of w" for w
    by (rule over_update_zero) (simp_all add: critical)
  show ?thesis
  proof (cases "pl_tasks p")
    case Nil
    then show ?thesis
      using assms(2) critical t waiting_update [of ?ws i]
      by (auto simp: pool_inv_def worker_section_def split: if_splits)
  next
    case (Cons task ts)
    have "over awake (?ws[i := Running task]) = over awake ?ws" using a [of "Running task"] by simp
    then show ?thesis
      using assms(2) critical Cons t [of "Running task"] waiting_update [of ?ws i "Running task"]
      by (auto simp: pool_inv_def worker_section_def)
  qed
next
  case (finish i t)
  let ?ws = "pl_workers p"
  have "over awake (?ws[i := Checking]) = over awake ?ws" "over task_of (?ws[i := Checking]) + {#t#} = over task_of ?ws"
    using over_update [OF finish(2), of awake Checking] over_update [OF finish(2), of task_of Checking] finish(3) by simp_all
  then show ?thesis
    using assms(2) finish waiting_update [of ?ws i Checking] by (auto simp: pool_inv_def ac_simps)
next
  case (spurious i)
  then have "over awake ((pl_workers p)[i := Checking]) = over awake (pl_workers p) + 1"
    "over task_of ((pl_workers p)[i := Checking]) = over task_of (pl_workers p)"
    using over_update_zero [of i "pl_workers p" awake Checking] over_update_zero [of i "pl_workers p" task_of Checking]
    by simp_all
  then show ?thesis
    using assms(2) spurious waiting_update [of "pl_workers p" i Checking] by (auto simp: pool_inv_def)
next
  case (enqueued t)
  then show ?thesis using assms(2) by (auto simp: pool_inv_def enqueue_def)
next
  case (notify_one i)
  then have "over awake ((pl_workers p)[i := Checking]) = over awake (pl_workers p) + 1"
    "over task_of ((pl_workers p)[i := Checking]) = over task_of (pl_workers p)"
    using over_update_zero [of i "pl_workers p" awake Checking] over_update_zero [of i "pl_workers p" task_of Checking]
    by simp_all
  then show ?thesis
    using assms(2) notify_one waiting_update [of "pl_workers p" i Checking] by (auto simp: pool_inv_def)
next
  case notify_nobody
  then show ?thesis using assms(2) by (auto simp: pool_inv_def)
next
  case stopping
  then show ?thesis using assms(2) by (auto simp: pool_inv_def)
next
  case notify_all
  then show ?thesis
    using assms(2) over_wake_up [of "pl_workers p"] set_wake_up [of "pl_workers p"] by (auto simp: pool_inv_def)
qed

lemma pool_reach_inv: "pool_step\<^sup>*\<^sup>* p p' \<Longrightarrow> pool_inv n p \<Longrightarrow> pool_inv n p'"
  by (induction rule: rtranclp_induct) (auto intro: pool_step_inv)

section \<open>Stopping the pool\<close>

text \<open>Once the workers are told to stop every step makes the pool smaller.\<close>

fun work_left :: "'a worker \<Rightarrow> nat" where
  "work_left Checking = 1" | "work_left (Running t) = 2" | "work_left _ = 0"

definition pool_measure :: "'a pool \<Rightarrow> nat" where
  "pool_measure p = 3 * length (pl_tasks p) + over work_left (pl_workers p) + pl_notify p"

definition stopped :: "'a pool \<Rightarrow> bool" where
  "stopped p \<longleftrightarrow> pl_stop p \<and> \<not> pl_notify_all p"

lemma stopped_step:
  assumes "pool_step p p'" "pool_inv n p" "stopped p"
  shows "stopped p'" "pool_measure p' < pool_measure p" "pl_enqueued p' = pl_enqueued p"
proof -
  have w: "Waiting \<notin> set (pl_workers p)" using assms(2,3) by (simp add: pool_inv_def stopped_def)
  have "stopped p' \<and> pool_measure p' < pool_measure p \<and> pl_enqueued p' = pl_enqueued p"
    using assms(1)
  proof cases
    case (critical i)
    have a: "over work_left ((pl_workers p)[i := w]) + 1 = over work_left (pl_workers p) + work_left w" for w
      using over_update [OF critical(2), of work_left w] critical(3) by simp
    show ?thesis
    proof (cases "pl_tasks p")
      case Nil
      then show ?thesis
        using critical a [of Exited] assms(3) by (simp add: worker_section_def stopped_def pool_measure_def)
    next
      case (Cons t ts)
      then show ?thesis
        using critical a [of "Running t"] assms(3) by (simp add: worker_section_def stopped_def pool_measure_def)
    qed
  next
    case (finish i t)
    have "over work_left ((pl_workers p)[i := Checking]) + 2 = over work_left (pl_workers p) + 1"
      using over_update [OF finish(2), of work_left Checking] finish(3) by simp
    then show ?thesis using finish assms(3) by (simp add: stopped_def pool_measure_def)
  next
    case (spurious i)
    then show ?thesis using w nth_mem by metis
  next
    case (notify_one i)
    then show ?thesis using w nth_mem by metis
  qed (use assms(3) in \<open>auto simp: stopped_def pool_measure_def\<close>)
  then show "stopped p'" "pool_measure p' < pool_measure p" "pl_enqueued p' = pl_enqueued p" by blast+
qed

lemma stopped_run:
  assumes "(pool_step ^^ k) p p'" "pool_inv n p" "stopped p"
  shows "k + pool_measure p' \<le> pool_measure p \<and> stopped p' \<and> pool_inv n p' \<and> pl_enqueued p' = pl_enqueued p"
  using assms(1)
proof (induction k arbitrary: p')
  case 0
  then show ?case using assms by simp
next
  case (Suc k)
  then obtain q where q: "(pool_step ^^ k) p q" "pool_step q p'" by (auto elim: relpowp_Suc_E)
  then have "k + pool_measure q \<le> pool_measure p" "stopped q" "pool_inv n q" "pl_enqueued q = pl_enqueued p"
    using Suc.IH by blast+
  then show ?case using stopped_step [OF q(2)] pool_step_inv [OF q(2)] by fastforce
qed

lemma no_step_exited:
  assumes "\<nexists>p'. pool_step p p'" "pool_inv n p" "stopped p"
  shows "\<forall>w \<in> set (pl_workers p). w = Exited"
proof
  fix w assume "w \<in> set (pl_workers p)"
  then obtain i where i: "i < length (pl_workers p)" "pl_workers p ! i = w" by (auto simp: in_set_conv_nth)
  have "Waiting \<notin> set (pl_workers p)" using assms(2,3) by (simp add: pool_inv_def stopped_def)
  then have "w \<noteq> Waiting" using i nth_mem by metis
  moreover have "w \<noteq> Checking" using assms(1) i pool_step.critical by metis
  moreover have "w \<noteq> Running t" for t using assms(1) i pool_step.finish by metis
  ultimately show "w = Exited" by (cases w) auto
qed

section \<open>The wait group\<close>

text \<open>
  The count, and what each thread in \<^verbatim>\<open>waitEmpty\<close> does: it is before the test, waits, or has returned. \<^verbatim>\<open>done\<close>
  counts down and notifies in one critical section.
\<close>

datatype wait_state = Testing | Blocked | Returned

record wait_group =
  wg_count :: int
  wg_waiters :: "wait_state list"

definition wg_add :: "int \<Rightarrow> wait_group \<Rightarrow> wait_group" where
  "wg_add k g = g\<lparr>wg_count := wg_count g + k\<rparr>"

text \<open>\<open>who\<close> is the waiter the notification goes to, if one waits.\<close>

definition wg_done :: "nat option \<Rightarrow> wait_group \<Rightarrow> wait_group" where
  "wg_done who g =
     g\<lparr>wg_count := wg_count g - 1,
       wg_waiters := (case who of None \<Rightarrow> wg_waiters g | Some i \<Rightarrow> (wg_waiters g)[i := Testing])\<rparr>"

text \<open>The test of the loop of \<^verbatim>\<open>waitEmpty\<close>.\<close>

definition wg_test :: "nat \<Rightarrow> wait_group \<Rightarrow> wait_group" where
  "wg_test i g = g\<lparr>wg_waiters := (wg_waiters g)[i := if wg_count g > 0 then Blocked else Returned]\<rparr>"

inductive wg_step :: "wait_group \<Rightarrow> wait_group \<Rightarrow> bool" where
  add: "0 \<le> k \<Longrightarrow> wg_step g (wg_add k g)"
| done_nobody: "0 < wg_count g \<Longrightarrow> Blocked \<notin> set (wg_waiters g) \<Longrightarrow> wg_step g (wg_done None g)"
| done_one: "0 < wg_count g \<Longrightarrow> i < length (wg_waiters g) \<Longrightarrow> wg_waiters g ! i = Blocked \<Longrightarrow>
    wg_step g (wg_done (Some i) g)"
| wait: "wg_step g (g\<lparr>wg_waiters := wg_waiters g @ [Testing]\<rparr>)"
| test: "i < length (wg_waiters g) \<Longrightarrow> wg_waiters g ! i = Testing \<Longrightarrow> wg_step g (wg_test i g)"
| spurious_wait: "i < length (wg_waiters g) \<Longrightarrow> wg_waiters g ! i = Blocked \<Longrightarrow>
    wg_step g (g\<lparr>wg_waiters := (wg_waiters g)[i := Testing]\<rparr>)"

inductive_cases wg_stepE [elim]: "wg_step g g'"

definition newWaitGroup :: wait_group where
  "newWaitGroup = \<lparr>wg_count = 0, wg_waiters = []\<rparr>"

text \<open>The threads in \<^verbatim>\<open>waitEmpty\<close>.\<close>

definition inside :: "wait_group \<Rightarrow> nat" where
  "inside g = length (filter (\<lambda>w. w \<noteq> Returned) (wg_waiters g))"

text \<open>A step with at most one thread in \<^verbatim>\<open>waitEmpty\<close> afterwards.\<close>

definition wg_step1 :: "wait_group \<Rightarrow> wait_group \<Rightarrow> bool" where
  "wg_step1 g g' \<longleftrightarrow> wg_step g g' \<and> inside g' \<le> 1"

lemma one_inside:
  assumes "length (filter P xs) \<le> 1" "i < length xs" "P (xs ! i)" "x \<in> set (xs[i := y])" "P x"
  shows "x = y"
proof (rule ccontr)
  assume ne: "x \<noteq> y"
  obtain k where k: "k < length xs" "xs[i := y] ! k = x" using assms(4) by (auto simp: in_set_conv_nth)
  then have "k \<noteq> i" using ne by auto
  then have "xs ! k = x" using k by simp
  then have "{i, k} \<subseteq> {j. j < length xs \<and> P (xs ! j)}" using assms(2,3,5) k(1) by auto
  then have "card {i, k} \<le> card {j. j < length xs \<and> P (xs ! j)}" by (intro card_mono) auto
  then show False using \<open>k \<noteq> i\<close> assms(1) by (simp add: length_filter_conv_card)
qed

lemma wg_step1_inv:
  assumes "wg_step1 g g'" "inside g \<le> 1" "Blocked \<in> set (wg_waiters g) \<longrightarrow> 0 < wg_count g" "0 \<le> wg_count g"
  shows "Blocked \<in> set (wg_waiters g') \<longrightarrow> 0 < wg_count g'" "0 \<le> wg_count g'"
proof -
  have one: "x = y" if "i < length (wg_waiters g)" "wg_waiters g ! i \<noteq> Returned" "x \<in> set ((wg_waiters g)[i := y])"
    "x \<noteq> Returned" for i x y
    using one_inside [of "\<lambda>w. w \<noteq> Returned" "wg_waiters g" i x y] assms(2) that by (simp add: inside_def)
  have "(Blocked \<in> set (wg_waiters g') \<longrightarrow> 0 < wg_count g') \<and> 0 \<le> wg_count g'"
    using assms(1) unfolding wg_step1_def
  proof (elim conjE wg_stepE)
    fix i assume g': "g' = wg_done (Some i) g" "0 < wg_count g" "i < length (wg_waiters g)" "wg_waiters g ! i = Blocked"
    then have "Blocked \<notin> set ((wg_waiters g)[i := Testing])" using one [of i Blocked Testing] by auto
    then show ?thesis using g' by (simp add: wg_done_def)
  next
    fix i assume g': "g' = wg_test i g" "i < length (wg_waiters g)" "wg_waiters g ! i = Testing"
    then show ?thesis using one [of i Blocked Returned] assms(4) by (auto simp: wg_test_def)
  next
    fix i assume g': "g' = g\<lparr>wg_waiters := (wg_waiters g)[i := Testing]\<rparr>" "i < length (wg_waiters g)" "wg_waiters g ! i = Blocked"
    then show ?thesis using one [of i Blocked Testing] assms(4) by auto
  qed (use assms(3,4) in \<open>auto simp: wg_add_def wg_done_def\<close>)
  then show "Blocked \<in> set (wg_waiters g') \<longrightarrow> 0 < wg_count g'" "0 \<le> wg_count g'" by blast+
qed

lemma wg_reach1:
  assumes "wg_step1\<^sup>*\<^sup>* newWaitGroup g"
  shows "inside g \<le> 1 \<and> (Blocked \<in> set (wg_waiters g) \<longrightarrow> 0 < wg_count g) \<and> 0 \<le> wg_count g"
  using assms
proof (induction rule: rtranclp_induct)
  case (step g g')
  then show ?case using wg_step1_inv [of g g'] by (simp add: wg_step1_def)
qed (simp add: newWaitGroup_def inside_def)

lemma over_exited: "\<forall>w \<in> set ws. w = Exited \<Longrightarrow> over task_of ws = {#}"
  by (induction ws) (auto simp: over_def)

section \<open>Properties\<close>

text \<open>C38. The thread pool: in every reachable state the tasks started and the tasks queued are, in order, the tasks
  enqueued, and each started task has run or is being run by one worker; if tasks are queued and a worker waits,
  a notification is due or a worker will look at the queue. Once the destructor has set the flag and notified
  all, every run ends, and it ends only with all workers returned and every task run exactly once.\<close>

theorem pool_runs_each_once:
  assumes "0 < n" and "pool_step\<^sup>*\<^sup>* (newThreadPool n) p"
  shows "pl_enqueued p = pl_started p @ pl_tasks p \<and>
         mset (pl_started p) = mset (pl_done p) + over task_of (pl_workers p) \<and>
         (pl_tasks p \<noteq> [] \<and> Waiting \<in> set (pl_workers p) \<longrightarrow> 0 < pl_notify p + over awake (pl_workers p)) \<and>
         (stopped p \<longrightarrow>
            (\<forall>k p'. (pool_step ^^ k) p p' \<longrightarrow>
               k \<le> pool_measure p \<and>
               ((\<nexists>q. pool_step p' q) \<longrightarrow>
                  (\<forall>w \<in> set (pl_workers p'). w = Exited) \<and> mset (pl_done p') = mset (pl_enqueued p))))"
proof -
  have i: "pool_inv n p" by (rule pool_reach_inv [OF assms(2) pool_inv_new])
  have "k \<le> pool_measure p \<and> ((\<nexists>q. pool_step p' q) \<longrightarrow>
      (\<forall>w \<in> set (pl_workers p'). w = Exited) \<and> mset (pl_done p') = mset (pl_enqueued p))"
    if "stopped p" "(pool_step ^^ k) p p'" for k p'
  proof -
    have r: "k + pool_measure p' \<le> pool_measure p" "stopped p'" "pool_inv n p'" "pl_enqueued p' = pl_enqueued p"
      using stopped_run [OF that(2) i that(1)] by blast+
    have "mset (pl_done p') = mset (pl_enqueued p)" if ex: "\<forall>w \<in> set (pl_workers p'). w = Exited"
    proof -
      have "length (pl_workers p') = n" using r(3) by (simp add: pool_inv_def)
      then have "Exited \<in> set (pl_workers p')" using ex assms(1) by (cases "pl_workers p'") auto
      moreover have "over task_of (pl_workers p') = {#}" using ex by (rule over_exited)
      ultimately show ?thesis using r(3,4) by (auto simp: pool_inv_def)
    qed
    then show ?thesis using r(1) no_step_exited [OF _ r(3,2)] by simp
  qed
  then show ?thesis using i by (auto simp: pool_inv_def)
qed

theorem pool_runs_each_once_witness:
  "\<exists>p :: nat pool. pool_step\<^sup>*\<^sup>* (newThreadPool 1) p \<and> pl_tasks p = [7] \<and> stopped p \<and>
     (\<forall>k p'. (pool_step ^^ k) p p' \<longrightarrow>
        k \<le> pool_measure p \<and>
        ((\<nexists>q. pool_step p' q) \<longrightarrow> (\<forall>w \<in> set (pl_workers p'). w = Exited) \<and> mset (pl_done p') = {#7#}))"
proof -
  let ?p1 = "enqueue 7 (newThreadPool 1) :: nat pool"
  let ?p2 = "?p1\<lparr>pl_stop := True, pl_notify_all := True\<rparr>"
  let ?p3 = "?p2\<lparr>pl_workers := map wake_up (pl_workers ?p2), pl_notify_all := False\<rparr>"
  have s: "pool_step (newThreadPool 1) ?p1" by (rule pool_step.enqueued) (simp add: newThreadPool_def)
  have "pool_step ?p1 ?p2" by (rule pool_step.stopping) (simp add: enqueue_def newThreadPool_def)
  with s have "pool_step\<^sup>*\<^sup>* (newThreadPool 1) ?p2" by (rule converse_rtranclp_into_rtranclp [OF _ r_into_rtranclp])
  moreover have "pool_step ?p2 ?p3" by (rule pool_step.notify_all) simp
  ultimately have run: "pool_step\<^sup>*\<^sup>* (newThreadPool 1) ?p3" by (rule rtranclp.rtrancl_into_rtrancl)
  have "pl_tasks ?p3 = [7]" "stopped ?p3" "pl_enqueued ?p3 = [7]" by (simp_all add: enqueue_def newThreadPool_def stopped_def)
  moreover have "\<forall>k p'. (pool_step ^^ k) ?p3 p' \<longrightarrow> k \<le> pool_measure ?p3 \<and>
      ((\<nexists>q. pool_step p' q) \<longrightarrow> (\<forall>w \<in> set (pl_workers p'). w = Exited) \<and> mset (pl_done p') = mset (pl_enqueued ?p3))"
    using pool_runs_each_once [OF zero_less_one run] \<open>stopped ?p3\<close> by blast
  moreover have "mset (pl_enqueued ?p3) = {#7#}" using \<open>pl_enqueued ?p3 = [7]\<close> by (simp only: mset.simps)
  ultimately show ?thesis using run by (intro exI [of _ ?p3]) (simp only: simp_thms)
qed

text \<open>The wait group: while at most one thread at a time is in \<^verbatim>\<open>waitEmpty\<close>, it is blocked only as long as the
  count is positive, so no wake-up is lost. With two threads one can stay blocked for good: \<^verbatim>\<open>done\<close> notifies one.\<close>

theorem wait_group_wakes:
  assumes "wg_step1\<^sup>*\<^sup>* newWaitGroup g"
  shows "0 \<le> wg_count g \<and> (Blocked \<in> set (wg_waiters g) \<longrightarrow> 0 < wg_count g) \<and>
         (\<exists>g2. wg_step\<^sup>*\<^sup>* newWaitGroup g2 \<and> wg_count g2 = 0 \<and> wg_waiters g2 = [Returned, Blocked])"
proof -
  let ?g = "\<lambda>n ws. \<lparr>wg_count = n, wg_waiters = ws\<rparr>"
  have "wg_step newWaitGroup (?g 1 [])" using wg_step.add [of 1 newWaitGroup] by (simp add: wg_add_def newWaitGroup_def)
  moreover have "wg_step (?g 1 []) (?g 1 [Testing])" using wg_step.wait [of "?g 1 []"] by simp
  moreover have "wg_step (?g 1 [Testing]) (?g 1 [Testing, Testing])" using wg_step.wait [of "?g 1 [Testing]"] by simp
  moreover have "wg_step (?g 1 [Testing, Testing]) (?g 1 [Blocked, Testing])"
    using wg_step.test [of 0 "?g 1 [Testing, Testing]"] by (simp add: wg_test_def)
  moreover have "wg_step (?g 1 [Blocked, Testing]) (?g 1 [Blocked, Blocked])"
    using wg_step.test [of 1 "?g 1 [Blocked, Testing]"] by (simp add: wg_test_def)
  moreover have "wg_step (?g 1 [Blocked, Blocked]) (?g 0 [Testing, Blocked])"
    using wg_step.done_one [of "?g 1 [Blocked, Blocked]" 0] by (simp add: wg_done_def)
  moreover have "wg_step (?g 0 [Testing, Blocked]) (?g 0 [Returned, Blocked])"
    using wg_step.test [of 0 "?g 0 [Testing, Blocked]"] by (simp add: wg_test_def)
  ultimately have "wg_step\<^sup>*\<^sup>* newWaitGroup (?g 0 [Returned, Blocked])"
    by (meson rtranclp.rtrancl_refl rtranclp.rtrancl_into_rtrancl)
  then show ?thesis using wg_reach1 [OF assms] by (intro conjI exI [of _ "?g 0 [Returned, Blocked]"]) simp_all
qed

theorem wait_group_wakes_witness:
  "wg_step1\<^sup>*\<^sup>* newWaitGroup \<lparr>wg_count = 2, wg_waiters = [Blocked]\<rparr> \<and> 0 < wg_count \<lparr>wg_count = 2, wg_waiters = [Blocked]\<rparr> \<and>
   (\<exists>g2. wg_step\<^sup>*\<^sup>* newWaitGroup g2 \<and> wg_count g2 = 0 \<and> wg_waiters g2 = [Returned, Blocked])"
proof -
  let ?g = "\<lambda>n ws. \<lparr>wg_count = n, wg_waiters = ws\<rparr>"
  have "wg_step1 newWaitGroup (?g 2 [])"
    using wg_step.add [of 2 newWaitGroup] by (simp add: wg_step1_def inside_def wg_add_def newWaitGroup_def)
  moreover have "wg_step1 (?g 2 []) (?g 2 [Testing])"
    using wg_step.wait [of "?g 2 []"] by (simp add: wg_step1_def inside_def)
  moreover have "wg_step1 (?g 2 [Testing]) (?g 2 [Blocked])"
    using wg_step.test [of 0 "?g 2 [Testing]"] by (simp add: wg_step1_def inside_def wg_test_def)
  ultimately have r: "wg_step1\<^sup>*\<^sup>* newWaitGroup (?g 2 [Blocked])"
    by (meson rtranclp.rtrancl_refl rtranclp.rtrancl_into_rtrancl)
  show ?thesis using wait_group_wakes [OF r] r by simp
qed

end
