(* ===== verification/AutoMerge.thy ===== *)
theory AutoMerge
  imports CloseTasks ThreadPool
begin

text \<open>
  The merging thread of a database, \<^verbatim>\<open>Merger::autoMerger\<close> and \<^verbatim>\<open>wakeup\<close> in \<^verbatim>\<open>merger.cpp\<close>, beside the threads that use
  the database and the one that closes it: a step relation over the program points of the thread, the mutex of
  the merger and the wait group of the database. The theorems: a close that has waited finds the thread gone and
  the mutex free, it does not wait forever, and the whole session with the thread in it is kept.
\<close>

section \<open>The thread\<close>

text \<open>
  The points of the loop: before the wait and after it the thread holds the mutex of the condition variable, while
  it waits it does not; then come the test of the flags, the attempt to lock the merger, the head of the loop of
  \<^verbatim>\<open>mergeSegments0\<close>, the time between the halves of an iteration, and the pause after it.
\<close>

datatype merger_pc = AtWait | InWait | Woken | AtTest | AtTry | InLoop | InMerge merge_job | InPause | Stopped

datatype close_pc = NotClosing | CloseWaits | CloseHolds | CloseDone | CloseThrew error

record daemon =
  dm_system :: system
  dm_pc :: merger_pc
  dm_err :: "error option"
  dm_wg :: wait_group
  dm_mutex :: bool
  dm_close :: close_pc

text \<open>\<^verbatim>\<open>openImpl\<close> counts the thread in the wait group and starts it.\<close>

definition start_merger :: "system \<Rightarrow> daemon" where
  "start_merger s =
     \<lparr>dm_system = s,
      dm_pc = (if disableAutoMerge (db_options (sys_db s)) then Stopped else AtWait), dm_err = None,
      dm_wg = (if disableAutoMerge (db_options (sys_db s)) then newWaitGroup else wg_add 1 newWaitGroup),
      dm_mutex = False, dm_close = NotClosing\<rparr>"

text \<open>
  \<^verbatim>\<open>wakeup\<close>: where the thread holds the mutex of the condition variable \<^verbatim>\<open>try_lock\<close> fails; a notification that finds
  nobody waiting is lost.
\<close>

definition wakeup :: "merger_pc \<Rightarrow> merger_pc" where
  "wakeup pc = (if pc = InWait then Woken else pc)"

text \<open>The destructors of \<^verbatim>\<open>WaitGroupDone\<close> and \<^verbatim>\<open>UseWaitGroup\<close>; one waiter, if there is one, is notified.\<close>

definition wg_release :: "wait_group \<Rightarrow> wait_group" where
  "wg_release g = wg_done (find (\<lambda>i. wg_waiters g ! i = Blocked) [0..<length (wg_waiters g)]) g"

definition end_use :: "daemon \<Rightarrow> daemon" where
  "end_use d = d\<lparr>dm_wg := wg_release (dm_wg d), dm_pc := AtWait\<rparr>"

definition merge_failed :: "error \<Rightarrow> daemon \<Rightarrow> daemon" where
  "merge_failed e d = end_use (d\<lparr>dm_err := Some e, dm_mutex := False\<rparr>)"

text \<open>
  What the thread does next. The wait is timed, so it always ends. A failed attempt to lock the merger ends the
  call of \<^verbatim>\<open>mergeSegments0\<close>.
\<close>

definition autoMerger :: "junk \<Rightarrow> kv_compare \<Rightarrow> daemon \<Rightarrow> daemon" where
  "autoMerger j icmp d =
     (let s = dm_system d in
      case dm_pc d of
        AtWait \<Rightarrow> d\<lparr>dm_pc := InWait\<rparr>
      | InWait \<Rightarrow> d\<lparr>dm_pc := Woken\<rparr>
      | Woken \<Rightarrow> d\<lparr>dm_pc := AtTest\<rparr>
      | AtTest \<Rightarrow>
          if db_closing (sys_db s) \<or> dm_err d \<noteq> None then d\<lparr>dm_wg := wg_release (dm_wg d), dm_pc := Stopped\<rparr>
          else d\<lparr>dm_wg := wg_add 1 (dm_wg d), dm_pc := AtTry\<rparr>
      | AtTry \<Rightarrow> if dm_mutex d then end_use d else d\<lparr>dm_mutex := True, dm_pc := InLoop\<rparr>
      | InLoop \<Rightarrow>
          if few_segments (db_segments (sys_db s)) (maxSegments (db_options (sys_db s)))
          then end_use (d\<lparr>dm_mutex := False\<rparr>)
          else (case merge_begin j icmp s of
                  Inl e \<Rightarrow> merge_failed e d
                | Inr (job, s') \<Rightarrow> d\<lparr>dm_system := s', dm_pc := InMerge job\<rparr>)
      | InMerge job \<Rightarrow>
          (case merge_commit job (sys_db s) of
             Inl e \<Rightarrow> merge_failed e d
           | Inr db \<Rightarrow> d\<lparr>dm_system := s\<lparr>sys_db := db\<rparr>, dm_pc := InPause\<rparr>)
      | InPause \<Rightarrow> d\<lparr>dm_pc := InLoop\<rparr>
      | Stopped \<Rightarrow> d)"

section \<open>The steps of the threads\<close>

text \<open>An operation of a client; if it called \<^verbatim>\<open>wakeup\<close>, the thread may be woken.\<close>

definition after_op :: "database \<Rightarrow> daemon \<Rightarrow> daemon" where
  "after_op db d =
     d\<lparr>dm_system := (dm_system d)\<lparr>sys_db := db\<rparr>,
       dm_pc := (if db_wakeups db \<noteq> db_wakeups (sys_db (dm_system d)) then wakeup (dm_pc d) else dm_pc d)\<rparr>"

text \<open>
  The rest of a close once it has the lock of the database and has set the state: a merge, if the mutex of the
  merger is free, and the writing of the memory segments.
\<close>

definition close_tail :: "junk \<Rightarrow> kv_compare \<Rightarrow> int \<Rightarrow> bool \<Rightarrow> system \<Rightarrow> system res" where
  "close_tail j icmp n mutex s =
     bind_res (if mutex then Inr s else close_merge j icmp n s) (\<lambda>s3.
     bind_res (close_write j icmp s3) (\<lambda>s4. Inr (close_finish s4)))"

datatype label = Op action | Thread | CloseStart | CloseTest | CloseWake | CloseGo | CloseEnd

text \<open>
  The closing thread: it sets the flag and waits for the wait group, where waiting may end spuriously; when the
  group is empty it takes the lock of the database, which it keeps to the end. While it has the lock no operation
  and no commit of a merge runs.
\<close>

inductive daemon_step :: "junk \<Rightarrow> (nat \<Rightarrow> nat) \<Rightarrow> int \<Rightarrow> daemon \<Rightarrow> label \<Rightarrow> daemon \<Rightarrow> bool"
  for j :: junk and rnd :: "nat \<Rightarrow> nat" and n :: int where
  op: "dm_close d \<noteq> CloseHolds \<Longrightarrow> perform j rnd (sys_db (dm_system d)) a = Inr db \<Longrightarrow>
    daemon_step j rnd n d (Op a) (after_op db d)"
| thread: "dm_pc d \<noteq> Stopped \<Longrightarrow> dm_close d \<noteq> CloseHolds \<or> (\<forall>job. dm_pc d \<noteq> InMerge job) \<Longrightarrow>
    daemon_step j rnd n d Thread (autoMerger j kv_cmp d)"
| close_start: "dm_close d = NotClosing \<Longrightarrow> close_request (dm_system d) = Inr s \<Longrightarrow>
    daemon_step j rnd n d CloseStart
      (d\<lparr>dm_system := s, dm_pc := wakeup (dm_pc d),
         dm_wg := (dm_wg d)\<lparr>wg_waiters := wg_waiters (dm_wg d) @ [Testing]\<rparr>, dm_close := CloseWaits\<rparr>)"
| close_test: "dm_close d = CloseWaits \<Longrightarrow> wg_waiters (dm_wg d) = [Testing] \<Longrightarrow>
    daemon_step j rnd n d CloseTest (d\<lparr>dm_wg := wg_test 0 (dm_wg d)\<rparr>)"
| close_wake: "dm_close d = CloseWaits \<Longrightarrow> wg_waiters (dm_wg d) = [Blocked] \<Longrightarrow>
    daemon_step j rnd n d CloseWake (d\<lparr>dm_wg := (dm_wg d)\<lparr>wg_waiters := [Testing]\<rparr>\<rparr>)"
| close_go: "dm_close d = CloseWaits \<Longrightarrow> wg_waiters (dm_wg d) = [Returned] \<Longrightarrow> close_swap (dm_system d) = Inr s \<Longrightarrow>
    daemon_step j rnd n d CloseGo (d\<lparr>dm_system := s, dm_close := CloseHolds\<rparr>)"
| close_end: "dm_close d = CloseHolds \<Longrightarrow>
    daemon_step j rnd n d CloseEnd
      (case close_tail j kv_cmp n (dm_mutex d) (dm_system d) of
         Inl e \<Rightarrow> d\<lparr>dm_close := CloseThrew e\<rparr>
       | Inr s \<Rightarrow> d\<lparr>dm_system := s, dm_close := CloseDone\<rparr>)"

inductive_cases daemon_stepE [elim]: "daemon_step j rnd n d l d'"

inductive daemon_run :: "junk \<Rightarrow> (nat \<Rightarrow> nat) \<Rightarrow> int \<Rightarrow> daemon \<Rightarrow> label list \<Rightarrow> daemon \<Rightarrow> bool"
  for j :: junk and rnd :: "nat \<Rightarrow> nat" and n :: int where
  drun_refl: "daemon_run j rnd n d [] d"
| drun_step: "daemon_run j rnd n d ls d1 \<Longrightarrow> daemon_step j rnd n d1 l d2 \<Longrightarrow> daemon_run j rnd n d (ls @ [l]) d2"

section \<open>The control state\<close>

text \<open>The thread counts once while it lives and once more while it merges; the mutex is held while it merges.\<close>

fun merging :: "merger_pc \<Rightarrow> bool" where
  "merging InLoop = True" | "merging (InMerge job) = True" | "merging InPause = True" | "merging _ = False"

definition in_use :: "merger_pc \<Rightarrow> int" where
  "in_use pc = (if pc = Stopped then 0 else if merging pc \<or> pc = AtTry then 2 else 1)"

fun close_ok :: "close_pc \<Rightarrow> merger_pc \<Rightarrow> wait_state list \<Rightarrow> bool" where
  "close_ok NotClosing pc ws \<longleftrightarrow> ws = []"
| "close_ok CloseWaits pc ws \<longleftrightarrow>
     ws = [Testing] \<or> ws = [Blocked] \<and> pc \<noteq> Stopped \<or> ws = [Returned] \<and> pc = Stopped"
| "close_ok _ pc ws \<longleftrightarrow> ws = [Returned] \<and> pc = Stopped"

definition control :: "daemon \<Rightarrow> bool" where
  "control d \<longleftrightarrow>
     wg_count (dm_wg d) = in_use (dm_pc d) \<and> (dm_mutex d \<longleftrightarrow> merging (dm_pc d)) \<and>
     close_ok (dm_close d) (dm_pc d) (wg_waiters (dm_wg d)) \<and>
     (dm_close d = CloseWaits \<longrightarrow> db_closing (sys_db (dm_system d)))"

lemma in_use_simps [simp]:
  "in_use Stopped = 0" "in_use AtWait = 1" "in_use InWait = 1" "in_use Woken = 1" "in_use AtTest = 1"
  "in_use AtTry = 2" "in_use InLoop = 2" "in_use (InMerge job) = 2" "in_use InPause = 2"
  by (simp_all add: in_use_def)

lemma wakeup_simps [simp]:
  "in_use (wakeup pc) = in_use pc" "merging (wakeup pc) = merging pc" "wakeup pc = Stopped \<longleftrightarrow> pc = Stopped"
  by (auto simp: wakeup_def)

lemma close_ok_pc: "close_ok c pc ws \<Longrightarrow> pc = Stopped \<longleftrightarrow> pc' = Stopped \<Longrightarrow> close_ok c pc' ws"
  by (cases c) auto

lemma wg_release_simps:
  "wg_count (wg_release g) = wg_count g - 1"
  "wg_waiters g = [] \<Longrightarrow> wg_waiters (wg_release g) = []"
  "wg_waiters g = [w] \<Longrightarrow> wg_waiters (wg_release g) = [if w = Blocked then Testing else w]"
  by (simp_all add: wg_release_def wg_done_def)

lemma close_ok_release:
  assumes "close_ok c pc (wg_waiters g)" "pc \<noteq> Stopped"
  shows "close_ok c pc' (wg_waiters (wg_release g))"
proof (cases c)
  case CloseWaits
  then have "wg_waiters g = [Testing] \<or> wg_waiters g = [Blocked]" using assms by auto
  then have "wg_waiters (wg_release g) = [Testing]" using wg_release_simps(3) [of g] by auto
  then show ?thesis using CloseWaits by simp
qed (use assms wg_release_simps(2) [of g] in auto)

text \<open>A merge and the operations leave the flag of the close alone.\<close>

lemma perform_closing: "perform j rnd db a = Inr db' \<Longrightarrow> db_closing db' = db_closing db"
proof -
  have nm: "new_memory rnd db = (m, db1) \<Longrightarrow> db_closing db1 = db_closing db" for m db db1
    by (auto simp: new_memory_def nextSegmentID_def Let_def split: prod.splits)
  have sw: "maybeSwapMemory rnd db = Inr db1 \<Longrightarrow> db_closing db1 = db_closing db" for db db1
    using nm [of db] by (cases "new_memory rnd db") (auto simp: maybeSwapMemory_def Let_def bind_res_eq_Inr split: if_splits)
  have mm: "db_closing (maybeMerge db) = db_closing db" for db by (simp add: maybeMerge_def)
  assume p: "perform j rnd db a = Inr db'"
  show "db_closing db' = db_closing db"
  proof (cases a)
    case (Put k v)
    then show ?thesis using p sw by (auto simp: db_put_def bind_res_eq_Inr mm split: if_splits)
  next
    case (Remove k)
    then show ?thesis using p sw by (auto simp: db_remove_def bind_res_eq_Inr mm split: if_splits)
  next
    case (Write b)
    then show ?thesis using p sw by (auto simp: db_write_def bind_res_eq_Inr mm split: if_splits)
  next
    case Snap
    then show ?thesis
      using p nm [of db] by (cases "new_memory rnd db") (auto simp: db_snapshot_def bind_res_eq_Inr Let_def split: if_splits)
  qed
qed

lemma merge_commit_closing: "merge_commit job db = Inr db' \<Longrightarrow> db_closing db' = db_closing db"
  by (auto simp: merge_commit_def bind_res_eq_Inr)

lemma control_start: "control (start_merger s)"
  by (simp add: control_def start_merger_def newWaitGroup_def wg_add_def)

lemma control_end_use:
  assumes "control d" "dm_pc d \<noteq> Stopped" "in_use (dm_pc d) = 2"
  shows "control (end_use (d\<lparr>dm_mutex := False\<rparr>))" "\<not> dm_mutex d \<Longrightarrow> control (end_use d)"
proof -
  have "close_ok (dm_close d) AtWait (wg_waiters (wg_release (dm_wg d)))"
    using assms(1,2) by (intro close_ok_release) (auto simp: control_def)
  then show "control (end_use (d\<lparr>dm_mutex := False\<rparr>))" "\<not> dm_mutex d \<Longrightarrow> control (end_use d)"
    using assms by (simp_all add: control_def end_use_def wg_release_simps(1))
qed

lemma merge_failed_alt: "merge_failed e d = (end_use (d\<lparr>dm_mutex := False\<rparr>))\<lparr>dm_err := Some e\<rparr>"
  by (simp add: merge_failed_def end_use_def)

lemma control_err [simp]: "control (d\<lparr>dm_err := e\<rparr>) = control d"
  by (simp add: control_def)

lemma control_thread:
  assumes "control d" "dm_pc d \<noteq> Stopped"
  shows "control (autoMerger j icmp d)"
proof -
  note c = assms(1) [unfolded control_def]
  have stay: "close_ok (dm_close d) pc (wg_waiters (dm_wg d))" if "pc \<noteq> Stopped" for pc
    using close_ok_pc [of "dm_close d" "dm_pc d" _ pc] c assms(2) that by blast
  show ?thesis
  proof (cases "dm_pc d")
    case AtTest
    then show ?thesis
      using c stay [of AtTry] close_ok_release [of "dm_close d" "dm_pc d" "dm_wg d" Stopped]
      by (auto simp: autoMerger_def control_def wg_release_simps(1) wg_add_def)
  next
    case AtTry
    then show ?thesis
      using c control_end_use [OF assms] stay [of InLoop] by (auto simp: autoMerger_def control_def)
  next
    case InLoop
    have out: "control (end_use (d\<lparr>dm_mutex := False\<rparr>))" using control_end_use(1) [OF assms] InLoop by simp
    show ?thesis
    proof (cases "few_segments (db_segments (sys_db (dm_system d))) (maxSegments (db_options (sys_db (dm_system d))))")
      case True
      then show ?thesis using InLoop out by (simp add: autoMerger_def Let_def)
    next
      case False
      show ?thesis
      proof (cases "merge_begin j icmp (dm_system d)")
        case (Inl e)
        then show ?thesis using InLoop False out by (simp add: autoMerger_def Let_def merge_failed_alt)
      next
        case (Inr r)
        then obtain job s' where r: "merge_begin j icmp (dm_system d) = Inr (job, s')" by (cases r) auto
        then show ?thesis
          using InLoop False c stay [of "InMerge job"] merge_begin_db [OF r] by (simp add: autoMerger_def Let_def control_def)
      qed
    qed
  next
    case (InMerge job)
    have out: "control (end_use (d\<lparr>dm_mutex := False\<rparr>))" using control_end_use(1) [OF assms] InMerge by simp
    show ?thesis
    proof (cases "merge_commit job (sys_db (dm_system d))")
      case (Inl e)
      then show ?thesis using InMerge out by (simp add: autoMerger_def Let_def merge_failed_alt)
    next
      case (Inr db)
      then show ?thesis
        using InMerge c stay [of InPause] merge_commit_closing [OF Inr] by (simp add: autoMerger_def Let_def control_def)
    qed
  qed (use c stay in \<open>auto simp: autoMerger_def control_def\<close>)
qed

lemma control_step:
  assumes "daemon_step j rnd n d l d'" "control d"
  shows "control d'"
  using assms(1)
proof cases
  case (op a db)
  have "close_ok (dm_close d) (if b then wakeup (dm_pc d) else dm_pc d) (wg_waiters (dm_wg d))" for b
    using assms(2) close_ok_pc [of "dm_close d" "dm_pc d" _ "wakeup (dm_pc d)"] by (simp add: control_def)
  then show ?thesis using op assms(2) perform_closing [OF op(4)] by (auto simp: control_def after_op_def)
next
  case thread
  then show ?thesis using control_thread [OF assms(2)] by simp
next
  case (close_start s)
  then show ?thesis using assms(2) by (auto simp: control_def close_request_def split: if_splits)
next
  case close_test
  then show ?thesis using assms(2) by (auto simp: control_def wg_test_def in_use_def split: if_splits)
next
  case close_wake
  then show ?thesis using assms(2) by (auto simp: control_def)
next
  case (close_go s)
  then show ?thesis using assms(2) by (auto simp: control_def close_swap_def bind_res_eq_Inr)
next
  case close_end
  then show ?thesis using assms(2) by (auto simp: control_def split: sum.splits)
qed

lemma control_run: "daemon_run j rnd n d ls d' \<Longrightarrow> control d \<Longrightarrow> control d'"
  by (induction rule: daemon_run.induct) (auto intro: control_step)

section \<open>The data\<close>

fun job_of :: "merger_pc \<Rightarrow> merge_job option" where
  "job_of (InMerge job) = Some job" | "job_of _ = None"

lemma job_of_wakeup [simp]: "job_of (wakeup pc) = job_of pc"
  by (simp add: wakeup_def)

fun label_actions :: "label list \<Rightarrow> action list" where
  "label_actions [] = []"
| "label_actions (Op a # ls) = a # label_actions ls"
| "label_actions (_ # ls) = label_actions ls"

lemma label_actions_append [simp]: "label_actions (xs @ ys) = label_actions xs @ label_actions ys"
  by (induction xs rule: label_actions.induct) simp_all

definition label_pairs :: "label list \<Rightarrow> keyvalue list" where
  "label_pairs ls = pairs_written (map Client (label_actions ls))"

lemma label_pairs_append: "label_pairs (xs @ ys) = label_pairs xs @ label_pairs ys"
  by (simp add: label_pairs_def)

lemma label_pairs_op: "label_pairs [Op a] = pairs_written [Client a]"
  by (simp add: label_pairs_def)

text \<open>
  What holds of the system at each point of the close: \<open>f\<close> is what a lookup shows, \<open>w\<close> the pairs that may still be
  written, \<open>k\<close> the number of steps to come, \<open>path\<close> the path of the database.
\<close>

definition live_inv :: "(bytes \<Rightarrow> bytes) \<Rightarrow> keyvalue list \<Rightarrow> nat \<Rightarrow> string \<Rightarrow> system \<times> merge_job option \<Rightarrow> bool" where
  "live_inv f w k path sp \<longleftrightarrow>
     sys_inv f w sp \<and> files_inv sp \<and> unat (db_nextSegID (sys_db (fst sp))) + k < 2 ^ 64 \<and> db_path (sys_db (fst sp)) = path"

fun data_inv :: "junk \<Rightarrow> (bytes \<Rightarrow> bytes) \<Rightarrow> keyvalue list \<Rightarrow> nat \<Rightarrow> string \<Rightarrow> close_pc \<Rightarrow> system \<times> merge_job option \<Rightarrow> bool" where
  "data_inv j f w k path CloseHolds sp \<longleftrightarrow>
     (\<exists>s rs r. session s rs r \<and> shown (rs @ [r]) = f \<and> close_swap s = Inr (fst sp) \<and> db_path (sys_db s) = path)"
| "data_inv j f w k path CloseDone sp \<longleftrightarrow> \<not> db_open (sys_db (fst sp)) \<and> reopens j path (sys_files (fst sp)) f"
| "data_inv j f w k path (CloseThrew e) sp \<longleftrightarrow> False"
| "data_inv j f w k path c sp \<longleftrightarrow> live_inv f w k path sp"

lemma live_less:
  assumes "live_inv f w k path sp" "k' \<le> k"
  shows "live_inv f w k' path sp"
  using assms by (auto simp: live_inv_def)

lemma sys_step_path: "sys_step j rnd sp e sp' \<Longrightarrow> files_inv sp \<Longrightarrow> db_path (sys_db (fst sp')) = db_path (sys_db (fst sp))"
proof (erule sys_step.cases)
  fix s a db p assume "perform j rnd (sys_db s) a = Inr db" "sp = (s, p)" "sp' = (s\<lparr>sys_db := db\<rparr>, p)" "files_inv sp"
  moreover from this have "db_memory (sys_db s) \<noteq> None" by (auto simp: files_inv_def ids_ok_def)
  ultimately show "db_path (sys_db (fst sp')) = db_path (sys_db (fst sp))"
    using perform_grown [of j rnd "sys_db s" a db] by (simp add: grown_def)
qed (auto simp: merge_begin_def merge_commit_def bind_res_eq_Inr split: prod.splits)

text \<open>A step of the system of \<^verbatim>\<open>MergeLoop\<close>.\<close>

lemma live_step:
  assumes "sys_step j rnd sp e sp'" "live_inv f (pairs_written [e] @ w) (Suc k) path sp" "length (j_stack j) = maxKeySize"
  shows "live_inv (foldl shown_step f (client_actions [e])) w k path sp'"
proof -
  have i: "sys_inv f (pairs_written [e] @ w) sp" "files_inv sp" "unat (db_nextSegID (sys_db (fst sp))) + Suc k < 2 ^ 64"
    using assms(2) by (simp_all add: live_inv_def)
  then have "unat (db_nextSegID (sys_db (fst sp))) < unat (- 1 :: u64)"
    by (simp add: unsigned_minus_1_eq_mask mask_eq_exp_minus_1)
  then have "db_nextSegID (sys_db (fst sp)) < - 1" by (simp only: word_less_nat_alt)
  note files_inv_step [OF assms(1) i(2,1) this]
  then show ?thesis
    using sys_step_inv [OF assms(1) i(1) assms(3)] sys_step_path [OF assms(1) i(2)] i(3) assms(2)
    by (simp add: live_inv_def)
qed

text \<open>The thread: a merge that is begun succeeds, and it can be committed.\<close>

lemma live_begin:
  assumes "live_inv f w k path (s, None)"
    and "\<not> few_segments (db_segments (sys_db s)) (maxSegments (db_options (sys_db s)))"
  shows "\<exists>job s'. merge_begin j kv_cmp s = Inr (job, s')"
proof -
  obtain rs r where i: "db_shape seg_lists (sys_db s) rs r" "runs_fit (rs @ [r, w])" "1 \<le> maxSegments (db_options (sys_db s))"
    using assms(1) by (auto simp: live_inv_def sys_inv_def)
  have "files_inv (s, None)" using assms(1) by (simp add: live_inv_def)
  moreover have "list_all2 seg_lists (db_segments (sys_db s)) rs" using i(1) by (simp add: db_shape_def)
  ultimately have "sys_ok s rs" using files_inv_ok runs_fit_prefix [OF i(2)] by blast
  moreover have "2 \<le> length (db_segments (sys_db s))" using assms(2) i(3) by (simp add: few_segments_def)
  ultimately show ?thesis using merge_begin_ok [of s rs j] by blast
qed

lemma live_commit:
  assumes "live_inv f w k path (s, Some job)"
  shows "\<exists>db. merge_commit job (sys_db s) = Inr db"
proof -
  obtain rs r where i: "db_shape seg_lists (sys_db s) rs r" "runs_fit (rs @ [r, w])" "job_ok (db_segments (sys_db s)) rs job"
    using assms by (auto simp: live_inv_def sys_inv_def)
  then show ?thesis using job_commit by blast
qed

lemma live_thread:
  assumes "live_inv f w (Suc k) path (dm_system d, job_of (dm_pc d))" "dm_err d = None" "length (j_stack j) = maxKeySize"
  shows "live_inv f w k path (dm_system (autoMerger j kv_cmp d), job_of (dm_pc (autoMerger j kv_cmp d)))"
    and "dm_err (autoMerger j kv_cmp d) = None" "dm_close (autoMerger j kv_cmp d) = dm_close d"
proof -
  let ?s = "dm_system d"
  have same: "live_inv f w k path (dm_system d, job_of (dm_pc d))" using live_less [OF assms(1)] by simp
  have "live_inv f w k path (dm_system (autoMerger j kv_cmp d), job_of (dm_pc (autoMerger j kv_cmp d))) \<and>
      dm_err (autoMerger j kv_cmp d) = None \<and> dm_close (autoMerger j kv_cmp d) = dm_close d"
  proof (cases "dm_pc d")
    case InLoop
    show ?thesis
    proof (cases "few_segments (db_segments (sys_db ?s)) (maxSegments (db_options (sys_db ?s)))")
      case True
      then show ?thesis using same assms(2) InLoop by (simp add: autoMerger_def Let_def end_use_def)
    next
      case False
      obtain job s' where m: "merge_begin j kv_cmp ?s = Inr (job, s')"
        using live_begin [OF _ False, of f w "Suc k" path j] assms(1) InLoop by auto
      have "sys_step j (\<lambda>i. 0) (?s, None) MergeBegin (s', Some job)" by (rule sys_step.merge_begin [OF False m])
      then have "live_inv f w k path (s', Some job)" using live_step [of j "\<lambda>i. 0" "(?s, None)" MergeBegin "(s', Some job)" f w k path] assms InLoop by simp
      then show ?thesis using False m assms(2) InLoop by (simp add: autoMerger_def Let_def)
    qed
  next
    case (InMerge job)
    obtain db where m: "merge_commit job (sys_db ?s) = Inr db"
      using live_commit assms(1) InMerge by fastforce
    have "sys_step j (\<lambda>i. 0) (?s, Some job) MergeCommit (?s\<lparr>sys_db := db\<rparr>, None)" by (rule sys_step.merge_commit [OF m])
    then have "live_inv f w k path (?s\<lparr>sys_db := db\<rparr>, None)"
      using live_step [of j "\<lambda>i. 0" "(?s, Some job)" MergeCommit "(?s\<lparr>sys_db := db\<rparr>, None)" f w k path] assms InMerge by simp
    then show ?thesis using m assms(2) InMerge by (simp add: autoMerger_def Let_def)
  qed (use same assms(2) in \<open>simp_all add: autoMerger_def end_use_def Let_def\<close>)
  then show "live_inv f w k path (dm_system (autoMerger j kv_cmp d), job_of (dm_pc (autoMerger j kv_cmp d)))"
    "dm_err (autoMerger j kv_cmp d) = None" "dm_close (autoMerger j kv_cmp d) = dm_close d" by blast+
qed

text \<open>The flags a close sets do not matter to the invariants.\<close>

lemma live_request:
  assumes "live_inv f w (Suc k) path (s, p)" "close_request s = Inr s'"
  shows "live_inv f w k path (s', p)"
proof -
  have eq: "db_segments (sys_db s') = db_segments (sys_db s)" "db_memory (sys_db s') = db_memory (sys_db s)"
    "db_open (sys_db s') = db_open (sys_db s)" "db_options (sys_db s') = db_options (sys_db s)"
    "db_nextSegID (sys_db s') = db_nextSegID (sys_db s)" "db_path (sys_db s') = db_path (sys_db s)"
    "sys_files s' = sys_files s" "sys_deleter s' = sys_deleter s"
    using assms(2) by (auto simp: close_request_def split: if_splits)
  have "live_inv f w k path (s, p)" using live_less [OF assms(1)] by simp
  then show ?thesis
    unfolding live_inv_def sys_inv_def files_inv_def db_shape_def ids_ok_def db_multi_def fst_conv snd_conv eq .
qed

definition run_inv :: "junk \<Rightarrow> (bytes \<Rightarrow> bytes) \<Rightarrow> keyvalue list \<Rightarrow> nat \<Rightarrow> string \<Rightarrow> daemon \<Rightarrow> bool" where
  "run_inv j f w k path d \<longleftrightarrow>
     control d \<and> dm_err d = None \<and> data_inv j f w k path (dm_close d) (dm_system d, job_of (dm_pc d))"

lemma control_stopped: "control d \<Longrightarrow> dm_close d \<noteq> NotClosing \<Longrightarrow> dm_close d \<noteq> CloseWaits \<Longrightarrow> dm_pc d = Stopped \<and> \<not> dm_mutex d"
  by (cases "dm_close d") (auto simp: control_def)

lemma perform_open: "perform j rnd db a = Inr db' \<Longrightarrow> db_open db"
  by (cases a) (auto simp: db_put_def db_remove_def db_write_def db_snapshot_def bind_res_eq_Inr split: if_splits)

lemma close_tail_ok:
  assumes "session s rs r" "close_swap s = Inr s2"
  shows "\<exists>s5. close_tail j kv_cmp n False s2 = Inr s5 \<and> \<not> db_open (sys_db s5) \<and>
           reopens j (db_path (sys_db s)) (sys_files s5) (shown (rs @ [r]))"
proof -
  obtain s3 s4 segs rs' where c: "close_merge j kv_cmp n s2 = Inr s3" "close_write j kv_cmp s3 = Inr s4"
    "\<not> db_open (sys_db (close_finish s4))" "list_all2 seg_lists segs rs'" "all_disk segs"
    "files_ok (sys_files (close_finish s4)) segs" "shown rs' = shown (rs @ [r])"
    using close_rest_ok [OF assms(1), of j n] assms(2) by auto
  have "CHR ''.'' \<notin> set (db_path (sys_db s))" using assms(1) by (simp add: session_def)
  from openable_reopens [OF files_ok_openable [OF c(6,5)] c(4) this, of j] c(1-3,7)
  show ?thesis by (simp add: close_tail_def)
qed

lemma run_inv_step:
  assumes "daemon_step j rnd n d l d'" "run_inv j f (label_pairs [l] @ w) (Suc k) path d" "length (j_stack j) = maxKeySize"
  shows "run_inv j (foldl shown_step f (label_actions [l])) w k path d'"
proof -
  have c: "control d" "control d'" "dm_err d = None"
    using assms(2) control_step [OF assms(1)] by (simp_all add: run_inv_def)
  have i: "data_inv j f (label_pairs [l] @ w) (Suc k) path (dm_close d) (dm_system d, job_of (dm_pc d))"
    using assms(2) by (simp add: run_inv_def)
  show ?thesis
    using assms(1)
  proof cases
    case (op a db)
    have "db_open (sys_db (dm_system d))" by (rule perform_open [OF op(4)])
    then have "dm_close d = NotClosing \<or> dm_close d = CloseWaits" using i op(3) by (cases "dm_close d") auto
    then have "live_inv f (pairs_written [Client a] @ w) (Suc k) path (dm_system d, job_of (dm_pc d))"
      using i op(1) by (auto simp: label_pairs_op)
    moreover have "sys_step j rnd (dm_system d, job_of (dm_pc d)) (Client a) ((dm_system d)\<lparr>sys_db := db\<rparr>, job_of (dm_pc d))"
      using op(4) by (intro sys_step.client)
    ultimately have "live_inv (shown_step f a) w k path ((dm_system d)\<lparr>sys_db := db\<rparr>, job_of (dm_pc d))"
      using live_step assms(3) by fastforce
    then show ?thesis
      using c op(1,2) \<open>dm_close d = NotClosing \<or> dm_close d = CloseWaits\<close> by (auto simp: run_inv_def after_op_def)
  next
    case thread
    have w: "dm_close d = NotClosing \<or> dm_close d = CloseWaits" using control_stopped [OF c(1)] thread(3) by blast
    then have "live_inv f w (Suc k) path (dm_system d, job_of (dm_pc d))"
      using i thread(1) by (auto simp: label_pairs_def)
    note t = live_thread [OF this c(3) assms(3)]
    show ?thesis using t w c(2) thread(1,2) by (auto simp: run_inv_def)
  next
    case (close_start s)
    then have "live_inv f w k path (s, job_of (dm_pc d))"
      using i live_request [of f w k path "dm_system d"] by (simp add: label_pairs_def)
    then show ?thesis using c close_start(1,2) by (simp add: run_inv_def)
  next
    case close_test
    then show ?thesis using i c live_less by (auto simp: run_inv_def label_pairs_def)
  next
    case close_wake
    then show ?thesis using i c live_less by (auto simp: run_inv_def label_pairs_def)
  next
    case (close_go s)
    then have "dm_pc d = Stopped" using c(1) by (simp add: control_def)
    then have l: "sys_inv f w (dm_system d, None)" "files_inv (dm_system d, None)" "db_path (sys_db (dm_system d)) = path"
      using i close_go(1,3) by (simp_all add: live_inv_def label_pairs_def)
    obtain rs r where "session (dm_system d) rs r" "shown (rs @ [r]) = f" using session_end [OF l(1,2)] by blast
    then show ?thesis using l(3) close_go(1,2,5) c by (auto simp: run_inv_def)
  next
    case close_end
    obtain s rs r where s: "session s rs r" "shown (rs @ [r]) = f" "close_swap s = Inr (dm_system d)" "db_path (sys_db s) = path"
      using i close_end(3) by auto
    have "\<not> dm_mutex d" using control_stopped [OF c(1)] close_end(3) by simp
    then obtain s5 where "close_tail j kv_cmp n (dm_mutex d) (dm_system d) = Inr s5" "\<not> db_open (sys_db s5)"
      "reopens j path (sys_files s5) f"
      using close_tail_ok [OF s(1,3), of j n] s(2,4) by auto
    then show ?thesis using c close_end(1,2) by (simp add: run_inv_def)
  qed
qed

lemma run_inv_run:
  assumes "daemon_run j rnd n d ls d'" "run_inv j f (label_pairs ls @ w) (length ls + k) path d" "length (j_stack j) = maxKeySize"
  shows "run_inv j (foldl shown_step f (label_actions ls)) w k path d'"
  using assms
proof (induction arbitrary: w k rule: daemon_run.induct)
  case (drun_step d ls d1 l d2)
  have "run_inv j (foldl shown_step f (label_actions ls)) (label_pairs [l] @ w) (Suc k) path d1"
    using drun_step.IH [of "label_pairs [l] @ w" "Suc k"] drun_step.prems by (simp add: label_pairs_append)
  from run_inv_step [OF drun_step.hyps(2) this drun_step.prems(2)] show ?case by simp
qed (simp add: label_pairs_def)

text \<open>An opened database, with its thread.\<close>

definition writes_fit :: "keyvalue list list \<Rightarrow> label list \<Rightarrow> bool" where
  "writes_fit rs ls \<longleftrightarrow> room rs (map Client (label_actions ls))"

lemma run_inv_start:
  assumes "db_shape seg_lists (sys_db s) rs r" "files_inv (s, None)" "1 \<le> maxSegments (db_options (sys_db s))"
    and "writes_fit (rs @ [r]) ls" "unat (db_nextSegID (sys_db s)) + length ls < 2 ^ 64"
  shows "run_inv j (shown (rs @ [r])) (label_pairs ls) (length ls) (db_path (sys_db s)) (start_merger s)"
proof -
  have "sys_inv (shown (rs @ [r])) (label_pairs ls) (s, None)"
    using sys_inv_start [OF assms(1,3)] assms(4) by (simp add: writes_fit_def label_pairs_def)
  then have "live_inv (shown (rs @ [r])) (label_pairs ls) (length ls) (db_path (sys_db s)) (s, None)"
    using assms(2,5) by (simp add: live_inv_def)
  moreover have "dm_system (start_merger s) = s" "job_of (dm_pc (start_merger s)) = None"
    "dm_close (start_merger s) = NotClosing" "dm_err (start_merger s) = None"
    by (simp_all add: start_merger_def)
  ultimately show ?thesis using control_start by (simp add: run_inv_def)
qed

section \<open>The end of a close\<close>

text \<open>
  Once the flag is set, every step of the thread and of the closing thread brings the end nearer: the thread
  finishes the merges that are due, each of which leaves fewer segments, and then sees the flag.
\<close>

definition thread_left :: "daemon \<Rightarrow> nat" where
  "thread_left d =
     (let n = length (db_segments (sys_db (dm_system d))) in
      case dm_pc d of
        Stopped \<Rightarrow> 0 | AtTest \<Rightarrow> 1 | Woken \<Rightarrow> 2 | InWait \<Rightarrow> 3 | AtWait \<Rightarrow> 4
      | AtTry \<Rightarrow> 3 * n + 6 | InLoop \<Rightarrow> 3 * n + 5 | InMerge job \<Rightarrow> 3 * n + 4 | InPause \<Rightarrow> 3 * n + 6)"

definition close_left :: "daemon \<Rightarrow> nat" where
  "close_left d =
     (case dm_close d of
        CloseWaits \<Rightarrow> 2 * thread_left d + 3 + (if wg_waiters (dm_wg d) = [Testing] then 1 else 0)
      | CloseHolds \<Rightarrow> 1 | _ \<Rightarrow> 0)"

lemma close_left_le: "close_left d \<le> 2 * thread_left d + 4"
  by (cases "dm_close d") (simp_all add: close_left_def)

text \<open>An operation may add a segment, and the waiting may end for no reason.\<close>

fun own :: "label \<Rightarrow> nat" where
  "own (Op a) = 0" | "own CloseWake = 0" | "own _ = 1"

fun slack :: "label \<Rightarrow> nat" where
  "slack (Op a) = 6" | "slack CloseWake = 1" | "slack _ = 0"

lemma commit_shorter:
  assumes "merge_commit job db = Inr db'" "job_ok (db_segments db) rs job"
  shows "length (db_segments db') < length (db_segments db)"
proof -
  obtain pre post where j: "db_segments db = pre @ mj_group job @ post" "length pre = mj_start job" "2 \<le> length (mj_group job)"
    using assms(2) unfolding job_ok_def by blast
  then show ?thesis using assms(1) merge_commit_ok [OF j(1,2)] by auto
qed

lemma thread_left_less:
  assumes "live_inv f w (Suc k) path (dm_system d, job_of (dm_pc d))" "db_closing (sys_db (dm_system d))" "dm_pc d \<noteq> Stopped"
  shows "thread_left (autoMerger j kv_cmp d) < thread_left d"
proof (cases "dm_pc d")
  case InLoop
  have "sys_db s' = sys_db (dm_system d)" if "merge_begin j kv_cmp (dm_system d) = Inr (job, s')" for job s'
    using merge_begin_db [OF that] .
  then show ?thesis using InLoop
    by (cases "merge_begin j kv_cmp (dm_system d)")
       (auto simp: autoMerger_def thread_left_def Let_def end_use_def merge_failed_alt split: sum.splits)
next
  case (InMerge job)
  let ?db = "sys_db (dm_system d)"
  obtain db where m: "merge_commit job ?db = Inr db" using live_commit assms(1) InMerge by fastforce
  obtain rs where "job_ok (db_segments ?db) rs job" using assms(1) InMerge by (auto simp: live_inv_def sys_inv_def)
  from commit_shorter [OF m this] show ?thesis
    using InMerge m by (simp add: autoMerger_def thread_left_def Let_def)
qed (use assms(2,3) in \<open>auto simp: autoMerger_def thread_left_def Let_def end_use_def\<close>)

lemma perform_one_more:
  assumes "perform j rnd db a = Inr db'" "db_memory db \<noteq> None"
  shows "length (db_segments db') \<le> length (db_segments db) + 1"
  using perform_grown [OF assms] by (auto simp: grown_def)

lemma thread_left_op:
  assumes "length (db_segments db) \<le> length (db_segments (sys_db (dm_system d))) + 1"
  shows "thread_left (after_op db d) \<le> thread_left d + 3"
  using assms by (cases "dm_pc d") (auto simp: thread_left_def after_op_def wakeup_def Let_def)

lemma close_step_left:
  assumes "daemon_step j rnd n d l d'" "run_inv j f (label_pairs [l] @ w) (Suc k) path d" "dm_close d \<noteq> NotClosing"
  shows "own l + close_left d' \<le> close_left d + slack l" "dm_close d' \<noteq> NotClosing"
proof -
  have c: "control d" using assms(2) by (simp add: run_inv_def)
  have i: "data_inv j f (label_pairs [l] @ w) (Suc k) path (dm_close d) (dm_system d, job_of (dm_pc d))"
    using assms(2) by (simp add: run_inv_def)
  have "own l + close_left d' \<le> close_left d + slack l \<and> dm_close d' \<noteq> NotClosing"
    using assms(1)
  proof cases
    case (op a db)
    have "db_open (sys_db (dm_system d))" by (rule perform_open [OF op(4)])
    then have w: "dm_close d = CloseWaits" using i op(3) assms(3) by (cases "dm_close d") auto
    then have "db_memory (sys_db (dm_system d)) \<noteq> None"
      using i by (auto simp: live_inv_def files_inv_def ids_ok_def)
    from thread_left_op [OF perform_one_more [OF op(4) this]] show ?thesis
      using w op(1,2) by (auto simp: close_left_def after_op_def)
  next
    case thread
    have w: "dm_close d = CloseWaits" using control_stopped [OF c] thread(3) assms(3) by blast
    then have "live_inv f w (Suc k) path (dm_system d, job_of (dm_pc d))" "db_closing (sys_db (dm_system d))"
      using i c thread(1) by (simp_all add: label_pairs_def control_def)
    note t = thread_left_less [OF this thread(3), of j]
    have "dm_close (autoMerger j kv_cmp d) = CloseWaits"
      using w by (auto simp: autoMerger_def end_use_def merge_failed_def Let_def split: merger_pc.splits sum.splits)
    then show ?thesis using t w thread(1,2) by (simp add: close_left_def)
  next
    case close_test
    then show ?thesis by (auto simp: close_left_def wg_test_def thread_left_def)
  next
    case close_wake
    then show ?thesis by (auto simp: close_left_def thread_left_def)
  next
    case (close_go s)
    then show ?thesis by (simp add: close_left_def)
  next
    case close_end
    then show ?thesis by (simp add: close_left_def split: sum.split)
  qed (use assms(3) in simp)
  then show "own l + close_left d' \<le> close_left d + slack l" "dm_close d' \<noteq> NotClosing" by blast+
qed

lemma close_run_left:
  assumes "daemon_run j rnd n d ls d'" "run_inv j f (label_pairs ls @ w) (length ls + k) path d" "dm_close d \<noteq> NotClosing"
    and "length (j_stack j) = maxKeySize"
  shows "sum_list (map own ls) + close_left d' \<le> close_left d + sum_list (map slack ls) \<and> dm_close d' \<noteq> NotClosing"
  using assms
proof (induction arbitrary: w k rule: daemon_run.induct)
  case (drun_step d ls d1 l d2)
  have i: "run_inv j f (label_pairs ls @ (label_pairs [l] @ w)) (length ls + Suc k) path d"
    using drun_step.prems(1) by (simp add: label_pairs_append)
  have "sum_list (map own ls) + close_left d1 \<le> close_left d + sum_list (map slack ls)" "dm_close d1 \<noteq> NotClosing"
    using drun_step.IH [OF i drun_step.prems(2,3)] by blast+
  moreover have "run_inv j (foldl shown_step f (label_actions ls)) (label_pairs [l] @ w) (Suc k) path d1"
    by (rule run_inv_run [OF drun_step.hyps(1) i drun_step.prems(3)])
  ultimately show ?case using close_step_left [OF drun_step.hyps(2)] by fastforce
qed simp

text \<open>The closing thread and the merging thread are never both stuck.\<close>

lemma close_progress:
  assumes "run_inv j f w k path d" "dm_close d \<noteq> NotClosing" "dm_close d \<noteq> CloseDone"
  shows "\<exists>l d'. own l = 1 \<and> daemon_step j rnd n d l d'"
proof -
  have c: "control d" using assms(1) by (simp add: run_inv_def)
  have i: "data_inv j f w k path (dm_close d) (dm_system d, job_of (dm_pc d))" using assms(1) by (simp add: run_inv_def)
  show ?thesis
  proof (cases "dm_close d")
    case CloseWaits
    then have ws: "wg_waiters (dm_wg d) = [Testing] \<or> wg_waiters (dm_wg d) = [Blocked] \<and> dm_pc d \<noteq> Stopped \<or>
        wg_waiters (dm_wg d) = [Returned]"
      using c by (auto simp: control_def)
    then consider "dm_pc d \<noteq> Stopped" | "wg_waiters (dm_wg d) = [Testing]" | "wg_waiters (dm_wg d) = [Returned]" by blast
    then show ?thesis
    proof cases
      case 1
      then have "daemon_step j rnd n d Thread (autoMerger j kv_cmp d)" using CloseWaits by (intro daemon_step.thread) simp_all
      then show ?thesis using own.simps by (intro exI [of _ Thread]) auto
    next
      case 2
      from daemon_step.close_test [OF CloseWaits this, of j rnd n] show ?thesis by (intro exI [of _ CloseTest]) auto
    next
      case 3
      obtain m where "db_memory (sys_db (dm_system d)) = Some m"
        using i CloseWaits by (auto simp: live_inv_def files_inv_def ids_ok_def)
      then obtain s where "close_swap (dm_system d) = Inr s" by (simp add: close_swap_def)
      from daemon_step.close_go [OF CloseWaits 3 this, of j rnd n] show ?thesis by (intro exI [of _ CloseGo]) auto
    qed
  next
    case CloseHolds
    from daemon_step.close_end [OF this, of j rnd n] show ?thesis by (intro exI [of _ CloseEnd]) auto
  qed (use assms i in auto)
qed

lemma drun_trans: "daemon_run j rnd n d1 ls' d2 \<Longrightarrow> daemon_run j rnd n d ls d1 \<Longrightarrow> daemon_run j rnd n d (ls @ ls') d2"
proof (induction rule: daemon_run.induct)
  case (drun_step d1 ls' d2 l d3)
  from daemon_run.drun_step [OF drun_step.IH [OF drun_step.prems] drun_step.hyps(2)] show ?case by simp
qed simp

lemma data_less: "data_inv j f w k path c sp \<Longrightarrow> k' \<le> k \<Longrightarrow> data_inv j f w k' path c sp"
  by (cases c) (auto intro: live_less)

lemma run_inv_less: "run_inv j f w k path d \<Longrightarrow> k' \<le> k \<Longrightarrow> run_inv j f w k' path d"
  by (auto simp: run_inv_def intro: data_less)

lemma close_reaches:
  assumes "run_inv j f w (close_left d) path d" "dm_close d \<noteq> NotClosing" "length (j_stack j) = maxKeySize"
  shows "\<exists>ls d'. daemon_run j rnd n d ls d' \<and> dm_close d' = CloseDone \<and> label_actions ls = [] \<and> length ls \<le> close_left d"
  using assms(1,2)
proof (induction "close_left d" arbitrary: d rule: less_induct)
  case less
  show ?case
  proof (cases "dm_close d = CloseDone")
    case True
    then show ?thesis using daemon_run.drun_refl [of j rnd n d] by (intro exI [of _ "[]"] exI [of _ d]) simp
  next
    case False
    obtain l d1 where l: "own l = 1" "daemon_step j rnd n d l d1" using close_progress [OF less.prems False] by blast
    then have a: "label_actions [l] = []" "slack l = 0" "label_pairs [l] = []" by (cases l; simp add: label_pairs_def)+
    have "0 < close_left d" using False less.prems by (cases "dm_close d") (auto simp: close_left_def run_inv_def)
    then obtain k where k: "close_left d = Suc k" by (cases "close_left d") auto
    have i: "run_inv j f (label_pairs [l] @ w) (Suc k) path d" using less.prems(1) a(3) k by simp
    note s = close_step_left [OF l(2) i less.prems(2)]
    have i1: "run_inv j f w k path d1" using run_inv_step [OF l(2) i assms(3)] a(1) by simp
    have "close_left d1 \<le> k" using s(1) l(1) a(2) k by simp
    then obtain ls d' where r: "daemon_run j rnd n d1 ls d'" "dm_close d' = CloseDone" "label_actions ls = []" "length ls \<le> close_left d1"
      using less.hyps [OF _ run_inv_less [OF i1] s(2)] k by auto
    have "daemon_run j rnd n d ([l] @ ls) d'"
      using drun_trans [OF r(1), of d "[l]"] daemon_run.drun_step [OF daemon_run.drun_refl l(2)] by simp
    then show ?thesis
      using r(2-4) a(1) \<open>close_left d1 \<le> k\<close> k label_actions_append [of "[l]" ls]
      by (intro exI [of _ "[l] @ ls"] exI [of _ d']) simp
  qed
qed

section \<open>Properties\<close>

text \<open>C24. In every run of the merging thread, the operations and a close: the wait group counts the thread and its
  merge, the mutex of the merger is held exactly while the thread merges, a close that waits is blocked only while
  the thread lives, and once a close has waited the thread has returned, so the merge of the close finds the mutex
  free and runs alone.\<close>

theorem close_excludes_merger:
  assumes "daemon_run j rnd n (start_merger s) ls d"
  shows "wg_count (dm_wg d) = in_use (dm_pc d) \<and> (dm_mutex d \<longleftrightarrow> merging (dm_pc d)) \<and>
         (dm_close d = CloseWaits \<and> wg_waiters (dm_wg d) = [Blocked] \<longrightarrow> dm_pc d \<noteq> Stopped) \<and>
         (dm_close d \<noteq> NotClosing \<and> dm_close d \<noteq> CloseWaits \<longrightarrow> dm_pc d = Stopped \<and> \<not> dm_mutex d)"
proof -
  have c: "control d" by (rule control_run [OF assms control_start])
  then have "wg_count (dm_wg d) = in_use (dm_pc d)" "dm_mutex d \<longleftrightarrow> merging (dm_pc d)"
    "dm_close d = CloseWaits \<and> wg_waiters (dm_wg d) = [Blocked] \<longrightarrow> dm_pc d \<noteq> Stopped"
    by (auto simp: control_def)
  then show ?thesis using control_stopped [OF c] by blast
qed

text \<open>C3. The background merges are invisible: in every interleaving of operations, the merging thread and a close,
  no merge fails, the close does not throw, and when it is done the directory opens again and shows under every
  key what the operations made of it.\<close>

theorem background_session_reopens:
  assumes "db_shape seg_lists (sys_db s) rs r" and "files_inv (s, None)" and "1 \<le> maxSegments (db_options (sys_db s))"
    and "length (j_stack j) = maxKeySize" and "writes_fit (rs @ [r]) ls" and "unat (db_nextSegID (sys_db s)) + length ls < 2 ^ 64"
    and "daemon_run j rnd n (start_merger s) ls d"
  shows "dm_err d = None \<and> (\<forall>e. dm_close d \<noteq> CloseThrew e) \<and>
         (dm_close d = CloseDone \<longrightarrow> \<not> db_open (sys_db (dm_system d)) \<and>
            reopens j (db_path (sys_db s)) (sys_files (dm_system d))
              (foldl shown_step (shown (rs @ [r])) (label_actions ls)))"
proof -
  have "run_inv j (shown (rs @ [r])) (label_pairs ls @ []) (length ls + 0) (db_path (sys_db s)) (start_merger s)"
    using run_inv_start [OF assms(1-3,5,6)] by simp
  from run_inv_run [OF assms(7) this assms(4)]
  have i: "run_inv j (foldl shown_step (shown (rs @ [r])) (label_actions ls)) [] 0 (db_path (sys_db s)) d" .
  then show ?thesis by (cases "dm_close d") (auto simp: run_inv_def)
qed

text \<open>C16. A close ends: from the moment the flag is set, the steps of the merging thread and of the closing thread are
  bounded by the merges that are due, six more for each operation that runs meanwhile and one for each spurious
  wake-up; and until the close is done one of the two threads can take a step.\<close>

theorem close_ends:
  assumes "db_shape seg_lists (sys_db s) rs r" and "files_inv (s, None)" and "1 \<le> maxSegments (db_options (sys_db s))"
    and "length (j_stack j) = maxKeySize" and "writes_fit (rs @ [r]) (ls @ ls')"
    and "unat (db_nextSegID (sys_db s)) + length (ls @ ls') < 2 ^ 64"
    and "daemon_run j rnd n (start_merger s) ls d" and "dm_close d \<noteq> NotClosing" and "daemon_run j rnd n d ls' d'"
  shows "sum_list (map own ls') \<le> close_left d + sum_list (map slack ls') \<and>
         (dm_close d' \<noteq> CloseDone \<longrightarrow> (\<exists>l d2. own l = 1 \<and> daemon_step j rnd n d' l d2))"
proof -
  have "run_inv j (shown (rs @ [r])) (label_pairs ls @ label_pairs ls') (length ls + length ls') (db_path (sys_db s)) (start_merger s)"
    using run_inv_start [OF assms(1-3,5,6), of j] by (simp add: label_pairs_append)
  from run_inv_run [OF assms(7) this assms(4)]
  have i: "run_inv j (foldl shown_step (shown (rs @ [r])) (label_actions ls)) (label_pairs ls' @ []) (length ls' + 0)
      (db_path (sys_db s)) d" by simp
  note b = close_run_left [OF assms(9) i assms(8,4)]
  note i' = run_inv_run [OF assms(9) i assms(4)]
  show ?thesis using b close_progress [OF i'] by auto
qed

text \<open>The witnesses: a put, and a close that is run to its end.\<close>

lemma sample_daemon:
  obtains d where "daemon_run j (\<lambda>i. 0) 8 (start_merger fresh_system) [Op (Put [1] [2]), CloseStart] d"
    "dm_close d = CloseWaits" "close_left d < 2 ^ 32"
proof -
  obtain db rs r where p: "db_put (\<lambda>i. 0) (sys_db fresh_system) [1] [2] = Inr db" "db_repr db rs r"
    "layers_step (\<lambda>r. run_put r (mk_kv [1] [2])) [] [] rs r"
    using db_put_repr [OF fresh_inv(2), of "[1]" "\<lambda>i. 0" "[2]"] by auto
  let ?d1 = "after_op db (start_merger fresh_system)"
  have "daemon_step j (\<lambda>i. 0) 8 (start_merger fresh_system) (Op (Put [1] [2])) ?d1"
    using p(1) by (intro daemon_step.op) (simp_all add: start_merger_def)
  then have r1: "daemon_run j (\<lambda>i. 0) 8 (start_merger fresh_system) ([] @ [Op (Put [1] [2])]) ?d1"
    by (rule daemon_run.drun_step [OF daemon_run.drun_refl])
  have c1: "dm_close ?d1 = NotClosing" by (simp add: after_op_def start_merger_def)
  obtain s where s: "close_request (dm_system ?d1) = Inr s" "db_segments (sys_db s) = db_segments db"
    using p(2) by (simp add: close_request_def after_op_def db_shape_def)
  let ?d2 = "?d1\<lparr>dm_system := s, dm_pc := wakeup (dm_pc ?d1),
         dm_wg := (dm_wg ?d1)\<lparr>wg_waiters := wg_waiters (dm_wg ?d1) @ [Testing]\<rparr>, dm_close := CloseWaits\<rparr>"
  have "daemon_run j (\<lambda>i. 0) 8 (start_merger fresh_system) (([] @ [Op (Put [1] [2])]) @ [CloseStart]) ?d2"
    by (rule daemon_run.drun_step [OF r1 daemon_step.close_start [OF c1 s(1)]])
  moreover have "length (db_segments db) \<le> 1"
    using p(2,3) by (auto simp: db_shape_def layers_step_def dest: list_all2_lengthD)
  then have "thread_left ?d2 \<le> 9" using s(2) by (cases "dm_pc ?d2") (simp_all add: thread_left_def wakeup_def Let_def)
  then have "close_left ?d2 \<le> 22" using close_left_le [of ?d2] by linarith
  ultimately show thesis by (intro that [of ?d2]) simp_all
qed

lemma fresh_fits:
  assumes "label_actions ls = [Put [1] [2]]" "length ls < 2 ^ 40"
  shows "writes_fit ([] @ [[]]) ls" "unat (db_nextSegID (sys_db fresh_system)) + length ls < 2 ^ 64"
proof -
  show "writes_fit ([] @ [[]]) ls"
    using assms(1) by (simp add: writes_fit_def room_def runs_fit_def values_of_def pairs_written_def maxKeySize_def)
  obtain m where "db_nextSegID (sys_db fresh_system) = 1" by (rule fresh_memory)
  then show "unat (db_nextSegID (sys_db fresh_system)) + length ls < 2 ^ 64" using assms(2) by simp
qed

lemma label_actions_tests [simp]: "label_actions (replicate k CloseTest) = []"
  by (induction k) simp_all

lemma sample_close:
  assumes "length (j_stack j) = maxKeySize"
  obtains ls d where "daemon_run j (\<lambda>i. 0) 8 (start_merger fresh_system) ls d" "dm_close d = CloseDone"
    "label_actions ls = [Put [1] [2]]" "length ls < 2 ^ 40"
proof -
  let ?ls = "[Op (Put [1] [2]), CloseStart]"
  obtain d where d: "daemon_run j (\<lambda>i. 0) 8 (start_merger fresh_system) ?ls d" "dm_close d = CloseWaits" "close_left d < 2 ^ 32"
    by (rule sample_daemon)
  then have d2: "dm_close d \<noteq> NotClosing" by simp
  let ?all = "?ls @ replicate (close_left d) CloseTest"
  have all: "label_actions ?all = [Put [1] [2]]" "length ?all < 2 ^ 40" using d(3) by simp_all
  have "run_inv j (shown ([] @ [[]])) (label_pairs ?ls @ []) (length ?ls + close_left d)
      (db_path (sys_db fresh_system)) (start_merger fresh_system)"
    using run_inv_start [OF repr_shape [OF fresh_inv(2)] fresh_inv(1,3) fresh_fits [OF all], of j]
    by (simp add: label_pairs_def)
  from run_inv_run [OF d(1) this assms]
  obtain f where "run_inv j f [] (close_left d) (db_path (sys_db fresh_system)) d" by blast
  from close_reaches [OF this d2 assms, of "\<lambda>i. 0" 8]
  obtain ls' d' where r: "daemon_run j (\<lambda>i. 0) 8 d ls' d'" "dm_close d' = CloseDone" "label_actions ls' = []" "length ls' \<le> close_left d"
    by blast
  show thesis
  proof (rule that)
    show "daemon_run j (\<lambda>i. 0) 8 (start_merger fresh_system) (?ls @ ls') d'" by (rule drun_trans [OF r(1) d(1)])
    show "label_actions (?ls @ ls') = [Put [1] [2]]" using r(3) by simp
    show "length (?ls @ ls') < 2 ^ 40" using r(4) d(3) by simp
  qed (rule r(2))
qed

theorem close_excludes_merger_witness:
  "\<exists>(d :: daemon) ls. daemon_run \<lparr>j_stack = replicate maxKeySize 0, j_buffer = []\<rparr> (\<lambda>i. 0) 8 (start_merger fresh_system) ls d \<and>
     dm_close d = CloseDone \<and> dm_pc d = Stopped \<and> \<not> dm_mutex d \<and> wg_count (dm_wg d) = 0"
proof -
  let ?j = "\<lparr>j_stack = replicate maxKeySize 0, j_buffer = []\<rparr>"
  have j: "length (j_stack ?j) = maxKeySize" by simp
  obtain ls d where r: "daemon_run ?j (\<lambda>i. 0) 8 (start_merger fresh_system) ls d" "dm_close d = CloseDone"
    by (rule sample_close [OF j])
  from close_excludes_merger [OF r(1)] r(2) have "dm_pc d = Stopped \<and> \<not> dm_mutex d" "wg_count (dm_wg d) = in_use (dm_pc d)"
    by auto
  then show ?thesis using r by (intro exI [of _ d] exI [of _ ls]) simp
qed

theorem background_session_reopens_witness:
  "\<exists>(d :: daemon) ls. daemon_run \<lparr>j_stack = replicate maxKeySize 0, j_buffer = []\<rparr> (\<lambda>i. 0) 8 (start_merger fresh_system) ls d \<and>
     label_actions ls = [Put [1] [2]] \<and> dm_close d = CloseDone \<and> dm_err d = None \<and>
     reopens \<lparr>j_stack = replicate maxKeySize 0, j_buffer = []\<rparr> (db_path (sys_db fresh_system)) (sys_files (dm_system d))
       (shown_step (shown ([] @ [[]])) (Put [1] [2]))"
proof -
  let ?j = "\<lparr>j_stack = replicate maxKeySize 0, j_buffer = []\<rparr>"
  have j: "length (j_stack ?j) = maxKeySize" by simp
  obtain ls d where r: "daemon_run ?j (\<lambda>i. 0) 8 (start_merger fresh_system) ls d" "dm_close d = CloseDone"
    "label_actions ls = [Put [1] [2]]" "length ls < 2 ^ 40"
    by (rule sample_close [OF j])
  note b = background_session_reopens
    [OF repr_shape [OF fresh_inv(2)] fresh_inv(1,3) j fresh_fits [OF r(3,4)] r(1)]
  show ?thesis using b r(1-3) by (intro exI [of _ d] exI [of _ ls]) simp
qed

theorem close_ends_witness:
  "\<exists>(d :: daemon) l d2. daemon_run \<lparr>j_stack = replicate maxKeySize 0, j_buffer = []\<rparr> (\<lambda>i. 0) 8 (start_merger fresh_system)
       [Op (Put [1] [2]), CloseStart] d \<and> dm_close d = CloseWaits \<and>
     own l = 1 \<and> daemon_step \<lparr>j_stack = replicate maxKeySize 0, j_buffer = []\<rparr> (\<lambda>i. 0) 8 d l d2"
proof -
  let ?j = "\<lparr>j_stack = replicate maxKeySize 0, j_buffer = []\<rparr>" and ?ls = "[Op (Put [1] [2]), CloseStart]"
  have j: "length (j_stack ?j) = maxKeySize" by simp
  obtain d where r: "daemon_run ?j (\<lambda>i. 0) 8 (start_merger fresh_system) ?ls d" "dm_close d = CloseWaits"
    by (rule sample_daemon)
  then have n: "dm_close d \<noteq> NotClosing" by simp
  note e = close_ends [OF repr_shape [OF fresh_inv(2)] fresh_inv(1,3) j _ _ r(1) n daemon_run.drun_refl]
  have "dm_close d \<noteq> CloseDone \<longrightarrow> (\<exists>l d2. own l = 1 \<and> daemon_step ?j (\<lambda>i. 0) 8 d l d2)"
    using e fresh_fits [of ?ls] by simp
  then show ?thesis using r by auto
qed

end
