(* ===== verification/LogLife.thy ===== *)
theory LogLife
  imports AutoMerge
begin

text \<open>
  The lifetime of the memory segments and of their log files: \<^verbatim>\<open>removeOnFinalize\<close>, the destructor and
  \<^verbatim>\<open>removeSegment\<close> of \<^verbatim>\<open>include/memorysegment.h\<close>, \<^verbatim>\<open>LogFile::remove\<close>, and the shared pointers that keep a segment
  alive. The theorems: the directory has the log of a segment exactly while something refers to the segment, and
  whatever has been written is in the directory, in a disk segment or in a log.
\<close>

section \<open>References and logs\<close>

text \<open>The memory segments of a list, by their ids.\<close>

definition memory_ids :: "segment list \<Rightarrow> u64 list" where
  "memory_ids segs = concat (map (\<lambda>s. case s of MemSeg m \<Rightarrow> [ms_id m] | _ \<Rightarrow> []) segs)"

lemma memory_ids_simps [simp]:
  "memory_ids [] = []" "memory_ids (MemSeg m # segs) = ms_id m # memory_ids segs"
  "memory_ids (DiskSeg ds # segs) = memory_ids segs" "memory_ids (xs @ ys) = memory_ids xs @ memory_ids ys"
  by (simp_all add: memory_ids_def)

lemma memory_ids_set: "i \<in> set (memory_ids segs) \<longleftrightarrow> (\<exists>m. MemSeg m \<in> set segs \<and> ms_id m = i)"
  by (induction segs) (auto simp: memory_ids_def split: segment.splits)

text \<open>
  The system, the merge under way, and what holds references to memory segments beside the state of the database:
  the readers, snapshots and iterators, and the locals of the merging thread. A segment is in \<open>lv_created\<close> once its
  log is open, and in \<open>lv_flagged\<close> once \<^verbatim>\<open>shouldRemove\<close> is set.
\<close>

record living =
  lv_system :: system
  lv_job :: "merge_job option"
  lv_holders :: "u64 list list"
  lv_merger :: "u64 list"
  lv_created :: "u64 list"
  lv_flagged :: "u64 list"

definition referenced :: "living \<Rightarrow> u64 list" where
  "referenced l = memory_ids (db_multi (sys_db (lv_system l))) @ concat (lv_holders l) @ lv_merger l"

text \<open>What an operation has flushed is in the file of the log.\<close>

definition open_logs :: "database \<Rightarrow> u64 list" where
  "open_logs db = (case db_memory db of None \<Rightarrow> [] | Some m \<Rightarrow> if ms_log m = None then [] else [ms_id m])"

definition save_log :: "database \<Rightarrow> directory \<Rightarrow> directory" where
  "save_log db d =
     (case db_memory db of None \<Rightarrow> d
      | Some m \<Rightarrow> (case ms_log m of None \<Rightarrow> d | Some f \<Rightarrow> d(log_name (ms_id m) \<mapsto> fb_file (lf_buf f))))"

text \<open>The destructor of a memory segment.\<close>

definition destroy_memory :: "u64 list \<Rightarrow> u64 list \<Rightarrow> u64 \<Rightarrow> directory \<Rightarrow> directory" where
  "destroy_memory flagged created i d =
     (if i \<in> set flagged then (if i \<in> set created then fs_remove (log_name i) d else d) else d)"

text \<open>From \<open>l\<close> to \<open>l'\<close> references were given up: the segments nothing refers to any more are destroyed.\<close>

definition give_up :: "living \<Rightarrow> living \<Rightarrow> living" where
  "give_up l l' =
     l'\<lparr>lv_system := (lv_system l')\<lparr>sys_files :=
          fold (destroy_memory (lv_flagged l') (lv_created l'))
            (filter (\<lambda>i. i \<notin> set (referenced l')) (referenced l)) (sys_files (lv_system l'))\<rparr>\<rparr>"

section \<open>Steps\<close>

datatype life_event = Act action | Hold | Drop nat | Begin | Commit

text \<open>
  An operation; a snapshot keeps the segments it was made of. \<open>Hold\<close> is a reader, or an iterator, that takes a
  reference to the state, \<open>Drop\<close> the end of a holder. The merging thread keeps the segments it started with in its
  locals until the end of its iteration, which may come any time after the commit.
\<close>

inductive life_step :: "junk \<Rightarrow> (nat \<Rightarrow> nat) \<Rightarrow> living \<Rightarrow> life_event \<Rightarrow> living \<Rightarrow> bool"
  for j :: junk and rnd :: "nat \<Rightarrow> nat" where
  act: "perform j rnd (sys_db (lv_system l)) a = Inr db \<Longrightarrow>
    life_step j rnd l (Act a)
      (l\<lparr>lv_system := (lv_system l)\<lparr>sys_db := db, sys_files := save_log db (sys_files (lv_system l))\<rparr>,
         lv_created := open_logs db @ lv_created l,
         lv_holders := (if a = Snap then lv_holders l @ [memory_ids (db_segments db)] else lv_holders l)\<rparr>)"
| hold: "life_step j rnd l Hold (l\<lparr>lv_holders := lv_holders l @ [memory_ids (db_multi (sys_db (lv_system l)))]\<rparr>)"
| drop: "i < length (lv_holders l) \<Longrightarrow>
    life_step j rnd l (Drop i) (give_up l (l\<lparr>lv_holders := take i (lv_holders l) @ drop (Suc i) (lv_holders l)\<rparr>))"
| merge: "lv_job l = None \<Longrightarrow>
    \<not> few_segments (db_segments (sys_db (lv_system l))) (maxSegments (db_options (sys_db (lv_system l)))) \<Longrightarrow>
    merge_begin j kv_cmp (lv_system l) = Inr (job, s) \<Longrightarrow>
    life_step j rnd l Begin
      (l\<lparr>lv_system := s, lv_job := Some job, lv_merger := memory_ids (db_segments (sys_db (lv_system l)))\<rparr>)"
| commit: "lv_job l = Some job \<Longrightarrow> merge_commit job (sys_db (lv_system l)) = Inr db \<Longrightarrow>
    life_step j rnd l Commit
      (l\<lparr>lv_system := (lv_system l)\<lparr>sys_db := db\<rparr>, lv_job := None, lv_merger := [],
         lv_holders := lv_holders l @ [lv_merger l], lv_flagged := memory_ids (mj_group job) @ lv_flagged l\<rparr>)"

inductive_cases life_stepE [elim]: "life_step j rnd l e l'"

inductive life_run :: "junk \<Rightarrow> (nat \<Rightarrow> nat) \<Rightarrow> living \<Rightarrow> life_event list \<Rightarrow> living \<Rightarrow> bool"
  for j :: junk and rnd :: "nat \<Rightarrow> nat" where
  life_refl: "life_run j rnd l [] l"
| life_more: "life_run j rnd l es l1 \<Longrightarrow> life_step j rnd l1 e l2 \<Longrightarrow> life_run j rnd l (es @ [e]) l2"

fun life_actions :: "life_event list \<Rightarrow> action list" where
  "life_actions [] = []"
| "life_actions (Act a # es) = a # life_actions es"
| "life_actions (_ # es) = life_actions es"

lemma life_actions_append [simp]: "life_actions (xs @ ys) = life_actions xs @ life_actions ys"
  by (induction xs rule: life_actions.induct) simp_all

text \<open>A database that has just been opened.\<close>

definition begin_life :: "system \<Rightarrow> living" where
  "begin_life s = \<lparr>lv_system = s, lv_job = None, lv_holders = [], lv_merger = [], lv_created = [], lv_flagged = []\<rparr>"

section \<open>Changes of the logs\<close>

definition logs_change :: "directory \<Rightarrow> directory \<Rightarrow> bool" where
  "logs_change d d' \<longleftrightarrow> finite (dom d') \<and> (\<forall>name. d' name = d name \<or> name = ''lockfile'' \<or> (\<exists>i. name = log_name i))"

lemma logs_change_same: "logs_change d d' \<Longrightarrow> \<forall>i. name \<noteq> log_name i \<Longrightarrow> name \<noteq> ''lockfile'' \<Longrightarrow> d' name = d name"
  unfolding logs_change_def by blast

lemma log_name_inject [simp]: "log_name i = log_name i' \<longleftrightarrow> i = i'"
  by (simp add: log_name_def)

lemma files_ok_logs:
  assumes "files_ok d segs" "logs_change d d'"
  shows "files_ok d' segs"
proof -
  note same = logs_change_same [OF assms(2)]
  have "\<forall>i. ''deleted'' \<noteq> log_name i" by (simp add: log_name_def)
  then have del: "d' ''deleted'' = d ''deleted''" by (rule same) simp
  then have "scheduled d' = scheduled d" "deleted_lines d' ls = deleted_lines d ls" for ls
    by (simp_all add: scheduled_def deleted_lines_def)
  moreover have "key_name i \<noteq> ''lockfile''" "data_name i \<noteq> ''lockfile''" for i by (simp_all add: key_name_def data_name_def)
  then have "file_backed d' s = file_backed d s" for s
    by (cases s) (simp_all add: same on_disk_def)
  moreover have "valid_name name \<and> \<not> is_tmp name \<and> (segment_file name \<longrightarrow> live_file segs name \<or> name \<in> set (scheduled d))"
    if "d' name \<noteq> None" for name
  proof (cases "d' name = d name")
    case True
    then have "d name \<noteq> None" using that by simp
    then show ?thesis using assms(1) unfolding files_ok_def by blast
  next
    case False
    then have "name = ''lockfile'' \<or> (\<exists>i. name = log_name i)" using assms(2) unfolding logs_change_def by blast
    then show ?thesis
    proof
      assume "name = ''lockfile''"
      then show ?thesis by (simp add: valid_name_def)
    next
      assume "\<exists>i. name = log_name i"
      then show ?thesis by auto
    qed
  qed
  moreover have "finite (dom d')" using assms(2) by (simp add: logs_change_def)
  ultimately show ?thesis using assms(1) unfolding files_ok_def by simp
qed

lemma destroy_fold:
  "fold (destroy_memory F C) is d name =
     (if \<exists>i \<in> set is. i \<in> set F \<and> i \<in> set C \<and> name = log_name i then None else d name)"
  by (induction "is" arbitrary: d) (auto simp: destroy_memory_def fs_remove_def)

section \<open>What an operation writes\<close>

fun action_units :: "action \<Rightarrow> log_unit list" where
  "action_units (Put k v) = [Single (mk_kv k v)]"
| "action_units (Remove k) = [Single (mk_kv k [])]"
| "action_units (Write b) = [Batch (entries b)]"
| "action_units Snap = []"

lemma action_units_pairs: "concat (map unit_kvs (action_units a)) = action_pairs a"
  by (cases a) simp_all

text \<open>
  The memory segment an operation finds: the old one, or a new one behind it. \<open>renewed\<close> says which, and the
  operation then writes its units to it or, if a removed key is not visible, nothing.
\<close>

definition renewed :: "(nat \<Rightarrow> nat) \<Rightarrow> database \<Rightarrow> memory_segment \<Rightarrow> database \<Rightarrow> memory_segment \<Rightarrow> bool" where
  "renewed rnd db m db' m0 \<longleftrightarrow>
     db_path db' = db_path db \<and> db_options db' = db_options db \<and>
     (m0 = m \<and> db_segments db' = db_segments db \<and> db_nextSegID db' = db_nextSegID db \<or>
      m0 = newMemorySegment kv_cmp rnd (db_path db) (db_nextSegID db + 1) (db_options db) \<and>
      db_segments db' = db_segments db @ [MemSeg m] \<and> db_nextSegID db' = db_nextSegID db + 1)"

lemma new_memory_default:
  assumes "userKeyCompare (db_options db) = None" "new_memory rnd db = (m, db1)"
  shows "m = newMemorySegment kv_cmp rnd (db_path db) (db_nextSegID db + 1) (db_options db)"
    "db_path db1 = db_path db" "db_options db1 = db_options db" "db_nextSegID db1 = db_nextSegID db + 1"
    "db_segments db1 = db_segments db"
  using assms(2) keyValueCompare_default [OF assms(1)] by (auto simp: new_memory_def nextSegmentID_def Let_def)

lemma maybeSwapMemory_renewed:
  assumes "maybeSwapMemory rnd db = Inr db1" "db_memory db = Some m" "userKeyCompare (db_options db) = None"
  shows "\<exists>m0. db_memory db1 = Some m0 \<and> renewed rnd db m db1 m0"
proof -
  obtain m0 db0 where n: "new_memory rnd db = (m0, db0)" by fastforce
  note d = new_memory_default [OF assms(3) n]
  show ?thesis
    using assms(1,2) n d(2-5) by (auto simp: maybeSwapMemory_def copyAndAppend_def renewed_def d(1) [symmetric] split: if_splits)
qed

lemma renewed_memory:
  assumes "renewed rnd db m db1 m0"
  shows "renewed rnd db m (maybeMerge (db1\<lparr>db_memory := Some m'\<rparr>)) m0" "db_memory (maybeMerge (db1\<lparr>db_memory := Some m'\<rparr>)) = Some m'"
  using assms by (simp_all add: renewed_def maybeMerge_def)

lemma perform_units:
  assumes "perform j rnd db a = Inr db'" "db_memory db = Some m" "userKeyCompare (db_options db) = None"
  shows "\<exists>m0 m' us. db_memory db' = Some m' \<and> renewed rnd db m db' m0 \<and> ms_run m0 us = Inr m' \<and> us \<in> {[], action_units a}"
proof (cases a)
  case (Put k v)
  then obtain db1 m1 x m' where p: "maybeSwapMemory rnd db = Inr db1" "db_memory db1 = Some m1" "ms_put m1 k v = Inr (x, m')"
    "db' = maybeMerge (db1\<lparr>db_memory := Some m'\<rparr>)"
    using assms(1) by (auto simp: db_put_def bind_res_eq_Inr access_eq_Inr split: if_splits)
  then have "renewed rnd db m db1 m1" using maybeSwapMemory_renewed [OF p(1) assms(2,3)] by auto
  then show ?thesis using renewed_memory [of rnd db m db1 m1 m'] p Put
    by (intro exI [of _ m1] exI [of _ m'] exI [of _ "action_units a"]) simp
next
  case (Remove k)
  then obtain old where rem: "db_remove j rnd db k = Inr (old, db')" using assms(1) by (auto simp: bind_res_eq_Inr)
  show ?thesis
  proof (cases "old = []")
    case True
    then have "db' = db" using rem by (auto simp: db_remove_def bind_res_eq_Inr split: if_splits)
    then show ?thesis using assms(2) by (intro exI [of _ m] exI [of _ "[]"]) (simp add: renewed_def)
  next
    case False
    then obtain db1 m1 x m' where p: "maybeSwapMemory rnd db = Inr db1" "db_memory db1 = Some m1" "ms_put m1 k [] = Inr (x, m')"
      "db' = maybeMerge (db1\<lparr>db_memory := Some m'\<rparr>)"
      using rem by (auto simp: db_remove_def ms_remove_def bind_res_eq_Inr access_eq_Inr split: if_splits)
    then have "renewed rnd db m db1 m1" using maybeSwapMemory_renewed [OF p(1) assms(2,3)] by auto
    then show ?thesis using renewed_memory [of rnd db m db1 m1 m'] p Remove
      by (intro exI [of _ m1] exI [of _ m'] exI [of _ "action_units a"]) simp
  qed
next
  case (Write b)
  then obtain db1 m1 m' where p: "maybeSwapMemory rnd db = Inr db1" "db_memory db1 = Some m1" "ms_write m1 b = Inr m'"
    "db' = maybeMerge (db1\<lparr>db_memory := Some m'\<rparr>)"
    using assms(1) by (auto simp: db_write_def bind_res_eq_Inr access_eq_Inr split: if_splits)
  then have "renewed rnd db m db1 m1" using maybeSwapMemory_renewed [OF p(1) assms(2,3)] by auto
  then show ?thesis using renewed_memory [of rnd db m db1 m1 m'] p Write
    by (cases b) (intro exI [of _ m1] exI [of _ m'] exI [of _ "action_units a"], simp)
next
  case Snap
  obtain m0 db0 where n: "new_memory rnd db = (m0, db0)" by fastforce
  note d = new_memory_default [OF assms(3) n]
  have "db' = db0\<lparr>db_segments := db_segments db @ [MemSeg m], db_memory := Some m0\<rparr>"
    using assms(1,2) n Snap by (auto simp: db_snapshot_def copyAndAppend_def Let_def split: if_splits)
  then show ?thesis
    using d by (intro exI [of _ m0] exI [of _ m0] exI [of _ "[]"]) (simp add: renewed_def)
qed

text \<open>What has been written to a segment is in its log, and the log is in the directory.\<close>

definition flushing :: "options \<Rightarrow> bool" where
  "flushing opts \<longleftrightarrow> enableSyncWrite opts \<or> \<not> disableWriteFlush opts"

definition logged_in :: "directory \<Rightarrow> u64 list \<Rightarrow> memory_segment \<Rightarrow> bool" where
  "logged_in d created m \<longleftrightarrow>
     (\<exists>us. ms_consistent m us \<and> (\<forall>u \<in> set us. unit_ok u \<and> unit_keys u) \<and>
        (case ms_log m of
           None \<Rightarrow> us = [] \<and> ms_id m \<notin> set created
         | Some f \<Rightarrow> log_idle f \<and> ms_id m \<in> set created \<and> d (log_name (ms_id m)) = Some (fb_file (lf_buf f))))"

lemma logged_in_new: "i \<notin> set C \<Longrightarrow> logged_in d C (newMemorySegment kv_cmp rnd path i opts)"
  unfolding logged_in_def using new_consistent [of rnd path i opts]
  by (intro exI [of _ "[]"]) (simp add: newMemorySegment_def)

lemma logged_in_cong:
  assumes "logged_in d C m" "d' (log_name (ms_id m)) = d (log_name (ms_id m))" "ms_id m \<in> set C' \<longleftrightarrow> ms_id m \<in> set C"
  shows "logged_in d' C' m"
  using assms unfolding logged_in_def by (cases "ms_log m") auto

lemma write_loop_log:
  "ms_write_loop m kvs = Inr m' \<Longrightarrow>
     ms_log m' = map_option (\<lambda>f. foldl (\<lambda>f kv. log_write f (kv_key kv) (kv_value kv)) f kvs) (ms_log m) \<and>
     ms_id m' = ms_id m \<and> ms_path m' = ms_path m \<and> ms_options m' = ms_options m"
  by (induction m kvs rule: ms_write_loop.induct)
     (fastforce simp: bind_res_eq_Inr option.map_comp comp_def option.map_ident split: prod.splits)+

lemma run_unit_log:
  assumes "ms_run m [u] = Inr m'"
  shows "ms_log m' = map_option (\<lambda>f. log_unit_write f u) (ms_log (maybeCreateLogFile m))"
    "ms_id m' = ms_id m" "ms_path m' = ms_path m" "ms_options m' = ms_options m"
proof -
  have "ms_log m' = map_option (\<lambda>f. log_unit_write f u) (ms_log (maybeCreateLogFile m)) \<and>
      ms_id m' = ms_id m \<and> ms_path m' = ms_path m \<and> ms_options m' = ms_options m"
  proof (cases u)
    case (Single kv)
    then show ?thesis using assms by (auto simp: bind_res_eq_Inr ms_put_def Let_def maybeCreate_id)
  next
    case (Batch es)
    then show ?thesis
      using assms by (auto simp: bind_res_eq_Inr ms_write_def Let_def option.map_comp comp_def batch_size_def maybeCreate_id
          dest!: write_loop_log)
  qed
  then show "ms_log m' = map_option (\<lambda>f. log_unit_write f u) (ms_log (maybeCreateLogFile m))"
    "ms_id m' = ms_id m" "ms_path m' = ms_path m" "ms_options m' = ms_options m" by blast+
qed

lemma run_unit_logged:
  assumes "logged_in d C m" "ms_run m [u] = Inr m'" "unit_ok u" "unit_keys u" "ms_path m \<noteq> ''''" "flushing (ms_options m)"
  shows "\<exists>f. ms_log m' = Some f \<and> logged_in (d(log_name (ms_id m) \<mapsto> fb_file (lf_buf f))) (ms_id m # C) m'"
proof -
  obtain us where us: "ms_consistent m us" "\<forall>u \<in> set us. unit_ok u \<and> unit_keys u" "case ms_log m of None \<Rightarrow> True | Some f \<Rightarrow> log_idle f"
    using assms(1) unfolding logged_in_def by (auto split: option.splits)
  note l = run_unit_log [OF assms(2)]
  have "\<exists>f. ms_log (maybeCreateLogFile m) = Some f \<and> log_idle f"
    using us(3) assms(5,6)
    by (auto simp: maybeCreateLogFile_def newLogFile_def log_idle_def fb_open_trunc_def flushing_def split: option.splits)
  then obtain f where f: "ms_log m' = Some f" "log_idle f" using l(1) log_unit_write_idle by auto
  obtain m1 where "ms_run m [u] = Inr m1" "ms_consistent m1 (us @ [u])"
    using ms_consistent_step [OF us(1) assms(4)] by blast
  then have "ms_consistent m' (us @ [u])" using assms(2) by simp
  then have "logged_in (d(log_name (ms_id m) \<mapsto> fb_file (lf_buf f))) (ms_id m # C) m'"
    unfolding logged_in_def using us(2) assms(3,4) f l(2) by (intro exI [of _ "us @ [u]"]) simp
  then show ?thesis using f(1) by blast
qed

section \<open>The invariant\<close>

fun job_kept :: "merge_job option \<Rightarrow> u64 list \<Rightarrow> bool" where
  "job_kept None ids \<longleftrightarrow> ids = []"
| "job_kept (Some job) ids \<longleftrightarrow> set (memory_ids (mj_group job)) \<subseteq> set ids"

definition log_inv :: "living \<Rightarrow> bool" where
  "log_inv l \<longleftrightarrow>
     (\<forall>m. MemSeg m \<in> set (db_multi (sys_db (lv_system l))) \<longrightarrow> logged_in (sys_files (lv_system l)) (lv_created l) m) \<and>
     (\<forall>m. db_memory (sys_db (lv_system l)) = Some m \<longrightarrow>
        ms_path m = db_path (sys_db (lv_system l)) \<and> ms_options m = db_options (sys_db (lv_system l))) \<and>
     db_path (sys_db (lv_system l)) \<noteq> '''' \<and> flushing (db_options (sys_db (lv_system l))) \<and>
     (\<forall>i. sys_files (lv_system l) (log_name i) \<noteq> None \<longleftrightarrow> i \<in> set (lv_created l) \<and> i \<in> set (referenced l)) \<and>
     (\<forall>i. i \<in> set (lv_created l) \<or> i \<in> set (referenced l) \<longrightarrow> i \<le> db_nextSegID (sys_db (lv_system l))) \<and>
     (\<forall>i \<in> set (lv_created l). i \<in> set (memory_ids (db_multi (sys_db (lv_system l)))) \<or> i \<in> set (lv_flagged l)) \<and>
     job_kept (lv_job l) (lv_merger l)"
definition life_inv :: "(bytes \<Rightarrow> bytes) \<Rightarrow> keyvalue list \<Rightarrow> nat \<Rightarrow> string \<Rightarrow> living \<Rightarrow> bool" where
  "life_inv f w k path l \<longleftrightarrow> live_inv f w k path (lv_system l, lv_job l) \<and> log_inv l"

text \<open>The files other than logs matter to the system, the logs do not.\<close>

lemma live_logs:
  assumes "live_inv f w k path (s, p)" "logs_change (sys_files s) d"
  shows "live_inv f w k path (s\<lparr>sys_files := d\<rparr>, p)"
proof -
  have "files_ok (sys_files s) (committed p (db_multi (sys_db s)))"
    using assms(1) by (simp add: live_inv_def files_inv_def)
  note f = files_ok_logs [OF this assms(2)]
  have eq: "sys_db (s\<lparr>sys_files := d\<rparr>) = sys_db s" "sys_files (s\<lparr>sys_files := d\<rparr>) = d"
    "sys_deleter (s\<lparr>sys_files := d\<rparr>) = sys_deleter s"
    by simp_all
  show ?thesis
    using assms(1) f unfolding live_inv_def files_inv_def sys_inv_def fst_conv snd_conv eq by blast
qed

lemma live_finite: "live_inv f w k path (s, p) \<Longrightarrow> finite (dom (sys_files s))"
  by (simp add: live_inv_def files_inv_def files_ok_def)

lemma logs_change_save: "finite (dom d) \<Longrightarrow> logs_change d (save_log db d)"
  by (auto simp: logs_change_def save_log_def split: option.splits)

lemma logs_change_destroy:
  assumes "finite (dom d)"
  shows "logs_change d (fold (destroy_memory F C) is d)"
proof -
  have "dom (fold (destroy_memory F C) is d) \<subseteq> dom d" by (auto simp: destroy_fold split: if_splits)
  then have "finite (dom (fold (destroy_memory F C) is d))" using assms by (rule finite_subset)
  then show ?thesis by (auto simp: logs_change_def destroy_fold)
qed

text \<open>Segments with different ids have different logs.\<close>

lemma chain_memory_id:
  assumes "chain segs" "MemSeg m \<in> set segs" "MemSeg m' \<in> set segs" "ms_id m = ms_id m'"
  shows "m = m'"
proof -
  have "distinct (map seg_ids segs)" by (rule chain_distinct [OF assms(1)])
  moreover have "seg_ids (MemSeg m) = seg_ids (MemSeg m')" using assms(4) by (simp add: seg_ids_def)
  ultimately have "MemSeg m = MemSeg m'" using assms(2,3) by (auto simp: distinct_map dest: inj_onD)
  then show ?thesis by simp
qed

text \<open>Merging leaves the logs alone.\<close>

lemma tmp_not_log [simp]: "log_name i \<noteq> name @ ''.tmp''"
proof
  assume "log_name i = name @ ''.tmp''"
  then have "is_tmp (log_name i) = is_tmp (name @ ''.tmp'')" by simp
  moreover have "CHR ''p'' \<notin> set (log_name i)" by (auto simp: log_name_def dest: to_string_chars)
  ultimately show False using \<open>log_name i = name @ ''.tmp''\<close> by simp
qed

lemma writeAndLoad_logs:
  assumes "writeAndLoadSegment nxt path (key_name a) (data_name a) it p d = Inr (s, d')"
  shows "d' (log_name i) = d (log_name i)"
  using assms by (auto simp: writeAndLoadSegment_def fs_rename_def Let_def bind_res_eq_Inr split: if_splits option.splits)

lemma merge_begin_logs:
  assumes "merge_begin j icmp s = Inr (job, s')"
  shows "sys_files s' (log_name i) = sys_files s (log_name i)"
proof -
  obtain start mergable where pl: "merge_plan (db_segments (sys_db s)) = (start, mergable)" by fastforce
  obtain seg dl d where m: "mergeSegments1 j icmp (sys_deleter s) (db_path (sys_db s)) mergable (start = 0) (sys_files s) =
      Inr (seg, dl, d)" "sys_files s' = d"
    using assms pl by (auto simp: merge_begin_def bind_res_eq_Inr)
  then obtain i0 itr s0 d1 where w: "writeAndLoadSegment (multi_next seg_peekKey seg_next) (db_path (sys_db s)) (key_name i0) (data_name i0)
      itr (start = 0) (sys_files s) = Inr (s0, d1)"
    "(dl, d) = scheduleDeletion (sys_deleter s) (concat (map seg_files mergable)) d1"
    by (auto simp: mergeSegments1_def Let_def bind_res_eq_Inr split: if_splits prod.splits)
  have "d (log_name i) = d1 (log_name i)"
    using w(2) by (auto simp: scheduleDeletion_def Let_def log_name_def split: if_splits)
  then show ?thesis using writeAndLoad_logs [OF w(1)] m(2) by simp
qed

text \<open>The steps, one by one. What an operation leaves alone in the logs.\<close>

lemma referenced_ids:
  "i \<in> set (referenced l) \<longleftrightarrow>
     i \<in> set (memory_ids (db_multi (sys_db (lv_system l)))) \<or> (\<exists>h \<in> set (lv_holders l). i \<in> set h) \<or> i \<in> set (lv_merger l)"
  by (auto simp: referenced_def)

lemma db_multi_memory: "db_memory db = Some m \<Longrightarrow> db_multi db = db_segments db @ [MemSeg m]"
  by (simp add: db_multi_def copyAndAppend_def)

lemma perform_logs:
  assumes "perform j rnd db a = Inr db'" "ids_ok db" "userKeyCompare (db_options db) = None"
    and "db_nextSegID db < - 1" "\<forall>u \<in> set (action_units a). unit_ok u \<and> unit_keys u"
    and "\<forall>m. MemSeg m \<in> set (db_multi db) \<longrightarrow> logged_in d C m"
    and "\<forall>m. db_memory db = Some m \<longrightarrow> ms_path m = db_path db \<and> ms_options m = db_options db"
    and "db_path db \<noteq> ''''" "flushing (db_options db)" "\<forall>i \<in> set C. i \<le> db_nextSegID db"
  shows "\<forall>m. MemSeg m \<in> set (db_multi db') \<longrightarrow> logged_in (save_log db' d) (open_logs db' @ C) m"
    and "\<forall>m. db_memory db' = Some m \<longrightarrow> ms_path m = db_path db' \<and> ms_options m = db_options db'"
    and "db_path db' = db_path db" "db_options db' = db_options db"
    and "set (memory_ids (db_multi db')) = set (memory_ids (db_multi db)) \<union> {db_nextSegID db'}"
    and "db_nextSegID db \<le> db_nextSegID db'"
    and "set (open_logs db') \<subseteq> {db_nextSegID db'}"
    and "save_log db' d (log_name i) \<noteq> None \<longleftrightarrow> d (log_name i) \<noteq> None \<or> i \<in> set (open_logs db')"
    and "\<forall>i \<in> set (open_logs db'). i \<in> set (memory_ids (db_multi db'))"
proof -
  obtain m where m: "db_memory db = Some m" "ms_id m = db_nextSegID db" using assms(2) by (auto simp: ids_ok_def)
  obtain m0 m' us where u: "db_memory db' = Some m'" "renewed rnd db m db' m0" "ms_run m0 us = Inr m'" "us \<in> {[], action_units a}"
    using perform_units [OF assms(1) m(1) assms(3)] by blast
  have mm: "db_multi db = db_segments db @ [MemSeg m]" "db_multi db' = db_segments db' @ [MemSeg m']"
    using m(1) u(1) by (simp_all add: db_multi_memory)
  have lt: "db_nextSegID db < db_nextSegID db + 1" by (rule next_less [OF assms(4)])
  have ch: "chain (db_segments db @ [MemSeg m])" using assms(2) mm(1) by (simp add: ids_ok_def)
  have g: "grown db db'" by (rule perform_grown [OF assms(1)]) (simp add: m(1))
  have ids': "ids_ok db'" by (rule grown_ids [OF g assms(2,4)])
  have ch': "chain (db_segments db' @ [MemSeg m'])" using ids' mm(2) by (simp add: ids_ok_def)
  have id': "ms_id m' = db_nextSegID db'" using ids' u(1) by (auto simp: ids_ok_def)
  have base: "logged_in d C m0 \<and> ms_path m0 = db_path db \<and> ms_options m0 = db_options db"
    using u(2) unfolding renewed_def
  proof (elim conjE disjE)
    assume n: "m0 = newMemorySegment kv_cmp rnd (db_path db) (db_nextSegID db + 1) (db_options db)"
    have "db_nextSegID db + 1 \<notin> set C" using assms(10) lt by (auto simp: not_le dest!: bspec)
    then show ?thesis using n logged_in_new by (simp add: newMemorySegment_def)
  qed (use assms(6,7) m(1) mm(1) in auto)
  have us: "us = [] \<or> (\<exists>u. us = [u] \<and> unit_ok u \<and> unit_keys u)"
    using u(4) assms(5) by (cases a) auto
  have keep: "ms_id m' = ms_id m0 \<and> ms_path m' = ms_path m0 \<and> ms_options m' = ms_options m0"
    using us u(3) run_unit_log(2-4) by auto
  have log: "logged_in (save_log db' d) (open_logs db' @ C) m'"
    using us
  proof
    assume "us = []"
    then have "m' = m0" using u(3) by simp
    then have l: "logged_in d C m'" using base by simp
    show ?thesis
    proof (cases "ms_log m'")
      case None
      then show ?thesis using l u(1) by (simp add: save_log_def open_logs_def)
    next
      case (Some f)
      then have "d (log_name (ms_id m')) = Some (fb_file (lf_buf f))" "ms_id m' \<in> set C"
        using l by (auto simp: logged_in_def)
      then show ?thesis using l u(1) Some by (intro logged_in_cong [OF l]) (simp_all add: save_log_def open_logs_def)
    qed
  next
    assume "\<exists>u. us = [u] \<and> unit_ok u \<and> unit_keys u"
    then obtain v where v: "ms_run m0 [v] = Inr m'" "unit_ok v" "unit_keys v" using u(3) by blast
    obtain f where f: "ms_log m' = Some f" "logged_in (d(log_name (ms_id m0) \<mapsto> fb_file (lf_buf f))) (ms_id m0 # C) m'"
      using run_unit_logged [OF _ v] base assms(8,9) by auto
    then show ?thesis using u(1) keep by (simp add: save_log_def open_logs_def)
  qed
  have old: "logged_in (save_log db' d) (open_logs db' @ C) m1" if m1: "MemSeg m1 \<in> set (db_segments db')" for m1
  proof -
    have "ms_id m1 < ms_id m'" using ch' m1 by (auto simp: chain_snoc)
    then have ne: "ms_id m1 \<noteq> ms_id m'" by simp
    have "MemSeg m1 \<in> set (db_multi db)" using u(2) m1 mm(1) by (auto simp: renewed_def)
    then have l: "logged_in d C m1" using assms(6) by blast
    show ?thesis
      using ne u(1) by (intro logged_in_cong [OF l]) (auto simp: save_log_def open_logs_def split: option.splits)
  qed
  show "\<forall>m. MemSeg m \<in> set (db_multi db') \<longrightarrow> logged_in (save_log db' d) (open_logs db' @ C) m"
    using log old mm(2) by auto
  show "db_path db' = db_path db" "db_options db' = db_options db" using u(2) by (simp_all add: renewed_def)
  then show "\<forall>m. db_memory db' = Some m \<longrightarrow> ms_path m = db_path db' \<and> ms_options m = db_options db'"
    using u(1) keep base by auto
  show "set (memory_ids (db_multi db')) = set (memory_ids (db_multi db)) \<union> {db_nextSegID db'}"
    using u(2) mm id' m(2) by (auto simp: renewed_def)
  show "db_nextSegID db \<le> db_nextSegID db'" using u(2) lt by (auto simp: renewed_def less_imp_le)
  show "set (open_logs db') \<subseteq> {db_nextSegID db'}" using u(1) id' by (simp add: open_logs_def)
  show "save_log db' d (log_name i) \<noteq> None \<longleftrightarrow> d (log_name i) \<noteq> None \<or> i \<in> set (open_logs db')"
    using u(1) by (auto simp: save_log_def open_logs_def split: option.splits)
  show "\<forall>i \<in> set (open_logs db'). i \<in> set (memory_ids (db_multi db'))" using u(1) mm(2) by (simp add: open_logs_def)
qed

definition life_pairs :: "life_event list \<Rightarrow> keyvalue list" where
  "life_pairs es = pairs_written (map Client (life_actions es))"

definition units_fit :: "life_event list \<Rightarrow> bool" where
  "units_fit es \<longleftrightarrow> (\<forall>a \<in> set (life_actions es). \<forall>u \<in> set (action_units a). unit_ok u)"

lemma life_pairs_append: "life_pairs (xs @ ys) = life_pairs xs @ life_pairs ys"
  by (simp add: life_pairs_def)

lemma life_pairs_simps [simp]: "life_pairs [] = []" "life_pairs [Act a] = action_pairs a" "life_pairs [Hold] = []"
  "life_pairs [Drop i] = []" "life_pairs [Begin] = []" "life_pairs [Commit] = []"
  by (simp_all add: life_pairs_def pairs_written_def)

lemma live_facts:
  assumes "live_inv f w (Suc k) path (s, p)"
  shows "ids_ok (sys_db s)" "userKeyCompare (db_options (sys_db s)) = None" "db_nextSegID (sys_db s) < - 1"
    "keys_nonempty w" "db_nextSegID (sys_db s) \<in> set (memory_ids (db_multi (sys_db s)))"
proof -
  have b: "unat (db_nextSegID (sys_db s)) + Suc k < 2 ^ 64" using assms by (simp add: live_inv_def)
  then have "unat (db_nextSegID (sys_db s)) < unat (- 1 :: u64)" by (simp add: unsigned_minus_1_eq_mask mask_eq_exp_minus_1)
  then show "db_nextSegID (sys_db s) < - 1" by (simp only: word_less_nat_alt)
  show "userKeyCompare (db_options (sys_db s)) = None" "keys_nonempty w"
    using assms by (auto simp: live_inv_def sys_inv_def db_shape_def)
  show i: "ids_ok (sys_db s)" using assms by (simp add: live_inv_def files_inv_def)
  then show "db_nextSegID (sys_db s) \<in> set (memory_ids (db_multi (sys_db s)))" by (auto simp: ids_ok_def db_multi_memory)
qed

lemma life_act:
  assumes "life_inv f (life_pairs [Act a] @ w) (Suc k) path l" "units_fit [Act a]" "length (j_stack j) = maxKeySize"
    and "perform j rnd (sys_db (lv_system l)) a = Inr db"
  shows "life_inv (shown_step f a) w k path
           (l\<lparr>lv_system := (lv_system l)\<lparr>sys_db := db, sys_files := save_log db (sys_files (lv_system l))\<rparr>,
              lv_created := open_logs db @ lv_created l,
              lv_holders := (if a = Snap then lv_holders l @ [memory_ids (db_segments db)] else lv_holders l)\<rparr>)"
    (is "life_inv _ _ _ _ ?l")
proof -
  let ?s = "lv_system l" and ?db = "sys_db (lv_system l)"
  have live: "live_inv f (action_pairs a @ w) (Suc k) path (?s, lv_job l)" and log: "log_inv l"
    using assms(1) by (simp_all add: life_inv_def)
  note facts = live_facts [OF live]
  have "sys_step j rnd (?s, lv_job l) (Client a) (?s\<lparr>sys_db := db\<rparr>, lv_job l)" by (rule sys_step.client [OF assms(4)])
  from live_step [OF this _ assms(3), of f w k path] live
  have "live_inv (shown_step f a) w k path (?s\<lparr>sys_db := db\<rparr>, lv_job l)" by (simp add: pairs_written_def)
  from live_logs [OF this, of "save_log db (sys_files ?s)"] logs_change_save [OF live_finite [OF live], of db]
  have live': "live_inv (shown_step f a) w k path (lv_system ?l, lv_job ?l)" by simp
  have units: "\<forall>u \<in> set (action_units a). unit_ok u \<and> unit_keys u"
    using assms(2) facts(4) by (cases a) (auto simp: units_fit_def unit_keys_def keys_nonempty_def)
  have l1: "\<forall>m. MemSeg m \<in> set (db_multi ?db) \<longrightarrow> logged_in (sys_files ?s) (lv_created l) m"
    "\<forall>m. db_memory ?db = Some m \<longrightarrow> ms_path m = db_path ?db \<and> ms_options m = db_options ?db"
    "db_path ?db \<noteq> ''''" "flushing (db_options ?db)"
    "\<forall>i \<in> set (lv_created l). i \<le> db_nextSegID ?db"
    using log by (simp_all add: log_inv_def)
  note p = perform_logs [OF assms(4) facts(1-3) units l1]
  have ref: "set (referenced ?l) = set (referenced l) \<union> {db_nextSegID db}"
    using p(5) by (auto simp: referenced_def db_multi_def copyAndAppend_def split: option.splits)
  have new: "db_nextSegID db \<in> set (referenced l)" if "db_nextSegID db \<in> set (lv_created l)"
  proof -
    have "db_nextSegID db = db_nextSegID ?db" using that l1(5) p(6) by (simp add: order_antisym)
    then show ?thesis using facts(5) by (simp add: referenced_def)
  qed
  have l2: "sys_files ?s (log_name i) \<noteq> None \<longleftrightarrow> i \<in> set (lv_created l) \<and> i \<in> set (referenced l)" for i
    using log by (simp add: log_inv_def)
  have "sys_files (lv_system ?l) (log_name i) \<noteq> None \<longleftrightarrow> i \<in> set (lv_created ?l) \<and> i \<in> set (referenced ?l)" for i
    using p(7) p(8) [of i] l2 [of i] ref new by auto
  moreover have "i \<le> db_nextSegID db" if "i \<in> set (lv_created ?l) \<or> i \<in> set (referenced ?l)" for i
  proof -
    have "i \<le> db_nextSegID ?db \<or> i = db_nextSegID db" using that p(7) ref log by (auto simp: log_inv_def)
    then show ?thesis using p(6) by auto
  qed
  moreover have "\<forall>i \<in> set (lv_created ?l). i \<in> set (memory_ids (db_multi db)) \<or> i \<in> set (lv_flagged l)"
    using log p(5,9) by (auto simp: log_inv_def)
  moreover have "job_kept (lv_job l) (lv_merger l)" using log by (simp add: log_inv_def)
  ultimately have "log_inv ?l" using p(1-4) l1(3,4) unfolding log_inv_def by simp
  then show ?thesis using live' by (simp add: life_inv_def)
qed

text \<open>A step that leaves the operations' part of the database as it is.\<close>

lemma log_inv_keep:
  assumes "log_inv l" "db_path (sys_db (lv_system l')) = db_path (sys_db (lv_system l))"
    and "db_options (sys_db (lv_system l')) = db_options (sys_db (lv_system l))"
    and "db_memory (sys_db (lv_system l')) = db_memory (sys_db (lv_system l))"
    and "db_nextSegID (sys_db (lv_system l')) = db_nextSegID (sys_db (lv_system l))"
    and "lv_created l' = lv_created l" "set (referenced l') \<subseteq> set (referenced l)"
    and "\<forall>m. MemSeg m \<in> set (db_multi (sys_db (lv_system l'))) \<longrightarrow> MemSeg m \<in> set (db_multi (sys_db (lv_system l)))"
    and "\<forall>i. sys_files (lv_system l') (log_name i) =
           (if i \<in> set (lv_created l) \<and> i \<in> set (referenced l) \<and> i \<notin> set (referenced l') then None else sys_files (lv_system l) (log_name i))"
    and "\<forall>i \<in> set (memory_ids (db_multi (sys_db (lv_system l)))).
           i \<in> set (memory_ids (db_multi (sys_db (lv_system l')))) \<or> i \<in> set (lv_flagged l')"
    and "set (lv_flagged l) \<subseteq> set (lv_flagged l')" "job_kept (lv_job l') (lv_merger l')"
  shows "log_inv l'"
proof -
  have "logged_in (sys_files (lv_system l')) (lv_created l') m" if m: "MemSeg m \<in> set (db_multi (sys_db (lv_system l')))" for m
  proof -
    have "ms_id m \<in> set (memory_ids (db_multi (sys_db (lv_system l'))))" using m memory_ids_set by blast
    then have "ms_id m \<in> set (referenced l')" by (simp add: referenced_def)
    then have "sys_files (lv_system l') (log_name (ms_id m)) = sys_files (lv_system l) (log_name (ms_id m))"
      using assms(9) by simp
    moreover have "logged_in (sys_files (lv_system l)) (lv_created l) m"
      using assms(1,8) m unfolding log_inv_def by blast
    ultimately show ?thesis using assms(6) by (simp add: logged_in_cong)
  qed
  moreover have "sys_files (lv_system l') (log_name i) \<noteq> None \<longleftrightarrow> i \<in> set (lv_created l') \<and> i \<in> set (referenced l')" for i
  proof -
    have "sys_files (lv_system l) (log_name i) \<noteq> None \<longleftrightarrow> i \<in> set (lv_created l) \<and> i \<in> set (referenced l)"
      using assms(1) by (simp add: log_inv_def)
    then show ?thesis using assms(6,7,9) by auto
  qed
  moreover have "\<forall>i. i \<in> set (lv_created l') \<or> i \<in> set (referenced l') \<longrightarrow> i \<le> db_nextSegID (sys_db (lv_system l'))"
    using assms(1,5-7) by (auto simp: log_inv_def)
  moreover have "\<forall>i \<in> set (lv_created l'). i \<in> set (memory_ids (db_multi (sys_db (lv_system l')))) \<or> i \<in> set (lv_flagged l')"
    using assms(1,6,10,11) by (auto simp: log_inv_def)
  ultimately show ?thesis using assms(1-4,12) by (simp add: log_inv_def)
qed

lemma life_hold:
  assumes "life_inv f w (Suc k) path l"
  shows "life_inv f w k path (l\<lparr>lv_holders := lv_holders l @ [memory_ids (db_multi (sys_db (lv_system l)))]\<rparr>)"
proof -
  let ?l = "l\<lparr>lv_holders := lv_holders l @ [memory_ids (db_multi (sys_db (lv_system l)))]\<rparr>"
  have "set (referenced ?l) = set (referenced l)" by (auto simp: referenced_def)
  moreover have "log_inv l" using assms by (simp add: life_inv_def)
  ultimately have "log_inv ?l" by (intro log_inv_keep [of l ?l]) (simp_all add: log_inv_def)
  then show ?thesis using assms live_less by (auto simp: life_inv_def)
qed

lemma life_drop:
  assumes "life_inv f w (Suc k) path l"
  shows "life_inv f w k path (give_up l (l\<lparr>lv_holders := take i (lv_holders l) @ drop (Suc i) (lv_holders l)\<rparr>))"
proof -
  let ?l1 = "l\<lparr>lv_holders := take i (lv_holders l) @ drop (Suc i) (lv_holders l)\<rparr>"
  let ?l = "give_up l ?l1"
  have live: "live_inv f w k path (lv_system l, lv_job l)" and log: "log_inv l"
    using assms live_less by (auto simp: life_inv_def)
  have ref: "referenced ?l = referenced ?l1" by (simp add: referenced_def give_up_def)
  have sub: "set (referenced ?l1) \<subseteq> set (referenced l)"
    by (auto simp: referenced_def dest: in_set_takeD in_set_dropD)
  have fl: "i \<in> set (lv_flagged l)" if "i \<in> set (lv_created l)" "i \<notin> set (referenced ?l1)" for i
    using log that by (auto simp: log_inv_def referenced_def)
  have files: "sys_files (lv_system ?l) (log_name i) =
      (if i \<in> set (lv_created l) \<and> i \<in> set (referenced l) \<and> i \<notin> set (referenced ?l) then None else sys_files (lv_system l) (log_name i))" for i
    unfolding ref using fl by (auto simp: give_up_def destroy_fold)
  have eq: "sys_db (lv_system ?l) = sys_db (lv_system l)" "lv_created ?l = lv_created l" "lv_flagged ?l = lv_flagged l"
    "lv_job ?l = lv_job l" "lv_merger ?l = lv_merger l"
    by (simp_all add: give_up_def)
  have "job_kept (lv_job l) (lv_merger l)" using log by (simp add: log_inv_def)
  then have "log_inv ?l"
    using sub files unfolding ref by (intro log_inv_keep [OF log, of ?l, unfolded eq ref]) blast+
  moreover have "live_inv f w k path (lv_system ?l, lv_job ?l)"
    using live_logs [OF live logs_change_destroy [OF live_finite [OF live]]] by (simp add: give_up_def)
  ultimately show ?thesis by (simp add: life_inv_def)
qed

lemma life_begin:
  assumes "life_inv f w (Suc k) path l" "length (j_stack j) = maxKeySize" "lv_job l = None"
    and "\<not> few_segments (db_segments (sys_db (lv_system l))) (maxSegments (db_options (sys_db (lv_system l))))"
    and "merge_begin j kv_cmp (lv_system l) = Inr (job, s)"
  shows "life_inv f w k path
           (l\<lparr>lv_system := s, lv_job := Some job, lv_merger := memory_ids (db_segments (sys_db (lv_system l)))\<rparr>)"
    (is "life_inv _ _ _ _ ?l")
proof -
  have live: "live_inv f w (Suc k) path (lv_system l, None)" and log: "log_inv l"
    using assms(1,3) by (simp_all add: life_inv_def)
  have "sys_step j (\<lambda>i. 0) (lv_system l, None) MergeBegin (s, Some job)" by (rule sys_step.merge_begin [OF assms(4,5)])
  from live_step [OF this _ assms(2), of f w k path] live
  have live': "live_inv f w k path (s, Some job)" by (simp add: pairs_written_def)
  have db: "sys_db s = sys_db (lv_system l)" by (rule merge_begin_db [OF assms(5)])
  have "lv_merger l = []" using log assms(3) by (simp add: log_inv_def)
  then have ref: "set (referenced ?l) = set (referenced l)"
    by (auto simp: referenced_def db db_multi_def copyAndAppend_def split: option.splits)
  obtain rs where "job_ok (db_segments (sys_db s)) rs job" using live' by (auto simp: live_inv_def sys_inv_def)
  then obtain pre post where "db_segments (sys_db s) = pre @ mj_group job @ post" unfolding job_ok_def by blast
  then have "job_kept (Some job) (memory_ids (db_segments (sys_db (lv_system l))))" using db by auto
  then have "log_inv ?l"
    using merge_begin_logs [OF assms(5)] ref by (intro log_inv_keep [OF log]) (simp_all add: db)
  then show ?thesis using live' by (simp add: life_inv_def)
qed

lemma life_commit:
  fixes j :: junk
  assumes "life_inv f w (Suc k) path l" "length (j_stack j) = maxKeySize" "lv_job l = Some job"
    and "merge_commit job (sys_db (lv_system l)) = Inr db"
  shows "life_inv f w k path
           (l\<lparr>lv_system := (lv_system l)\<lparr>sys_db := db\<rparr>, lv_job := None, lv_merger := [],
              lv_holders := lv_holders l @ [lv_merger l], lv_flagged := memory_ids (mj_group job) @ lv_flagged l\<rparr>)"
    (is "life_inv _ _ _ _ ?l")
proof -
  let ?db = "sys_db (lv_system l)"
  have live: "live_inv f w (Suc k) path (lv_system l, Some job)" and log: "log_inv l"
    using assms(1,3) by (simp_all add: life_inv_def)
  have "sys_step j (\<lambda>i. 0) (lv_system l, Some job) MergeCommit ((lv_system l)\<lparr>sys_db := db\<rparr>, None)"
    by (rule sys_step.merge_commit [OF assms(4)])
  from live_step [OF this _ assms(2), of f w k path] live
  have live': "live_inv f w k path ((lv_system l)\<lparr>sys_db := db\<rparr>, None)" by (simp add: pairs_written_def)
  obtain rs where "job_ok (db_segments ?db) rs job" using live by (auto simp: live_inv_def sys_inv_def)
  then obtain pre post where j: "db_segments ?db = pre @ mj_group job @ post" "length pre = mj_start job" unfolding job_ok_def by blast
  have db: "db = ?db\<lparr>db_segments := pre @ DiskSeg (mj_seg job) # post\<rparr>"
    using assms(4) j by (auto simp: merge_commit_def bind_res_eq_Inr)
  have kept: "set (memory_ids (mj_group job)) \<subseteq> set (lv_merger l)" using log assms(3) by (simp add: log_inv_def)
  have multi: "set (memory_ids (db_multi ?db)) = set (memory_ids (db_multi db)) \<union> set (memory_ids (mj_group job))"
    using j db by (auto simp: db_multi_def copyAndAppend_def split: option.splits)
  have ref: "set (referenced ?l) = set (referenced l)" using multi kept by (auto simp: referenced_def)
  have seg: "\<forall>m. MemSeg m \<in> set (db_multi db) \<longrightarrow> MemSeg m \<in> set (db_multi ?db)"
    using j db by (auto simp: db_multi_def copyAndAppend_def split: option.splits)
  have eq: "db_path db = db_path ?db" "db_options db = db_options ?db" "db_memory db = db_memory ?db" "db_nextSegID db = db_nextSegID ?db"
    unfolding db by simp_all
  have "log_inv ?l"
    using multi seg ref by (intro log_inv_keep [OF log]) (auto simp: eq)
  then show ?thesis using live' by (simp add: life_inv_def)
qed

lemma life_step_inv:
  assumes "life_step j rnd l e l'" "life_inv f (life_pairs [e] @ w) (Suc k) path l" "units_fit [e]" "length (j_stack j) = maxKeySize"
  shows "life_inv (foldl shown_step f (life_actions [e])) w k path l'"
  using assms(1)
proof cases
  case (act a db)
  show ?thesis using life_act [OF _ _ assms(4) act(3)] assms(2,3) act(1,2) by simp
next
  case hold
  show ?thesis using life_hold assms(2) hold by simp
next
  case (drop i)
  show ?thesis using life_drop assms(2) drop by simp
next
  case (merge job s)
  show ?thesis using life_begin [OF _ assms(4) merge(3-5)] assms(2) merge(1,2) by simp
next
  case (commit job db)
  show ?thesis using life_commit [OF _ assms(4) commit(3,4)] assms(2) commit(1,2) by simp
qed

lemma units_fit_append: "units_fit (xs @ ys) \<longleftrightarrow> units_fit xs \<and> units_fit ys"
  by (auto simp: units_fit_def)

lemma life_run_inv:
  assumes "life_run j rnd l es l'" "life_inv f (life_pairs es @ w) (length es + k) path l" "units_fit es"
    and "length (j_stack j) = maxKeySize"
  shows "life_inv (foldl shown_step f (life_actions es)) w k path l'"
  using assms
proof (induction arbitrary: w k rule: life_run.induct)
  case (life_more l es l1 e l2)
  have "life_inv (foldl shown_step f (life_actions es)) (life_pairs [e] @ w) (Suc k) path l1"
    using life_more.IH [of "life_pairs [e] @ w" "Suc k"] life_more.prems by (simp add: life_pairs_append units_fit_append)
  from life_step_inv [OF life_more.hyps(2) this _ life_more.prems(3)] life_more.prems(2)
  show ?case by (simp add: units_fit_append)
qed simp

text \<open>An opened database: its memory segment is new, and the directory has no logs.\<close>

definition just_opened :: "system \<Rightarrow> keyvalue list list \<Rightarrow> bool" where
  "just_opened s rs \<longleftrightarrow>
     db_shape seg_lists (sys_db s) rs [] \<and> files_inv (s, None) \<and> 1 \<le> maxSegments (db_options (sys_db s)) \<and>
     all_disk (db_segments (sys_db s)) \<and> db_path (sys_db s) \<noteq> '''' \<and> flushing (db_options (sys_db s)) \<and>
     (\<exists>rnd. db_memory (sys_db s) =
        Some (newMemorySegment kv_cmp rnd (db_path (sys_db s)) (db_nextSegID (sys_db s)) (db_options (sys_db s)))) \<and>
     (\<forall>i. sys_files s (log_name i) = None)"

lemma life_start:
  assumes "just_opened s rs" "room (rs @ [[]]) (map Client (life_actions es))"
    and "unat (db_nextSegID (sys_db s)) + (length es + k) < 2 ^ 64"
  shows "life_inv (shown rs) (life_pairs es) (length es + k) (db_path (sys_db s)) (begin_life s)"
proof -
  let ?db = "sys_db s"
  have o: "db_shape seg_lists ?db rs []" "files_inv (s, None)" "1 \<le> maxSegments (db_options ?db)"
    using assms(1) by (simp_all add: just_opened_def)
  have "sys_inv (shown (rs @ [[]])) (life_pairs es) (s, None)"
    using sys_inv_start [OF o(1,3)] assms(2) by (simp add: life_pairs_def)
  then have live: "live_inv (shown rs) (life_pairs es) (length es + k) (db_path ?db) (s, None)"
    using o(2) assms(3) by (simp add: live_inv_def shown_new)
  obtain rnd where m: "db_memory ?db = Some (newMemorySegment kv_cmp rnd (db_path ?db) (db_nextSegID ?db) (db_options ?db))"
    using assms(1) by (auto simp: just_opened_def)
  have mem: "MemSeg m \<in> set (db_multi ?db) \<longleftrightarrow> db_memory ?db = Some m" for m
    using assms(1) m by (auto simp: just_opened_def db_multi_memory)
  have ids: "i \<in> set (memory_ids (db_multi ?db)) \<longleftrightarrow> i = db_nextSegID ?db" for i
    unfolding memory_ids_set mem m by (auto simp: newMemorySegment_def)
  have "log_inv (begin_life s)"
    using assms(1) ids mem m logged_in_new [of _ "[]"]
    by (simp add: log_inv_def begin_life_def just_opened_def referenced_def) (simp add: newMemorySegment_def)
  then show ?thesis using live by (simp add: life_inv_def begin_life_def)
qed

section \<open>What the directory holds\<close>

text \<open>
  The pairs of a segment are in the directory: those of a disk segment in its two files, those of a memory segment in
  its log, where \<^verbatim>\<open>LogSegment\<close> finds exactly them, whatever is in its members that are not set; a segment without a log
  has none.
\<close>

fun saved_in :: "(nat \<Rightarrow> nat) \<Rightarrow> options \<Rightarrow> directory \<Rightarrow> segment \<Rightarrow> keyvalue list \<Rightarrow> bool" where
  "saved_in rnd opts d (MemSeg m) r \<longleftrightarrow>
     (case d (log_name (ms_id m)) of
        None \<Rightarrow> r = []
      | Some file \<Rightarrow> (\<forall>i n. \<exists>ls. newLogSegment i n kv_cmp rnd (ms_path m @ ''/'' @ log_name (ms_id m)) file opts = Inr ls \<and>
                                seg_repr (LogSeg ls) r))"
| "saved_in rnd opts d (DiskSeg ds) r \<longleftrightarrow> on_disk d ds \<and> seg_lists (DiskSeg ds) r"
| "saved_in rnd opts d (LogSeg l) r \<longleftrightarrow> False"

lemma read_whole_log:
  assumes "\<forall>u \<in> set us. unit_ok u" "mode \<noteq> returnOpenError"
  shows "read_log mode (concat (map enc_unit us)) = (concat (map unit_kvs us), None)"
  using read_log_units [OF assms(1), of mode "length (concat (map enc_unit us))"] recovered_all [of us _ mode] assms(2) by simp

lemma logged_in_saved:
  assumes "logged_in d C m" "seg_repr (MemSeg m) r" "batchReadMode opts \<noteq> returnOpenError"
    and "ms_id m \<notin> set C \<longrightarrow> d (log_name (ms_id m)) = None"
  shows "saved_in rnd opts d (MemSeg m) r"
proof -
  obtain us where us: "ms_consistent m us" "\<forall>u \<in> set us. unit_ok u \<and> unit_keys u"
    "case ms_log m of None \<Rightarrow> us = [] \<and> ms_id m \<notin> set C
     | Some f \<Rightarrow> log_idle f \<and> ms_id m \<in> set C \<and> d (log_name (ms_id m)) = Some (fb_file (lf_buf f))"
    using assms(1) unfolding logged_in_def by blast
  have keys: "keys_nonempty (run_puts [] (concat (map unit_kvs us)))"
    using us(2) by (intro run_puts_keys) (auto simp: unit_keys_def keys_nonempty_def)
  then have "seg_repr (MemSeg m) (run_puts [] (concat (map unit_kvs us)))" using us(1) by (simp add: ms_consistent_def)
  then have r: "run_puts [] (concat (map unit_kvs us)) = r" using run_unique assms(2) seg_repr_lists by blast
  show ?thesis
  proof (cases "ms_log m")
    case None
    then show ?thesis using us(3) assms(4) r by simp
  next
    case (Some f)
    then have f: "fb_file (lf_buf f) = concat (map enc_unit us)" "d (log_name (ms_id m)) = Some (fb_file (lf_buf f))"
      using us(1,3) by (simp_all add: ms_consistent_def ms_logged_def log_idle_def log_bytes_def)
    then have "read_log (batchReadMode opts) (fb_file (lf_buf f)) = (concat (map unit_kvs us), None)"
      using read_whole_log [OF _ assms(3)] us(2) by simp
    then have "\<exists>l. newLogSegment i n kv_cmp rnd (ms_path m @ ''/'' @ log_name (ms_id m)) (fb_file (lf_buf f)) opts = Inr l \<and>
        ls_repr l (run_puts [] (concat (map unit_kvs us)))" for i n
      using newLogSegment_repr by blast
    then show ?thesis using f(2) r keys by simp
  qed
qed

lemma segments_saved:
  assumes "list_all2 seg_lists segs rs" "\<forall>s \<in> set segs. file_backed d s"
    and "\<forall>m. MemSeg m \<in> set segs \<longrightarrow> logged_in d C m"
    and "\<forall>i. i \<notin> set C \<longrightarrow> d (log_name i) = None" "batchReadMode opts \<noteq> returnOpenError"
  shows "list_all2 (saved_in rnd opts d) segs rs"
  using assms(1-3)
proof (induction rule: list_all2_induct)
  case (Cons s segs r rs)
  have "saved_in rnd opts d s r"
  proof (cases s)
    case (MemSeg m)
    then have "seg_repr (MemSeg m) r" using Cons.hyps(1) by (simp add: seg_lists_def)
    moreover have "logged_in d C m" "ms_id m \<notin> set C \<longrightarrow> d (log_name (ms_id m)) = None" using Cons.prems(2) assms(4) MemSeg by auto
    ultimately show ?thesis unfolding MemSeg using logged_in_saved [OF _ _ assms(5)] by blast
  qed (use Cons.prems(1) Cons.hyps(1) in auto)
  then show ?case using Cons by simp
qed simp

text \<open>The segments of the database once the merge under way is committed.\<close>

lemma sys_committed:
  assumes "sys_inv f w (s, p)"
  shows "\<exists>rs. list_all2 seg_lists (committed p (db_multi (sys_db s))) rs \<and> shown rs = f \<and>
           (\<forall>m. MemSeg m \<in> set (committed p (db_multi (sys_db s))) \<longrightarrow> MemSeg m \<in> set (db_multi (sys_db s)))"
proof -
  obtain rs r where r: "db_shape seg_lists (sys_db s) rs r" "shown (rs @ [r]) = f" "runs_fit (rs @ [r, w])"
    "case p of None \<Rightarrow> True | Some job \<Rightarrow> job_ok (db_segments (sys_db s)) rs job"
    using assms unfolding sys_inv_def fst_conv snd_conv by blast
  obtain m where m: "db_memory (sys_db s) = Some m" "seg_repr (MemSeg m) r" using r(1) unfolding db_shape_def by blast
  have multi: "db_multi (sys_db s) = db_segments (sys_db s) @ [MemSeg m]" by (rule db_multi_memory [OF m(1)])
  have mem: "seg_lists (MemSeg m) r" by (rule seg_repr_lists [OF m(2)])
  show ?thesis
  proof (cases p)
    case None
    have "list_all2 seg_lists (db_segments (sys_db s)) rs" using r(1) unfolding db_shape_def by blast
    then have "list_all2 seg_lists (committed p (db_multi (sys_db s))) (rs @ [r])"
      using mem None multi by (simp add: committed_def list_all2_appendI)
    then show ?thesis using None r(2) by (intro exI [of _ "rs @ [r]"]) (simp add: committed_def)
  next
    case (Some job)
    then have j: "job_ok (db_segments (sys_db s)) rs job" using r(4) by simp
    then obtain pre post where seg: "db_segments (sys_db s) = pre @ mj_group job @ post" "length pre = mj_start job"
      unfolding job_ok_def by blast
    let ?db = "(sys_db s)\<lparr>db_segments := pre @ DiskSeg (mj_seg job) # post\<rparr>"
    have c: "committed p (db_multi (sys_db s)) = pre @ DiskSeg (mj_seg job) # post @ [MemSeg m]"
      using seg Some multi by (simp add: committed_def)
    obtain db rs' where d: "merge_commit job (sys_db s) = Inr db" "db_shape seg_lists db rs' r" "shown (rs' @ [r]) = shown (rs @ [r])"
      using job_commit [OF j r(1,3)] by blast
    have "db = ?db" using d(1) merge_commit_ok [OF seg] by simp
    then have "list_all2 seg_lists (pre @ DiskSeg (mj_seg job) # post) rs'" using d(2) unfolding db_shape_def by simp
    then have "list_all2 seg_lists ((pre @ DiskSeg (mj_seg job) # post) @ [MemSeg m]) (rs' @ [r])"
      using mem by (intro list_all2_appendI) simp_all
    moreover have "MemSeg m' \<in> set (db_multi (sys_db s))" if "MemSeg m' \<in> set (committed p (db_multi (sys_db s)))" for m'
      using that unfolding c by (auto simp: multi seg(1))
    ultimately show ?thesis using c d(3) r(2) by (intro exI [of _ "rs' @ [r]"]) simp
  qed
qed

section \<open>Properties\<close>

text \<open>C8. The logs follow the segments: in every interleaving of operations, merges, snapshots, readers and iterators of
  an opened database, the directory has the log of a segment exactly if the segment has been written to and the
  database, a reader or the merge under way still refers to it. The logs of what the database itself refers to are
  never removed, and once every reader is gone the merged ones all are.\<close>

theorem logs_follow_segments:
  assumes "just_opened s rs" and "room (rs @ [[]]) (map Client (life_actions es))" and "units_fit es"
    and "unat (db_nextSegID (sys_db s)) + length es < 2 ^ 64" and "length (j_stack j) = maxKeySize"
    and "life_run j rnd (begin_life s) es l"
  shows "(\<forall>i. sys_files (lv_system l) (log_name i) \<noteq> None \<longleftrightarrow> i \<in> set (lv_created l) \<and> i \<in> set (referenced l)) \<and>
         (\<forall>m. MemSeg m \<in> set (db_multi (sys_db (lv_system l))) \<and> ms_log m \<noteq> None \<longrightarrow>
            sys_files (lv_system l) (log_name (ms_id m)) \<noteq> None) \<and>
         (lv_holders l = [] \<and> lv_job l = None \<longrightarrow>
            (\<forall>i. sys_files (lv_system l) (log_name i) \<noteq> None \<longrightarrow>
               (\<exists>m. MemSeg m \<in> set (db_multi (sys_db (lv_system l))) \<and> ms_id m = i)))"
proof -
  have "life_inv (shown rs) (life_pairs es @ []) (length es + 0) (db_path (sys_db s)) (begin_life s)"
    using life_start [OF assms(1,2), of 0] assms(4) by simp
  from life_run_inv [OF assms(6) this assms(3,5)]
  have i: "log_inv l" by (simp add: life_inv_def)
  have "sys_files (lv_system l) (log_name (ms_id m)) \<noteq> None"
    if "MemSeg m \<in> set (db_multi (sys_db (lv_system l)))" "ms_log m \<noteq> None" for m
    using i that unfolding log_inv_def logged_in_def by fastforce
  moreover have a: "sys_files (lv_system l) (log_name i) \<noteq> None \<longleftrightarrow> i \<in> set (lv_created l) \<and> i \<in> set (referenced l)" for i
    using i by (simp add: log_inv_def)
  moreover have "\<exists>m. MemSeg m \<in> set (db_multi (sys_db (lv_system l))) \<and> ms_id m = i"
    if h: "lv_holders l = []" "lv_job l = None" and f: "sys_files (lv_system l) (log_name i) \<noteq> None" for i
  proof -
    have "lv_merger l = []" using i h(2) by (simp add: log_inv_def)
    then have "i \<in> set (memory_ids (db_multi (sys_db (lv_system l))))" using a f h(1) by (simp add: referenced_def)
    then show ?thesis unfolding memory_ids_set .
  qed
  ultimately show ?thesis by blast
qed

text \<open>C7. Everything written is in the directory: if logs are flushed, then after every step of every interleaving of
  operations, merges, snapshots, readers and iterators, every segment of the database, the one a merge has written
  taking the place of its group, is in the directory in the order of their ids: a disk segment as its two files, a
  memory segment as its log, which \<^verbatim>\<open>LogSegment\<close> reads back, in any mode but the one that reports errors, as exactly the
  pairs of the segment. Together these files show under every key what the operations made of it.\<close>

theorem writes_on_disk:
  assumes "just_opened s rs" and "flushing (db_options (sys_db s))"
    and "room (rs @ [[]]) (map Client (life_actions es))" and "units_fit es"
    and "unat (db_nextSegID (sys_db s)) + length es < 2 ^ 64" and "length (j_stack j) = maxKeySize"
    and "life_run j rnd (begin_life s) es l" and "batchReadMode opts \<noteq> returnOpenError"
  shows "chain (committed (lv_job l) (db_multi (sys_db (lv_system l)))) \<and>
         (\<exists>rs'. list_all2 (saved_in rnd' opts (sys_files (lv_system l))) (committed (lv_job l) (db_multi (sys_db (lv_system l)))) rs' \<and>
            shown rs' = foldl shown_step (shown rs) (life_actions es))"
proof -
  have "life_inv (shown rs) (life_pairs es @ []) (length es + 0) (db_path (sys_db s)) (begin_life s)"
    using life_start [OF assms(1,3), of 0] assms(5) by simp
  from life_run_inv [OF assms(7) this assms(4,6)]
  have i: "sys_inv (foldl shown_step (shown rs) (life_actions es)) [] (lv_system l, lv_job l)"
    "files_ok (sys_files (lv_system l)) (committed (lv_job l) (db_multi (sys_db (lv_system l))))" "log_inv l"
    by (simp_all add: life_inv_def live_inv_def files_inv_def)
  obtain rs' where r: "list_all2 seg_lists (committed (lv_job l) (db_multi (sys_db (lv_system l)))) rs'"
    "shown rs' = foldl shown_step (shown rs) (life_actions es)"
    "\<forall>m. MemSeg m \<in> set (committed (lv_job l) (db_multi (sys_db (lv_system l)))) \<longrightarrow> MemSeg m \<in> set (db_multi (sys_db (lv_system l)))"
    using sys_committed [OF i(1)] by blast
  have c: "chain (committed (lv_job l) (db_multi (sys_db (lv_system l))))"
    "\<forall>s \<in> set (committed (lv_job l) (db_multi (sys_db (lv_system l)))). file_backed (sys_files (lv_system l)) s"
    using i(2) by (simp_all add: files_ok_def)
  have g: "\<forall>m. MemSeg m \<in> set (committed (lv_job l) (db_multi (sys_db (lv_system l)))) \<longrightarrow>
      logged_in (sys_files (lv_system l)) (lv_created l) m"
    "\<forall>i. i \<notin> set (lv_created l) \<longrightarrow> sys_files (lv_system l) (log_name i) = None"
    using i(3) r(3) by (auto simp: log_inv_def)
  show ?thesis using segments_saved [OF r(1) c(2) g assms(8), of rnd'] c(1) r(2) by blast
qed

lemma opened_fields:
  assumes "userKeyCompare opts = None"
  shows "db_memory (open_state rnd st path opts segs) = Some (newMemorySegment kv_cmp rnd path (maxSegID segs + 1) (raise_options opts))"
    "db_path (open_state rnd st path opts segs) = path" "db_options (open_state rnd st path opts segs) = raise_options opts"
    "db_nextSegID (open_state rnd st path opts segs) = maxSegID segs + 1" "db_segments (open_state rnd st path opts segs) = segs"
proof -
  define db where "db = \<lparr>db_open = True, db_closing = False, db_path = path, db_options = raise_options opts,
      db_nextSegID = maxSegID segs, db_segments = segs, db_memory = None, db_wakeups = 0, db_static = st\<rparr>"
  obtain m db1 where n: "new_memory rnd db = (m, db1)" by fastforce
  have u: "userKeyCompare (db_options db) = None" using assms by (simp add: db_def)
  have o: "open_state rnd st path opts segs = db1\<lparr>db_memory := Some m\<rparr>"
    using n by (simp add: open_state_def db_def Let_def)
  show "db_memory (open_state rnd st path opts segs) = Some (newMemorySegment kv_cmp rnd path (maxSegID segs + 1) (raise_options opts))"
    "db_path (open_state rnd st path opts segs) = path" "db_options (open_state rnd st path opts segs) = raise_options opts"
    "db_nextSegID (open_state rnd st path opts segs) = maxSegID segs + 1" "db_segments (open_state rnd st path opts segs) = segs"
    using new_memory_default [OF u n] unfolding o by (simp_all add: db_def)
qed

lemma raise_options_flushing [simp]: "flushing (raise_options opts) = flushing opts"
  by (simp add: flushing_def raise_options_def Let_def)

lemma fresh_opened: "just_opened fresh_system []"
proof -
  have u: "userKeyCompare (mk_options True) = None" by (simp add: mk_options_def)
  note f = opened_fields [OF u, of "\<lambda>i. 0" None "''db''" "[]"]
  obtain m where m: "db_memory (sys_db fresh_system) = Some m" "ms_id m = 1" "db_nextSegID (sys_db fresh_system) = 1"
    "db_segments (sys_db fresh_system) = []" "db_path (sys_db fresh_system) = ''db''"
    by (rule fresh_memory)
  have "db_memory (sys_db fresh_system) =
      Some (newMemorySegment kv_cmp (\<lambda>i. 0) (db_path (sys_db fresh_system)) (db_nextSegID (sys_db fresh_system)) (db_options (sys_db fresh_system)))"
    by (simp add: fresh_system_def f)
  moreover have "flushing (db_options (sys_db fresh_system))"
    by (simp add: fresh_system_def f) (simp add: flushing_def mk_options_def)
  moreover have "sys_files fresh_system (log_name i) = None" for i by (simp add: fresh_system_def log_name_def)
  ultimately show ?thesis
    using repr_shape [OF fresh_inv(2)] fresh_inv(1,3) m(4,5) by (auto simp: just_opened_def)
qed

lemma sample_life:
  obtains l where "life_run j (\<lambda>i. 0) (begin_life fresh_system) [Act (Put [1] [2]), Hold, Drop 0] l"
    "room ([] @ [[]]) (map Client (life_actions [Act (Put [1] [2]), Hold, Drop 0]))" "units_fit [Act (Put [1] [2]), Hold, Drop 0]"
    "unat (db_nextSegID (sys_db fresh_system)) + length [Act (Put [1] [2]), Hold, Drop 0] < 2 ^ 64"
    "lv_holders l = []" "lv_job l = None"
proof -
  obtain db where db: "db_put (\<lambda>i. 0) (sys_db fresh_system) [1] [2] = Inr db"
    using db_put_repr [OF fresh_inv(2), of "[1]" "\<lambda>i. 0" "[2]"] by auto
  define l1 where "l1 = (begin_life fresh_system)\<lparr>lv_system := fresh_system\<lparr>sys_db := db, sys_files := save_log db (sys_files fresh_system)\<rparr>,
      lv_created := open_logs db\<rparr>"
  define l2 where "l2 = l1\<lparr>lv_holders := lv_holders l1 @ [memory_ids (db_multi (sys_db (lv_system l1)))]\<rparr>"
  define l3 where "l3 = give_up l2 (l2\<lparr>lv_holders := take 0 (lv_holders l2) @ drop (Suc 0) (lv_holders l2)\<rparr>)"
  have s1: "life_step j (\<lambda>i. 0) (begin_life fresh_system) (Act (Put [1] [2])) l1"
    using life_step.act [of j "\<lambda>i. 0" "begin_life fresh_system" "Put [1] [2]" db] db by (simp add: l1_def begin_life_def)
  have s2: "life_step j (\<lambda>i. 0) l1 Hold l2" unfolding l2_def by (rule life_step.hold)
  have s3: "life_step j (\<lambda>i. 0) l2 (Drop 0) l3" unfolding l3_def by (rule life_step.drop) (simp add: l2_def)
  have "life_run j (\<lambda>i. 0) (begin_life fresh_system) ((([] @ [Act (Put [1] [2])]) @ [Hold]) @ [Drop 0]) l3"
    by (rule life_more [OF life_more [OF life_more [OF life_refl s1] s2] s3])
  moreover have "room ([] @ [[]]) (map Client (life_actions [Act (Put [1] [2]), Hold, Drop 0]))"
    by (simp add: room_def runs_fit_def values_of_def pairs_written_def maxKeySize_def)
  moreover obtain m where "db_nextSegID (sys_db fresh_system) = 1" by (rule fresh_memory)
  moreover have "lv_holders l3 = []" "lv_job l3 = None" by (simp_all add: l3_def l2_def l1_def give_up_def begin_life_def)
  ultimately show thesis by (intro that [of l3]) (simp_all add: units_fit_def kv_ok_def)
qed

theorem logs_follow_segments_witness:
  "\<exists>l :: living. life_run \<lparr>j_stack = replicate maxKeySize 0, j_buffer = []\<rparr> (\<lambda>i. 0) (begin_life fresh_system)
       [Act (Put [1] [2]), Hold, Drop 0] l \<and>
     (\<forall>i. sys_files (lv_system l) (log_name i) \<noteq> None \<longrightarrow> (\<exists>m. MemSeg m \<in> set (db_multi (sys_db (lv_system l))) \<and> ms_id m = i))"
proof -
  let ?j = "\<lparr>j_stack = replicate maxKeySize 0, j_buffer = []\<rparr>"
  have j: "length (j_stack ?j) = maxKeySize" by simp
  obtain l where l: "life_run ?j (\<lambda>i. 0) (begin_life fresh_system) [Act (Put [1] [2]), Hold, Drop 0] l"
    "room ([] @ [[]]) (map Client (life_actions [Act (Put [1] [2]), Hold, Drop 0]))" "units_fit [Act (Put [1] [2]), Hold, Drop 0]"
    "unat (db_nextSegID (sys_db fresh_system)) + length [Act (Put [1] [2]), Hold, Drop 0] < 2 ^ 64"
    "lv_holders l = []" "lv_job l = None"
    by (rule sample_life)
  from logs_follow_segments [OF fresh_opened l(2-4) j l(1)] l(1,5,6) show ?thesis by blast
qed

theorem writes_on_disk_witness:
  "\<exists>(l :: living) rs'. life_run \<lparr>j_stack = replicate maxKeySize 0, j_buffer = []\<rparr> (\<lambda>i. 0) (begin_life fresh_system)
       [Act (Put [1] [2]), Hold, Drop 0] l \<and>
     list_all2 (saved_in (\<lambda>i. 1) (mk_options True) (sys_files (lv_system l))) (committed (lv_job l) (db_multi (sys_db (lv_system l)))) rs' \<and>
     shown rs' [1] = [2]"
proof -
  let ?j = "\<lparr>j_stack = replicate maxKeySize 0, j_buffer = []\<rparr>"
  have j: "length (j_stack ?j) = maxKeySize" by simp
  have m: "batchReadMode (mk_options True) \<noteq> returnOpenError" by (simp add: mk_options_def)
  have f: "flushing (db_options (sys_db fresh_system))" using fresh_opened by (simp add: just_opened_def)
  obtain l where l: "life_run ?j (\<lambda>i. 0) (begin_life fresh_system) [Act (Put [1] [2]), Hold, Drop 0] l"
    "room ([] @ [[]]) (map Client (life_actions [Act (Put [1] [2]), Hold, Drop 0]))" "units_fit [Act (Put [1] [2]), Hold, Drop 0]"
    "unat (db_nextSegID (sys_db fresh_system)) + length [Act (Put [1] [2]), Hold, Drop 0] < 2 ^ 64"
    by (rule sample_life)
  obtain rs' where r: "list_all2 (saved_in (\<lambda>i. 1) (mk_options True) (sys_files (lv_system l)))
      (committed (lv_job l) (db_multi (sys_db (lv_system l)))) rs'"
    "shown rs' = foldl shown_step (shown []) (life_actions [Act (Put [1] [2]), Hold, Drop 0])"
    using writes_on_disk [OF fresh_opened f l(2-4) j l(1) m, of "\<lambda>i. 1"] by blast
  have "shown rs' [1] = [2]" by (simp add: r(2))
  then show ?thesis using l(1) r(1) by blast
qed

end
