(* ===== verification/Limits.thy ===== *)
theory Limits
  imports LogLife
begin

text \<open>
  Keys the database accepts and cannot keep: an empty key in a batch, which \<^verbatim>\<open>Database::write\<close> does not check, and keys
  between \<^verbatim>\<open>maxKeySize\<close> and the limit of \<^verbatim>\<open>checkKey\<close>. The theorems show what becomes of the segment that holds one.
\<close>

section \<open>An empty key\<close>

text \<open>The empty key is the first of the run, and the iterator takes it for the end.\<close>

lemma empty_key_first:
  assumes "sorted_kvs r" "kv \<in> set r" "kv_key kv = []"
  shows "\<exists>r1. r = kv # r1"
proof (cases r)
  case (Cons kv1 r1)
  have "kv = kv1"
  proof (rule ccontr)
    assume "kv \<noteq> kv1"
    then have "kv_key kv1 < kv_key kv" using assms(1,2) Cons by auto
    then show False using assms(3) by simp
  qed
  then show ?thesis using Cons by blast
qed (use assms(2) in simp)

lemma empty_key_lookup:
  assumes "ms_repr m r" "kv \<in> set r" "kv_key kv = []"
  shows "\<exists>it it1. seg_lookup j kv_cmp (MemSeg m) [] [] = Inr it \<and> seg_peekKey it = Inr ([], it1)"
proof -
  obtain r1 where r: "r = kv # r1" using empty_key_first [OF ms_repr_sorted [OF assms(1)] assms(2,3)] by blast
  obtain xs where xs: "sl_inv (ms_list m) xs" "r = keys_at (ms_list m) xs" using assms(1) by (auto simp: ms_repr_def sl_repr_def)
  then obtain a as where a: "xs = a # as" "n_key (sl_heap (ms_list m) ! a) = kv" using r by (cases xs) (auto simp: keys_at_def)
  note I = sl_invD [OF xs(1)]
  have "level (sl_heap (ms_list m)) 0 xs = xs" using I(5) by (intro level_0 [OF I(1)]) auto
  then have "linked (sl_heap (ms_list m)) 0 0 (a # as)" using I(6) [of 0] a(1) by (simp add: kMaxHeight_def)
  then have "itr_seekToFirst (ms_list m) = Some (Some a)"
    using node_at_head [OF I(1), of 0] by (simp add: itr_seekToFirst_def get_next_at kMaxHeight_def)
  moreover have "itr_key (ms_list m) (Some a) = Some kv" using I(5) [of a] a by (simp add: itr_key_def)
  ultimately show ?thesis
    using assms(3) by (simp add: ms_lookup_def list_lookup_def si_peekKey_def itr_valid_def)
qed

lemma empty_key_not_written:
  assumes "ms_repr m r" "kv \<in> set r" "kv_key kv = []"
  shows "writeSegmentToDisk j kv_cmp path (MemSeg m) d = Inr (seg_removeSegment (MemSeg m) d)"
  using empty_key_lookup [OF assms, of j] by (auto simp: writeSegmentToDisk_def)

lemma write_segments_append:
  "write_segments j icmp path (xs @ ys) d = bind_res (write_segments j icmp path xs d) (write_segments j icmp path ys)"
  by (induction xs arbitrary: d) (auto simp: bind_res_def split: sum.splits)

lemma logs_change_removed: "finite (dom d) \<Longrightarrow> logs_change d (seg_removeSegment (MemSeg m) d)"
  by (auto simp: logs_change_def fs_remove_def)

text \<open>
  A close that does not merge writes the segments before a memory segment with an empty key, removes the log of
  this segment, and writes nothing of it.
\<close>

lemma close_loses_memory:
  assumes "db_open db" "db_memory db = Some m" "ms_repr m r" "kv \<in> set r" "kv_key kv = []"
    and "list_all2 seg_lists (db_segments db) rs" "files_ok (sys_files s) (db_segments db)" "\<forall>r \<in> set rs. run_ok r"
    and "CHR ''.'' \<notin> set (db_path db)"
  shows "\<exists>closed segs rs1. closeWithMerge j kv_cmp 0 (s\<lparr>sys_db := db\<rparr>) = Inr closed \<and> \<not> db_open (sys_db closed) \<and>
           list_all2 seg_lists segs rs1 \<and> all_disk segs \<and> files_ok (sys_files closed) segs \<and> shown rs1 = shown rs"
proof -
  have pre: "files_ok (sys_files s) ([] @ db_segments db)" using assms(7) by simp
  obtain d segs rs1 where w: "write_segments j kv_cmp (db_path db) (db_segments db) (sys_files s) = Inr d"
    "files_ok d segs" "list_all2 seg_lists segs rs1" "all_disk segs" "\<forall>k. newest rs1 k = newest rs k"
    using write_segments_ok [OF pre assms(6,8,9), of j] by auto
  let ?d = "seg_removeSegment (MemSeg m) d" and ?s2 = "s\<lparr>sys_db := db\<lparr>db_closing := True, db_wakeups := db_wakeups db + 1,
      db_segments := db_segments db @ [MemSeg m], db_memory := None\<rparr>\<rparr>"
  have "finite (dom d)" using w(2) by (simp add: files_ok_def)
  then have ok: "files_ok ?d segs" by (rule files_ok_logs [OF w(2) logs_change_removed])
  have "write_segments j kv_cmp (db_path db) (db_segments db @ [MemSeg m]) (sys_files s) = Inr ?d"
    using w(1) empty_key_not_written [OF assms(3-5)] by (simp add: write_segments_append)
  then have "closeWithMerge j kv_cmp 0 (s\<lparr>sys_db := db\<rparr>) = Inr (close_finish (?s2\<lparr>sys_files := ?d\<rparr>))"
    using assms(1,2)
    by (simp add: closeWithMerge_def close_request_def close_swap_def close_merge_def close_write_def copyAndAppend_def)
  moreover have "sys_files (close_finish (?s2\<lparr>sys_files := ?d\<rparr>)) = snd (deleteScheduled (sys_deleter s) ?d)"
    "\<not> db_open (sys_db (close_finish (?s2\<lparr>sys_files := ?d\<rparr>)))"
    by (simp_all add: close_finish_def split: prod.split)
  moreover have "shown rs1 = shown rs" using w(5) by (simp add: fun_eq_iff shown_def)
  ultimately show ?thesis using w(3,4) files_ok_deleted [OF ok] by metis
qed

text \<open>What a batch makes of a session: its pairs are in the memory segment, behind the old one or behind nothing.\<close>

lemma write_batch_memory:
  assumes "db_shape seg_lists db rs r"
  shows "\<exists>db1 m1 rs1 r1. db_write rnd db b = Inr db1 \<and> db_open db1 \<and> db_memory db1 = Some m1 \<and> ms_repr m1 (run_puts r1 (entries b)) \<and>
           list_all2 seg_lists (db_segments db1) rs1 \<and> (rs1 = rs \<and> r1 = r \<or> rs1 = rs @ [r] \<and> r1 = []) \<and>
           (db_segments db1 = db_segments db \<or> db_segments db1 = db_multi db) \<and> db_path db1 = db_path db"
proof -
  obtain m where m: "db_memory db = Some m" "userKeyCompare (db_options db) = None" "db_open db" using assms by (auto simp: db_shape_def)
  obtain db0 rs0 r0 where s: "maybeSwapMemory rnd db = Inr db0" "db_shape seg_lists db0 rs0 r0"
    "rs0 = rs \<and> r0 = r \<or> rs0 = rs @ [r] \<and> r0 = []"
    using listed.swap_shape [OF assms, of rnd] by blast
  obtain m0 us where m0: "db_memory db0 = Some m0" "ms_repr m0 r0" "ms_logged m0 us" "db_open db0" "list_all2 seg_lists (db_segments db0) rs0"
    using s(2) by (auto simp: db_shape_def)
  obtain m1 where m1: "ms_write m0 b = Inr m1" "ms_repr m1 (run_puts r0 (entries b))"
    using ms_write_repr [OF m0(2,3), of b] by blast
  have "db_write rnd db b = Inr (maybeMerge (db0\<lparr>db_memory := Some m1\<rparr>))"
    using m(3) s(1) m0(1) m1(1) by (simp add: db_write_def)
  moreover have "db_segments db0 = db_segments db \<or> db_segments db0 = db_multi db" "db_path db0 = db_path db"
    using maybeSwapMemory_renewed [OF s(1) m(1,2)] m(1) by (auto simp: renewed_def db_multi_def copyAndAppend_def)
  ultimately show ?thesis
    using m0(4,5) m1(2) s(3)
    by (intro exI [of _ "maybeMerge (db0\<lparr>db_memory := Some m1\<rparr>)"] exI [of _ m1] exI [of _ rs0] exI [of _ r0]) (auto simp: maybeMerge_def)
qed

lemma run_puts_found:
  assumes "sorted_kvs r" "find_kv r k \<noteq> None \<or> (\<exists>kv \<in> set kvs. kv_key kv = k)"
  shows "find_kv (run_puts r kvs) k \<noteq> None"
  using assms
proof (induction kvs arbitrary: r)
  case (Cons kv kvs)
  then have "find_kv (run_put r kv) k \<noteq> None \<or> (\<exists>kv \<in> set kvs. kv_key kv = k)"
    by (auto simp: find_run_put)
  then show ?case using Cons.IH [OF run_put_sorted [OF Cons.prems(1)]] by simp
qed simp

text \<open>C33. A batch that has an empty key: \<^verbatim>\<open>write\<close> accepts it and its pairs are read back, but a close that does not merge
  leaves no trace of the segment that holds them, so the next open shows the database without the batch, and without
  the earlier writes of the same segment.\<close>

theorem empty_key_loses_segment:
  assumes "session s rs r" and "entries b = es @ [mk_kv k v]" and "kv0 \<in> set es" and "kv_key kv0 = []"
    and "v \<noteq> []" and "checkKey k = Inr ()"
  shows "\<exists>db rs1 closed. db_write rnd (sys_db s) b = Inr db \<and> db_get j db k = Inr v \<and> (rs1 = rs \<or> rs1 = rs @ [r]) \<and>
           closeWithMerge j kv_cmp 0 (s\<lparr>sys_db := db\<rparr>) = Inr closed \<and>
           reopens j (db_path (sys_db s)) (sys_files closed) (shown rs1)"
proof -
  have s: "db_shape seg_lists (sys_db s) rs r" "runs_fit (rs @ [r])" "files_ok (sys_files s) (db_multi (sys_db s))"
    "CHR ''.'' \<notin> set (db_path (sys_db s))" using assms(1) by (simp_all add: session_def)
  obtain db m rs1 r1 where w: "db_write rnd (sys_db s) b = Inr db" "db_open db" "db_memory db = Some m"
    "ms_repr m (run_puts r1 (entries b))" "list_all2 seg_lists (db_segments db) rs1" "rs1 = rs \<and> r1 = r \<or> rs1 = rs @ [r] \<and> r1 = []"
    "db_segments db = db_segments (sys_db s) \<or> db_segments db = db_multi (sys_db s)" "db_path db = db_path (sys_db s)"
    using write_batch_memory [OF s(1), of rnd b] by blast
  obtain m0 where m0: "db_memory (sys_db s) = Some m0" "ms_repr m0 r" "list_all2 seg_lists (db_segments (sys_db s)) rs"
    using s(1) by (auto simp: db_shape_def)
  have sorted: "sorted_kvs r1" using w(6) ms_repr_sorted [OF m0(2)] by auto
  have "find_kv (run_puts r1 (entries b)) [] \<noteq> None" using run_puts_found [OF sorted, of "[]" "entries b"] assms(2-4) by auto
  then obtain v0 where kv: "mk_kv [] v0 \<in> set (run_puts r1 (entries b))" using find_kv_SomeD by blast
  have files: "files_ok (sys_files s) (db_segments db)"
    using w(7) s(3) files_ok_drop [of "sys_files s" "db_segments (sys_db s)" m0 "[]" "sys_files s"] m0(1)
    by (auto simp: db_multi_def copyAndAppend_def same_files_def)
  have "list_all2 seg_lists (db_multi (sys_db s)) (rs @ [r])"
    using m0 w(5) s(1) by (auto simp: db_multi_def copyAndAppend_def db_shape_def seg_repr_lists intro!: list_all2_appendI)
  then have "\<forall>r \<in> set (rs @ [r]). run_ok r" by (rule runs_fit_ok [OF s(2)])
  then have ok: "\<forall>r \<in> set rs1. run_ok r" using w(6) by auto
  obtain closed segs rs2 where c: "closeWithMerge j kv_cmp 0 (s\<lparr>sys_db := db\<rparr>) = Inr closed" "list_all2 seg_lists segs rs2"
    "all_disk segs" "files_ok (sys_files closed) segs" "shown rs2 = shown rs1"
    using close_loses_memory [where j = j, OF w(2-4) kv _ w(5) files ok] s(4) w(8) by auto
  have "reopens j (db_path (sys_db s)) (sys_files closed) (shown rs2)"
    by (rule openable_reopens [OF files_ok_openable [OF c(4,3)] c(2) s(4)])
  moreover have "find_kv (run_puts r1 (entries b)) k = Some v"
    using find_run_put [OF run_puts_sorted [OF sorted], of es "mk_kv k v" k] assms(2) by simp
  then have "db_get j db k = Inr v"
    using w(2,3) assms(5,6) ms_get_repr [OF w(4), of k]
    by (simp add: db_get_def db_multi_def copyAndAppend_def multi_get_def)
  ultimately show ?thesis using w(1,6) c(1,5) by auto
qed

theorem empty_key_loses_segment_witness:
  "\<exists>db rs1 closed. db_write (\<lambda>i. 0) (sys_db fresh_system) \<lparr>entries = [mk_kv [] [5]] @ [mk_kv [3] [7]]\<rparr> = Inr db \<and>
     db_get \<lparr>j_stack = [], j_buffer = []\<rparr> db [3] = Inr [7] \<and> (rs1 = [] \<or> rs1 = [] @ [[]]) \<and>
     closeWithMerge \<lparr>j_stack = [], j_buffer = []\<rparr> kv_cmp 0 (fresh_system\<lparr>sys_db := db\<rparr>) = Inr closed \<and>
     reopens \<lparr>j_stack = [], j_buffer = []\<rparr> (db_path (sys_db fresh_system)) (sys_files closed) (shown rs1)"
proof -
  have "runs_fit ([] @ [[]])" by (simp add: runs_fit_def values_of_def)
  then have "session fresh_system [] []"
    using repr_shape [OF fresh_inv(2)] fresh_inv(1) by (simp add: session_def files_inv_def committed_def)
  moreover have "entries \<lparr>entries = [mk_kv [] [5]] @ [mk_kv [3] [7]]\<rparr> = [mk_kv [] [5]] @ [mk_kv [3] [7]]" by (rule write_batch.simps)
  moreover have "mk_kv [] [5] \<in> set [mk_kv [] [5]]" "kv_key (mk_kv [] [5]) = []" "[7] \<noteq> ([] :: bytes)"
    "checkKey [3] = Inr ()" by (simp_all add: checkKey_def)
  ultimately show ?thesis by (rule empty_key_loses_segment)
qed

section \<open>A long key\<close>

text \<open>The segment with the one pair of a key that \<^verbatim>\<open>checkKey\<close> lets pass and \<^verbatim>\<open>maxKeySize\<close> does not.\<close>

lemma long_key_written:
  assumes "maxKeySize < length k" "length k \<le> 1024"
  shows "\<exists>w. key_bytes (written [mk_kv k v]) = writeLEuint16 (of_nat (length k)) @ k @ w" (is ?A)
    and "length (key_bytes (written [mk_kv k v])) = keyBlockSize" (is ?B)
    and "index_keys (written [mk_kv k v]) = [k]" (is ?C)
proof -
  let ?f = "writeLEuint16 (of_nat (length k)) @ k @ writeLEuint64 0 @ writeLEuint32 (of_nat (length v))"
  have dk: "encodeKey k [] = \<lparr>keylen = of_nat (length k), compressedKey = k\<rparr>"
    by (simp add: encodeKey_def calculatePrefixLen_def slice_empty_def)
  have c: "close_full_block (wstate_init\<lparr>dataF := v\<rparr>) k = wstate_init\<lparr>dataF := v\<rparr>"
    using assms by (simp add: close_full_block_def wstate_init_def keyBlockSize_def)
  have w: "write_entry wstate_init (mk_kv k v) =
      \<lparr>keyF = ?f, dataF = v, dataOffset = of_nat (length v), keyBlockLen = length k + 14, block = 1, prevKey = k, keyIndex = [k]\<rparr>"
    using c by (simp add: write_entry_def start_block_def append_key_def wstate_init_def dk)
  have "written [mk_kv k v] = \<lparr>key_bytes = ?f @ writeLEuint16 endOfBlock @ zeros (keyBlockSize - (length k + 14 + 2)),
      data_bytes = v, index_keys = [k]\<rparr>"
    using assms(2) by (simp add: written_def files_of_def finish_block_def w keyBlockSize_def)
  then show ?A ?B ?C using assms by (simp_all add: zeros_def keyBlockSize_def maxKeySize_def)
qed

lemma next_loop_error:
  assumes "readLEuint16 (drop (di_bufferOffset it) (di_buffer it)) = Some klen" "klen \<noteq> endOfBlock" "decodeKeyLen klen = Inl e"
  shows "next_loop it = Inl e"
  using assms by (subst next_loop.simps) simp

text \<open>C34. The disk segment of one pair whose key is longer than \<^verbatim>\<open>maxKeySize\<close>, though \<^verbatim>\<open>checkKey\<close> lets it pass, loads but
  cannot be read: a \<^verbatim>\<open>get\<close> of any key leaves a stack array, that of the search if its key is as long, or else that of the
  scan, into which the long key is copied; and the first step of an iterator, the one a merge takes, throws. (Where shorter
  keys precede the long one, they can still be read.)\<close>

theorem long_key_breaks_segment:
  assumes "checkKey k = Inr ()" and "maxKeySize < length k"
  shows "\<exists>ds it. newDiskSegment names lo hi (key_bytes (written [mk_kv k v])) (data_bytes (written [mk_kv k v])) [] = Inr ds \<and>
           ds_keyIndex ds = index_keys (written [mk_kv k v]) \<and>
           (\<forall>uninit q. length uninit = maxKeySize \<longrightarrow>
              ds_get uninit ds q = Inl UndefinedBehaviour \<and> scanBlock uninit (ds_keyFile ds) 0 q = Inl UndefinedBehaviour) \<and>
           disk_lookup junk ds [] [] = Inr it \<and> disk_next it = Inl (IllegalState ''key > 1024'')"
proof -
  have len: "length k \<le> 1024" using assms(1) by (auto simp: checkKey_def split: if_splits)
  let ?f = "key_bytes (written [mk_kv k v])" and ?d = "data_bytes (written [mk_kv k v])"
  obtain w where f: "?f = writeLEuint16 (of_nat (length k)) @ k @ w" "length ?f = keyBlockSize" "index_keys (written [mk_kv k v]) = [k]"
    using long_key_written [OF assms(2) len] by blast
  have u: "unat (of_nat (length k) :: u16) = length k" using len by (simp add: unat_of_nat)
  have read: "readAt ?f 0 n = Inr (take n ?f, n)" if "n \<le> keyBlockSize" for n
    using that f(2) readAt_inside [of 0 n ?f] by simp
  have word: "readLEuint16 (take n ?f) = Some (of_nat (length k))" if "2 \<le> n" for n
  proof -
    have "take n ?f = writeLEuint16 (of_nat (length k)) @ take (n - 2) (k @ w)" using that by (simp add: f(1))
    then show ?thesis by simp
  qed
  have blocks: "keyBlocks_of ?f = 1" using f(2) by (simp add: keyBlocks_of_def keyBlockSize_def)
  let ?ds = "\<lparr>ds_keyFile = ?f, ds_dataFile = ?d, ds_keyBlocks = 1, ds_keyIndex = [k], ds_lowerID = lo, ds_upperID = hi, ds_names = names\<rparr>"
  have "slice_sub (take keyBlockSize ?f) 2 (length k) = Inr k"
    using f(1,2) len by (simp add: slice_sub_def keyBlockSize_def)
  then have "loadKeyIndex ?f 1 = Inr [k]"
    using f(2) read [of keyBlockSize] word [of keyBlockSize] split_plain [OF len] u
    by (simp add: loadKeyIndex_def load_index_loop.simps [of ?f "Suc 0"] keyIndexInterval_def keyBlockSize_def)
  then have new: "newDiskSegment names lo hi ?f ?d [] = Inr ?ds" by (simp add: newDiskSegment_def blocks)
  have scan: "scanBlock uninit ?f 0 q = Inl UndefinedBehaviour" if "length uninit = maxKeySize" for uninit q
    using that read [of keyBlockSize] word [of keyBlockSize] split_plain [OF len] f(2) len assms(2)
    by (simp add: scanBlock_def scan_loop.simps [where index = 0] keyBlockSize_def)
  have get: "ds_get uninit ?ds q = Inl UndefinedBehaviour" if l: "length uninit = maxKeySize" for uninit q
  proof -
    have "block_first_key ?f 0 = Inr (drop 2 (take (maxKeySize + 2) ?f), length k)"
      using read [of "maxKeySize + 2"] word [of "maxKeySize + 2"] u by (simp add: block_first_key_def keyBlockSize_def maxKeySize_def)
    then have "(\<exists>b. bind_res (block_first_key ?f 0) (less_first_key q) = Inr b) \<or>
        bind_res (block_first_key ?f 0) (less_first_key q) = Inl UndefinedBehaviour"
      by (simp add: less_first_key_def Let_def)
    then have "binarySearch0 ?f 0 0 q = Inr 0 \<or> binarySearch0 ?f 0 0 q = Inl UndefinedBehaviour"
      by (auto simp: binarySearch0.simps [of ?f 0 0])
    then show ?thesis using scan [OF l]
      by (auto simp: ds_get_def binarySearch_def index_position_def upper_bound_def keyIndexInterval_def)
  qed
  let ?it = "\<lparr>di_ds = ?ds, di_valid = False, di_finished = False, di_currentKey = junk, di_currentValue = [], di_block = 0,
      di_lower = [], di_upper = [], di_buffer = ?f, di_prevKey = [], di_bufferOffset = 0\<rparr>"
  have look: "disk_lookup junk ?ds [] [] = Inr ?it" using read [of keyBlockSize] f(2) by (simp add: disk_lookup_def)
  have "unat (x AND maxCompressedLen) \<noteq> length k" for x :: u16
    using word_and_le2 [of x maxCompressedLen] word_and_le1 [of x maxCompressedLen] assms(2) by (auto simp: word_le_nat_alt const_simps)
  then have "decodeKeyLen (of_nat (length k)) = Inl (IllegalState ''key > 1024'')"
    using split_plain(1) [OF len] u assms(2) by (auto simp: decodeKeyLen_def split_keylen_def split: if_splits)
  then have "disk_next ?it = Inl (IllegalState ''key > 1024'')"
    using word [of keyBlockSize] f(2) split_plain(2) [OF len]
    by (simp add: disk_next_def nextKeyValue_def next_loop_error [where klen = "of_nat (length k)"] keyBlockSize_def)
  then show ?thesis using new look get scan f(3) by (intro exI [of _ ?ds] exI [of _ ?it]) simp
qed

theorem long_key_breaks_segment_witness:
  "\<exists>ds it. newDiskSegment [] 1 1 (key_bytes (written [mk_kv (replicate 1010 7) [5]])) (data_bytes (written [mk_kv (replicate 1010 7) [5]])) [] = Inr ds \<and>
     ds_keyIndex ds = index_keys (written [mk_kv (replicate 1010 7) [5]]) \<and>
     (\<forall>uninit q. length uninit = maxKeySize \<longrightarrow>
        ds_get uninit ds q = Inl UndefinedBehaviour \<and> scanBlock uninit (ds_keyFile ds) 0 q = Inl UndefinedBehaviour) \<and>
     disk_lookup [] ds [] [] = Inr it \<and> disk_next it = Inl (IllegalState ''key > 1024'')"
proof (rule long_key_breaks_segment)
  show "checkKey (replicate 1010 7) = Inr ()" "maxKeySize < length (replicate 1010 7)" by (simp_all add: checkKey_def maxKeySize_def)
qed

end
