(* ===== verification/LockFree.thy ===== *)
theory LockFree
  imports LogLife
begin

text \<open>
  \<^verbatim>\<open>Database::get\<close> beside everything else. It takes no lock: it loads the state of the database once, and then searches
  the segments of that state, the memory segment first, while the writers, who exclude each other by the lock of the
  database, go on writing to the same memory segment and replace the state, and while merges begin and are committed.
  Here an operation that writes is the steps another thread can come between, one for each pair of a batch, and
  a get is the load and the search. The search of the memory segment is one step: \<^verbatim>\<open>SkipListReaders\<close> justifies that.
  The other segments of a loaded state do not change any more.
\<close>

section \<open>The operations in steps\<close>

text \<open>\<^verbatim>\<open>put\<close> up to the write to the memory segment, and from there on.\<close>

definition put_start :: "(nat \<Rightarrow> nat) \<Rightarrow> database \<Rightarrow> bytes \<Rightarrow> database res" where
  "put_start rnd db k =
     (if \<not> db_open db then Inl DatabaseClosed else bind_res (checkKey k) (\<lambda>_. maybeSwapMemory rnd db))"

definition put_finish :: "database \<Rightarrow> bytes \<Rightarrow> bytes \<Rightarrow> database res" where
  "put_finish db k v =
     bind_res (access (db_memory db)) (\<lambda>m.
     bind_res (ms_put m k v) (\<lambda>(old, m'). Inr (maybeMerge (db\<lparr>db_memory := Some m'\<rparr>))))"

text \<open>\<^verbatim>\<open>remove\<close> up to there; \<open>None\<close>: it has returned, as it found no value.\<close>

definition remove_start :: "junk \<Rightarrow> (nat \<Rightarrow> nat) \<Rightarrow> database \<Rightarrow> bytes \<Rightarrow> (bytes \<times> database option) res" where
  "remove_start j rnd db k =
     (if \<not> db_open db then Inl DatabaseClosed
      else bind_res (checkKey k) (\<lambda>_.
           bind_res (db_get j db k) (\<lambda>value.
             if value = [] then Inr (value, None)
             else bind_res (maybeSwapMemory rnd db) (\<lambda>db1. Inr (value, Some db1)))))"

text \<open>\<^verbatim>\<open>write\<close>: the start of the batch, one entry of it, and its end.\<close>

definition batch_start :: "(nat \<Rightarrow> nat) \<Rightarrow> database \<Rightarrow> write_batch \<Rightarrow> database res" where
  "batch_start rnd db batch =
     (if \<not> db_open db then Inl DatabaseClosed
      else bind_res (maybeSwapMemory rnd db) (\<lambda>db1.
           bind_res (access (db_memory db1)) (\<lambda>m0.
             let m = maybeCreateLogFile m0
             in Inr (db1\<lparr>db_memory := Some (m\<lparr>ms_log := map_option (\<lambda>f. startBatch f (batch_size batch)) (ms_log m)\<rparr>)\<rparr>))))"

definition batch_entry :: "database \<Rightarrow> keyvalue \<Rightarrow> database res" where
  "batch_entry db kv =
     bind_res (access (db_memory db)) (\<lambda>m.
     bind_res (ms_write_loop m [kv]) (\<lambda>m'. Inr (db\<lparr>db_memory := Some m'\<rparr>)))"

definition batch_end :: "database \<Rightarrow> write_batch \<Rightarrow> database res" where
  "batch_end db batch =
     bind_res (access (db_memory db)) (\<lambda>m.
       Inr (maybeMerge (db\<lparr>db_memory := Some (m\<lparr>ms_log := map_option (\<lambda>f. endBatch f (batch_size batch)) (ms_log m)\<rparr>)\<rparr>)))"

fun batch_entries :: "database \<Rightarrow> keyvalue list \<Rightarrow> database res" where
  "batch_entries db [] = Inr db"
| "batch_entries db (kv # kvs) = bind_res (batch_entry db kv) (\<lambda>db1. batch_entries db1 kvs)"

text \<open>Without interruption they are the operations.\<close>

lemma put_in_steps: "db_put rnd db k v = bind_res (put_start rnd db k) (\<lambda>db1. put_finish db1 k v)"
  by (simp add: db_put_def put_start_def put_finish_def bind_res_def split: sum.splits)

lemma remove_in_steps:
  "db_remove j rnd db k =
     bind_res (remove_start j rnd db k) (\<lambda>(value, s).
       case s of None \<Rightarrow> Inr (value, db) | Some db1 \<Rightarrow> bind_res (put_finish db1 k []) (\<lambda>db2. Inr (value, db2)))"
  by (auto simp: db_remove_def remove_start_def put_finish_def ms_remove_def bind_res_def split: sum.splits)

lemma batch_entries_memory:
  "db_memory db = Some m \<Longrightarrow>
     batch_entries db kvs = bind_res (ms_write_loop m kvs) (\<lambda>m'. Inr (db\<lparr>db_memory := Some m'\<rparr>))"
proof (induction kvs arbitrary: db m)
  case (Cons kv kvs)
  then show ?case
    by (cases "sl_put (ms_cmp m) kv_EMPTY (ms_list m) kv") (auto simp: batch_entry_def)
qed simp

lemma write_in_steps:
  "db_write rnd db b =
     bind_res (batch_start rnd db b) (\<lambda>db1. bind_res (batch_entries db1 (entries b)) (\<lambda>db2. batch_end db2 b))"
proof (cases "maybeSwapMemory rnd db")
  case (Inr db1)
  show ?thesis
  proof (cases "db_memory db1")
    case (Some m)
    let ?m = "maybeCreateLogFile m"
    let ?m1 = "?m\<lparr>ms_log := map_option (\<lambda>f. startBatch f (batch_size b)) (ms_log ?m)\<rparr>"
    show ?thesis
      using Inr Some batch_entries_memory [of "db1\<lparr>db_memory := Some ?m1\<rparr>" ?m1 "entries b"]
      by (cases "ms_write_loop ?m1 (entries b)") (simp_all add: db_write_def batch_start_def batch_end_def ms_write_def Let_def)
  qed (simp add: db_write_def batch_start_def Inr)
qed (simp add: db_write_def batch_start_def)

section \<open>The run\<close>

text \<open>
  \<open>cd_op\<close> is the operation that has the lock of the database, and what is left of it; \<open>cd_written\<close> are the pairs
  written to a memory segment so far, which only the theorem reads. A reader has the segments of the state it has loaded
  and its memory segment, an object it shares with the database as long as this goes on writing to it: as no two
  segments have one id, \<open>follow\<close> takes what the writers make of the object to the reader. One get is followed; others
  change nothing.
\<close>

datatype operation = Idle | Putting bytes bytes | Batching write_batch "keyvalue list"

record concurrent_db =
  cd_sys :: system
  cd_job :: "merge_job option"
  cd_op :: operation
  cd_written :: "keyvalue list"

abbreviation cd_db :: "concurrent_db \<Rightarrow> database" where
  "cd_db c \<equiv> sys_db (cd_sys c)"

definition with_db :: "database \<Rightarrow> operation \<Rightarrow> concurrent_db \<Rightarrow> concurrent_db" where
  "with_db db p c = c\<lparr>cd_sys := (cd_sys c)\<lparr>sys_db := db\<rparr>, cd_op := p\<rparr>"

datatype getter = Outside | Loaded bytes "segment list" memory_segment | Returned "bytes res"

fun follow :: "database \<Rightarrow> getter \<Rightarrow> getter" where
  "follow db (Loaded k segs m) =
     Loaded k segs (case db_memory db of None \<Rightarrow> m | Some m' \<Rightarrow> if ms_id m' = ms_id m then m' else m)"
| "follow db g = g"

definition get_load :: "database \<Rightarrow> bytes \<Rightarrow> getter res" where
  "get_load db k =
     (if \<not> db_open db then Inl DatabaseClosed
      else bind_res (checkKey k) (\<lambda>_.
           bind_res (access (db_memory db)) (\<lambda>m. Inr (Loaded k (db_segments db) m))))"

definition get_search :: "junk \<Rightarrow> bytes \<Rightarrow> segment list \<Rightarrow> memory_segment \<Rightarrow> bytes res" where
  "get_search j k segs m = multi_get (seg_get j) (copyAndAppend segs (MemSeg m)) k []"

lemma get_in_steps:
  "db_get j db k = bind_res (get_load db k) (\<lambda>g. case g of Loaded k segs m \<Rightarrow> get_search j k segs m | _ \<Rightarrow> Inl UndefinedBehaviour)"
  by (cases "db_memory db") (auto simp: db_get_def get_load_def get_search_def db_multi_def bind_res_def split: sum.splits)

inductive cd_step ::
  "junk \<Rightarrow> (nat \<Rightarrow> nat) \<Rightarrow> concurrent_db \<times> getter \<Rightarrow> concurrent_db \<times> getter \<Rightarrow> bool" for j :: junk and rnd :: "nat \<Rightarrow> nat" where
  put_starts: "cd_op c = Idle \<Longrightarrow> put_start rnd (cd_db c) k = Inr db \<Longrightarrow>
     cd_step j rnd (c, g) (with_db db (Putting k v) c, follow db g)"
| remove_starts: "cd_op c = Idle \<Longrightarrow> remove_start j rnd (cd_db c) k = Inr (v, Some db) \<Longrightarrow>
     cd_step j rnd (c, g) (with_db db (Putting k []) c, follow db g)"
| put_finishes: "cd_op c = Putting k v \<Longrightarrow> put_finish (cd_db c) k v = Inr db \<Longrightarrow>
     cd_step j rnd (c, g) ((with_db db Idle c)\<lparr>cd_written := cd_written c @ [mk_kv k v]\<rparr>, follow db g)"
| batch_starts: "cd_op c = Idle \<Longrightarrow> batch_start rnd (cd_db c) b = Inr db \<Longrightarrow>
     cd_step j rnd (c, g) (with_db db (Batching b (entries b)) c, follow db g)"
| batch_goes_on: "cd_op c = Batching b (kv # kvs) \<Longrightarrow> batch_entry (cd_db c) kv = Inr db \<Longrightarrow>
     cd_step j rnd (c, g) ((with_db db (Batching b kvs) c)\<lparr>cd_written := cd_written c @ [kv]\<rparr>, follow db g)"
| batch_ends: "cd_op c = Batching b [] \<Longrightarrow> batch_end (cd_db c) b = Inr db \<Longrightarrow>
     cd_step j rnd (c, g) (with_db db Idle c, follow db g)"
| snapshot: "cd_op c = Idle \<Longrightarrow> db_snapshot rnd (cd_db c) = Inr (sn, db) \<Longrightarrow>
     cd_step j rnd (c, g) (with_db db Idle c, follow db g)"
| merge_begins: "cd_job c = None \<Longrightarrow> sys_step j rnd (cd_sys c, None) MergeBegin (s, Some job) \<Longrightarrow>
     cd_step j rnd (c, g) (c\<lparr>cd_sys := s, cd_job := Some job\<rparr>, g)"
| merge_commits: "cd_op c = Idle \<Longrightarrow> cd_job c = Some job \<Longrightarrow> merge_commit job (cd_db c) = Inr db \<Longrightarrow>
     cd_step j rnd (c, g) ((with_db db Idle c)\<lparr>cd_job := None\<rparr>, g)"
| get_loads: "get_load (cd_db c) k = Inr g \<Longrightarrow> cd_step j rnd (c, Outside) (c, g)"
| get_searches: "cd_step j rnd (c, Loaded k segs m) (c, Returned (get_search j k segs m))"

inductive cd_run ::
  "junk \<Rightarrow> (nat \<Rightarrow> nat) \<Rightarrow> nat \<Rightarrow> concurrent_db \<times> getter \<Rightarrow> concurrent_db \<times> getter \<Rightarrow> bool" for j :: junk and rnd :: "nat \<Rightarrow> nat" where
  cd_refl: "cd_run j rnd 0 x x"
| cd_more: "cd_run j rnd n x y \<Longrightarrow> cd_step j rnd y z \<Longrightarrow> cd_run j rnd (Suc n) x z"

definition cd_start :: "system \<Rightarrow> concurrent_db" where
  "cd_start s = \<lparr>cd_sys = s, cd_job = None, cd_op = Idle, cd_written = []\<rparr>"

section \<open>What a step of a writer does to the memory segment\<close>

text \<open>
  Either the pairs \<open>kvs\<close> are put into the memory segment, or it is moved behind the segments and replaced by an
  empty one with a new id.
\<close>

definition db_moves :: "database \<Rightarrow> keyvalue list \<Rightarrow> database \<Rightarrow> bool" where
  "db_moves db kvs db' \<longleftrightarrow>
     db_options db' = db_options db \<and> (\<exists>m m'. db_memory db = Some m \<and> db_memory db' = Some m' \<and>
       (ms_id m' = ms_id m \<and> db_nextSegID db' = db_nextSegID db \<and> db_segments db' = db_segments db \<and>
          (\<forall>r. ms_repr m r \<longrightarrow> ms_repr m' (run_puts r kvs)) \<or>
        kvs = [] \<and> ms_id m' = db_nextSegID db + 1 \<and> db_nextSegID db' = db_nextSegID db + 1 \<and>
          db_segments db' = db_segments db @ [MemSeg m] \<and> ms_repr m' []))"

lemma db_movesE:
  assumes "db_moves db kvs db'" "db_memory db = Some m" "ms_repr m r"
  obtains m' where "db_memory db' = Some m'" "db_options db' = db_options db"
    "ms_id m' = ms_id m \<and> db_nextSegID db' = db_nextSegID db \<and> db_segments db' = db_segments db \<and> ms_repr m' (run_puts r kvs) \<or>
     kvs = [] \<and> ms_id m' = db_nextSegID db + 1 \<and> db_nextSegID db' = db_nextSegID db + 1 \<and>
       db_segments db' = db_segments db @ [MemSeg m] \<and> ms_repr m' []"
proof -
  obtain m' where "db_memory db' = Some m'" "db_options db' = db_options db"
    "ms_id m' = ms_id m \<and> db_nextSegID db' = db_nextSegID db \<and> db_segments db' = db_segments db \<and>
       (\<forall>r. ms_repr m r \<longrightarrow> ms_repr m' (run_puts r kvs)) \<or>
     kvs = [] \<and> ms_id m' = db_nextSegID db + 1 \<and> db_nextSegID db' = db_nextSegID db + 1 \<and>
       db_segments db' = db_segments db @ [MemSeg m] \<and> ms_repr m' []"
    using assms(1) unfolding db_moves_def assms(2) option.inject by (elim conjE exE) blast
  then show thesis using assms(3) by (intro that [of m']) blast+
qed

lemma renewed_moves:
  assumes "renewed rnd db m db' m0" "db_memory db = Some m" "db_memory db' = Some m0"
  shows "db_moves db [] db'"
  using assms newMemorySegment_repr by (auto simp: renewed_def db_moves_def newMemorySegment_def)

lemma swap_moves:
  assumes "maybeSwapMemory rnd db = Inr db'" "db_memory db = Some m" "userKeyCompare (db_options db) = None"
  shows "db_moves db [] db'"
  using maybeSwapMemory_renewed [OF assms] renewed_moves assms(2) by blast

lemma moves_log:
  assumes "db_moves db kvs db1" "db_memory db1 = Some m1" "ms_id m2 = ms_id m1" "\<forall>r. ms_repr m1 r \<longrightarrow> ms_repr m2 r"
  shows "db_moves db kvs (db1\<lparr>db_memory := Some m2\<rparr>)"
  using assms unfolding db_moves_def by auto

lemma moves_wakeup: "db_moves db kvs db1 \<Longrightarrow> db_moves db kvs (maybeMerge db1)"
  by (simp add: db_moves_def maybeMerge_def)

lemma put_moves:
  assumes "ms_put m k v = Inr (x, m')"
  shows "ms_id m' = ms_id m" "ms_repr m r \<Longrightarrow> ms_repr m' (run_put r (mk_kv k v))"
proof -
  show "ms_id m' = ms_id m" by (rule ms_put_id [OF assms])
  assume r: "ms_repr m r"
  then obtain s' where "sl_put kv_cmp kv_EMPTY (ms_list m) (mk_kv k v) =
      Some (case find_kv r k of None \<Rightarrow> kv_EMPTY | Some w \<Rightarrow> mk_kv k w, s')" "sl_repr kv_cmp s' (run_put r (mk_kv k v))"
    using sl_put_run [of "ms_list m" r "mk_kv k v"] unfolding kv_sel ms_repr_def by blast
  then show "ms_repr m' (run_put r (mk_kv k v))"
    using assms r by (auto simp: ms_put_def Let_def ms_repr_def)
qed

lemma memory_moves:
  assumes "db_memory db = Some m" "ms_id m' = ms_id m" "\<And>r. ms_repr m r \<Longrightarrow> ms_repr m' (run_puts r kvs)"
  shows "db_moves db kvs (db\<lparr>db_memory := Some m'\<rparr>)"
  using assms by (simp add: db_moves_def)

section \<open>The invariant\<close>

text \<open>
  \<open>after f kvs\<close>: the map \<open>f\<close> with the pairs written to it. \<open>cd_inv k f W c\<close>: the database shows what the pairs written
  make of \<open>f\<close>; \<open>W\<close> is everything written in the end.
\<close>

definition after :: "(bytes \<Rightarrow> bytes) \<Rightarrow> keyvalue list \<Rightarrow> bytes \<Rightarrow> bytes" where
  "after f kvs = foldl (\<lambda>f kv. f(kv_key kv := kv_value kv)) f kvs"

lemma after_append: "after f (xs @ ys) = after (after f xs) ys"
  by (simp add: after_def)

lemma after_runs: "sorted_kvs r \<Longrightarrow> shown (rs @ [run_puts r kvs]) = after (shown (rs @ [r])) kvs"
  unfolding after_def by (rule shown_run_puts)

text \<open>No removed key: \<open>kept k\<close> says that no layer has the empty value under \<open>k\<close>.\<close>

definition kept :: "bytes \<Rightarrow> keyvalue list list \<Rightarrow> bool" where
  "kept k rs \<longleftrightarrow> (\<forall>r \<in> set rs. \<forall>kv \<in> set r. kv_key kv = k \<longrightarrow> kv_value kv \<noteq> [])"

lemma kept_simps [simp]: "kept k []" "kept k (xs @ ys) \<longleftrightarrow> kept k xs \<and> kept k ys"
  "kept k (r # rs) \<longleftrightarrow> (\<forall>kv \<in> set r. kv_key kv = k \<longrightarrow> kv_value kv \<noteq> []) \<and> kept k rs"
  by (auto simp: kept_def)

lemma kept_merge: "\<forall>g \<in> set gs. sorted_kvs g \<Longrightarrow> kept k gs \<Longrightarrow> kept k [merge_runs gs]"
  using merge_runs_spec(3) [of gs] by (fastforce simp: kept_def)

lemma kept_visible: "kept k rs \<Longrightarrow> visible rs k = shown rs k"
proof (induction rs rule: rev_induct)
  case (snoc r rs)
  have "find_kv r k \<noteq> Some []" using snoc.prems find_kv_SomeD [of r k "[]"] by (auto simp: kept_def dest!: bspec)
  moreover have "visible rs k = shown rs k" using snoc by simp
  ultimately show ?case by (auto simp: visible_snoc shown_append split: option.splits)
qed (simp add: visible_def shown_def)

definition memory_in :: "database \<Rightarrow> keyvalue list \<Rightarrow> bool" where
  "memory_in db r \<longleftrightarrow> (\<exists>m. db_memory db = Some m \<and> ms_repr m r \<and> ms_id m \<le> db_nextSegID db)"

definition cd_inv :: "bytes \<Rightarrow> (bytes \<Rightarrow> bytes) \<Rightarrow> keyvalue list \<Rightarrow> concurrent_db \<Rightarrow> bool" where
  "cd_inv k f W c \<longleftrightarrow>
     (\<exists>rs r w. list_all2 seg_lists (db_segments (cd_db c)) rs \<and> memory_in (cd_db c) r \<and>
        userKeyCompare (db_options (cd_db c)) = None \<and> 1 \<le> maxSegments (db_options (cd_db c)) \<and>
        W = cd_written c @ w \<and> keys_nonempty (r @ W) \<and> kept k (rs @ [r, W]) \<and> runs_fit (rs @ [r, w]) \<and>
        shown (rs @ [r]) = after f (cd_written c) \<and>
        (case cd_job c of None \<Rightarrow> True | Some job \<Rightarrow> job_ok (db_segments (cd_db c)) rs job))"

lemma cd_invI:
  assumes "list_all2 seg_lists (db_segments (cd_db c)) rs" "memory_in (cd_db c) r"
    and "userKeyCompare (db_options (cd_db c)) = None" "1 \<le> maxSegments (db_options (cd_db c))"
    and "W = cd_written c @ w" "keys_nonempty (r @ W)" "kept k (rs @ [r, W])" "runs_fit (rs @ [r, w])"
    and "shown (rs @ [r]) = after f (cd_written c)"
    and "case cd_job c of None \<Rightarrow> True | Some job \<Rightarrow> job_ok (db_segments (cd_db c)) rs job"
  shows "cd_inv k f W c"
  unfolding cd_inv_def
  by (rule exI [of _ rs], rule exI [of _ r], rule exI [of _ w]) (intro conjI assms)

lemma cd_invE:
  assumes "cd_inv k f W c"
  obtains rs r w where "list_all2 seg_lists (db_segments (cd_db c)) rs" "memory_in (cd_db c) r"
    "userKeyCompare (db_options (cd_db c)) = None" "1 \<le> maxSegments (db_options (cd_db c))"
    "W = cd_written c @ w" "keys_nonempty (r @ W)" "kept k (rs @ [r, W])" "runs_fit (rs @ [r, w])"
    "shown (rs @ [r]) = after f (cd_written c)"
    "case cd_job c of None \<Rightarrow> True | Some job \<Rightarrow> job_ok (db_segments (cd_db c)) rs job"
  using assms unfolding cd_inv_def by (elim exE conjE) (rule that)

lemma kept_puts: "kept k [r, kvs] \<Longrightarrow> kept k [run_puts r kvs]"
proof -
  assume "kept k [r, kvs]"
  moreover have "set (run_puts r kvs) \<subseteq> set kvs \<union> set r" using run_puts_sizes [of r kvs] by (rule conjunct1)
  ultimately show ?thesis unfolding kept_def by auto
qed

lemma cd_inv_moves:
  assumes "cd_inv k f W c" "db_moves (cd_db c) kvs (cd_db c1)" "cd_written c1 = cd_written c @ kvs" "cd_job c1 = cd_job c"
    and "\<exists>w. W = cd_written c1 @ w"
  shows "cd_inv k f W c1"
proof -
  obtain rs r w where i: "list_all2 seg_lists (db_segments (cd_db c)) rs" "memory_in (cd_db c) r"
    "userKeyCompare (db_options (cd_db c)) = None" "1 \<le> maxSegments (db_options (cd_db c))"
    "W = cd_written c @ w" "keys_nonempty (r @ W)" "kept k (rs @ [r, W])" "runs_fit (rs @ [r, w])"
    "shown (rs @ [r]) = after f (cd_written c)"
    "case cd_job c of None \<Rightarrow> True | Some job \<Rightarrow> job_ok (db_segments (cd_db c)) rs job"
    by (rule cd_invE [OF assms(1)])
  obtain w1 where "W = cd_written c1 @ w1" using assms(5) by (rule exE)
  then have w: "W = cd_written c @ kvs @ w1" "w = kvs @ w1" "W = cd_written c1 @ w1" using assms(3) i(5) by simp_all
  obtain m where m: "db_memory (cd_db c) = Some m" "ms_repr m r" "ms_id m \<le> db_nextSegID (cd_db c)"
    using i(2) unfolding memory_in_def by (elim exE conjE)
  have keys: "keys_nonempty r" "keys_nonempty kvs" "keys_nonempty W" using i(6) w(1) by simp_all
  have nr: "kept k rs" "kept k [r, kvs]" "kept k [W]" using i(7) w(1) by simp_all
  obtain m' where m': "db_memory (cd_db c1) = Some m'" and opts: "db_options (cd_db c1) = db_options (cd_db c)"
    and d: "ms_id m' = ms_id m \<and> db_nextSegID (cd_db c1) = db_nextSegID (cd_db c) \<and> db_segments (cd_db c1) = db_segments (cd_db c) \<and>
         ms_repr m' (run_puts r kvs) \<or>
       kvs = [] \<and> ms_id m' = db_nextSegID (cd_db c) + 1 \<and> db_nextSegID (cd_db c1) = db_nextSegID (cd_db c) + 1 \<and>
         db_segments (cd_db c1) = db_segments (cd_db c) @ [MemSeg m] \<and> ms_repr m' []"
    by (rule db_movesE [OF assms(2) m(1,2)])
  from d show ?thesis
  proof
    assume a: "ms_id m' = ms_id m \<and> db_nextSegID (cd_db c1) = db_nextSegID (cd_db c) \<and> db_segments (cd_db c1) = db_segments (cd_db c) \<and>
      ms_repr m' (run_puts r kvs)"
    then have segs: "db_segments (cd_db c1) = db_segments (cd_db c)" by simp
    show ?thesis
    proof (rule cd_invI)
      show "list_all2 seg_lists (db_segments (cd_db c1)) rs" unfolding segs by (rule i(1))
      show "memory_in (cd_db c1) (run_puts r kvs)" using a m' m(3) by (simp add: memory_in_def)
      show "userKeyCompare (db_options (cd_db c1)) = None" "1 \<le> maxSegments (db_options (cd_db c1))"
        unfolding opts by (rule i(3), rule i(4))
      show "W = cd_written c1 @ w1" by (rule w(3))
      show "keys_nonempty (run_puts r kvs @ W)" using run_puts_keys [OF keys(1,2)] keys(3) by simp
      have "rs @ [run_puts r kvs, W] = (rs @ [run_puts r kvs]) @ [W]" by simp
      then show "kept k (rs @ [run_puts r kvs, W])" using nr(1,3) kept_puts [OF nr(2)] by (simp only: kept_simps(2))
      show "runs_fit (rs @ [run_puts r kvs, w1])" using runs_fit_puts [of rs r kvs w1] i(8) w(2) by simp
      show "shown (rs @ [run_puts r kvs]) = after f (cd_written c1)"
        unfolding assms(3) after_append i(9) [symmetric] by (rule after_runs [OF ms_repr_sorted [OF m(2)]])
      show "case cd_job c1 of None \<Rightarrow> True | Some job \<Rightarrow> job_ok (db_segments (cd_db c1)) rs job"
        unfolding segs assms(4) by (rule i(10))
    qed
  next
    assume a: "kvs = [] \<and> ms_id m' = db_nextSegID (cd_db c) + 1 \<and> db_nextSegID (cd_db c1) = db_nextSegID (cd_db c) + 1 \<and>
       db_segments (cd_db c1) = db_segments (cd_db c) @ [MemSeg m] \<and> ms_repr m' []"
    then have segs: "db_segments (cd_db c1) = db_segments (cd_db c) @ [MemSeg m]" by simp
    have l: "list_all2 seg_lists [MemSeg m] [r]" using m(2) keys(1) seg_repr_lists [of "MemSeg m" r] by simp
    show ?thesis
    proof (rule cd_invI)
      show "list_all2 seg_lists (db_segments (cd_db c1)) (rs @ [r])" unfolding segs by (rule list_all2_appendI [OF i(1) l])
      show "memory_in (cd_db c1) []" using a m' by (simp add: memory_in_def)
      show "userKeyCompare (db_options (cd_db c1)) = None" "1 \<le> maxSegments (db_options (cd_db c1))"
        unfolding opts by (rule i(3), rule i(4))
      show "W = cd_written c1 @ w1" by (rule w(3))
      show "keys_nonempty ([] @ W)" using keys(3) by simp
      show "kept k ((rs @ [r]) @ [[], W])" using nr by simp
      show "runs_fit ((rs @ [r]) @ [[], w1])" using i(8) w(2) a runs_fit_Nil [of "rs @ [r]" "[w]"] by simp
      show "shown ((rs @ [r]) @ [[]]) = after f (cd_written c1)" unfolding shown_new using i(9) a assms(3) by simp
      show "case cd_job c1 of None \<Rightarrow> True | Some job \<Rightarrow> job_ok (db_segments (cd_db c1)) (rs @ [r]) job"
        using i(10) job_ok_append [OF _ l] unfolding segs assms(4) by (cases "cd_job c") simp_all
    qed
  qed
qed

text \<open>A commit changes the segments only.\<close>

lemma kept_purged:
  assumes "\<forall>g \<in> set gs. sorted_kvs g" "kept k gs"
  shows "kept k [purged p (merge_runs gs)]"
  using kept_merge [OF assms] set_purged [of p "merge_runs gs"] unfolding kept_def by auto

lemma cd_inv_commit:
  assumes "cd_inv k f W c" "cd_job c = Some job" "merge_commit job (cd_db c) = Inr db"
    and "cd_db c1 = db" "cd_written c1 = cd_written c" "cd_job c1 = None"
  shows "cd_inv k f W c1" "\<exists>segs. db = (cd_db c)\<lparr>db_segments := segs\<rparr>"
proof -
  obtain rs r w where i: "list_all2 seg_lists (db_segments (cd_db c)) rs" "memory_in (cd_db c) r"
    "userKeyCompare (db_options (cd_db c)) = None" "1 \<le> maxSegments (db_options (cd_db c))"
    "W = cd_written c @ w" "keys_nonempty (r @ W)" "kept k (rs @ [r, W])" "runs_fit (rs @ [r, w])"
    "shown (rs @ [r]) = after f (cd_written c)"
    "case cd_job c of None \<Rightarrow> True | Some job \<Rightarrow> job_ok (db_segments (cd_db c)) rs job"
    by (rule cd_invE [OF assms(1)])
  obtain pre post rpre gs rpost where j: "db_segments (cd_db c) = pre @ mj_group job @ post" "length pre = mj_start job"
    "rs = rpre @ gs @ rpost" "list_all2 seg_lists pre rpre" "list_all2 seg_lists (mj_group job) gs"
    "list_all2 seg_lists post rpost" "seg_lists (DiskSeg (mj_seg job)) (purged (rpre = []) (merge_runs gs))"
    using i(10) unfolding assms(2) option.case job_ok_def by (elim exE conjE)
  let ?m = "purged (rpre = []) (merge_runs gs)"
  let ?rs = "rpre @ [?m] @ rpost"
  have gs: "\<forall>g \<in> set gs. sorted_kvs g" using list_all2_sorted [OF j(5)] by blast
  have db: "db = (cd_db c)\<lparr>db_segments := pre @ [DiskSeg (mj_seg job)] @ post\<rparr>"
    using merge_commit_ok [OF j(1,2)] assms(3) by simp
  then show "\<exists>segs. db = (cd_db c)\<lparr>db_segments := segs\<rparr>" by blast
  show "cd_inv k f W c1"
  proof (rule cd_invI)
    show "list_all2 seg_lists (db_segments (cd_db c1)) ?rs" using j(4,6,7) db assms(4) by (simp add: list_all2_appendI)
    show "memory_in (cd_db c1) r" using i(2) db assms(4) by (simp add: memory_in_def)
    show "userKeyCompare (db_options (cd_db c1)) = None" "1 \<le> maxSegments (db_options (cd_db c1))"
      using i(3,4) db assms(4) by simp_all
    show "W = cd_written c1 @ w" using i(5) assms(5) by simp
    show "keys_nonempty (r @ W)" by (rule i(6))
    have "kept k gs" using i(7) j(3) by simp
    then have "kept k [?m]" by (rule kept_purged [OF gs])
    then show "kept k (?rs @ [r, W])" using i(7) j(3) by simp
    show "runs_fit (?rs @ [r, w])" using runs_fit_merge [of rpre gs "rpost @ [r, w]" "rpre = []"] gs i(8) j(3) by simp
    show "shown (?rs @ [r]) = after f (cd_written c1)"
      using shown_merge [of gs "rpre = []" rpre "rpost @ [r]"] gs i(9) j(3) assms(5) by (simp add: fun_eq_iff)
    show "case cd_job c1 of None \<Rightarrow> True | Some job \<Rightarrow> job_ok (db_segments (cd_db c1)) ?rs job" by (simp add: assms(6))
  qed
qed

lemma cd_inv_begin:
  assumes "cd_inv k f W c" "sys_step j rnd (cd_sys c, None) MergeBegin (s, Some job)"
  shows "cd_inv k f W (c\<lparr>cd_sys := s, cd_job := Some job\<rparr>)" "sys_db s = cd_db c"
proof -
  obtain rs r w where i: "list_all2 seg_lists (db_segments (cd_db c)) rs" "memory_in (cd_db c) r"
    "userKeyCompare (db_options (cd_db c)) = None" "1 \<le> maxSegments (db_options (cd_db c))"
    "W = cd_written c @ w" "keys_nonempty (r @ W)" "kept k (rs @ [r, W])" "runs_fit (rs @ [r, w])"
    "shown (rs @ [r]) = after f (cd_written c)"
    by (rule cd_invE [OF assms(1)])
  from assms(2) have m: "merge_begin j kv_cmp (cd_sys c) = Inr (job, s)"
    and "\<not> few_segments (db_segments (cd_db c)) (maxSegments (db_options (cd_db c)))"
    by (auto elim: sys_step.cases)
  then have "2 \<le> length (db_segments (cd_db c))" using i(4) by (simp add: few_segments_def)
  from merge_begin_job [OF i(1) runs_fit_prefix [OF i(8)] this m]
  have k: "job_ok (db_segments (cd_db c)) rs job" "sys_db s = cd_db c" by blast+
  show "sys_db s = cd_db c" by (rule k(2))
  show "cd_inv k f W (c\<lparr>cd_sys := s, cd_job := Some job\<rparr>)"
    by (rule cd_invI [of _ rs r W w]) (use i k in simp_all)
qed

text \<open>Every other step of a writer moves the database.\<close>

lemma put_finish_moves:
  assumes "put_finish db k v = Inr db'"
  shows "db_moves db [mk_kv k v] db'"
proof -
  obtain m x m' where m: "db_memory db = Some m" "ms_put m k v = Inr (x, m')" "db' = maybeMerge (db\<lparr>db_memory := Some m'\<rparr>)"
    using assms by (auto simp: put_finish_def bind_res_eq_Inr access_eq_Inr)
  show ?thesis unfolding m(3)
    by (rule moves_wakeup, rule memory_moves [OF m(1)]) (simp_all add: put_moves [OF m(2)])
qed

lemma batch_entry_moves:
  assumes "batch_entry db kv = Inr db'"
  shows "db_moves db [kv] db'"
proof -
  obtain m m' where m: "db_memory db = Some m" "ms_write_loop m [kv] = Inr m'" "db' = db\<lparr>db_memory := Some m'\<rparr>"
    using assms by (auto simp: batch_entry_def bind_res_eq_Inr access_eq_Inr simp del: ms_write_loop.simps)
  have id: "ms_id m' = ms_id m" using m(2) by (auto simp: bind_res_eq_Inr access_eq_Inr)
  show ?thesis unfolding m(3)
  proof (rule memory_moves [OF m(1) id])
    fix r assume "ms_repr m r"
    from ms_write_loop_repr [OF this, of "[kv]"] m(2) show "ms_repr m' (run_puts r [kv])" by (auto simp del: ms_write_loop.simps)
  qed
qed

lemma batch_end_moves:
  assumes "batch_end db b = Inr db'"
  shows "db_moves db [] db'"
proof -
  obtain m where m: "db_memory db = Some m"
    "db' = maybeMerge (db\<lparr>db_memory := Some (m\<lparr>ms_log := map_option (\<lambda>f. endBatch f (batch_size b)) (ms_log m)\<rparr>)\<rparr>)"
    using assms by (auto simp: batch_end_def bind_res_eq_Inr access_eq_Inr)
  show ?thesis unfolding m(2) by (rule moves_wakeup, rule memory_moves [OF m(1)]) (simp_all add: ms_repr_def)
qed

lemma batch_start_moves:
  assumes "batch_start rnd db b = Inr db'" "db_memory db = Some m" "userKeyCompare (db_options db) = None"
  shows "db_moves db [] db'"
proof -
  obtain db1 m0 where s: "maybeSwapMemory rnd db = Inr db1" "db_memory db1 = Some m0"
    "db' = db1\<lparr>db_memory := Some ((maybeCreateLogFile m0)\<lparr>ms_log := map_option (\<lambda>f. startBatch f (batch_size b)) (ms_log (maybeCreateLogFile m0))\<rparr>)\<rparr>"
    using assms(1) by (auto simp: batch_start_def bind_res_eq_Inr access_eq_Inr Let_def split: if_splits)
  show ?thesis unfolding s(3)
    by (rule moves_log [OF swap_moves [OF s(1) assms(2,3)] s(2)]) (simp_all add: ms_repr_def)
qed

lemma snapshot_moves:
  assumes "db_snapshot rnd db = Inr (sn, db')" "db_memory db = Some m" "userKeyCompare (db_options db) = None"
  shows "db_moves db [] db'"
proof -
  obtain m0 db0 where n: "new_memory rnd db = (m0, db0)" by fastforce
  note d = new_memory_default [OF assms(3) n]
  have "db' = db0\<lparr>db_segments := db_segments db @ [MemSeg m], db_memory := Some m0\<rparr>"
    using assms(1,2) n by (auto simp: db_snapshot_def copyAndAppend_def Let_def split: if_splits)
  then have "renewed rnd db m db' m0" "db_memory db' = Some m0" using d by (simp_all add: renewed_def)
  then show ?thesis by (rule renewed_moves [OF _ assms(2)])
qed

lemma start_moves:
  assumes "put_start rnd db k = Inr db' \<or> remove_start j rnd db k = Inr (v, Some db')"
    and "db_memory db = Some m" "userKeyCompare (db_options db) = None"
  shows "db_moves db [] db'"
proof -
  have "maybeSwapMemory rnd db = Inr db'"
    using assms(1) by (auto simp: put_start_def remove_start_def bind_res_eq_Inr split: if_splits)
  then show ?thesis by (rule swap_moves [OF _ assms(2,3)])
qed

section \<open>The invariant of the reader\<close>

text \<open>
  What the reader will find is what the database shows after \<open>n\<close> of the pairs written, for some \<open>n\<close> not below what was
  written when it loaded the state. While it shares the memory segment with the database these are all the pairs.
\<close>

definition loaded_inv :: "bytes \<Rightarrow> (bytes \<Rightarrow> bytes) \<Rightarrow> nat \<Rightarrow> concurrent_db \<Rightarrow> segment list \<Rightarrow> memory_segment \<Rightarrow> bool" where
  "loaded_inv k f n0 c segs m \<longleftrightarrow>
     (\<exists>rs r n. list_all2 seg_lists segs rs \<and> seg_repr (MemSeg m) r \<and> kept k (rs @ [r]) \<and>
        n0 \<le> n \<and> n \<le> length (cd_written c) \<and> shown (rs @ [r]) = after f (take n (cd_written c)) \<and>
        ms_id m \<le> db_nextSegID (cd_db c) \<and>
        (\<forall>m'. db_memory (cd_db c) = Some m' \<and> ms_id m' = ms_id m \<longrightarrow> m' = m \<and> n = length (cd_written c)))"

fun get_inv :: "(bytes \<Rightarrow> bytes) \<Rightarrow> bytes \<Rightarrow> segment list \<Rightarrow> nat \<Rightarrow> concurrent_db \<Rightarrow> getter \<Rightarrow> bool" where
  "get_inv f k segs n0 c Outside \<longleftrightarrow> False"
| "get_inv f k segs n0 c (Loaded k' segs' m) \<longleftrightarrow> k' = k \<and> segs' = segs \<and> loaded_inv k f n0 c segs m"
| "get_inv f k segs n0 c (Returned (Inr v)) \<longleftrightarrow>
     (\<exists>n. n0 \<le> n \<and> n \<le> length (cd_written c) \<and> v = after f (take n (cd_written c)) k)"
| "get_inv f k segs n0 c (Returned (Inl e)) \<longleftrightarrow> (\<exists>ds. DiskSeg ds \<in> set segs \<and> ds_keyFile ds = [])"

lemma loaded_invI:
  assumes "list_all2 seg_lists segs rs" "seg_repr (MemSeg m) r" "kept k (rs @ [r])"
    "n0 \<le> n" "n \<le> length (cd_written c)" "shown (rs @ [r]) = after f (take n (cd_written c))" "ms_id m \<le> db_nextSegID (cd_db c)"
    "\<forall>m'. db_memory (cd_db c) = Some m' \<and> ms_id m' = ms_id m \<longrightarrow> m' = m \<and> n = length (cd_written c)"
  shows "loaded_inv k f n0 c segs m"
  unfolding loaded_inv_def
  by (rule exI [of _ rs], rule exI [of _ r], rule exI [of _ n]) (intro conjI assms)

lemma loaded_moves:
  assumes "loaded_inv k f n0 c segs m" "db_moves (cd_db c) kvs (cd_db c1)" "cd_written c1 = cd_written c @ kvs"
    and "keys_nonempty kvs" "kept k [kvs]" "unat (db_nextSegID (cd_db c)) + 1 < 2 ^ 64"
  shows "\<exists>m1. follow (cd_db c1) (Loaded k segs m) = Loaded k segs m1 \<and> loaded_inv k f n0 c1 segs m1"
proof -
  obtain rs r n where i: "list_all2 seg_lists segs rs" "seg_repr (MemSeg m) r" "kept k (rs @ [r])"
    "n0 \<le> n" "n \<le> length (cd_written c)" "shown (rs @ [r]) = after f (take n (cd_written c))" "ms_id m \<le> db_nextSegID (cd_db c)"
    "\<forall>m'. db_memory (cd_db c) = Some m' \<and> ms_id m' = ms_id m \<longrightarrow> m' = m \<and> n = length (cd_written c)"
    using assms(1) unfolding loaded_inv_def by (elim exE conjE) (rule that)
  obtain o1 o2 where o1: "db_memory (cd_db c) = Some o1" and o2: "db_memory (cd_db c1) = Some o2"
    "ms_id o2 = ms_id o1 \<and> db_nextSegID (cd_db c1) = db_nextSegID (cd_db c) \<and> db_segments (cd_db c1) = db_segments (cd_db c) \<and>
       (\<forall>r. ms_repr o1 r \<longrightarrow> ms_repr o2 (run_puts r kvs)) \<or>
     kvs = [] \<and> ms_id o2 = db_nextSegID (cd_db c) + 1 \<and> db_nextSegID (cd_db c1) = db_nextSegID (cd_db c) + 1 \<and>
       db_segments (cd_db c1) = db_segments (cd_db c) @ [MemSeg o1] \<and> ms_repr o2 []"
    using assms(2) unfolding db_moves_def by (elim conjE exE)
  have up: "db_nextSegID (cd_db c) < db_nextSegID (cd_db c) + 1" using assms(6) by (simp add: word_less_nat_alt unat_word_ariths(1))
  show ?thesis
  proof (cases "ms_id o2 = ms_id m")
    case True
    have "ms_id o2 \<noteq> db_nextSegID (cd_db c) + 1" unfolding True using le_less_trans [OF i(7) up] by (rule less_imp_neq)
    then have same: "ms_id o2 = ms_id o1" "db_nextSegID (cd_db c1) = db_nextSegID (cd_db c)" "\<forall>r. ms_repr o1 r \<longrightarrow> ms_repr o2 (run_puts r kvs)"
      using o2(2) by blast+
    have "db_memory (cd_db c) = Some o1 \<and> ms_id o1 = ms_id m" by (intro conjI o1 trans [OF same(1) [symmetric] True])
    from mp [OF spec [OF i(8)] this] have m: "o1 = m" "n = length (cd_written c)" by (rule conjunct1, rule conjunct2)
    have k: "keys_nonempty (run_puts r kvs)" using run_puts_keys [of r kvs] i(2) assms(4) by simp
    have "loaded_inv k f n0 c1 segs o2"
    proof (rule loaded_invI)
      show "list_all2 seg_lists segs rs" by (rule i(1))
      show "seg_repr (MemSeg o2) (run_puts r kvs)" using i(2) same(3) m(1) k by simp
      have "kept k rs" "kept k [r, kvs]" using i(3) assms(5) by simp_all
      from conjI [OF this(1) kept_puts [OF this(2)]] show "kept k (rs @ [run_puts r kvs])" by (simp only: kept_simps(2))
      show "n0 \<le> length (cd_written c1)" using i(4) m(2) assms(3) by simp
      show "length (cd_written c1) \<le> length (cd_written c1)" by simp
      show "shown (rs @ [run_puts r kvs]) = after f (take (length (cd_written c1)) (cd_written c1))"
        using after_runs [of r rs kvs] seg_repr_run(1) [OF i(2)] i(6) m(2) assms(3) by (simp add: after_append)
      show "ms_id o2 \<le> db_nextSegID (cd_db c1)" using i(7) m(1) same by simp
      show "\<forall>m'. db_memory (cd_db c1) = Some m' \<and> ms_id m' = ms_id o2 \<longrightarrow> m' = o2 \<and> length (cd_written c1) = length (cd_written c1)"
        using o2(1) by simp
    qed
    then show ?thesis using True o2(1) by simp
  next
    case False
    have "loaded_inv k f n0 c1 segs m"
    proof (rule loaded_invI)
      show "list_all2 seg_lists segs rs" "seg_repr (MemSeg m) r" "kept k (rs @ [r])" "n0 \<le> n" by (rule i)+
      show "n \<le> length (cd_written c1)" using i(5) assms(3) by simp
      show "shown (rs @ [r]) = after f (take n (cd_written c1))" using i(5,6) assms(3) by simp
      have "db_nextSegID (cd_db c) \<le> db_nextSegID (cd_db c1)" using o2(2) less_imp_le [OF up] by (elim disjE conjE) simp_all
      then show "ms_id m \<le> db_nextSegID (cd_db c1)" by (rule order_trans [OF i(7)])
      show "\<forall>m'. db_memory (cd_db c1) = Some m' \<and> ms_id m' = ms_id m \<longrightarrow> m' = m \<and> n = length (cd_written c1)"
        using o2(1) False by simp
    qed
    then show ?thesis using False o2(1) by simp
  qed
qed

lemma get_moves:
  assumes "get_inv f k segs n0 c g" "db_moves (cd_db c) kvs (cd_db c1)" "cd_written c1 = cd_written c @ kvs"
    and "keys_nonempty kvs" "kept k [kvs]" "unat (db_nextSegID (cd_db c)) + 1 < 2 ^ 64"
  shows "get_inv f k segs n0 c1 (follow (cd_db c1) g)"
proof (cases g)
  case (Loaded k' segs' m)
  then obtain m1 where "follow (cd_db c1) g = Loaded k' segs' m1" "loaded_inv k f n0 c1 segs' m1"
    using loaded_moves [OF _ assms(2-6), of f n0 segs' m] assms(1) by auto
  then show ?thesis using assms(1) Loaded by simp
next
  case (Returned x)
  show ?thesis
  proof (cases x)
    case (Inr v)
    then obtain n where "n0 \<le> n" "n \<le> length (cd_written c)" "v = after f (take n (cd_written c)) k"
      using assms(1) Returned by auto
    then show ?thesis using Returned Inr assms(3) by (auto intro!: exI [of _ n])
  qed (use assms(1) Returned in simp)
qed (use assms(1) in simp)

lemma get_same:
  assumes "get_inv f k segs n0 c g" "cd_written c1 = cd_written c" "db_memory (cd_db c1) = db_memory (cd_db c)"
    and "db_nextSegID (cd_db c1) = db_nextSegID (cd_db c)"
  shows "get_inv f k segs n0 c1 g"
  using assms by (cases "(f, k, segs, n0, c, g)" rule: get_inv.cases) (simp_all add: loaded_inv_def)

section \<open>The search\<close>

lemma lists_repr:
  assumes "list_all2 seg_lists segs rs" "\<forall>ds. DiskSeg ds \<in> set segs \<longrightarrow> ds_keyFile ds \<noteq> []"
  shows "list_all2 seg_repr segs rs"
  using assms by (induction rule: list_all2_induct) (auto simp: seg_lists_def empty_disk_def)

lemma search_ok:
  assumes "loaded_inv k f n0 c segs m" "length (j_stack j) = maxKeySize"
  shows "get_inv f k segs n0 c (Returned (get_search j k segs m))"
proof -
  obtain rs r n where i: "list_all2 seg_lists segs rs" "seg_repr (MemSeg m) r" "kept k (rs @ [r])"
    "n0 \<le> n" "n \<le> length (cd_written c)" "shown (rs @ [r]) = after f (take n (cd_written c))"
    using assms(1) unfolding loaded_inv_def by (elim exE conjE)
  have l: "list_all2 seg_lists (copyAndAppend segs (MemSeg m)) (rs @ [r])"
    using i(1) seg_repr_lists [OF i(2)] unfolding copyAndAppend_def by (intro list_all2_appendI) simp_all
  show ?thesis
  proof (cases "get_search j k segs m")
    case (Inr v)
    then have "v = visible (rs @ [r]) k"
      unfolding get_search_def visible_def by (rule multi_get_success [OF l assms(2)])
    then have "v = after f (take n (cd_written c)) k" using kept_visible [OF i(3)] i(6) by simp
    then show ?thesis using Inr i(4,5) by auto
  next
    case (Inl e)
    have "\<exists>ds. DiskSeg ds \<in> set segs \<and> ds_keyFile ds = []"
    proof (rule ccontr)
      assume none: "\<not> (\<exists>ds. DiskSeg ds \<in> set segs \<and> ds_keyFile ds = [])"
      have "list_all2 seg_repr (copyAndAppend segs (MemSeg m)) (rs @ [r])"
        by (rule lists_repr [OF l]) (use none in \<open>auto simp: copyAndAppend_def\<close>)
      from multi_get_repr [OF this assms(2), of k] show False using Inl by (simp add: get_search_def)
    qed
    then show ?thesis using Inl by simp
  qed
qed

lemma load_ok:
  assumes "cd_inv k f W c" "get_load (cd_db c) k = Inr g"
  shows "get_inv f k (db_segments (cd_db c)) (length (cd_written c)) c g"
proof -
  obtain rs r where i: "list_all2 seg_lists (db_segments (cd_db c)) rs" "memory_in (cd_db c) r"
    "keys_nonempty (r @ W)" "kept k (rs @ [r, W])" "shown (rs @ [r]) = after f (cd_written c)"
    by (rule cd_invE [OF assms(1)])
  obtain m where m: "db_memory (cd_db c) = Some m" "ms_repr m r" "ms_id m \<le> db_nextSegID (cd_db c)"
    using i(2) unfolding memory_in_def by (elim exE conjE)
  then have g: "g = Loaded k (db_segments (cd_db c)) m"
    using assms(2) by (auto simp: get_load_def bind_res_eq_Inr split: if_splits)
  have "seg_repr (MemSeg m) r" "kept k (rs @ [r])" using m(2) i(3,4) by simp_all
  then have "loaded_inv k f (length (cd_written c)) c (db_segments (cd_db c)) m"
    using i(1,5) m(1,3) by (intro loaded_invI [where n = "length (cd_written c)"]) simp_all
  then show ?thesis using g by simp
qed

section \<open>Runs\<close>

text \<open>The kinds of step.\<close>

lemma cd_step_kinds:
  assumes "cd_step j rnd (c, g) (c1, g1)" "cd_inv q f W c"
  obtains (moves) kvs where "db_moves (cd_db c) kvs (cd_db c1)" "cd_written c1 = cd_written c @ kvs" "cd_job c1 = cd_job c"
      "g1 = follow (cd_db c1) g"
  | (merge) "cd_inv q f W c1" "cd_written c1 = cd_written c" "db_memory (cd_db c1) = db_memory (cd_db c)"
      "db_nextSegID (cd_db c1) = db_nextSegID (cd_db c)" "g1 = g"
  | (loads) k where "g = Outside" "c1 = c" "get_load (cd_db c) k = Inr g1"
  | (searches) k segs m where "g = Loaded k segs m" "c1 = c" "g1 = Returned (get_search j k segs m)"
proof -
  obtain r where u: "userKeyCompare (db_options (cd_db c)) = None" and mem: "memory_in (cd_db c) r"
    by (rule cd_invE [OF assms(2)])
  obtain m where m: "db_memory (cd_db c) = Some m" using mem unfolding memory_in_def by (elim exE conjE)
  from assms(1) show thesis
  proof cases
    case (put_starts k db v)
    then show thesis using start_moves [OF disjI1 m u, of rnd k db] by (intro moves [of "[]"]) (simp_all add: with_db_def)
  next
    case (remove_starts k v db)
    then show thesis using start_moves [OF disjI2 m u, of j rnd k v db] by (intro moves [of "[]"]) (simp_all add: with_db_def)
  next
    case (put_finishes k v db)
    then show thesis using put_finish_moves by (intro moves [of "[mk_kv k v]"]) (simp_all add: with_db_def)
  next
    case (batch_starts b db)
    then show thesis using batch_start_moves [OF _ m u] by (intro moves [of "[]"]) (simp_all add: with_db_def)
  next
    case (batch_goes_on b kv kvs db)
    then show thesis using batch_entry_moves by (intro moves [of "[kv]"]) (simp_all add: with_db_def)
  next
    case (batch_ends b db)
    then show thesis using batch_end_moves by (intro moves [of "[]"]) (simp_all add: with_db_def)
  next
    case (snapshot sn db)
    then show thesis using snapshot_moves [OF _ m u] by (intro moves [of "[]"]) (simp_all add: with_db_def)
  next
    case (merge_begins s job)
    then show thesis using cd_inv_begin [OF assms(2)] by (intro merge) simp_all
  next
    case (merge_commits job db)
    have c1: "cd_db c1 = db" "cd_written c1 = cd_written c" "cd_job c1 = None" using merge_commits(1) by (simp_all add: with_db_def)
    note k = cd_inv_commit [OF assms(2) merge_commits(4,5) c1]
    obtain segs where "db = (cd_db c)\<lparr>db_segments := segs\<rparr>" using k(2) by blast
    then show thesis using c1 merge_commits(2) k(1) by (intro merge) simp_all
  next
    case (get_loads k)
    then show thesis by (intro loads) simp_all
  next
    case (get_searches k segs m)
    then show thesis by (intro searches) simp_all
  qed
qed

lemma cd_step_ok:
  assumes "cd_step j rnd (c, g) (c1, g1)" "cd_inv k f W c" "W = cd_written c1 @ w" "unat (db_nextSegID (cd_db c)) + 1 < 2 ^ 64"
  shows "cd_inv k f W c1" "\<exists>kvs. cd_written c1 = cd_written c @ kvs"
    and "unat (db_nextSegID (cd_db c1)) \<le> unat (db_nextSegID (cd_db c)) + 1"
    and "length (j_stack j) = maxKeySize \<Longrightarrow> get_inv f k segs n0 c g \<Longrightarrow> get_inv f k segs n0 c1 g1"
proof -
  obtain rs r where rs: "keys_nonempty (r @ W)" "kept k (rs @ [r, W])" by (rule cd_invE [OF assms(2)])
  have "cd_inv k f W c1 \<and> (\<exists>kvs. cd_written c1 = cd_written c @ kvs) \<and>
      unat (db_nextSegID (cd_db c1)) \<le> unat (db_nextSegID (cd_db c)) + 1 \<and>
      (length (j_stack j) = maxKeySize \<longrightarrow> get_inv f k segs n0 c g \<longrightarrow> get_inv f k segs n0 c1 g1)"
    using assms(1,2)
  proof (cases rule: cd_step_kinds)
    case (moves kvs)
    have "cd_inv k f W c1" by (rule cd_inv_moves [OF assms(2) moves(1-3)]) (use assms(3) in blast)
    moreover have "keys_nonempty kvs" "kept k [kvs]" using rs assms(3) moves(2) by simp_all
    moreover have "db_nextSegID (cd_db c1) = db_nextSegID (cd_db c) \<or> db_nextSegID (cd_db c1) = db_nextSegID (cd_db c) + 1"
      using moves(1) unfolding db_moves_def by (elim conjE exE disjE) simp_all
    then have "unat (db_nextSegID (cd_db c1)) \<le> unat (db_nextSegID (cd_db c)) + 1"
      using assms(4) by (auto simp: unat_word_ariths(1))
    ultimately show ?thesis using moves(2,4) get_moves [OF _ moves(1,2) _ _ assms(4)] by blast
  next
    case merge
    then show ?thesis using get_same [of f k segs n0 c g c1] by simp
  next
    case (loads k)
    then show ?thesis using assms(2) by simp
  next
    case (searches k' segs' m)
    then show ?thesis using assms(2) search_ok [of k f n0 c segs m j] by auto
  qed
  then show "cd_inv k f W c1" "\<exists>kvs. cd_written c1 = cd_written c @ kvs"
    "unat (db_nextSegID (cd_db c1)) \<le> unat (db_nextSegID (cd_db c)) + 1"
    "length (j_stack j) = maxKeySize \<Longrightarrow> get_inv f k segs n0 c g \<Longrightarrow> get_inv f k segs n0 c1 g1" by blast+
qed

lemma cd_step_written: "cd_step j rnd (c, g) (c1, g1) \<Longrightarrow> \<exists>kvs. cd_written c1 = cd_written c @ kvs"
  by (erule cd_step.cases) (simp_all add: with_db_def)

lemma cd_run_written: "cd_run j rnd n x y \<Longrightarrow> \<exists>kvs. cd_written (fst y) = cd_written (fst x) @ kvs"
proof (induction rule: cd_run.induct)
  case (cd_more n x y z)
  obtain c g c1 g1 where yz: "y = (c, g)" "z = (c1, g1)" by fastforce
  then show ?case using cd_more.IH cd_step_written [of j rnd c g c1 g1] cd_more.hyps(2) by auto
qed simp

lemma cd_run_ok:
  assumes "cd_run j rnd n x y" "cd_inv k f W (fst x)" "W = cd_written (fst y) @ w"
    and "unat (db_nextSegID (cd_db (fst x))) + n < 2 ^ 64"
  shows "cd_inv k f W (fst y)" "unat (db_nextSegID (cd_db (fst y))) \<le> unat (db_nextSegID (cd_db (fst x))) + n"
    and "\<exists>kvs. cd_written (fst y) = cd_written (fst x) @ kvs"
    and "length (j_stack j) = maxKeySize \<Longrightarrow> get_inv f k segs n0 (fst x) (snd x) \<Longrightarrow> get_inv f k segs n0 (fst y) (snd y)"
proof -
  have "cd_inv k f W (fst y) \<and> unat (db_nextSegID (cd_db (fst y))) \<le> unat (db_nextSegID (cd_db (fst x))) + n \<and>
      (\<exists>kvs. cd_written (fst y) = cd_written (fst x) @ kvs) \<and>
      (length (j_stack j) = maxKeySize \<longrightarrow> get_inv f k segs n0 (fst x) (snd x) \<longrightarrow> get_inv f k segs n0 (fst y) (snd y))"
    using assms
  proof (induction arbitrary: w)
    case (cd_more n x y z)
    obtain c g c1 g1 where yz: "y = (c, g)" "z = (c1, g1)" by fastforce
    obtain kvs where kvs: "cd_written c1 = cd_written c @ kvs" using cd_step_written cd_more.hyps(2) yz by blast
    have W: "W = cd_written c1 @ w" "W = cd_written (fst y) @ kvs @ w" using cd_more.prems(2) kvs yz by simp_all
    have IH: "cd_inv k f W c" "unat (db_nextSegID (cd_db c)) \<le> unat (db_nextSegID (cd_db (fst x))) + n"
      "\<exists>kvs. cd_written c = cd_written (fst x) @ kvs"
      "length (j_stack j) = maxKeySize \<longrightarrow> get_inv f k segs n0 (fst x) (snd x) \<longrightarrow> get_inv f k segs n0 c g"
      using cd_more.IH [OF cd_more.prems(1) W(2)] cd_more.prems(3) yz(1) by simp_all
    have "unat (db_nextSegID (cd_db c)) + 1 < 2 ^ 64" using IH(2) cd_more.prems(3) by linarith
    note st = cd_step_ok [OF cd_more.hyps(2) [unfolded yz] IH(1) W(1) this]
    have "unat (db_nextSegID (cd_db c1)) \<le> unat (db_nextSegID (cd_db (fst x))) + Suc n" using st(3) IH(2) by linarith
    then show ?case using st(1,4) IH(3,4) kvs unfolding yz fst_conv snd_conv by auto
  qed simp
  then show "cd_inv k f W (fst y)" "unat (db_nextSegID (cd_db (fst y))) \<le> unat (db_nextSegID (cd_db (fst x))) + n"
    "\<exists>kvs. cd_written (fst y) = cd_written (fst x) @ kvs"
    "length (j_stack j) = maxKeySize \<Longrightarrow> get_inv f k segs n0 (fst x) (snd x) \<Longrightarrow> get_inv f k segs n0 (fst y) (snd y)" by blast+
qed

lemma cd_inv_start:
  assumes "db_shape seg_lists (sys_db s) rs r" "1 \<le> maxSegments (db_options (sys_db s))"
    and "db_memory (sys_db s) = Some m" "ms_id m \<le> db_nextSegID (sys_db s)"
    and "runs_fit (rs @ [r, W])" "keys_nonempty W" "kept k (rs @ [r, W])"
  shows "cd_inv k (shown (rs @ [r])) W (cd_start s)"
proof (rule cd_invI [where rs = rs and r = r and w = W])
  have d: "userKeyCompare (db_options (sys_db s)) = None" "list_all2 seg_lists (db_segments (sys_db s)) rs" "seg_repr (MemSeg m) r"
    using assms(1,3) by (auto simp: db_shape_def)
  show "list_all2 seg_lists (db_segments (cd_db (cd_start s))) rs" using d(2) by (simp add: cd_start_def)
  show "memory_in (cd_db (cd_start s)) r" using d(3) assms(3,4) by (simp add: cd_start_def memory_in_def)
  show "userKeyCompare (db_options (cd_db (cd_start s))) = None" "1 \<le> maxSegments (db_options (cd_db (cd_start s)))"
    using d(1) assms(2) by (simp_all add: cd_start_def)
  show "W = cd_written (cd_start s) @ W" "case cd_job (cd_start s) of None \<Rightarrow> True | Some job \<Rightarrow> job_ok (db_segments (cd_db (cd_start s))) rs job"
    "shown (rs @ [r]) = after (shown (rs @ [r])) (cd_written (cd_start s))" by (simp_all add: cd_start_def after_def)
  show "keys_nonempty (r @ W)" using d(3) assms(6) by simp
qed (use assms in simp_all)

text \<open>C4. \<^verbatim>\<open>get\<close> needs no lock: in every interleaving of it with puts, removes, snapshots, batches pair by pair, and
  merges, a get of a key that is not removed itself, neither before nor in the run, returns what the database holds under
  the key at some moment between its beginning and its end, where a put counts from its write to the memory segment and a
  batch takes effect one pair after the other. It fails only if it meets a disk segment with an empty key file. (Of a removed
  key \<^verbatim>\<open>get\<close> can return what an older segment has.)\<close>

theorem gets_linearize:
  assumes "db_shape seg_lists (sys_db s) rs r" and "1 \<le> maxSegments (db_options (sys_db s))"
    and "db_memory (sys_db s) = Some m" and "ms_id m \<le> db_nextSegID (sys_db s)" and "length (j_stack j) = maxKeySize"
    and "cd_run j rnd n1 (cd_start s, Outside) (c1, Outside)" and "get_load (cd_db c1) k = Inr g1"
    and "cd_run j rnd n2 (c1, g1) (c2, g2)" and "unat (db_nextSegID (sys_db s)) + n1 + n2 < 2 ^ 64"
    and "runs_fit (rs @ [r, cd_written c2])" and "keys_nonempty (cd_written c2)" and "kept k (rs @ [r, cd_written c2])"
  shows "case g2 of Outside \<Rightarrow> False
         | Loaded k' segs m' \<Rightarrow> cd_step j rnd (c2, g2) (c2, Returned (get_search j k segs m'))
         | Returned (Inl e) \<Rightarrow> \<exists>ds. DiskSeg ds \<in> set (db_segments (cd_db c1)) \<and> ds_keyFile ds = []
         | Returned (Inr v) \<Rightarrow> \<exists>n. length (cd_written c1) \<le> n \<and> n \<le> length (cd_written c2) \<and>
             v = foldl (\<lambda>f kv. f(kv_key kv := kv_value kv)) (shown (rs @ [r])) (take n (cd_written c2)) k"
proof -
  let ?f = "shown (rs @ [r])" and ?W = "cd_written c2"
  have start: "cd_inv k ?f ?W (cd_start s)" by (rule cd_inv_start [OF assms(1-4,10-12)])
  obtain kvs where W: "?W = cd_written (fst (c1, Outside)) @ kvs" using cd_run_written [OF assms(8)] by auto
  note run1 = cd_run_ok [OF assms(6) _ W]
  have i1: "cd_inv k ?f ?W c1" "unat (db_nextSegID (cd_db c1)) \<le> unat (db_nextSegID (sys_db s)) + n1"
    using run1(1,2) [of k ?f] start assms(9) by (simp_all add: cd_start_def)
  have "get_inv ?f k (db_segments (cd_db c1)) (length (cd_written c1)) (fst (c1, g1)) (snd (c1, g1))"
    unfolding fst_conv snd_conv by (rule load_ok [OF i1(1) assms(7)])
  moreover have "unat (db_nextSegID (cd_db (fst (c1, g1)))) + n2 < 2 ^ 64" using i1(2) assms(9) by simp
  moreover have "cd_inv k ?f ?W (fst (c1, g1))" "?W = cd_written (fst (c2, g2)) @ []" using i1(1) by simp_all
  ultimately have inv: "get_inv ?f k (db_segments (cd_db c1)) (length (cd_written c1)) (fst (c2, g2)) (snd (c2, g2))"
    by (intro cd_run_ok(4) [OF assms(8) _ _ _ assms(5)])
  then show ?thesis
  proof (cases g2)
    case (Returned x)
    then show ?thesis using inv
      by (cases x) (simp_all add: after_def)
  qed (simp_all add: get_searches)
qed

theorem gets_linearize_witness:
  "\<exists>m c2 v. db_memory (sys_db fresh_system) = Some m \<and>
     cd_run \<lparr>j_stack = replicate maxKeySize 0, j_buffer = []\<rparr> (\<lambda>i. 0) 3 (cd_start fresh_system, Loaded [1] [] m) (c2, Returned (Inr v)) \<and>
     cd_written c2 = [mk_kv [1] [2]] \<and>
     (\<exists>n. 0 \<le> n \<and> n \<le> length (cd_written c2) \<and>
        v = foldl (\<lambda>f kv. f(kv_key kv := kv_value kv)) (shown ([] @ [[]])) (take n (cd_written c2)) [1])"
proof -
  let ?j = "\<lparr>j_stack = replicate maxKeySize 0, j_buffer = []\<rparr>" and ?c = "cd_start fresh_system"
  obtain m where m: "db_memory (sys_db fresh_system) = Some m" "ms_id m = 1" "db_nextSegID (sys_db fresh_system) = 1"
    "db_segments (sys_db fresh_system) = []" by (rule fresh_memory)
  have o: "db_open (sys_db fresh_system)" using fresh_inv(2) by (simp add: db_shape_def)
  obtain db1 rs1 r1 where s: "maybeSwapMemory (\<lambda>i. 0) (sys_db fresh_system) = Inr db1" "db_repr db1 rs1 r1"
    using maybeSwapMemory_repr [OF fresh_inv(2)] by blast
  obtain m1 m2 where p: "db_memory db1 = Some m1" "ms_put m1 [1] [2] = Inr (value_in r1 [1], m2)"
    using put_memory_repr [OF s(2), of "[1]" "[2]"] by blast
  let ?db2 = "maybeMerge (db1\<lparr>db_memory := Some m2\<rparr>)"
  let ?c1 = "with_db db1 (Putting [1] [2]) ?c" let ?c2 = "(with_db ?db2 Idle ?c1)\<lparr>cd_written := cd_written ?c1 @ [mk_kv [1] [2]]\<rparr>"
  obtain m3 where f: "follow ?db2 (follow db1 (Loaded [1] [] m)) = Loaded [1] [] m3" by simp
  have "cd_step ?j (\<lambda>i. 0) (?c, Loaded [1] [] m) (?c1, follow db1 (Loaded [1] [] m))"
    by (rule put_starts) (use o s(1) in \<open>simp_all add: cd_start_def put_start_def checkKey_def\<close>)
  moreover have "cd_step ?j (\<lambda>i. 0) (?c1, follow db1 (Loaded [1] [] m)) (?c2, follow ?db2 (follow db1 (Loaded [1] [] m)))"
    by (rule put_finishes) (use p in \<open>simp_all add: with_db_def put_finish_def\<close>)
  moreover have "cd_step ?j (\<lambda>i. 0) (?c2, Loaded [1] [] m3) (?c2, Returned (get_search ?j [1] [] m3))" by (rule get_searches)
  ultimately have run: "cd_run ?j (\<lambda>i. 0) (Suc (Suc (Suc 0))) (?c, Loaded [1] [] m) (?c2, Returned (get_search ?j [1] [] m3))"
    unfolding f by (intro cd_more [OF cd_more [OF cd_more [OF cd_refl]]])
  have load: "get_load (cd_db ?c) [1] = Inr (Loaded [1] [] m)"
    using o m(1,4) by (simp add: get_load_def cd_start_def checkKey_def)
  have w: "cd_written ?c2 = [mk_kv [1] [2]]" by (simp add: with_db_def cd_start_def)
  have "case Returned (get_search ?j [1] [] m3) of Outside \<Rightarrow> False
      | Loaded k' segs m' \<Rightarrow> cd_step ?j (\<lambda>i. 0) (?c2, Returned (get_search ?j [1] [] m3)) (?c2, Returned (get_search ?j [1] segs m'))
      | Returned (Inl e) \<Rightarrow> \<exists>ds. DiskSeg ds \<in> set (db_segments (cd_db ?c)) \<and> ds_keyFile ds = []
      | Returned (Inr v) \<Rightarrow> \<exists>n. length (cd_written ?c) \<le> n \<and> n \<le> length (cd_written ?c2) \<and>
          v = foldl (\<lambda>f kv. f(kv_key kv := kv_value kv)) (shown ([] @ [[]])) (take n (cd_written ?c2)) [1]"
    by (rule gets_linearize [OF repr_shape [OF fresh_inv(2)] fresh_inv(3) m(1) _ _ cd_refl load run])
       (simp_all add: m(2,3) w, simp add: runs_fit_def values_of_def maxKeySize_def)
  moreover have "db_segments (cd_db ?c) = []" using m(4) by (simp add: cd_start_def)
  ultimately obtain v n where "get_search ?j [1] [] m3 = Inr v" "n \<le> length (cd_written ?c2)"
    "v = foldl (\<lambda>f kv. f(kv_key kv := kv_value kv)) (shown ([] @ [[]])) (take n (cd_written ?c2)) [1]"
    by (cases "get_search ?j [1] [] m3") auto
  then show ?thesis using m(1) run w
    by (intro exI [of _ m] exI [of _ ?c2] exI [of _ v]) (auto simp: numeral_3_eq_3)
qed

end
