(* ===== verification/LogClose.thy ===== *)
theory LogClose
  imports LogLife
begin

text \<open>
  Whole sessions with their logs: a directory is opened, used, and closed, any number of times. The merged memory
  segments nothing refers to are destroyed when the close returns. The theorem: sessions lead from a directory of
  disk segments without logs to another one, which shows what all their operations made of the first.
\<close>

section \<open>Closing\<close>

text \<open>
  \<^verbatim>\<open>closeWithMerge\<close> with the lifetimes: \<^verbatim>\<open>writeSegmentToDisk\<close> removes the logs of the memory segments it writes. The
  merged ones are kept by \<^verbatim>\<open>newState\<close> until the function returns; then those that no reader holds are destroyed.
\<close>

definition life_close :: "junk \<Rightarrow> int \<Rightarrow> living \<Rightarrow> system res" where
  "life_close j n l =
     bind_res (close_request (lv_system l)) (\<lambda>s1.
     bind_res (close_swap s1) (\<lambda>s2.
     bind_res (close_merge j kv_cmp n s2) (\<lambda>s3.
     bind_res (close_write j kv_cmp s3) (\<lambda>s4.
       let s5 = close_finish s4;
           merged = filter (\<lambda>i. i \<notin> set (memory_ids (db_segments (sys_db s3)))) (memory_ids (db_segments (sys_db s2)))
       in Inr (s5\<lparr>sys_files := fold (destroy_memory (merged @ lv_flagged l) (lv_created l))
                  (filter (\<lambda>i. i \<notin> set (concat (lv_holders l))) merged) (sys_files s5)\<rparr>)))))"

text \<open>The merges of a close leave the logs alone, and the memory segments they keep are old ones.\<close>

lemma merge_commit_segments:
  "merge_commit job db = Inr db' \<Longrightarrow> MemSeg m \<in> set (db_segments db') \<Longrightarrow> MemSeg m \<in> set (db_segments db)"
  by (auto simp: merge_commit_def bind_res_eq_Inr dest: in_set_takeD in_set_dropD)

lemma mergeSegments0_logs:
  assumes "mergeSegments0 j icmp n s = Some y"
  shows "\<forall>s'. y = Inr s' \<longrightarrow> (\<forall>i. sys_files s' (log_name i) = sys_files s (log_name i)) \<and>
           (\<forall>m. MemSeg m \<in> set (db_segments (sys_db s')) \<longrightarrow> MemSeg m \<in> set (db_segments (sys_db s)))"
proof (rule mergeSegments0.raw_induct [OF _ assms], intro allI impI)
  fix loop :: "junk \<Rightarrow> kv_compare \<Rightarrow> int \<Rightarrow> system \<Rightarrow> system res option" and j icmp n s y s'
  let ?P = "\<lambda>s s'. (\<forall>i. sys_files s' (log_name i) = sys_files s (log_name i)) \<and>
      (\<forall>m. MemSeg m \<in> set (db_segments (sys_db s')) \<longrightarrow> MemSeg m \<in> set (db_segments (sys_db s)))"
  assume loop: "\<And>j icmp n s y. loop j icmp n s = Some y \<Longrightarrow> \<forall>s'. y = Inr s' \<longrightarrow> ?P s s'"
    and body: "(if few_segments (db_segments (sys_db s)) n then Some (Inr s)
      else case bind_res (merge_begin j icmp s) (\<lambda>(job, s1).
             bind_res (merge_commit job (sys_db s1)) (\<lambda>db. Inr (s1\<lparr>sys_db := db\<rparr>))) of
             Inl e \<Rightarrow> Some (Inl e) | Inr s2 \<Rightarrow> loop j icmp n s2) = Some y" and y: "y = Inr s'"
  show "?P s s'"
  proof (cases "few_segments (db_segments (sys_db s)) n")
    case False
    then obtain job s1 db where m: "merge_begin j icmp s = Inr (job, s1)" "merge_commit job (sys_db s1) = Inr db"
      "loop j icmp n (s1\<lparr>sys_db := db\<rparr>) = Some (Inr s')"
      using body y by (auto simp: bind_res_def split: sum.splits)
    then show ?thesis
      using loop [OF m(3)] merge_begin_db [OF m(1)] merge_begin_logs [OF m(1)] merge_commit_segments [OF m(2)] by simp
  qed (use body y in simp)
qed

lemma close_merge_logs:
  assumes "close_merge j icmp n s = Inr s'"
  shows "sys_files s' (log_name i) = sys_files s (log_name i)"
    "MemSeg m \<in> set (db_segments (sys_db s')) \<Longrightarrow> MemSeg m \<in> set (db_segments (sys_db s))"
  using assms mergeSegments0_logs [of j icmp n s "Inr s'"] by (auto simp: close_merge_def split: if_splits option.splits)

text \<open>Writing the memory segments removes their logs.\<close>

lemma writeSegmentToDisk_logs:
  assumes "writeSegmentToDisk j icmp path (MemSeg m) d = Inr d'"
  shows "d' (log_name i) = (if i = ms_id m \<and> ms_log m \<noteq> None then None else d (log_name i))"
proof -
  obtain it k it1 where "seg_lookup j icmp (MemSeg m) [] [] = Inr it" "seg_peekKey it = Inr (k, it1)" and
    w: "(if k = [] then Inr (seg_removeSegment (MemSeg m) d)
        else bind_res (writeAndLoadSegment seg_next path (key_name (seg_ids (MemSeg m))) (data_name (seg_ids (MemSeg m))) it1 False d)
               (\<lambda>(s, d1). Inr (seg_removeSegment (MemSeg m) d1))) = Inr d'"
    using assms by (auto simp: writeSegmentToDisk_def bind_res_eq_Inr simp del: seg_lookup.simps seg_removeSegment.simps)
  show ?thesis
  proof (cases "k = []")
    case True
    then show ?thesis using w by (auto simp: fs_remove_def)
  next
    case False
    then obtain s d1 where "writeAndLoadSegment seg_next path (key_name (seg_ids (MemSeg m))) (data_name (seg_ids (MemSeg m))) it1 False d =
        Inr (s, d1)" "d' = seg_removeSegment (MemSeg m) d1"
      using w by (auto simp: bind_res_eq_Inr simp del: seg_removeSegment.simps)
    then show ?thesis using writeAndLoad_logs [of seg_next path _ it1 False d s d1 i] by (auto simp: fs_remove_def)
  qed
qed

lemma write_segments_logs:
  assumes "write_segments j icmp path segs d = Inr d'"
  shows "d' (log_name i) \<noteq> None \<longleftrightarrow>
           d (log_name i) \<noteq> None \<and> \<not> (\<exists>m. MemSeg m \<in> set segs \<and> ms_id m = i \<and> ms_log m \<noteq> None)"
  using assms
proof (induction segs arbitrary: d)
  case (Cons s segs)
  then obtain d1 where d1: "(if is_memory s then writeSegmentToDisk j icmp path s d else Inr d) = Inr d1"
    "write_segments j icmp path segs d1 = Inr d'"
    by (auto simp: bind_res_eq_Inr)
  note ih = Cons.IH [OF d1(2)]
  show ?case
  proof (cases s)
    case (MemSeg m)
    then have "writeSegmentToDisk j icmp path (MemSeg m) d = Inr d1" using d1(1) by simp
    from writeSegmentToDisk_logs [OF this, of i] show ?thesis using ih MemSeg by auto
  qed (use d1(1) ih in auto)
qed simp

lemma close_written_logs:
  assumes "close_write j kv_cmp s = Inr s4" "sys_files (close_finish s4) (log_name i) \<noteq> None"
  shows "sys_files s (log_name i) \<noteq> None" "MemSeg m \<in> set (db_segments (sys_db s)) \<Longrightarrow> ms_id m = i \<Longrightarrow> ms_log m = None"
proof -
  obtain d where d: "write_segments j kv_cmp (db_path (sys_db s)) (db_segments (sys_db s)) (sys_files s) = Inr d"
    "s4 = s\<lparr>sys_files := d\<rparr>"
    using assms(1) by (auto simp: close_write_def bind_res_eq_Inr)
  have "d (log_name i) \<noteq> None"
    using assms(2) d(2) by (auto simp: close_finish_def deleteScheduled_files split: prod.splits if_splits dest!: arg_cong [of _ _ snd])
  then have "sys_files s (log_name i) \<noteq> None \<and> \<not> (\<exists>m. MemSeg m \<in> set (db_segments (sys_db s)) \<and> ms_id m = i \<and> ms_log m \<noteq> None)"
    unfolding write_segments_logs [OF d(1)] .
  then show "sys_files s (log_name i) \<noteq> None" "MemSeg m \<in> set (db_segments (sys_db s)) \<Longrightarrow> ms_id m = i \<Longrightarrow> ms_log m = None" by auto
qed

section \<open>Opening\<close>

text \<open>What a close leaves behind: the files of disk segments with the runs \<open>rs\<close>, and no logs.\<close>

definition closed_dir :: "directory \<Rightarrow> segment list \<Rightarrow> keyvalue list list \<Rightarrow> bool" where
  "closed_dir d segs rs \<longleftrightarrow>
     files_ok d segs \<and> all_disk segs \<and> list_all2 seg_lists segs rs \<and> d ''deleted'' = None \<and> (\<forall>i. d (log_name i) = None)"

lemma opened_dir_closed:
  assumes "d ''deleted'' = None" "finite (dom d)"
  shows "logs_change d (opened_dir d)" "opened_dir d (log_name i) = d (log_name i)"
proof -
  have n: "scheduled d = []" using assms(1) by (simp add: scheduled_def)
  have "dom (opened_dir d) \<subseteq> insert ''lockfile'' (dom d)" by (auto simp: opened_dir_file split: if_splits)
  then have "finite (dom (opened_dir d))" using assms(2) by (meson finite_insert finite_subset)
  moreover have "opened_dir d name = d name \<or> name = ''lockfile''" for name
    using assms(1) n by (simp add: opened_dir_file)
  ultimately show "logs_change d (opened_dir d)" unfolding logs_change_def by blast
  show "opened_dir d (log_name i) = d (log_name i)"
    using n by (simp add: opened_dir_file) (simp add: log_name_def)
qed

lemma maxSegID_above:
  assumes "maxSegID segs < - 1" "s \<in> set segs"
  shows "seg_upperID s < maxSegID segs + 1"
proof -
  have "seg_upperID s \<le> maxSegID segs" using foldl_max_bounds(2) [OF assms(2), of seg_upperID 0] by (simp add: maxSegID_def)
  then show ?thesis using next_less [OF assms(1)] by (rule le_less_trans)
qed

lemma open_closed:
  assumes "closed_dir d segs rs" "userKeyCompare opts = None" "flushing opts" "path \<noteq> ''''" "CHR ''.'' \<notin> set path"
    and "set names = dom d" "set names1 = dom (opened_dir d)" "set names2 = dom (opened_dir d)" "distinct names2"
    and "fst (tryLock (newLockFile (path @ ''/lockfile'')) os)" "maxSegID segs < - 1"
  shows "\<exists>op. openImpl e static path opts names names1 names2 cwd os (Dir d) = Inr op \<and> just_opened (op_system op) rs \<and>
           db_path (sys_db (op_system op)) = path \<and> db_nextSegID (sys_db (op_system op)) = maxSegID segs + 1"
proof -
  have c: "files_ok d segs" "all_disk segs" "list_all2 seg_lists segs rs" "d ''deleted'' = None" "d (log_name i) = None" for i
    using assms(1) by (simp_all add: closed_dir_def)
  obtain op where op: "openImpl e static path opts names names1 names2 cwd os (Dir d) = Inr op"
    "sys_db (op_system op) = open_state (e_rnd e) static path opts segs"
    "sys_files (op_system op) = opened_dir d" "dl_path (sys_deleter (op_system op)) = path"
    using openImpl_ok [OF files_ok_openable [OF c(1,2)] c(3) assms(5-10), of e static opts cwd] by blast
  note st = opened_fields [OF assms(2), of "e_rnd e" static path segs]
  let ?m = "newMemorySegment kv_cmp (e_rnd e) path (maxSegID segs + 1) (raise_options opts)"
  have id: "ms_id ?m = maxSegID segs + 1" by (simp add: newMemorySegment_def)
  have fin: "finite (dom d)" using c(1) by (simp add: files_ok_def)
  have f1: "files_ok (opened_dir d) segs" by (rule files_ok_logs [OF c(1) opened_dir_closed(1) [OF c(4) fin]])
  have ch: "chain (segs @ [MemSeg ?m])"
    using c(1) maxSegID_above [OF assms(11)] id by (auto simp: chain_snoc files_ok_def)
  then have "files_ok (opened_dir d) (segs @ [MemSeg ?m])" by (rule files_ok_memory [OF f1]) auto
  then have "files_inv (op_system op, None)"
    using op(2-4) st ch id assms(4,5)
    by (simp add: files_inv_def ids_ok_def committed_def db_multi_memory [OF st(1)])
  moreover have "db_shape seg_lists (open_state (e_rnd e) static path opts segs) rs []"
    by (rule open_state_repr [OF assms(2) c(3)])
  moreover have "1 \<le> maxSegments (raise_options opts)" by (simp add: raise_options_def dbMaxSegments_def Let_def)
  ultimately have "just_opened (op_system op) rs"
    unfolding just_opened_def op(2,3) st using c(2,5) assms(3,4) opened_dir_closed(2) [OF c(4) fin] by auto
  then show ?thesis using op(1,2) st by auto
qed

section \<open>The end of a session\<close>

lemma chain_last_id:
  assumes "chain (segs @ [MemSeg m])" "s \<in> set (segs @ [MemSeg m])"
  shows "seg_upperID s \<le> ms_id m"
  using assms by (auto simp: chain_snoc intro: less_imp_le)

text \<open>What a session leaves for those after it.\<close>

lemma session_budget:
  assumes "sys_inv f w (s, None)" "files_inv (s, None)"
  shows "\<exists>rs r. session s rs r \<and> shown (rs @ [r]) = f \<and> budget (db_nextSegID (sys_db s)) w (db_multi (sys_db s)) (rs @ [r])"
proof -
  obtain rs r where i: "db_shape seg_lists (sys_db s) rs r" "shown (rs @ [r]) = f" "runs_fit (rs @ [r, w])"
    using assms(1) by (auto simp: sys_inv_def)
  have "runs_fit (rs @ [r])" using i(3) runs_fit_prefix [of "rs @ [r]" "[w]"] by simp
  then have "session s rs r" using assms(2) i(1) by (simp add: session_def files_inv_def committed_def)
  moreover have "runs_fit (w # rs @ [r])" using i(3) runs_fit_swap [of "rs @ [r]" "[w]"] by simp
  moreover obtain m where m: "db_memory (sys_db s) = Some m" "ms_id m = db_nextSegID (sys_db s)" "chain (db_multi (sys_db s))"
    using assms(2) by (auto simp: files_inv_def ids_ok_def)
  then have "\<forall>x \<in> set (db_multi (sys_db s)). seg_upperID x \<le> db_nextSegID (sys_db s)"
    using chain_last_id [of "db_segments (sys_db s)" m] by (simp add: db_multi_memory [OF m(1)])
  ultimately show ?thesis using i(2) unfolding budget_def by blast
qed

lemma life_close_ok:
  assumes "life_inv f w k path l" "lv_job l = None"
  shows "\<exists>s' segs rs'. life_close j n l = Inr s' \<and> \<not> db_open (sys_db s') \<and> db_path (sys_db s') = path \<and>
           files_ok (sys_files s') segs \<and> all_disk segs \<and> list_all2 seg_lists segs rs' \<and> sys_files s' ''deleted'' = None \<and>
           shown rs' = f \<and> (lv_holders l = [] \<longrightarrow> (\<forall>i. sys_files s' (log_name i) = None)) \<and>
           budget (db_nextSegID (sys_db (lv_system l))) w segs rs'"
proof -
  let ?s = "lv_system l"
  have live: "sys_inv f w (?s, None)" "files_inv (?s, None)" "db_path (sys_db ?s) = path" and log: "log_inv l"
    using assms by (simp_all add: life_inv_def live_inv_def)
  obtain rs r where sess: "session ?s rs r" "shown (rs @ [r]) = f"
    "budget (db_nextSegID (sys_db ?s)) w (db_multi (sys_db ?s)) (rs @ [r])"
    using session_budget [OF live(1,2)] by blast
  obtain s1 where s1: "close_request ?s = Inr s1" "session s1 rs r" "db_path (sys_db s1) = path"
    using session_request [OF sess(1)] live(3) by auto
  have s1f: "sys_files s1 = sys_files ?s" "db_multi (sys_db s1) = db_multi (sys_db ?s)" "db_memory (sys_db s1) = db_memory (sys_db ?s)"
    using s1(1) by (auto simp: close_request_def db_multi_def split: if_splits option.split)
  obtain s2 s3 rs2 where s3: "close_swap s1 = Inr s2" "close_merge j kv_cmp n s2 = Inr s3" "sys_ok s3 rs2"
    "shown rs2 = shown (rs @ [r])" "db_path (sys_db s3) = db_path (sys_db s1)"
    "\<forall>b w. budget b w (db_multi (sys_db s1)) (rs @ [r]) \<longrightarrow> budget b w (db_segments (sys_db s3)) rs2"
    using close_merged [OF s1(2), of j n] by (elim exE conjE) (rule that; assumption)
  have bud: "budget (db_nextSegID (sys_db ?s)) w (db_segments (sys_db s3)) rs2" using s3(6) sess(3) unfolding s1f(2) by blast
  have s2f: "sys_files s2 = sys_files ?s" "db_segments (sys_db s2) = db_multi (sys_db ?s)"
    using s3(1) s1f by (auto simp: close_swap_def bind_res_eq_Inr access_eq_Inr db_multi_def split: option.splits)
  obtain s4 segs rs' where w: "close_write j kv_cmp s3 = Inr s4" "\<not> db_open (sys_db (close_finish s4))"
    "db_path (sys_db (close_finish s4)) = path" "list_all2 seg_lists segs rs'" "all_disk segs"
    "files_ok (sys_files (close_finish s4)) segs" "sys_files (close_finish s4) ''deleted'' = None" "shown rs' = f"
    "budget (db_nextSegID (sys_db ?s)) w segs rs'"
    using close_written [OF s3(3), of j] s3(4,5) s1(3) sess(2) bud by auto
  define merged where "merged = filter (\<lambda>i. i \<notin> set (memory_ids (db_segments (sys_db s3)))) (memory_ids (db_segments (sys_db s2)))"
  define d where "d = fold (destroy_memory (merged @ lv_flagged l) (lv_created l))
      (filter (\<lambda>i. i \<notin> set (concat (lv_holders l))) merged) (sys_files (close_finish s4))"
  have fin: "finite (dom (sys_files (close_finish s4)))" using w(6) by (simp add: files_ok_def)
  have change: "logs_change (sys_files (close_finish s4)) d" unfolding d_def by (rule logs_change_destroy [OF fin])
  have dir: "files_ok d segs" by (rule files_ok_logs [OF w(6) change])
  have del: "d ''deleted'' = None" using w(7) unfolding d_def destroy_fold by simp
  have close: "life_close j n l = Inr ((close_finish s4)\<lparr>sys_files := d\<rparr>)"
    unfolding life_close_def s1(1) s3(1,2) w(1) bind_res_Inr Let_def merged_def [symmetric] d_def [symmetric] ..
  have "d (log_name i) = None" if h: "lv_holders l = []" for i
  proof (rule ccontr)
    assume di: "d (log_name i) \<noteq> None"
    then have n: "sys_files (close_finish s4) (log_name i) \<noteq> None" by (auto simp: d_def destroy_fold split: if_splits)
    have "sys_files s3 (log_name i) \<noteq> None" using close_written_logs(1) [OF w(1) n] by simp
    then have "sys_files ?s (log_name i) \<noteq> None" using close_merge_logs(1) [OF s3(2)] s2f(1) by simp
    then have i: "i \<in> set (lv_created l)" "i \<in> set (referenced l)" using log by (simp_all add: log_inv_def)
    have "lv_merger l = []" using log assms(2) by (simp add: log_inv_def)
    then have "i \<in> set (memory_ids (db_multi (sys_db ?s)))" using i(2) h by (simp add: referenced_def)
    then have mem: "i \<in> set (memory_ids (db_segments (sys_db s2)))" using s2f(2) by simp
    have "i \<in> set (memory_ids (db_segments (sys_db s3)))"
    proof (rule ccontr)
      assume "i \<notin> set (memory_ids (db_segments (sys_db s3)))"
      then have "i \<in> set merged" using mem by (simp add: merged_def)
      then show False using di i(1) h by (simp add: d_def destroy_fold)
    qed
    then obtain m where m: "MemSeg m \<in> set (db_segments (sys_db s3))" "ms_id m = i" unfolding memory_ids_set by blast
    then have "MemSeg m \<in> set (db_multi (sys_db ?s))" using close_merge_logs(2) [OF s3(2)] s2f(2) by auto
    then have "logged_in (sys_files ?s) (lv_created l) m" using log by (simp add: log_inv_def)
    then have "ms_log m \<noteq> None" using i(1) m(2) by (cases "ms_log m") (auto simp: logged_in_def)
    moreover have "ms_log m = None" using close_written_logs(2) [OF w(1) n] m by simp
    ultimately show False by simp
  qed
  then show ?thesis
    using close w(2-5,8,9) dir del by (intro exI [of _ "(close_finish s4)\<lparr>sys_files := d\<rparr>"] exI [of _ segs] exI [of _ rs']) simp
qed

section \<open>One session\<close>

lemma maxSegID_le:
  assumes "\<forall>s \<in> set segs. seg_upperID s \<le> b"
  shows "maxSegID segs \<le> b"
proof -
  have "a \<le> b \<longrightarrow> foldl (\<lambda>m s. if m > seg_upperID s then m else seg_upperID s) a segs \<le> b" for a
    using assms by (induction segs arbitrary: a) simp_all
  from this [of 0] show ?thesis unfolding maxSegID_def by simp
qed

text \<open>\<open>rest\<close> are the events of the sessions to come, \<open>k\<close> is their number.\<close>

lemma session_once:
  assumes "closed_dir d segs rs" and "userKeyCompare opts = None" and "flushing opts" and "path \<noteq> ''''" and "CHR ''.'' \<notin> set path"
    and "set names = dom d" and "set names1 = dom (opened_dir d)" and "set names2 = dom (opened_dir d)" and "distinct names2"
    and "fst (tryLock (newLockFile (path @ ''/lockfile'')) os)" and "unat (maxSegID segs) + 1 + (length (es @ rest) + k) < 2 ^ 64"
    and "length (j_stack j) = maxKeySize" and "room (rs @ [[]]) (map Client (life_actions (es @ rest)))" and "units_fit es"
  shows "\<exists>op. openImpl e static path opts names names1 names2 cwd os (Dir d) = Inr op \<and>
           (\<forall>l. life_run j rnd (begin_life (op_system op)) es l \<and> lv_job l = None \<longrightarrow>
              (\<exists>s' segs' rs'. life_close j n l = Inr s' \<and> \<not> db_open (sys_db s') \<and>
                 shown rs' = foldl shown_step (shown rs) (life_actions es) \<and>
                 (lv_holders l = [] \<longrightarrow> closed_dir (sys_files s') segs' rs') \<and>
                 reopens j path (sys_files s') (shown rs') \<and>
                 room (rs' @ [[]]) (map Client (life_actions rest)) \<and> unat (maxSegID segs') + (length rest + k) < 2 ^ 64))"
proof -
  have "unat (maxSegID segs) < unat (- 1 :: u64)" using assms(11) by (simp add: unsigned_minus_1_eq_mask mask_eq_exp_minus_1)
  then have top: "maxSegID segs < - 1" by (simp only: word_less_nat_alt)
  obtain op where op: "openImpl e static path opts names names1 names2 cwd os (Dir d) = Inr op" "just_opened (op_system op) rs"
    "db_path (sys_db (op_system op)) = path" "db_nextSegID (sys_db (op_system op)) = maxSegID segs + 1"
    using open_closed [OF assms(1-10) top, of e static cwd] by blast
  have "unat (maxSegID segs + 1) \<le> unat (maxSegID segs) + 1" by (simp add: unat_word_ariths)
  then have b: "unat (db_nextSegID (sys_db (op_system op))) + (length (es @ rest) + k) < 2 ^ 64" using assms(11) op(4) by simp
  have start: "life_inv (shown rs) (life_pairs es @ life_pairs rest) (length es + (length rest + k)) path (begin_life (op_system op))"
    using life_start [OF op(2) assms(13) b] op(3) by (simp add: life_pairs_append add.assoc)
  have "\<exists>s' segs' rs'. life_close j n l = Inr s' \<and> \<not> db_open (sys_db s') \<and>
          shown rs' = foldl shown_step (shown rs) (life_actions es) \<and>
          (lv_holders l = [] \<longrightarrow> closed_dir (sys_files s') segs' rs') \<and> reopens j path (sys_files s') (shown rs') \<and>
          room (rs' @ [[]]) (map Client (life_actions rest)) \<and> unat (maxSegID segs') + (length rest + k) < 2 ^ 64"
    if l: "life_run j rnd (begin_life (op_system op)) es l" "lv_job l = None" for l
  proof -
    note inv = life_run_inv [OF l(1) start assms(14,12)]
    from life_close_ok [OF inv l(2), of j n]
    obtain s' segs' rs' where c: "life_close j n l = Inr s'" "\<not> db_open (sys_db s')" "files_ok (sys_files s') segs'" "all_disk segs'"
      "list_all2 seg_lists segs' rs'" "sys_files s' ''deleted'' = None" "shown rs' = foldl shown_step (shown rs) (life_actions es)"
      "lv_holders l = [] \<longrightarrow> (\<forall>i. sys_files s' (log_name i) = None)"
      "budget (db_nextSegID (sys_db (lv_system l))) (life_pairs rest) segs' rs'"
      by (elim exE conjE) (rule that; assumption)
    have re: "reopens j path (sys_files s') (shown rs')"
      by (rule openable_reopens [OF files_ok_openable [OF c(3,4)] c(5) assms(5)])
    have "maxSegID segs' \<le> db_nextSegID (sys_db (lv_system l))" using c(9) unfolding budget_def by (intro maxSegID_le) blast
    then have "unat (maxSegID segs') \<le> unat (db_nextSegID (sys_db (lv_system l)))" by (simp only: word_le_nat_alt)
    moreover have "unat (db_nextSegID (sys_db (lv_system l))) + (length rest + k) < 2 ^ 64"
      using inv by (simp only: life_inv_def live_inv_def fst_conv)
    ultimately have ids: "unat (maxSegID segs') + (length rest + k) < 2 ^ 64" by linarith
    have "runs_fit (life_pairs rest # rs')" using c(9) unfolding budget_def by blast
    then have "runs_fit (rs' @ [[], life_pairs rest])"
      using runs_fit_swap [of "[life_pairs rest]" rs'] runs_fit_Nil [of rs' "[life_pairs rest]"] by simp
    moreover have "keys_nonempty (life_pairs rest)"
      using assms(13) by (simp add: room_def life_pairs_def pairs_written_def)
    ultimately have "room (rs' @ [[]]) (map Client (life_actions rest))" by (simp add: room_def life_pairs_def)
    then show ?thesis using c re ids
      by (intro exI [of _ s'] exI [of _ segs'] exI [of _ rs']) (simp add: closed_dir_def)
  qed
  then show ?thesis using op(1) by blast
qed

section \<open>Sessions\<close>

text \<open>
  Sessions one after the other on a path, from a directory to the directory the last one leaves. Each opens what the
  one before it left, runs its events and closes when no merge is under way and no holder is left. What the
  operating system lists and the options may differ from session to session; the options flush the logs and have
  no comparison of their own.
\<close>

inductive sessions :: "string \<Rightarrow> directory \<Rightarrow> life_event list list \<Rightarrow> directory \<Rightarrow> bool" for path :: string where
  sessions_done: "sessions path d [] d"
| sessions_more: "sessions path d ess d1 \<Longrightarrow>
    userKeyCompare opts = None \<Longrightarrow> flushing opts \<Longrightarrow> set names = dom d1 \<Longrightarrow> set names1 = dom (opened_dir d1) \<Longrightarrow>
    set names2 = dom (opened_dir d1) \<Longrightarrow> distinct names2 \<Longrightarrow> fst (tryLock (newLockFile (path @ ''/lockfile'')) os) \<Longrightarrow>
    openImpl e static path opts names names1 names2 cwd os (Dir d1) = Inr op \<Longrightarrow>
    length (j_stack j) = maxKeySize \<Longrightarrow> life_run j rnd (begin_life (op_system op)) es l \<Longrightarrow>
    lv_job l = None \<Longrightarrow> lv_holders l = [] \<Longrightarrow> life_close j n l = Inr s \<Longrightarrow>
    sessions path d (ess @ [es]) (sys_files s)"

lemma sessions_ok:
  assumes "sessions path d ess d'" "closed_dir d segs rs" "path \<noteq> ''''" "CHR ''.'' \<notin> set path" "\<forall>es \<in> set ess. units_fit es"
    and "unat (maxSegID segs) + length ess + (length (concat ess @ rest) + k) < 2 ^ 64"
    and "room (rs @ [[]]) (map Client (life_actions (concat ess @ rest)))"
  shows "\<exists>segs' rs'. closed_dir d' segs' rs' \<and> shown rs' = foldl shown_step (shown rs) (life_actions (concat ess)) \<and>
           room (rs' @ [[]]) (map Client (life_actions rest)) \<and> unat (maxSegID segs') + (length rest + k) < 2 ^ 64"
  using assms
proof (induction arbitrary: rest k rule: sessions.induct)
  case (sessions_done d)
  then show ?case by (intro exI [of _ segs] exI [of _ rs]) simp
next
  case (sessions_more d ess d1 opts names names1 names2 os e static cwd op j rnd es l n s)
  have "unat (maxSegID segs) + length ess + (length (concat ess @ es @ rest) + (k + 1)) < 2 ^ 64"
    using sessions_more.prems(5) by simp
  from sessions_more.IH [OF sessions_more.prems(1-3) _ this] sessions_more.prems(4,6)
  obtain segs1 rs1 where c: "closed_dir d1 segs1 rs1" "shown rs1 = foldl shown_step (shown rs) (life_actions (concat ess))"
    "room (rs1 @ [[]]) (map Client (life_actions (es @ rest)))" "unat (maxSegID segs1) + (length (es @ rest) + (k + 1)) < 2 ^ 64"
    by auto
  have b: "unat (maxSegID segs1) + 1 + (length (es @ rest) + k) < 2 ^ 64" using c(4) by simp
  have u: "units_fit es" using sessions_more.prems(4) by simp
  note once = session_once [OF c(1) sessions_more.hyps(2,3) sessions_more.prems(2,3) sessions_more.hyps(4-8) b sessions_more.hyps(10) c(3) u,
      of e static cwd rnd n]
  then obtain segs' rs' where "shown rs' = foldl shown_step (shown rs1) (life_actions es)" "closed_dir (sys_files s) segs' rs'"
    "room (rs' @ [[]]) (map Client (life_actions rest))" "unat (maxSegID segs') + (length rest + k) < 2 ^ 64"
    using sessions_more.hyps(9,11-14) by auto
  then show ?case using c(2) by (intro exI [of _ segs'] exI [of _ rs']) simp
qed

section \<open>Properties\<close>

text \<open>C5. Sessions follow each other: from a directory of disk segments without logs, after any number of sessions \<open>ess\<close>,
  each an interleaving of operations, merges, readers, snapshots and iterators ended by a close with no holder left,
  the directory is again one of disk segments without logs, which shows under every key what the operations of all
  sessions made of it. It opens, and after any interleaving \<open>es\<close> that leaves no merge under way, closing with any
  number of segments to merge to succeeds, shows the same of all operations, and leaves no log if no holder is
  left. The options of every session flush the logs and have no comparison of their own.\<close>

theorem session_cycle:
  assumes "closed_dir d segs rs" and "path \<noteq> ''''" and "CHR ''.'' \<notin> set path" and "sessions path d ess d1"
    and "userKeyCompare opts = None" and "flushing opts"
    and "set names = dom d1" and "set names1 = dom (opened_dir d1)" and "set names2 = dom (opened_dir d1)" and "distinct names2"
    and "fst (tryLock (newLockFile (path @ ''/lockfile'')) os)" and "length (j_stack j) = maxKeySize"
    and "unat (maxSegID segs) + length (ess @ [es]) + length (concat (ess @ [es])) < 2 ^ 64"
    and "room (rs @ [[]]) (map Client (life_actions (concat (ess @ [es]))))" and "\<forall>es' \<in> set (ess @ [es]). units_fit es'"
  shows "\<exists>segs1 rs1 op. closed_dir d1 segs1 rs1 \<and> shown rs1 = foldl shown_step (shown rs) (life_actions (concat ess)) \<and>
           openImpl e static path opts names names1 names2 cwd os (Dir d1) = Inr op \<and>
           (\<forall>l. life_run j rnd (begin_life (op_system op)) es l \<and> lv_job l = None \<longrightarrow>
              (\<exists>s' segs' rs'. life_close j n l = Inr s' \<and> \<not> db_open (sys_db s') \<and>
                 shown rs' = foldl shown_step (shown rs) (life_actions (concat (ess @ [es]))) \<and>
                 (lv_holders l = [] \<longrightarrow> closed_dir (sys_files s') segs' rs') \<and>
                 reopens j path (sys_files s') (shown rs')))"
proof -
  have u: "\<forall>es \<in> set ess. units_fit es" "units_fit es" using assms(15) by simp_all
  have b: "unat (maxSegID segs) + length ess + (length (concat ess @ es) + 1) < 2 ^ 64"
    "room (rs @ [[]]) (map Client (life_actions (concat ess @ es)))"
    using assms(13,14) by simp_all
  from sessions_ok [OF assms(4,1-3) u(1) b]
  obtain segs1 rs1 where c: "closed_dir d1 segs1 rs1" "shown rs1 = foldl shown_step (shown rs) (life_actions (concat ess))"
    "room (rs1 @ [[]]) (map Client (life_actions es))" "unat (maxSegID segs1) + (length es + 1) < 2 ^ 64"
    by blast
  have r: "unat (maxSegID segs1) + 1 + (length (es @ []) + 0) < 2 ^ 64" "room (rs1 @ [[]]) (map Client (life_actions (es @ [])))"
    using c(3,4) by simp_all
  note once = session_once [OF c(1) assms(5,6,2,3,7-11) r(1) assms(12) r(2) u(2), of e static cwd rnd n]
  have "foldl shown_step (shown rs1) (life_actions es) = foldl shown_step (shown rs) (life_actions (concat (ess @ [es])))"
    using c(2) by simp
  with once c(1,2) show ?thesis by metis
qed

lemma closed_empty: "closed_dir Map.empty [] []"
  by (auto simp: closed_dir_def files_ok_def chain_def scheduled_def deleted_lines_def)

lemma put_session:
  assumes "closed_dir d segs rs" "unat (maxSegID segs) + 2 < 2 ^ 64" "k \<noteq> []" "length k \<le> 1024"
    and "set names = dom d" "set names1 = dom (opened_dir d)" "set names2 = dom (opened_dir d)" "distinct names2"
  shows "\<exists>op l. openImpl e None ''db'' (mk_options True) names names1 names2 cwd std_os (Dir d) = Inr op \<and>
           life_run j rnd (begin_life (op_system op)) [Act (Put k v)] l \<and> lv_job l = None \<and> lv_holders l = []"
proof -
  have opts: "userKeyCompare (mk_options True) = None" "flushing (mk_options True)" by (simp_all add: mk_options_def flushing_def)
  have path: "''db'' \<noteq> ''''" "CHR ''.'' \<notin> set ''db''" by simp_all
  have lock: "fst (tryLock (newLockFile (''db'' @ ''/lockfile'')) std_os)" by (simp only: std_os_lock fst_conv)
  have "unat (maxSegID segs) < unat (- 1 :: u64)" using assms(2) by (simp add: unsigned_minus_1_eq_mask mask_eq_exp_minus_1)
  then have top: "maxSegID segs < - 1" by (simp only: word_less_nat_alt)
  obtain op where op: "openImpl e None ''db'' (mk_options True) names names1 names2 cwd std_os (Dir d) = Inr op"
    "just_opened (op_system op) rs"
    using open_closed [OF assms(1) opts path assms(5-8) lock top, of e None cwd] by blast
  let ?s = "op_system op"
  have "db_shape seg_lists (sys_db ?s) rs []" using op(2) by (simp add: just_opened_def)
  then obtain db where db: "db_put rnd (sys_db ?s) k v = Inr db" using listed.put_shape [OF _ assms(3,4)] by blast
  let ?l = "(begin_life ?s)\<lparr>lv_system := ?s\<lparr>sys_db := db, sys_files := save_log db (sys_files ?s)\<rparr>, lv_created := open_logs db\<rparr>"
  have "life_step j rnd (begin_life ?s) (Act (Put k v)) ?l"
    using life_step.act [of j rnd "begin_life ?s" "Put k v" db] db by (simp add: begin_life_def)
  then have "life_run j rnd (begin_life ?s) ([] @ [Act (Put k v)]) ?l" by (rule life_more [OF life_refl])
  then show ?thesis using op(1) by (intro exI [of _ op] exI [of _ ?l]) (simp add: begin_life_def)
qed

lemma sample_listing:
  assumes "closed_dir d segs rs"
  obtains names names1 where "set names = dom d" "set names1 = dom (opened_dir d)" "distinct names1"
proof -
  have f: "finite (dom d)" "d ''deleted'' = None" using assms by (simp_all add: closed_dir_def files_ok_def)
  have "finite (dom (opened_dir d))" using opened_dir_closed(1) [OF f(2,1)] by (simp add: logs_change_def)
  then show thesis using f(1) that finite_distinct_list by metis
qed

lemma sample_session:
  fixes j :: junk
  assumes "length (j_stack j) = maxKeySize"
  obtains d1 where "sessions ''db'' Map.empty [[Act (Put [1] [2])]] d1"
proof -
  let ?es = "[Act (Put [1] [2])]" and ?e = "\<lparr>e_junk = j, e_rnd = (\<lambda>i. 0), e_logId = 0, e_logSize = 0\<rparr>"
  have d: "opened_dir Map.empty = [''lockfile'' \<mapsto> []]" by (simp add: fun_eq_iff opened_dir_file scheduled_def)
  have opts: "userKeyCompare (mk_options True) = None" "flushing (mk_options True)" by (simp_all add: mk_options_def flushing_def)
  have path: "''db'' \<noteq> ''''" "CHR ''.'' \<notin> set ''db''" by simp_all
  have lock: "fst (tryLock (newLockFile (''db'' @ ''/lockfile'')) std_os)" by (simp only: std_os_lock fst_conv)
  have names: "set [] = dom (Map.empty :: directory)" "set [''lockfile''] = dom (opened_dir Map.empty)" "distinct [''lockfile'']"
    by (simp_all add: d)
  have b: "unat (maxSegID []) + 1 + (length (?es @ []) + 0) < 2 ^ 64" "unat (maxSegID []) + 2 < 2 ^ 64" by (simp_all add: maxSegID_def)
  have fit: "room ([] @ [[]]) (map Client (life_actions (?es @ [])))" "units_fit ?es"
    by (simp_all add: room_def runs_fit_def values_of_def pairs_written_def maxKeySize_def units_fit_def kv_ok_def)
  have k: "[1] \<noteq> ([] :: bytes)" "length ([1] :: bytes) \<le> 1024" by simp_all
  note put = put_session [OF closed_empty b(2) k names(1) names(2) names(2) names(3), of ?e Map.empty j "\<lambda>i. 0" "[2]"]
  note once = session_once [OF closed_empty opts path names(1) names(2) names(2) names(3) lock b(1) assms fit,
      of ?e None Map.empty "\<lambda>i. 0" 8]
  obtain op l s where o: "openImpl ?e None ''db'' (mk_options True) [] [''lockfile''] [''lockfile''] Map.empty std_os (Dir Map.empty) = Inr op"
    "life_run j (\<lambda>i. 0) (begin_life (op_system op)) ?es l" "lv_job l = None" "lv_holders l = []" "life_close j 8 l = Inr s"
    using put once by (metis sum.inject(2))
  have "sessions ''db'' Map.empty ([] @ [?es]) (sys_files s)"
    by (rule sessions_more [OF sessions_done opts names(1) names(2) names(2) names(3) lock o(1) assms o(2-5)])
  then show thesis using that by simp
qed

theorem session_cycle_witness:
  "\<exists>d1 names names1 (op :: opened) (l :: living) s' segs' rs'.
     sessions ''db'' Map.empty [[Act (Put [1] [2])]] d1 \<and>
     openImpl \<lparr>e_junk = \<lparr>j_stack = [], j_buffer = []\<rparr>, e_rnd = (\<lambda>i. 0), e_logId = 0, e_logSize = 0\<rparr> None ''db'' (mk_options True)
       names names1 names1 Map.empty std_os (Dir d1) = Inr op \<and>
     life_run \<lparr>j_stack = replicate maxKeySize 0, j_buffer = []\<rparr> (\<lambda>i. 0) (begin_life (op_system op)) [Act (Put [3] [4])] l \<and>
     life_close \<lparr>j_stack = replicate maxKeySize 0, j_buffer = []\<rparr> 8 l = Inr s' \<and> closed_dir (sys_files s') segs' rs' \<and>
     shown rs' [1] = [2] \<and> shown rs' [3] = [4]"
proof -
  let ?j = "\<lparr>j_stack = replicate maxKeySize 0, j_buffer = []\<rparr>" and ?ess = "[[Act (Put [1] [2])]]" and ?es = "[Act (Put [3] [4])]"
  let ?e = "\<lparr>e_junk = \<lparr>j_stack = [], j_buffer = []\<rparr>, e_rnd = (\<lambda>i. 0), e_logId = 0, e_logSize = 0\<rparr>"
  have j: "length (j_stack ?j) = maxKeySize" by simp
  obtain d1 where d1: "sessions ''db'' Map.empty ?ess d1" by (rule sample_session [OF j])
  have opts: "userKeyCompare (mk_options True) = None" "flushing (mk_options True)" by (simp_all add: mk_options_def flushing_def)
  have path: "''db'' \<noteq> ''''" "CHR ''.'' \<notin> set ''db''" by simp_all
  have lock: "fst (tryLock (newLockFile (''db'' @ ''/lockfile'')) std_os)" by (simp only: std_os_lock fst_conv)
  have fit: "room ([] @ [[]]) (map Client (life_actions (concat (?ess @ [?es]))))" "\<forall>es \<in> set (?ess @ [?es]). units_fit es"
    by (simp_all add: room_def runs_fit_def values_of_def pairs_written_def maxKeySize_def units_fit_def kv_ok_def)
  have b: "unat (maxSegID []) + length (?ess @ [?es]) + length (concat (?ess @ [?es])) < 2 ^ 64" by (simp add: maxSegID_def)
  have fit1: "\<forall>es \<in> set ?ess. units_fit es" "unat (maxSegID []) + length ?ess + (length (concat ?ess @ ?es) + 1) < 2 ^ 64"
    "room ([] @ [[]]) (map Client (life_actions (concat ?ess @ ?es)))"
    using fit b by simp_all
  from sessions_ok [OF d1 closed_empty path fit1]
  obtain segs1 rs1 where c: "closed_dir d1 segs1 rs1" "unat (maxSegID segs1) + (length ?es + 1) < 2 ^ 64" by blast
  obtain names names1 where names: "set names = dom d1" "set names1 = dom (opened_dir d1)" "distinct names1"
    by (rule sample_listing [OF c(1)])
  have k: "[3] \<noteq> ([] :: bytes)" "length ([3] :: bytes) \<le> 1024" "unat (maxSegID segs1) + 2 < 2 ^ 64" using c(2) by simp_all
  obtain op l where o: "openImpl ?e None ''db'' (mk_options True) names names1 names1 Map.empty std_os (Dir d1) = Inr op"
    "life_run ?j (\<lambda>i. 0) (begin_life (op_system op)) ?es l" "lv_job l = None" "lv_holders l = []"
    using put_session [OF c(1) k(3,1,2) names(1,2,2,3), of ?e Map.empty ?j "\<lambda>i. 0" "[4]"] by blast
  note cycle = session_cycle [OF closed_empty path d1 opts names(1,2,2,3) lock j b fit, of ?e None Map.empty "\<lambda>i. 0" 8]
  obtain s' segs' rs' where s: "life_close ?j 8 l = Inr s'" "closed_dir (sys_files s') segs' rs'"
    "shown rs' = foldl shown_step (shown []) (life_actions (concat (?ess @ [?es])))"
    using cycle o by (metis sum.inject(2))
  have "shown rs' [1] = [2]" "shown rs' [3] = [4]" by (simp_all add: s(3))
  then show ?thesis using d1 o(1,2) s(1,2) by blast
qed

end
