(* ===== verification/Purge.thy ===== *)
theory Purge
  imports CloseTasks
begin

text \<open>
  A merge that starts with the oldest segment leaves out the removed keys. When nothing is left, the key file is
  empty, and \<^verbatim>\<open>DiskSegment::get\<close> has no block to read: the theorem shows what \<^verbatim>\<open>Database::get\<close> does after such a merge.
\<close>

lemma no_empty_run: "\<not> disk_repr ds [] bs"
  by (cases bs) (auto simp: disk_repr_def layout_ok_def)

lemma find_kv_mem: "sorted_kvs r \<Longrightarrow> kv \<in> set r \<Longrightarrow> find_kv r (kv_key kv) = Some (kv_value kv)"
  by (induction r) auto

lemma purged_empty:
  assumes "\<forall>r \<in> set gs. sorted_kvs r" "\<forall>k. shown gs k = []"
  shows "purged True (merge_runs gs) = []"
proof -
  have "kv_value kv = []" if kv: "kv \<in> set (merge_runs gs)" for kv
  proof -
    have "find_kv (merge_runs gs) (kv_key kv) = Some (kv_value kv)"
      using find_kv_mem [OF merge_runs_spec(1) [OF assms(1)] kv] .
    then have "shown gs (kv_key kv) = kv_value kv" using merge_runs_spec(2) [OF assms(1)] by (simp add: shown_def)
    then show ?thesis using assms(2) by simp
  qed
  then show ?thesis by (simp add: purged_def)
qed

text \<open>Segments behind others are reached when the others have no value.\<close>

lemma multi_get_loop_behind:
  assumes "list_all2 (\<lambda>s v. get s k = Inr v) segs vs"
  shows "\<exists>v. multi_get_loop get (rev segs @ older) k val =
           (if newest_value vs \<noteq> [] then Inr (newest_value vs) else multi_get_loop get older k (if segs = [] then val else v))"
  using assms
proof (induction segs arbitrary: vs val rule: rev_induct)
  case Nil
  then show ?case by simp
next
  case (snoc s segs)
  obtain vs' v where vs: "vs = vs' @ [v]" "list_all2 (\<lambda>s v. get s k = Inr v) segs vs'" "get s k = Inr v"
    using snoc.prems(1) by (auto simp: list_all2_append1 list_all2_Cons1)
  obtain v' where "multi_get_loop get (rev segs @ older) k v =
      (if newest_value vs' \<noteq> [] then Inr (newest_value vs') else multi_get_loop get older k (if segs = [] then v else v'))"
    using snoc.IH [OF vs(2), of v] by blast
  then show ?case
    using vs by (cases "v = []") (auto simp: newest_value_snoc intro!: exI [of _ "if segs = [] then v else v'"])
qed

lemma get_behind_empty:
  assumes "db_open db" "db_segments db = DiskSeg ds # post" "empty_disk ds" "db_memory db = Some m"
    and "list_all2 seg_repr post rpost" "seg_repr (MemSeg m) r" "length (j_stack j) = maxKeySize" "checkKey k = Inr ()"
  shows "db_get j db k = (if visible (rpost @ [r]) k = [] then Inl UndefinedBehaviour else Inr (visible (rpost @ [r]) k))"
proof -
  have "list_all2 seg_repr (post @ [MemSeg m]) (rpost @ [r])" using assms(5,6) by (simp add: list_all2_appendI)
  then have "list_all2 (\<lambda>s v. seg_get j s k = Inr v) (post @ [MemSeg m]) (map (\<lambda>r. value_in r k) (rpost @ [r]))"
    by (induction rule: list_all2_induct) (simp_all add: seg_get_repr assms(7))
  from multi_get_loop_behind [where get = "seg_get j" and older = "[DiskSeg ds]" and val = "[]", OF this]
  have "multi_get_loop (seg_get j) (rev (db_multi db)) k [] =
      (if visible (rpost @ [r]) k = [] then Inl UndefinedBehaviour else Inr (visible (rpost @ [r]) k))"
    using assms(2,4) empty_disk_get [OF assms(3), of j k] by (auto simp: db_multi_def copyAndAppend_def visible_def)
  then show ?thesis using assms(1,4,8) by (simp add: db_get_def multi_get_def)
qed

section \<open>Properties\<close>

text \<open>C32. Removing everything breaks \<^verbatim>\<open>get\<close>: if all keys of the oldest segments are removed and a merge takes these
  segments, then after its commit a get of a key that no newer segment has a value for is undefined, instead of
  returning the empty value; the other keys are still found.\<close>

theorem purged_get_undefined:
  assumes "sys_ok s (gs @ rpost)" and "2 \<le> length (db_segments (sys_db s))" and "merge_begin j kv_cmp s = Inr (job, s')"
    and "mj_start job = 0" and "length gs = length (mj_group job)" and "\<forall>k. shown gs k = []"
    and "list_all2 seg_repr (drop (length gs) (db_segments (sys_db s))) rpost"
    and "db_open (sys_db s)" and "db_memory (sys_db s) = Some m" and "seg_repr (MemSeg m) r"
    and "length (j_stack j) = maxKeySize" and "checkKey k = Inr ()"
  shows "\<exists>db. merge_commit job (sys_db s') = Inr db \<and>
           db_get j db k = (if visible (rpost @ [r]) k = [] then Inl UndefinedBehaviour else Inr (visible (rpost @ [r]) k))"
proof -
  obtain job1 s1 pre post rpre gs' rpost' where b0: "merge_begin j kv_cmp s = Inr (job1, s1)" "sys_db s1 = sys_db s"
    "db_segments (sys_db s) = pre @ mj_group job1 @ post"
    "length pre = mj_start job1" "gs @ rpost = rpre @ gs' @ rpost'" "list_all2 seg_lists pre rpre"
    "list_all2 seg_lists (mj_group job1) gs'" "seg_lists (DiskSeg (mj_seg job1)) (purged (rpre = []) (merge_runs gs'))"
    using merge_begin_ok [OF assms(1,2), of j] by blast
  have eq: "job1 = job" "s1 = s'" using b0(1) assms(3) by simp_all
  note b = b0(2-) [unfolded eq]
  have pre: "pre = []" "rpre = []" using b(3,5) assms(4) by auto
  have gs: "gs' = gs" using b(4,6) pre(2) assms(5) by (auto dest: list_all2_lengthD simp: append_eq_append_conv)
  have post: "drop (length gs) (db_segments (sys_db s)) = post" using b(2) pre(1) assms(5) by simp
  have "\<forall>r \<in> set gs. sorted_kvs r" using list_all2_sorted [OF b(6)] gs by simp
  then have "seg_lists (DiskSeg (mj_seg job)) []" using b(7) pre(2) gs purged_empty [OF _ assms(6)] by simp
  then have e: "empty_disk (mj_seg job)" using no_empty_run by (auto simp: seg_lists_def)
  let ?db = "(sys_db s)\<lparr>db_segments := DiskSeg (mj_seg job) # post\<rparr>"
  have "merge_commit job (sys_db s') = Inr ?db" using merge_commit_ok [OF b(2,3)] pre(1) b(1) by simp
  moreover have "db_get j ?db k = (if visible (rpost @ [r]) k = [] then Inl UndefinedBehaviour else Inr (visible (rpost @ [r]) k))"
    using assms(7-12) post e by (intro get_behind_empty [of ?db "mj_seg job" post m]) simp_all
  ultimately show ?thesis by blast
qed

definition purge_segments :: "segment list" where
  "purge_segments = [MemSeg (sample_memory 1 [1] [2]), MemSeg (sample_memory 2 [1] [])]"

definition purge_system :: system where
  "purge_system =
     \<lparr>sys_db = open_state (\<lambda>i. 0) None ''db'' (mk_options True) purge_segments,
      sys_deleter = \<lparr>dl_path = ''db'', dl_open = False\<rparr>, sys_files = Map.empty\<rparr>"

lemma purge_segments_repr: "list_all2 seg_repr purge_segments [[mk_kv [1] [2]], [mk_kv [1] []]]"
  using sample_memory_repr(1) by (simp add: purge_segments_def)

theorem purged_get_undefined_witness:
  "\<exists>(s :: system) job s' db. merge_begin \<lparr>j_stack = replicate maxKeySize 0, j_buffer = []\<rparr> kv_cmp s = Inr (job, s') \<and>
     merge_commit job (sys_db s') = Inr db \<and>
     db_get \<lparr>j_stack = replicate maxKeySize 0, j_buffer = []\<rparr> db [7] = Inl UndefinedBehaviour"
proof -
  let ?j = "\<lparr>j_stack = replicate maxKeySize 0, j_buffer = []\<rparr>" and ?s = purge_system
  let ?gs = "[[mk_kv [1] [2]], [mk_kv [1] []]]"
  have j: "length (j_stack ?j) = maxKeySize" by simp
  have shape: "db_repr (sys_db ?s) ?gs []"
    unfolding purge_system_def
    using open_state_repr [OF _ purge_segments_repr, of "mk_options True" "\<lambda>i. 0" None "''db''"] by (simp add: mk_options_def)
  then obtain m where m: "db_memory (sys_db ?s) = Some m" "seg_repr (MemSeg m) []" by (auto simp: db_shape_def)
  have op: "db_open (sys_db ?s)" using shape by (simp add: db_shape_def)
  have segs: "db_segments (sys_db ?s) = purge_segments" "db_path (sys_db ?s) = ''db''"
    by (simp_all add: purge_system_def open_state_def new_memory_def nextSegmentID_def Let_def split: prod.split)
  have "list_all2 seg_lists purge_segments ?gs" using purge_segments_repr by (rule all_repr_lists)
  moreover have "files_ok Map.empty purge_segments"
    by (simp add: files_ok_def chain_def purge_segments_def sample_memory_repr deleted_lines_def scheduled_def)
  ultimately have ok: "sys_ok ?s (?gs @ [])"
    using segs by (simp add: sys_ok_def runs_fit_def values_of_def maxKeySize_def) (simp add: purge_system_def)
  have len: "2 \<le> length (db_segments (sys_db ?s))" by (simp add: segs purge_segments_def)
  obtain job s' pre post where b: "merge_begin ?j kv_cmp ?s = Inr (job, s')" "db_segments (sys_db ?s) = pre @ mj_group job @ post"
    "length pre = mj_start job" "2 \<le> length (mj_group job)"
    using merge_begin_ok [OF ok len, of ?j] by blast
  have "length pre + length (mj_group job) + length post = 2"
    using arg_cong [OF b(2), of length] by (simp add: segs purge_segments_def)
  then have g: "mj_start job = 0" "length ?gs = length (mj_group job)" using b(3,4) by simp_all
  have none: "\<forall>k. shown ?gs k = []" by (simp add: shown_def)
  have rest: "list_all2 seg_repr (drop (length ?gs) (db_segments (sys_db ?s))) []" by (simp add: segs purge_segments_def)
  have key: "checkKey [7] = Inr ()" by (simp add: checkKey_def)
  show ?thesis
    using purged_get_undefined [OF ok len b(1) g none rest op m j key] b(1) by (auto simp: visible_def)
qed

end
