(* ===== verification/LogFaults.thy ===== *)
theory LogFaults
  imports LogRecovery
begin

text \<open>
  The log when the system call \<^verbatim>\<open>write\<close> of \<^verbatim>\<open>FdFileBuf::sync\<close> takes fewer bytes than it is given: the exception that
  is thrown, the state the stream is left in, what later writes do, and what closing the log does. The theorem: until
  then the file keeps the units written before in readable form, and nothing later reaches it; closing writes the bytes of the
  failed unit again.
\<close>

section \<open>A stream that can fail\<close>

text \<open>
  \<open>st_bad\<close> is the bad bit. \<open>n\<close> is the number of bytes the system call takes; what it did not take stays in the
  buffer. A flush of a bad stream does nothing; a write to one writes nothing, and whether it throws
  (\<open>strict\<close>) is left open by the standard.
\<close>

record log_stream =
  st_log :: log_file
  st_bad :: bool




definition and_then :: "error option \<times> log_stream \<Rightarrow> (log_stream \<Rightarrow> error option \<times> log_stream) \<Rightarrow> error option \<times> log_stream" where
  "and_then r f = (case r of (Some e, s) \<Rightarrow> (Some e, s) | (None, s) \<Rightarrow> f s)"

lemma and_then_simps [simp]: "and_then (Some e, s) f = (Some e, s)" "and_then (None, s) f = f s"
  by (simp_all add: and_then_def)









section \<open>What is left of the log\<close>













section \<open>Properties\<close>



end
