(* ===== verification/SkipListReaders.thy ===== *)
theory SkipListReaders
  imports SkipListSpec
begin

text \<open>
  Reading a skip list of \<^verbatim>\<open>include/skiplist.h\<close> while another thread inserts: \<^verbatim>\<open>get\<close> takes no lock, it only loads the
  atomic pointers one by one. Here a put is a sequence of single pointer accesses, a get another one, and a run
  interleaves them in any way. The theorem: every get is linearizable, and ends after boundedly many of its steps.
  One get is followed; further readers change nothing, so they need not be in the state. Puts exclude each other, as
  they run under the lock of the database.
\<close>

section \<open>A put in steps\<close>

text \<open>
  Between two steps a put is at the first half of its loop body (reading a pointer and setting that of the new node)
  or at the second (setting the pointer of the node before). The components are the replaced node, if any, the nodes
  before, the new node and the levels left.
\<close>

datatype writer =
    NoPut
  | Fill "nat option" "nat option list" nat "nat list"
  | Link "nat option" "nat option list" nat "nat list"

text \<open>What \<^verbatim>\<open>put\<close> does before its loop: the search, the choice of the height, and the new node.\<close>

definition begin_put :: "('k \<Rightarrow> 'k \<Rightarrow> int) \<Rightarrow> 'k skip_list \<Rightarrow> 'k \<Rightarrow> ('k skip_list \<times> writer) option" where
  "begin_put cmp s k =
     do { (x, prev) \<leftarrow> findGreaterOrEqual cmp s k;
          let h = sl_heap s;
          if (case x of None \<Rightarrow> False | Some a \<Rightarrow> cmp (n_key (h ! a)) k = 0) then
            (let height = n_height (h ! the x);
                 (new, h1) = newNode h k height
             in Some (s\<lparr>sl_heap := h1\<rparr>, Fill x prev new [0..<height]))
          else
            (let (height, rnd) = randomHeight (sl_rand s);
                 prev' = (if height > sl_maxHeight s then raise_prev prev (sl_maxHeight s) height else prev);
                 maxHeight = (if height > sl_maxHeight s then height else sl_maxHeight s);
                 (new, h1) = newNode h k height
             in Some (\<lparr>sl_heap = h1, sl_maxHeight = maxHeight, sl_rand = rnd\<rparr>, Fill None prev' new [0..<height])) }"

fun write_step :: "'k heap \<Rightarrow> writer \<Rightarrow> ('k heap \<times> writer) option" where
  "write_step h NoPut = None"
| "write_step h (Fill x prev new []) = Some (h, NoPut)"
| "write_step h (Fill x prev new (i # is)) =
     do { n \<leftarrow> get_next h (if x = None then prev ! i else x) i;
          h1 \<leftarrow> set_next h (Some new) i n;
          Some (h1, Link x prev new (i # is)) }"
| "write_step h (Link x prev new []) = Some (h, NoPut)"
| "write_step h (Link x prev new (i # is)) =
     do { h1 \<leftarrow> set_next h (prev ! i) i (Some new);
          Some (h1, Fill x prev new is) }"

text \<open>What is left of a put, without interruption.\<close>

fun write_rest :: "'k heap \<Rightarrow> writer \<Rightarrow> 'k heap option" where
  "write_rest h NoPut = Some h"
| "write_rest h (Fill None prev new is) = insert_loop h prev new is"
| "write_rest h (Fill (Some x) prev new is) = replace_loop h prev x new is"
| "write_rest h (Link x prev new []) = Some h"
| "write_rest h (Link x prev new (i # is)) =
     Option.bind (set_next h (prev ! i) i (Some new)) (\<lambda>h1.
       case x of None \<Rightarrow> insert_loop h1 prev new is | Some a \<Rightarrow> replace_loop h1 prev a new is)"

lemma write_rest_Fill:
  "write_rest h (Fill x prev new is) = (case x of None \<Rightarrow> insert_loop h prev new is | Some a \<Rightarrow> replace_loop h prev a new is)"
  by (cases x) simp_all

lemma write_step_rest:
  assumes "write_step h w = Some (h1, w1)"
  shows "write_rest h w = write_rest h1 w1"
  using assms
  by (cases "(h, w)" rule: write_step.cases)
     (auto simp: bind_eq_Some_conv write_rest_Fill simp del: write_rest.simps(2,3) split: option.splits)

text \<open>The steps of a put make what \<open>sl_put\<close> makes.\<close>

lemma begin_put_rest:
  "map_option snd (sl_put cmp dflt s k) =
     Option.bind (begin_put cmp s k) (\<lambda>(s1, w). map_option (\<lambda>h. s1\<lparr>sl_heap := h\<rparr>) (write_rest (sl_heap s1) w))"
proof (cases "findGreaterOrEqual cmp s k")
  case None
  then show ?thesis by (simp add: sl_put_def begin_put_def)
next
  case (Some xp)
  obtain x prev where xp: "xp = (x, prev)" by fastforce
  show ?thesis
  proof (cases "case x of None \<Rightarrow> False | Some a \<Rightarrow> cmp (n_key (sl_heap s ! a)) k = 0")
    case True
    then obtain a where x: "x = Some a" by (cases x) auto
    obtain new h1 where n: "newNode (sl_heap s) k (n_height (sl_heap s ! a)) = (new, h1)" by fastforce
    show ?thesis using Some xp True x n
      by (cases "replace_loop h1 prev a new [0..<n_height (sl_heap s ! a)]") (simp_all add: sl_put_def begin_put_def)
  next
    case False
    obtain hgt rnd where r: "randomHeight (sl_rand s) = (hgt, rnd)" by fastforce
    obtain new h1 where n: "newNode (sl_heap s) k hgt = (new, h1)" by fastforce
    let ?prev = "if hgt > sl_maxHeight s then raise_prev prev (sl_maxHeight s) hgt else prev"
    show ?thesis
      unfolding sl_put_def begin_put_def Some xp bind.simps prod.case Let_def if_not_P [OF False] r n
      by (cases "insert_loop h1 ?prev new [0..<hgt]") simp_all
  qed
qed

section \<open>A get in steps\<close>

text \<open>The position of \<^verbatim>\<open>findGreaterOrEqual\<close>, or the node it returned.\<close>

datatype 'k reader = NoGet | Find 'k nat nat | Found 'k "nat option"

definition start_get :: "'k skip_list \<Rightarrow> 'k \<Rightarrow> 'k reader" where
  "start_get s k = Find k 0 (sl_maxHeight s - 1)"

fun read_step :: "('k \<Rightarrow> 'k \<Rightarrow> int) \<Rightarrow> 'k heap \<Rightarrow> 'k reader \<Rightarrow> 'k reader option" where
  "read_step cmp h (Find k x l) =
     do { next \<leftarrow> get_next h (Some x) l;
          Some (if keyIsAfterNode cmp h k next then Find k (the next) l
                else if l = 0 then Found k next else Find k x (l - 1)) }"
| "read_step cmp h _ = None"

text \<open>What \<^verbatim>\<open>get\<close> makes of the node.\<close>

fun get_result :: "('k \<Rightarrow> 'k \<Rightarrow> int) \<Rightarrow> 'k \<Rightarrow> 'k heap \<Rightarrow> 'k reader \<Rightarrow> 'k option" where
  "get_result cmp dflt h (Found k x) =
     Some (case x of None \<Rightarrow> dflt | Some a \<Rightarrow> if cmp k (n_key (h ! a)) = 0 then n_key (h ! a) else dflt)"
| "get_result cmp dflt h _ = None"

text \<open>Left alone, a get is \<open>sl_get\<close>.\<close>

fun read_steps :: "('k \<Rightarrow> 'k \<Rightarrow> int) \<Rightarrow> 'k heap \<Rightarrow> nat \<Rightarrow> 'k reader \<Rightarrow> 'k reader option" where
  "read_steps cmp h 0 r = Some r"
| "read_steps cmp h (Suc n) r = Option.bind (read_step cmp h r) (read_steps cmp h n)"

lemma find_loop_reads:
  fixes cmp :: "'k \<Rightarrow> 'k \<Rightarrow> int"
  assumes "find_loop cmp h k x l prev = Some r"
  shows "case x of None \<Rightarrow> True | Some a \<Rightarrow> \<exists>n. read_steps cmp h n (Find k a l) = Some (Found k (fst r))"
proof (rule find_loop.raw_induct [where xa = "(((((cmp, h), k), x), l), prev)", unfolded prod.case, OF _ assms])
  fix loop :: "('k \<Rightarrow> 'k \<Rightarrow> int) \<Rightarrow> 'k heap \<Rightarrow> 'k \<Rightarrow> nat option \<Rightarrow> nat \<Rightarrow> nat option list \<Rightarrow> (nat option \<times> nat option list) option"
    and cmp h k x l prev r
  assume IH: "\<And>cmp h k x l prev r. loop cmp h k x l prev = Some r \<Longrightarrow>
      case x of None \<Rightarrow> True | Some a \<Rightarrow> \<exists>n. read_steps cmp h n (Find k a l) = Some (Found k (fst r))"
  assume s: "Option.bind (get_next h x l) (\<lambda>next. if keyIsAfterNode cmp h k next then loop cmp h k next l prev
      else let prev' = prev[l := x] in if l = 0 then Some (next, prev') else loop cmp h k x (l - 1) prev') = Some r"
  then obtain y where y: "get_next h x l = Some y" by (cases "get_next h x l") auto
  show "case x of None \<Rightarrow> True | Some a \<Rightarrow> \<exists>n. read_steps cmp h n (Find k a l) = Some (Found k (fst r))"
  proof (cases x)
    case (Some a)
    have one: "\<exists>n. read_steps cmp h n (Find k a l) = Some q"
      if "read_step cmp h (Find k a l) = Some r1" "\<exists>n. read_steps cmp h n r1 = Some q" for r1 q
      using that by (metis bind.bind_lunit read_steps.simps(2))
    show ?thesis
    proof (cases "keyIsAfterNode cmp h k y")
      case True
      then obtain b where b: "y = Some b" by (cases y) (auto simp: keyIsAfterNode_def)
      have "loop cmp h k y l prev = Some r" using s True by (simp add: y)
      from IH [OF this] have "\<exists>n. read_steps cmp h n (Find k b l) = Some (Found k (fst r))" by (simp add: b)
      moreover have "read_step cmp h (Find k a l) = Some (Find k b l)" using y True b Some by simp
      ultimately show ?thesis using one Some by simp
    next
      case False
      show ?thesis
      proof (cases "l = 0")
        case True
        then have "read_step cmp h (Find k a l) = Some (Found k (fst r))" using s y False Some by (auto simp: Let_def)
        moreover have "\<exists>n. read_steps cmp h n (Found k (fst r)) = Some (Found k (fst r))" by (rule exI [of _ 0]) simp
        ultimately show ?thesis using one Some by simp
      next
        case nz: False
        then have "read_step cmp h (Find k a l) = Some (Find k a (l - 1))" using y False Some by simp
        moreover have "loop cmp h k x (l - 1) (prev[l := x]) = Some r" using s False nz by (simp add: y Let_def)
        from IH [OF this] have "\<exists>n. read_steps cmp h n (Find k a (l - 1)) = Some (Found k (fst r))" by (simp add: Some)
        ultimately show ?thesis using one Some by simp
      qed
    qed
  qed simp
qed

lemma get_reads:
  assumes "sl_get cmp dflt s k = Some v"
  shows "\<exists>n r. read_steps cmp (sl_heap s) n (start_get s k) = Some r \<and> get_result cmp dflt (sl_heap s) r = Some v"
proof -
  obtain x prev where f: "findGreaterOrEqual cmp s k = Some (x, prev)"
    "v = (case x of None \<Rightarrow> dflt | Some a \<Rightarrow> if cmp k (n_key (sl_heap s ! a)) = 0 then n_key (sl_heap s ! a) else dflt)"
    using assms by (auto simp: sl_get_def bind_eq_Some_conv)
  then show ?thesis
    using find_loop_reads [of cmp "sl_heap s" k "Some 0" "sl_maxHeight s - 1"]
    unfolding findGreaterOrEqual_def start_get_def by fastforce
qed

section \<open>What a reader can meet\<close>

text \<open>The key of a node, the answer a pointer of the lowest level gives, and the strict order of nodes.\<close>

abbreviation key_of :: "'k heap \<Rightarrow> nat \<Rightarrow> 'k" where
  "key_of h a \<equiv> n_key (h ! a)"

definition answer :: "('k \<Rightarrow> 'k \<Rightarrow> int) \<Rightarrow> 'k heap \<Rightarrow> 'k \<Rightarrow> nat option \<Rightarrow> 'k option" where
  "answer cmp h k q = (case q of None \<Rightarrow> None | Some a \<Rightarrow> if cmp k (key_of h a) = 0 then Some (key_of h a) else None)"

abbreviation ascending :: "('k \<Rightarrow> 'k \<Rightarrow> int) \<Rightarrow> 'k heap \<Rightarrow> nat list \<Rightarrow> bool" where
  "ascending cmp h xs \<equiv> sorted_wrt (\<lambda>a b. cmp (key_of h a) (key_of h b) < 0) xs"

text \<open>
  \<open>S\<close> is a set of nodes that the pointers do not leave, that ascends along every pointer, and from which a search for
  \<open>k\<close> comes to one of the answers \<open>A\<close>. Nodes that are no longer in the list may belong to it.
\<close>

definition zone :: "('k \<Rightarrow> 'k \<Rightarrow> int) \<Rightarrow> 'k heap \<Rightarrow> 'k \<Rightarrow> 'k option set \<Rightarrow> nat set \<Rightarrow> bool" where
  "zone cmp h k A S \<longleftrightarrow>
     (\<forall>b \<in> S. node_at h b 0 \<and>
        (\<forall>l d. node_at h b l \<longrightarrow> nx h l b = Some d \<longrightarrow>
           d \<in> S \<and> node_at h d l \<and> d \<noteq> 0 \<and> (b \<noteq> 0 \<longrightarrow> cmp (key_of h b) (key_of h d) < 0)) \<and>
        (b = 0 \<or> cmp (key_of h b) k < 0 \<longrightarrow>
           (\<exists>d. nx h 0 b = Some d \<and> cmp (key_of h d) k < 0) \<or> answer cmp h k (nx h 0 b) \<in> A))"

lemma zone_mono: "zone cmp h k A S \<Longrightarrow> A \<subseteq> A' \<Longrightarrow> zone cmp h k A' S"
  unfolding zone_def by blast

lemma zone_grow:
  assumes "zone cmp h k A S"
  shows "zone cmp (h @ [n]) k A S"
proof -
  have old: "node_at (h @ [n]) b l = node_at h b l" "nx (h @ [n]) l b = nx h l b" "key_of (h @ [n]) b = key_of h b" if "b < length h" for b l
    using that by (simp_all add: node_at_def nx_def nth_append)
  have lt: "b < length h" if "b \<in> S" for b using assms that by (auto simp: zone_def node_at_def)
  show ?thesis unfolding zone_def
  proof (intro ballI)
    fix b assume b: "b \<in> S"
    have z: "node_at h b 0" "\<And>l d. node_at h b l \<Longrightarrow> nx h l b = Some d \<Longrightarrow> d \<in> S \<and> node_at h d l \<and> d \<noteq> 0 \<and>
        (b \<noteq> 0 \<longrightarrow> cmp (key_of h b) (key_of h d) < 0)"
      "b = 0 \<or> cmp (key_of h b) k < 0 \<longrightarrow> (\<exists>d. nx h 0 b = Some d \<and> cmp (key_of h d) k < 0) \<or> answer cmp h k (nx h 0 b) \<in> A"
      using assms b unfolding zone_def by blast+
    have a: "answer cmp (h @ [n]) k (nx h 0 b) = answer cmp h k (nx h 0 b)"
    proof (cases "nx h 0 b")
      case (Some d)
      then show ?thesis using old(3) lt z(2) [OF z(1) Some] by (simp add: answer_def)
    qed (simp add: answer_def)
    show "node_at (h @ [n]) b 0 \<and>
        (\<forall>l d. node_at (h @ [n]) b l \<longrightarrow> nx (h @ [n]) l b = Some d \<longrightarrow>
           d \<in> S \<and> node_at (h @ [n]) d l \<and> d \<noteq> 0 \<and> (b \<noteq> 0 \<longrightarrow> cmp (key_of (h @ [n]) b) (key_of (h @ [n]) d) < 0)) \<and>
        (b = 0 \<or> cmp (key_of (h @ [n]) b) k < 0 \<longrightarrow>
           (\<exists>d. nx (h @ [n]) 0 b = Some d \<and> cmp (key_of (h @ [n]) d) k < 0) \<or> answer cmp (h @ [n]) k (nx (h @ [n]) 0 b) \<in> A)"
      using z lt old b a by (metis (no_types, lifting))
  qed
qed

text \<open>A write to the node \<open>p\<close>, which lies in a zone \<open>C\<close> after it, or outside \<open>S\<close>.\<close>

lemma zone_write:
  assumes "zone cmp h k A S" "same_shape h h'" "\<And>m a. a \<noteq> p \<Longrightarrow> nx h' m a = nx h m a" "zone cmp h' k A C" "p \<in> C \<or> p \<notin> S"
  shows "zone cmp h' k A (S \<union> C)"
proof -
  have key: "key_of h' b = key_of h b" if "node_at h b l" for b l
    using assms(2) that by (simp add: same_shape_def node_at_def)
  have at: "node_at h' b l = node_at h b l" for b l by (rule node_at_shape [OF assms(2)])
  show ?thesis unfolding zone_def
  proof (intro ballI)
    fix b assume b: "b \<in> S \<union> C"
    show "node_at h' b 0 \<and>
        (\<forall>l d. node_at h' b l \<longrightarrow> nx h' l b = Some d \<longrightarrow>
           d \<in> S \<union> C \<and> node_at h' d l \<and> d \<noteq> 0 \<and> (b \<noteq> 0 \<longrightarrow> cmp (key_of h' b) (key_of h' d) < 0)) \<and>
        (b = 0 \<or> cmp (key_of h' b) k < 0 \<longrightarrow>
           (\<exists>d. nx h' 0 b = Some d \<and> cmp (key_of h' d) k < 0) \<or> answer cmp h' k (nx h' 0 b) \<in> A)"
    proof (cases "b \<in> C")
      case True
      then show ?thesis using assms(4) unfolding zone_def by blast
    next
      case False
      then have p: "b \<noteq> p" "b \<in> S" using assms(5) b by auto
      have z: "node_at h b 0" "\<And>l d. node_at h b l \<Longrightarrow> nx h l b = Some d \<Longrightarrow> d \<in> S \<and> node_at h d l \<and> d \<noteq> 0 \<and>
          (b \<noteq> 0 \<longrightarrow> cmp (key_of h b) (key_of h d) < 0)"
        "b = 0 \<or> cmp (key_of h b) k < 0 \<longrightarrow> (\<exists>d. nx h 0 b = Some d \<and> cmp (key_of h d) k < 0) \<or> answer cmp h k (nx h 0 b) \<in> A"
        using assms(1) p(2) unfolding zone_def by blast+
      have a: "answer cmp h' k (nx h 0 b) = answer cmp h k (nx h 0 b)"
      proof (cases "nx h 0 b")
        case (Some d)
        then show ?thesis using key [of d 0] z(2) [OF z(1) Some] by (simp add: answer_def)
      qed (simp add: answer_def)
      show ?thesis
        using z key at a unfolding assms(3) [OF p(1)] by (metis UnI1)
    qed
  qed
qed

section \<open>Chains\<close>

lemma linked_next:
  assumes "linked h l x xs" "a \<in> set (x # xs)"
  shows "\<exists>us vs. x # xs = us @ a # vs \<and> nx h l a = first_node vs"
  using assms
proof (induction xs arbitrary: x)
  case Nil
  then show ?case by (intro exI [of _ "[]"]) simp
next
  case (Cons y ys)
  show ?case
  proof (cases "a = x")
    case True
    then show ?thesis using Cons.prems(1) by (intro exI [of _ "[]"] exI [of _ "y # ys"]) simp
  next
    case False
    then obtain us vs where "y # ys = us @ a # vs" "nx h l a = first_node vs"
      using Cons.IH [of y] Cons.prems by auto
    then show ?thesis by (intro exI [of _ "x # us"] exI [of _ vs]) simp
  qed
qed

lemma first_node_Some: "first_node xs = Some d \<longleftrightarrow> (\<exists>ys. xs = d # ys)"
  by (cases xs) auto

lemma chain_next:
  assumes "linked h l 0 (level h l xs)" "a \<in> set (0 # level h l xs)" "nx h l a = Some d"
    and "heap_ok h" "\<forall>b \<in> set xs. 0 < b \<and> b < length h" "ascending cmp h xs"
  shows "d \<in> set xs \<and> node_at h d l \<and> d \<noteq> 0 \<and> (a \<noteq> 0 \<longrightarrow> cmp (key_of h a) (key_of h d) < 0)"
proof -
  obtain us vs where uv: "0 # level h l xs = us @ a # vs" "nx h l a = first_node vs"
    using linked_next [OF assms(1,2)] by blast
  then obtain ys where ys: "vs = d # ys" using assms(3) unfolding uv(2) first_node_Some by blast
  have asc: "ascending cmp h (level h l xs)" using assms(6) unfolding level_def by (rule sorted_wrt_filter)
  have lev: "level h l xs = tl us @ a # d # ys \<and> us \<noteq> [] \<or> us = [] \<and> a = 0 \<and> level h l xs = d # ys"
    using uv(1) ys by (cases us) auto
  then have d: "d \<in> set (level h l xs)" by auto
  then have "d \<in> set xs" "l < n_height (h ! d)" by (auto simp: level_def)
  moreover have "a \<noteq> 0 \<longrightarrow> cmp (key_of h a) (key_of h d) < 0" using lev asc by (auto simp: sorted_wrt_append)
  ultimately show ?thesis using assms(4,5) node_at_level by auto
qed

lemma chain_answer:
  assumes "linked h 0 0 xs" "a \<in> set (0 # xs)" "\<forall>b \<in> set xs. 0 < b" "ascending cmp h xs" "comparator cmp"
    and "a = 0 \<or> cmp (key_of h a) k < 0"
  shows "(\<exists>d. nx h 0 a = Some d \<and> cmp (key_of h d) k < 0) \<or> answer cmp h k (nx h 0 a) = olist_find cmp k (map (key_of h) xs)"
proof -
  obtain us vs where uv: "0 # xs = us @ a # vs" "nx h 0 a = first_node vs"
    using linked_next [OF assms(1,2)] by blast
  define ws where "ws = tl (us @ [a])"
  have xs: "xs = ws @ vs" using uv(1) by (cases us) (auto simp: ws_def)
  have "cmp (key_of h b) k < 0" if b: "b \<in> set ws" for b
  proof (cases "b = a")
    case True
    then have "a \<noteq> 0" using b assms(3) unfolding xs by auto
    then show ?thesis using True assms(6) by blast
  next
    case False
    then have us: "us = 0 # tl us" "ws = tl us @ [a]" "b \<in> set (tl us)" using b uv(1) by (cases us; auto simp: ws_def)+
    have "a \<noteq> 0" using assms(3) unfolding xs us(2) by auto
    moreover have "cmp (key_of h b) (key_of h a) < 0" using assms(4) us(2,3) unfolding xs by (auto simp: sorted_wrt_append)
    ultimately show ?thesis using assms(6) comparator.cmp_less_trans [OF assms(5)] by blast
  qed
  then have f: "olist_find cmp k (map (key_of h) xs) = olist_find cmp k (map (key_of h) vs)"
    unfolding xs by (simp add: olist_split(3))
  show ?thesis
  proof (cases vs)
    case Nil
    then show ?thesis using uv(2) f by (simp add: answer_def)
  next
    case (Cons d ys)
    then show ?thesis using uv(2) f comparator.cmp_zero_sym [OF assms(5)] by (auto simp: answer_def)
  qed
qed

lemma node_at_height: "heap_ok h \<Longrightarrow> node_at h b l \<longleftrightarrow> b < length h \<and> l < n_height (h ! b)"
  by (auto simp: node_at_def heap_ok_def)

text \<open>The nodes of a list.\<close>

lemma idle_zone:
  assumes "comparator cmp" "sl_inv s xs" "ascending cmp (sl_heap s) xs"
  shows "zone cmp (sl_heap s) k {olist_find cmp k (keys_at s xs)} (set (0 # xs))"
  unfolding zone_def
proof (intro ballI conjI allI impI)
  let ?h = "sl_heap s"
  note I = sl_invD [OF assms(2)]
  have xs: "\<forall>b \<in> set xs. 0 < b \<and> b < length ?h" using I(5) by blast
  fix b assume b: "b \<in> set (0 # xs)"
  have lt: "b < length ?h" using b I(1) xs by (auto simp: heap_ok_def)
  show at0: "node_at ?h b 0" using I(1) lt unfolding node_at_height [OF I(1)] by (auto simp: heap_ok_def Suc_le_eq)
  { fix l d assume d: "node_at ?h b l" "nx ?h l b = Some d"
    have l: "l < kMaxHeight" using d(1) I(1) lt unfolding node_at_height [OF I(1)] heap_ok_def by fastforce
    have "b \<in> set (0 # level ?h l xs)" using b d(1) unfolding node_at_height [OF I(1)] by (auto simp: level_def)
    note c = chain_next [OF I(6) [OF l] this d(2) I(1) xs assms(3)]
    show "d \<in> set (0 # xs)" "node_at ?h d l" "d \<noteq> 0" "b \<noteq> 0 \<Longrightarrow> cmp (key_of ?h b) (key_of ?h d) < 0" using c by auto }
  assume k: "b = 0 \<or> cmp (key_of ?h b) k < 0"
  have "linked ?h 0 0 xs" using I(6) [of 0] level_0 [OF I(1)] xs by (simp add: kMaxHeight_def)
  from chain_answer [OF this b _ assms(3,1) k]
  show "(\<exists>d. nx ?h 0 b = Some d \<and> cmp (key_of ?h d) k < 0) \<or> answer cmp ?h k (nx ?h 0 b) \<in> {olist_find cmp k (keys_at s xs)}"
    using xs by (simp add: keys_at_def)
qed

section \<open>In the middle of a put\<close>

text \<open>
  The list was \<open>bs @ ds @ as\<close> and will be \<open>bs @ new # as\<close>; \<open>ds\<close> is the replaced node, if any. The levels below \<open>i\<close> are
  linked; on level \<open>i\<close> the new node may have its pointer already (\<open>st\<close>). A replaced node keeps its pointers.
\<close>

definition mid_list :: "nat list \<Rightarrow> nat list \<Rightarrow> nat list \<Rightarrow> nat \<Rightarrow> nat \<Rightarrow> nat \<Rightarrow> nat list" where
  "mid_list bs ds as new i l = bs @ (if l < i then [new] else ds) @ as"

definition mid :: "('k \<Rightarrow> 'k \<Rightarrow> int) \<Rightarrow> 'k heap \<Rightarrow> nat \<Rightarrow> nat list \<Rightarrow> nat list \<Rightarrow> nat list \<Rightarrow> nat \<Rightarrow> nat \<Rightarrow> bool \<Rightarrow> bool" where
  "mid cmp h H bs ds as new i st \<longleftrightarrow>
     heap_ok h \<and> 1 \<le> H \<and> H \<le> kMaxHeight \<and> distinct (new # bs @ ds @ as) \<and>
     (\<forall>a \<in> set (new # bs @ ds @ as). 0 < a \<and> a < length h \<and> n_height (h ! a) \<le> H) \<and>
     i \<le> n_height (h ! new) \<and> (st \<longrightarrow> i < n_height (h ! new)) \<and> (\<forall>d \<in> set ds. n_height (h ! d) \<le> n_height (h ! new)) \<and>
     ascending cmp h (bs @ ds @ as) \<and> ascending cmp h (bs @ new # as) \<and> (\<forall>d \<in> set ds. cmp (key_of h d) (key_of h new) = 0) \<and>
     (\<forall>l < kMaxHeight. linked h l 0 (level h l (mid_list bs ds as new i l))) \<and>
     (\<forall>l < i. \<forall>d \<in> set ds. l < n_height (h ! d) \<longrightarrow> nx h l d = nx h l new) \<and>
     (\<forall>l < n_height (h ! new). i \<le> l \<longrightarrow>
        nx h l new = (if st \<and> l = i then nx h i (pred_at h i (bs @ ds)) else None))"

lemma midD:
  assumes "mid cmp h H bs ds as new i st"
  shows "heap_ok h" "1 \<le> H" "H \<le> kMaxHeight" "distinct (new # bs @ ds @ as)"
    "a \<in> set (new # bs @ ds @ as) \<Longrightarrow> 0 < a \<and> a < length h \<and> n_height (h ! a) \<le> H"
    "i \<le> n_height (h ! new)" "st \<Longrightarrow> i < n_height (h ! new)" "d \<in> set ds \<Longrightarrow> n_height (h ! d) \<le> n_height (h ! new)"
    "ascending cmp h (bs @ ds @ as)" "ascending cmp h (bs @ new # as)" "d \<in> set ds \<Longrightarrow> cmp (key_of h d) (key_of h new) = 0"
    "l < kMaxHeight \<Longrightarrow> linked h l 0 (level h l (mid_list bs ds as new i l))"
    "l < i \<Longrightarrow> d \<in> set ds \<Longrightarrow> l < n_height (h ! d) \<Longrightarrow> nx h l d = nx h l new"
    "l < n_height (h ! new) \<Longrightarrow> i \<le> l \<Longrightarrow> nx h l new = (if st \<and> l = i then nx h i (pred_at h i (bs @ ds)) else None)"
  using assms unfolding mid_def by blast+

text \<open>The nodes in use: the new one once it is linked on the lowest level.\<close>

definition mid_nodes :: "nat list \<Rightarrow> nat list \<Rightarrow> nat list \<Rightarrow> nat \<Rightarrow> nat \<Rightarrow> nat set" where
  "mid_nodes bs ds as new i = set (0 # bs @ ds @ as) \<union> (if i = 0 then {} else {new})"

definition mid_keys :: "'k heap \<Rightarrow> nat list \<Rightarrow> nat list \<Rightarrow> nat list \<Rightarrow> nat \<Rightarrow> nat \<Rightarrow> 'k list" where
  "mid_keys h bs ds as new i = map (key_of h) (mid_list bs ds as new i 0)"

lemma mid_next:
  assumes "mid cmp h H bs ds as new i st" "comparator cmp" "b \<in> mid_nodes bs ds as new i" "node_at h b l" "nx h l b = Some d"
  shows "d \<in> mid_nodes bs ds as new i \<and> node_at h d l \<and> d \<noteq> 0 \<and> (b \<noteq> 0 \<longrightarrow> cmp (key_of h b) (key_of h d) < 0)"
proof -
  note M = midD [OF assms(1)]
  have at: "b < length h" "l < n_height (h ! b)" using assms(4) unfolding node_at_height [OF M(1)] by simp_all
  have l: "l < kMaxHeight" using at M(1) unfolding heap_ok_def by fastforce
  have asc: "ascending cmp h (mid_list bs ds as new i l)" using M(9,10) by (simp add: mid_list_def)
  have pos: "\<forall>b \<in> set (mid_list bs ds as new i l). 0 < b \<and> b < length h" using M(5) by (auto simp: mid_list_def)
  have sub: "set (mid_list bs ds as new i l) \<subseteq> mid_nodes bs ds as new i" by (auto simp: mid_list_def mid_nodes_def)
  have chain: "d \<in> mid_nodes bs ds as new i \<and> node_at h d l \<and> d \<noteq> 0 \<and> (c \<noteq> 0 \<longrightarrow> cmp (key_of h c) (key_of h d) < 0)"
    if "c \<in> set (0 # level h l (mid_list bs ds as new i l))" "nx h l c = Some d" for c
    using chain_next [OF M(12) [OF l] that M(1) pos asc] sub by blast
  consider "b \<in> set (0 # level h l (mid_list bs ds as new i l))" | "b \<in> set ds" "l < i" | "b = new" "i \<le> l"
    using assms(3) at(2) by (cases "l < i") (auto simp: mid_nodes_def mid_list_def level_def split: if_splits)
  then show ?thesis
  proof cases
    case 1
    then show ?thesis using chain assms(5) by blast
  next
    case 2
    have new: "l < n_height (h ! new)" using M(8) [OF 2(1)] at(2) by simp
    then have "new \<in> set (0 # level h l (mid_list bs ds as new i l))" using 2(2) by (simp add: level_def mid_list_def)
    moreover have "nx h l new = Some d" using M(13) [OF 2(2,1) at(2)] assms(5) by simp
    moreover have "cmp (key_of h b) (key_of h d) < 0 \<longleftrightarrow> cmp (key_of h new) (key_of h d) < 0"
      by (rule comparator.cmp_zero_cong [OF assms(2) M(11) [OF 2(1)]])
    ultimately show ?thesis using chain [of new] M(5) [of new] by simp
  next
    case 3
    have st: "st \<and> l = i" "nx h l (pred_at h l (bs @ ds)) = Some d"
      using M(14) [of l] 3 at(2) assms(5) by (auto split: if_splits)
    have lev: "level h l (mid_list bs ds as new i l) = level h l (bs @ ds) @ level h l as" using st by (simp add: mid_list_def)
    have "pred_at h l (bs @ ds) \<in> set (0 # level h l (bs @ ds))" by (rule last_in_set) simp
    then have c: "pred_at h l (bs @ ds) \<in> set (0 # level h l (mid_list bs ds as new i l))" unfolding lev by auto
    have lk: "linked h l 0 (level h l (bs @ ds) @ level h l as)" using M(12) [OF l] unfolding lev .
    then have "nx h l (pred_at h l (bs @ ds)) = first_node (level h l as)"
      unfolding linked_append by (rule linked_first [OF conjunct2])
    then have "d \<in> set as" using st(2) set_level [of h l as] by (auto simp: first_node_Some)
    then have "cmp (key_of h new) (key_of h d) < 0" using M(10) by (auto simp: sorted_wrt_append)
    then show ?thesis using chain [OF c st(2)] 3(1) by simp
  qed
qed

lemma mid_answer:
  assumes "mid cmp h H bs ds as new i st" "comparator cmp" "b \<in> mid_nodes bs ds as new i" "b = 0 \<or> cmp (key_of h b) k < 0"
  shows "(\<exists>d. nx h 0 b = Some d \<and> cmp (key_of h d) k < 0) \<or> answer cmp h k (nx h 0 b) = olist_find cmp k (mid_keys h bs ds as new i)"
proof -
  note M = midD [OF assms(1)]
  have pos: "\<forall>b \<in> set (mid_list bs ds as new i 0). 0 < b \<and> b < length h" using M(5) by (auto simp: mid_list_def)
  have "linked h 0 0 (mid_list bs ds as new i 0)"
    using M(12) [of 0] level_0 [OF M(1)] pos by (simp add: kMaxHeight_def)
  moreover have asc: "ascending cmp h (mid_list bs ds as new i 0)" using M(9,10) by (simp add: mid_list_def)
  ultimately have chain: "(\<exists>d. nx h 0 c = Some d \<and> cmp (key_of h d) k < 0) \<or> answer cmp h k (nx h 0 c) = olist_find cmp k (mid_keys h bs ds as new i)"
    if "c \<in> set (0 # mid_list bs ds as new i 0)" "c = 0 \<or> cmp (key_of h c) k < 0" for c
    using chain_answer [OF _ that(1) _ _ assms(2) that(2)] pos unfolding mid_keys_def by blast
  consider "b \<in> set (0 # mid_list bs ds as new i 0)" | "b \<in> set ds" "0 < i"
    using assms(3) by (cases "0 < i") (auto simp: mid_nodes_def mid_list_def split: if_splits)
  then show ?thesis
  proof cases
    case 1
    then show ?thesis using chain assms(4) by blast
  next
    case 2
    have b: "0 < n_height (h ! b)" "b \<noteq> 0" using M(5) [of b] M(1) 2(1) unfolding heap_ok_def by auto
    have "cmp (key_of h new) k < 0"
      using assms(4) b(2) comparator.cmp_zero_cong [OF assms(2) M(11) [OF 2(1)]] by simp
    moreover have "new \<in> set (0 # mid_list bs ds as new i 0)" using 2(2) by (simp add: mid_list_def)
    ultimately show ?thesis using chain [of new] M(13) [OF 2(2,1) b(1)] by simp
  qed
qed

lemma mid_zone:
  assumes "mid cmp h H bs ds as new i st" "comparator cmp"
  shows "zone cmp h k {olist_find cmp k (mid_keys h bs ds as new i)} (mid_nodes bs ds as new i)"
  unfolding zone_def
proof (intro ballI conjI)
  note M = midD [OF assms(1)]
  fix b assume b: "b \<in> mid_nodes bs ds as new i"
  have "b = 0 \<or> b < length h" using b M(5) by (auto simp: mid_nodes_def split: if_splits)
  then show "node_at h b 0" using M(1) unfolding node_at_height [OF M(1)] by (auto simp: heap_ok_def Suc_le_eq)
  show "\<forall>l d. node_at h b l \<longrightarrow> nx h l b = Some d \<longrightarrow>
      d \<in> mid_nodes bs ds as new i \<and> node_at h d l \<and> d \<noteq> 0 \<and> (b \<noteq> 0 \<longrightarrow> cmp (key_of h b) (key_of h d) < 0)"
    using mid_next [OF assms b] by blast
  show "b = 0 \<or> cmp (key_of h b) k < 0 \<longrightarrow> (\<exists>d. nx h 0 b = Some d \<and> cmp (key_of h d) k < 0) \<or>
      answer cmp h k (nx h 0 b) \<in> {olist_find cmp k (mid_keys h bs ds as new i)}"
    using mid_answer [OF assms b] by blast
qed

text \<open>The components of a put under way.\<close>

definition put_at :: "'k heap \<Rightarrow> writer \<Rightarrow> nat list \<Rightarrow> nat list \<Rightarrow> nat \<Rightarrow> nat \<Rightarrow> bool \<Rightarrow> bool" where
  "put_at h w bs ds new i st \<longleftrightarrow>
     (\<exists>x prev. w = (if st then Link else Fill) x prev new [i..<n_height (h ! new)] \<and>
        (x = None \<and> ds = [] \<or> (\<exists>a. x = Some a \<and> ds = [a] \<and> n_height (h ! a) = n_height (h ! new))) \<and>
        (\<forall>l < n_height (h ! new). i \<le> l \<longrightarrow> prev ! l = Some (pred_at h l bs)))"

text \<open>The first half of the loop body.\<close>

lemma pred_at_mid:
  assumes "mid cmp h H bs ds as new i st" "l < kMaxHeight"
  shows "node_at h (pred_at h l bs) l" "node_at h (pred_at h l (bs @ ds)) l"
    "pred_at h l bs \<in> set (0 # bs)" "pred_at h l (bs @ ds) \<in> set (0 # bs @ ds)"
proof -
  note M = midD [OF assms(1)]
  have *: "node_at h (pred_at h l xs) l \<and> pred_at h l xs \<in> set (0 # xs)" if "set xs \<subseteq> set (bs @ ds)" for xs
  proof -
    have "pred_at h l xs = 0 \<or> pred_at h l xs \<in> set (level h l xs)" by (rule pred_at_cases)
    then show ?thesis
    proof
      assume "pred_at h l xs \<in> set (level h l xs)"
      then have p: "pred_at h l xs \<in> set xs" "l < n_height (h ! pred_at h l xs)" by (auto simp: level_def)
      have "set (bs @ ds) \<subseteq> set (new # bs @ ds @ as)" by auto
      then have "pred_at h l xs \<in> set (new # bs @ ds @ as)" using subsetD [OF that p(1)] by (rule subsetD)
      then have "pred_at h l xs < length h" using M(5) by blast
      then show ?thesis using p unfolding node_at_height [OF M(1)] by simp
    next
      assume "pred_at h l xs = 0"
      then show ?thesis using node_at_head [OF M(1) assms(2)] by (metis list.set_intros(1))
    qed
  qed
  have sub: "set bs \<subseteq> set (bs @ ds)" "set (bs @ ds) \<subseteq> set (bs @ ds)" by auto
  from * [OF sub(1)] show "node_at h (pred_at h l bs) l" "pred_at h l bs \<in> set (0 # bs)" by blast+
  from * [OF sub(2)] show "node_at h (pred_at h l (bs @ ds)) l" "pred_at h l (bs @ ds) \<in> set (0 # bs @ ds)" by blast+
qed

lemma mid_height:
  assumes "mid cmp h H bs ds as new i st"
  shows "n_height (h ! new) \<le> kMaxHeight" "node_at h new l \<longleftrightarrow> l < n_height (h ! new)"
  using midD(1,3) [OF assms] midD(5) [OF assms, of new] node_at_height [OF midD(1) [OF assms]] by auto

text \<open>Keys, heights and levels do not change while pointers are written.\<close>

lemma shape_keys:
  assumes "same_shape h h'" "a < length h"
  shows "key_of h' a = key_of h a" "n_height (h' ! a) = n_height (h ! a)"
  using assms by (simp_all add: same_shape_def)

lemma ascending_keys:
  assumes "\<forall>a \<in> set xs. key_of h' a = key_of h a"
  shows "ascending cmp h' xs \<longleftrightarrow> ascending cmp h xs"
proof -
  have "ascending cmp h' xs \<longleftrightarrow> sorted_wrt (\<lambda>a b. cmp a b < 0) (map (key_of h') xs)" by (simp add: sorted_wrt_map)
  also have "map (key_of h') xs = map (key_of h) xs" using assms by (intro map_cong) simp_all
  also have "sorted_wrt (\<lambda>a b. cmp a b < 0) (map (key_of h) xs) \<longleftrightarrow> ascending cmp h xs" by (simp add: sorted_wrt_map)
  finally show ?thesis .
qed

lemma ascending_shape:
  assumes "same_shape h h'" "\<forall>a \<in> set xs. a < length h"
  shows "ascending cmp h' xs \<longleftrightarrow> ascending cmp h xs"
  using assms(2) shape_keys(1) [OF assms(1)] by (intro ascending_keys) simp

lemma mid_shape:
  assumes "mid cmp h H bs ds as new i st" "same_shape h h1" "i1 \<le> n_height (h ! new)" "st1 \<Longrightarrow> i1 < n_height (h ! new)"
    and "\<And>l. l < kMaxHeight \<Longrightarrow> linked h1 l 0 (level h l (mid_list bs ds as new i1 l))"
    and "\<And>l d. l < i1 \<Longrightarrow> d \<in> set ds \<Longrightarrow> l < n_height (h ! d) \<Longrightarrow> nx h1 l d = nx h1 l new"
    and "\<And>l. l < n_height (h ! new) \<Longrightarrow> i1 \<le> l \<Longrightarrow>
           nx h1 l new = (if st1 \<and> l = i1 then nx h1 i1 (pred_at h i1 (bs @ ds)) else None)"
  shows "mid cmp h1 H bs ds as new i1 st1"
proof -
  note M = midD [OF assms(1)]
  have lt: "\<forall>a \<in> set xs. a < length h" if "set xs \<subseteq> set (new # bs @ ds @ as)" for xs using M(5) that by blast
  have len: "length h1 = length h" using assms(2) by (simp add: same_shape_def)
  have key: "key_of h1 a = key_of h a \<and> n_height (h1 ! a) = n_height (h ! a)" if "a \<in> set (new # bs @ ds @ as)" for a
    using shape_keys [OF assms(2)] M(5) [OF that] by blast
  have sub: "set (bs @ ds @ as) \<subseteq> set (new # bs @ ds @ as)" "set (bs @ new # as) \<subseteq> set (new # bs @ ds @ as)"
    "set (bs @ ds) \<subseteq> set (new # bs @ ds @ as)" "set (mid_list bs ds as new i1 l) \<subseteq> set (new # bs @ ds @ as)" for l
    by (auto simp: mid_list_def)
  have lev: "level h1 l (mid_list bs ds as new i1 l) = level h l (mid_list bs ds as new i1 l)"
    "level h1 l (bs @ ds) = level h l (bs @ ds)" for l
    by (rule level_shape [OF assms(2) lt [OF sub(4)]], rule level_shape [OF assms(2) lt [OF sub(3)]])
  have ds: "d \<in> set (new # bs @ ds @ as)" if "d \<in> set ds" for d using that by simp
  show ?thesis
    unfolding mid_def
  proof (intro conjI ballI allI impI)
    show "heap_ok h1" by (rule heap_ok_shape [OF assms(2) M(1)])
    show "ascending cmp h1 (bs @ ds @ as)" using M(9) ascending_shape [OF assms(2) lt [OF sub(1)]] by blast
    show "ascending cmp h1 (bs @ new # as)" using M(10) ascending_shape [OF assms(2) lt [OF sub(2)]] by blast
    fix a assume a: "a \<in> set (new # bs @ ds @ as)"
    show "0 < a" "a < length h1" "n_height (h1 ! a) \<le> H" using M(5) [OF a] key [OF a] len by simp_all
  next
    fix d assume d: "d \<in> set ds"
    show "n_height (h1 ! d) \<le> n_height (h1 ! new)" "cmp (key_of h1 d) (key_of h1 new) = 0"
      using M(8,11) [OF d] key [OF ds [OF d]] key [of new] by simp_all
  next
    fix l assume "l < kMaxHeight"
    then show "linked h1 l 0 (level h1 l (mid_list bs ds as new i1 l))" unfolding lev by (rule assms(5))
  next
    fix l d assume "l < i1" "d \<in> set ds" "l < n_height (h1 ! d)"
    then show "nx h1 l d = nx h1 l new" using assms(6) key [OF ds] by simp
  next
    fix l assume "l < n_height (h1 ! new)" "i1 \<le> l"
    then show "nx h1 l new = (if st1 \<and> l = i1 then nx h1 i1 (pred_at h1 i1 (bs @ ds)) else None)"
      unfolding lev using assms(7) key [of new] by simp
  qed (use M assms(3,4) key [of new] in simp_all)
qed

text \<open>What the first half of the loop body reads.\<close>

lemma fill_source:
  assumes "x = None \<and> ds = [] \<or> (\<exists>a. x = Some a \<and> ds = [a] \<and> n_height (h ! a) = n_height (h ! new))"
    and "prev ! l = Some (pred_at h l bs)" "l < n_height (h ! new)"
  shows "(if x = None then prev ! l else x) = Some (pred_at h l (bs @ ds))"
  using assms by auto

lemma put_at_shape:
  assumes "put_at h w bs ds new i st" "same_shape h h1" "mid cmp h H bs ds as new i st"
    and "\<And>x prev. w = (if st then Link else Fill) x prev new [i..<n_height (h ! new)] \<Longrightarrow>
           w1 = (if st1 then Link else Fill) x prev new [i1..<n_height (h ! new)]" "i \<le> i1"
  shows "put_at h1 w1 bs ds new i1 st1"
proof -
  note M = midD [OF assms(3)]
  obtain x prev where p: "w = (if st then Link else Fill) x prev new [i..<n_height (h ! new)]"
    "x = None \<and> ds = [] \<or> (\<exists>a. x = Some a \<and> ds = [a] \<and> n_height (h ! a) = n_height (h ! new))"
    "\<forall>l < n_height (h ! new). i \<le> l \<longrightarrow> prev ! l = Some (pred_at h l bs)"
    using assms(1) unfolding put_at_def by blast
  have key: "n_height (h1 ! a) = n_height (h ! a)" if "a \<in> set (new # bs @ ds @ as)" for a
    using shape_keys [OF assms(2)] M(5) [OF that] by blast
  have "level h1 l bs = level h l bs" for l using M(5) by (intro level_shape [OF assms(2)]) auto
  then show ?thesis
    unfolding put_at_def using p(2,3) assms(4) [OF p(1)] assms(5) key
    by (intro exI [of _ x] exI [of _ prev]) auto
qed

lemma mid_list_new: "i \<le> l \<Longrightarrow> mid_list bs ds as new i l = bs @ ds @ as"
  by (simp add: mid_list_def)

lemma mid_fill:
  assumes "mid cmp h H bs ds as new i False" "put_at h w bs ds new i False" "i < n_height (h ! new)"
  shows "\<exists>h1 w1. write_step h w = Some (h1, w1) \<and> same_shape h h1 \<and> (\<forall>m a. a \<noteq> new \<longrightarrow> nx h1 m a = nx h m a) \<and>
           mid cmp h1 H bs ds as new i True \<and> put_at h1 w1 bs ds new i True"
proof -
  note M = midD [OF assms(1)]
  obtain x prev where p: "w = Fill x prev new [i..<n_height (h ! new)]"
    "x = None \<and> ds = [] \<or> (\<exists>a. x = Some a \<and> ds = [a] \<and> n_height (h ! a) = n_height (h ! new))"
    "\<forall>l < n_height (h ! new). i \<le> l \<longrightarrow> prev ! l = Some (pred_at h l bs)"
    using assms(2) unfolding put_at_def by auto
  have i: "i < kMaxHeight" using assms(3) mid_height(1) [OF assms(1)] by simp
  note at = pred_at_mid [OF assms(1) i]
  let ?n = "nx h i (pred_at h i (bs @ ds))"
  have upt: "[i..<n_height (h ! new)] = i # [Suc i..<n_height (h ! new)]" using assms(3) by (rule upt_conv_Cons)
  have src: "(if x = None then prev ! i else x) = Some (pred_at h i (bs @ ds))"
    using fill_source [OF p(2) _ assms(3)] p(3) assms(3) by blast
  have "node_at h new i" using mid_height(2) [OF assms(1)] assms(3) by blast
  then obtain h1 where h1: "set_next h (Some new) i ?n = Some h1" "same_shape h h1"
    "\<And>m a. nx h1 m a = (if m = i \<and> a = new then ?n else nx h m a)"
    using set_next_at [of h new i ?n] by blast
  have step: "write_step h w = Some (h1, Link x prev new [i..<n_height (h ! new)])"
    unfolding p(1) upt write_step.simps src get_next_at [OF at(2)] bind.simps h1(1) ..
  have new: "new \<notin> set (0 # bs @ ds @ as)" using M(4) M(5) [of new] by auto
  have "linked h1 l 0 (level h l (mid_list bs ds as new i l))" if l: "l < kMaxHeight" for l
  proof (rule linked_cong [OF M(12) [OF l]])
    fix a assume a: "a \<in> set (0 # level h l (mid_list bs ds as new i l))"
    have "a \<noteq> new" if "l = i" using a new set_level [of h l "bs @ ds @ as"] that by (auto simp: mid_list_new)
    then show "nx h1 l a = nx h l a" using h1(3) by auto
  qed
  moreover have "nx h1 l d = nx h1 l new" if "l < i" "d \<in> set ds" "l < n_height (h ! d)" for l d
    using M(13) [OF that] that(1) h1(3) by simp
  moreover have "nx h1 l new = (if True \<and> l = i then nx h1 i (pred_at h i (bs @ ds)) else None)"
    if "l < n_height (h ! new)" "i \<le> l" for l
  proof -
    have "pred_at h i (bs @ ds) \<noteq> new" using at(4) new by (metis Un_iff list.set(2) set_append insert_iff)
    then show ?thesis using h1(3) M(14) [OF that] by auto
  qed
  ultimately have "mid cmp h1 H bs ds as new i True" using assms(3) by (intro mid_shape [OF assms(1) h1(2)]) auto
  moreover have "put_at h1 (Link x prev new [i..<n_height (h ! new)]) bs ds new i True"
    using p(1) by (intro put_at_shape [OF assms(2) h1(2) assms(1)]) auto
  ultimately show ?thesis using step h1(2,3) by auto
qed

text \<open>The second half.\<close>

lemma mid_link:
  assumes "mid cmp h H bs ds as new i True" "put_at h w bs ds new i True"
  shows "\<exists>h1 w1. write_step h w = Some (h1, w1) \<and> same_shape h h1 \<and> (\<forall>m a. a \<noteq> pred_at h i bs \<longrightarrow> nx h1 m a = nx h m a) \<and>
           mid cmp h1 H bs ds as new (Suc i) False \<and> put_at h1 w1 bs ds new (Suc i) False"
proof -
  note M = midD [OF assms(1)]
  obtain x prev where p: "w = Link x prev new [i..<n_height (h ! new)]"
    "x = None \<and> ds = [] \<or> (\<exists>a. x = Some a \<and> ds = [a] \<and> n_height (h ! a) = n_height (h ! new))"
    "\<forall>l < n_height (h ! new). i \<le> l \<longrightarrow> prev ! l = Some (pred_at h l bs)"
    using assms(2) unfolding put_at_def by auto
  have hgt: "i < n_height (h ! new)" using M(7) by simp
  have i: "i < kMaxHeight" using hgt mid_height(1) [OF assms(1)] by simp
  note at = pred_at_mid [OF assms(1) i]
  have upt: "[i..<n_height (h ! new)] = i # [Suc i..<n_height (h ! new)]" using hgt by (rule upt_conv_Cons)
  obtain h1 where h1: "set_next h (Some (pred_at h i bs)) i (Some new) = Some h1" "same_shape h h1"
    "\<And>m a. nx h1 m a = (if m = i \<and> a = pred_at h i bs then Some new else nx h m a)"
    using set_next_at [OF at(1), of "Some new"] by blast
  have prev: "prev ! i = Some (pred_at h i bs)" using p(3) hgt by blast
  have step: "write_step h w = Some (h1, Fill x prev new [Suc i..<n_height (h ! new)])"
    unfolding p(1) upt write_step.simps prev h1(1) bind.simps ..
  have d: "distinct (0 # new # bs @ ds @ as)" using M(4,5) by force
  have p_new: "pred_at h i bs \<noteq> new" using at(3) d by (metis distinct.simps(2) insert_iff list.set(2) Un_iff set_append)
  have p_in: "pred_at h i bs \<notin> set (ds @ as)" using at(3) d by (cases "pred_at h i bs = 0") (simp, auto)
  have n: "nx h i new = nx h i (pred_at h i (bs @ ds))" using M(14) [OF hgt] by simp
  have "linked h1 l 0 (level h l (mid_list bs ds as new (Suc i) l))" if l: "l < kMaxHeight" for l
  proof (cases "l = i")
    case True
    have "linked h i 0 (level h i bs @ level h i ds @ level h i as)"
      using M(12) [OF i] by (simp add: mid_list_new)
    then have "linked h1 i 0 (level h i bs @ new # level h i as)"
    proof (rule linked_new)
      show "nx h1 i (pred_at h i bs) = Some new" by (simp only: h1(3) simp_thms if_True)
      show "nx h1 i new = nx h i (last (0 # level h i bs @ level h i ds))"
        using n p_new by (simp only: h1(3) level_simps(2)) (metis p_new)
      fix a assume a: "a \<in> set (butlast (0 # level h i bs)) \<union> set (level h i as)"
      have "distinct (0 # level h i bs)" using d by (auto simp: level_def)
      then have "distinct (butlast (0 # level h i bs) @ [pred_at h i bs])"
        by (simp only: append_butlast_last_id list.distinct not_False_eq_True)
      then have "pred_at h i bs \<notin> set (butlast (0 # level h i bs))" by (simp only: distinct_append) auto
      moreover have "pred_at h i bs \<notin> set (level h i as)" using p_in set_level [of h i as] by auto
      ultimately have "a \<noteq> pred_at h i bs" using a by blast
      then show "nx h1 i a = nx h i a" by (simp only: h1(3) simp_thms if_False)
    qed
    then show ?thesis using True hgt by (simp add: mid_list_def)
  next
    case False
    then have "mid_list bs ds as new (Suc i) l = mid_list bs ds as new i l" by (auto simp: mid_list_def)
    then show ?thesis using linked_cong [OF M(12) [OF l], of h1] h1(3) False by simp
  qed
  moreover have "nx h1 l e = nx h1 l new" if e: "l < Suc i" "e \<in> set ds" "l < n_height (h ! e)" for l e
  proof -
    have ne: "e \<noteq> pred_at h i bs" using p_in e(2) by (metis UnI1 set_append)
    have "nx h l e = nx h l new"
    proof (cases "l = i")
      case True
      have "ds = [e]" using p(2) e(2) by auto
      then have "pred_at h i (bs @ ds) = e" using True e(3) by simp
      then show ?thesis using n True by simp
    next
      case False
      then show ?thesis using M(13) e by simp
    qed
    then show ?thesis using ne p_new h1(3) by metis
  qed
  moreover have "nx h1 l new = (if False \<and> l = Suc i then nx h1 (Suc i) (pred_at h (Suc i) (bs @ ds)) else None)"
    if "l < n_height (h ! new)" "Suc i \<le> l" for l
    using M(14) [OF that(1)] that(2) h1(3) by simp
  ultimately have "mid cmp h1 H bs ds as new (Suc i) False" using hgt by (intro mid_shape [OF assms(1) h1(2)]) auto
  moreover have "put_at h1 (Fill x prev new [Suc i..<n_height (h ! new)]) bs ds new (Suc i) False"
    using p(1) by (intro put_at_shape [OF assms(2) h1(2) assms(1)]) auto
  ultimately show ?thesis using step h1(2,3) by (metis (no_types, lifting))
qed

text \<open>The end of the loop.\<close>

lemma mid_done:
  assumes "mid cmp h H bs ds as new (n_height (h ! new)) False"
  shows "sl_inv \<lparr>sl_heap = h, sl_maxHeight = H, sl_rand = r\<rparr> (bs @ new # as)" "ascending cmp h (bs @ new # as)"
proof -
  note M = midD [OF assms]
  have "linked h l 0 (level h l (bs @ new # as))" if l: "l < kMaxHeight" for l
  proof -
    have "level h l (mid_list bs ds as new (n_height (h ! new)) l) = level h l (bs @ new # as)"
      using M(8) by (fastforce simp: mid_list_def level_def filter_empty_conv)
    then show ?thesis using M(12) [OF l] by simp
  qed
  then show "sl_inv \<lparr>sl_heap = h, sl_maxHeight = H, sl_rand = r\<rparr> (bs @ new # as)"
    using M(1-5) unfolding sl_inv_def by auto
  show "ascending cmp h (bs @ new # as)" by (rule M(10))
qed

text \<open>The beginning.\<close>

lemma put_split:
  assumes "comparator cmp" "sl_inv s xs" "ascending cmp (sl_heap s) xs"
  shows "\<exists>bs ds as. xs = bs @ ds @ as \<and> split_at cmp s k bs (ds @ as) \<and> (\<forall>a \<in> set as. cmp k (key_of (sl_heap s) a) < 0) \<and>
           (if key_node cmp s k (ds @ as) then \<exists>a. ds = [a] \<and> cmp (key_of (sl_heap s) a) k = 0 else ds = []) \<and>
           olist_put cmp k (keys_at s xs) = keys_at s bs @ k # keys_at s as"
proof -
  have "sorted_wrt (\<lambda>a b. cmp a b < 0) (map (key_of (sl_heap s)) xs)" using assms(3) by (simp add: sorted_wrt_map)
  from comparator.ordered_split [OF assms(1) this, of k]
  obtain bs zs where z: "xs = bs @ zs" "\<forall>b \<in> set bs. cmp (key_of (sl_heap s) b) k < 0"
    "\<forall>a \<in> set zs. \<not> cmp (key_of (sl_heap s) a) k < 0" "\<forall>a \<in> set (tl zs). 0 < cmp (key_of (sl_heap s) a) k"
    by blast
  have sp: "split_at cmp s k bs zs" using z assms(2) by (simp add: split_at_def)
  note put = olist_at_split(2) [OF sp, folded z(1)]
  show ?thesis
  proof (cases "key_node cmp s k zs")
    case True
    then obtain a as where as: "zs = a # as" "cmp (key_of (sl_heap s) a) k = 0" by (auto simp: key_node_def split: list.splits)
    then show ?thesis
      using z sp put True comparator.cmp_flip2 [OF assms(1)] by (intro exI [of _ bs] exI [of _ "[a]"] exI [of _ as]) simp
  next
    case False
    have "cmp k (key_of (sl_heap s) a) < 0" if a: "a \<in> set zs" for a
    proof (cases zs)
      case (Cons y ys)
      have "cmp (key_of (sl_heap s) y) k \<noteq> 0" using False Cons by (simp add: key_node_def)
      then have "0 < cmp (key_of (sl_heap s) a) k" using a z(3,4) Cons by fastforce
      then show ?thesis using comparator.cmp_flip2 [OF assms(1)] by blast
    qed (use a in simp)
    then show ?thesis
      using z sp put False by (intro exI [of _ bs] exI [of _ "[]"] exI [of _ zs]) simp
  qed
qed

lemma linked_old:
  assumes "linked h l 0 xs" "\<forall>a \<in> set (0 # xs). a < length h"
  shows "linked (h @ [n]) l 0 xs"
proof (rule linked_cong [OF assms(1)])
  fix a assume "a \<in> set (0 # xs)"
  then have "a < length h" using assms(2) by blast
  then show "nx (h @ [n]) l a = nx h l a" by (simp add: nx_def nth_append)
qed

lemma mid_start:
  fixes k :: 'k
  assumes "comparator cmp" "sl_inv s (bs @ ds @ as)" "ascending cmp (sl_heap s) (bs @ ds @ as)"
    and "\<forall>b \<in> set bs. cmp (key_of (sl_heap s) b) k < 0" "\<forall>a \<in> set as. cmp k (key_of (sl_heap s) a) < 0"
    and "\<forall>a \<in> set ds. cmp (key_of (sl_heap s) a) k = 0 \<and> n_height (sl_heap s ! a) \<le> hgt"
    and "1 \<le> hgt" "hgt \<le> H" "sl_maxHeight s \<le> H" "H \<le> kMaxHeight" "newNode (sl_heap s) k hgt = (new, h)"
  shows "mid cmp h H bs ds as new 0 False" "n_height (h ! new) = hgt" "key_of h new = k" "\<forall>l. level h l bs = level (sl_heap s) l bs"
    "\<forall>a < length (sl_heap s). h ! a = sl_heap s ! a" "new = length (sl_heap s)"
proof -
  let ?h = "sl_heap s"
  note I = sl_invD [OF assms(2)]
  have N: "new = length ?h" "h = ?h @ [\<lparr>n_key = k, n_height = hgt, n_next = replicate hgt None\<rparr>]"
    using assms(11) by (simp_all add: newNode_def)
  have old: "h ! a = ?h ! a" if "a < length ?h" for a using that by (simp add: N nth_append)
  show hn: "n_height (h ! new) = hgt" "key_of h new = k" by (simp_all add: N)
  show "\<forall>a < length ?h. h ! a = ?h ! a" "new = length ?h" using old N(1) by blast+
  have lt: "a < length ?h" if "a \<in> set (bs @ ds @ as)" for a using I(5) [OF that] by blast
  have lev: "level h l xs = level ?h l xs" if "set xs \<subseteq> set (bs @ ds @ as)" for l xs
    using that lt old by (auto simp: level_def intro!: filter_cong)
  show "\<forall>l. level h l bs = level ?h l bs" using lev by simp
  have lens: "length h = Suc (length ?h)" by (simp add: N)
  show "mid cmp h H bs ds as new 0 False"
    unfolding mid_def
  proof (intro conjI ballI allI impI)
    show "heap_ok h" using I(1) assms(7,8,10) by (auto simp: heap_ok_def N nth_append less_Suc_eq)
    show "distinct (new # bs @ ds @ as)" using I(2) lt N(1) by auto
    show "ascending cmp h (bs @ ds @ as)"
      using assms(3) old lt by (subst ascending_keys [where h = ?h]) simp_all
    have "cmp (key_of h a) k < 0" if "a \<in> set bs" for a using assms(4) that old lt by simp
    moreover have "cmp k (key_of h a) < 0" if "a \<in> set as" for a using assms(5) that old lt by simp
    moreover have "ascending cmp h bs" "ascending cmp h as" "\<forall>a \<in> set bs. \<forall>b \<in> set as. cmp (key_of h a) (key_of h b) < 0"
      using \<open>ascending cmp h (bs @ ds @ as)\<close> by (auto simp: sorted_wrt_append)
    ultimately show "ascending cmp h (bs @ new # as)" by (simp add: sorted_wrt_append hn)
    fix a assume a: "a \<in> set (new # bs @ ds @ as)"
    then have "a = new \<or> a \<in> set (bs @ ds @ as)" by auto
    then show "0 < a" "a < length h" "n_height (h ! a) \<le> H"
      using I(1,5) lt old lens N(1) assms(8,9) hn unfolding heap_ok_def by (metis, metis less_SucI lessI, metis le_trans)
  next
    fix d assume d: "d \<in> set ds"
    then show "n_height (h ! d) \<le> n_height (h ! new)" "cmp (key_of h d) (key_of h new) = 0"
      using assms(6) old lt hn by simp_all
  next
    fix l assume l: "l < kMaxHeight"
    have "\<forall>a \<in> set (0 # level ?h l (bs @ ds @ as)). a < length ?h"
      using lt I(1) set_level [of ?h l "bs @ ds @ as"] by (auto simp: heap_ok_def)
    note c = linked_old [OF I(6) [OF l] this]
    show "linked h l 0 (level h l (mid_list bs ds as new 0 l))"
      unfolding mid_list_new [of 0 l, OF le0] lev [OF order_refl] by (subst N(2)) (rule c)
  next
    fix l assume "l < n_height (h ! new)"
    then show "nx h l new = (if False \<and> l = 0 then nx h 0 (pred_at h 0 (bs @ ds)) else None)"
      using hn by (simp add: nx_def N)
  qed (use I(3) assms(8,9,10) in simp_all)
qed

section \<open>Puts and a get in any order of their steps\<close>

text \<open>The list, the put under way, and the keys of all puts so far.\<close>

record 'k shared =
  sh_list :: "'k skip_list"
  sh_writer :: writer
  sh_puts :: "'k list"

datatype 'k move = StartPut 'k | WriteStep | ReadStep

inductive conc_step :: "('k \<Rightarrow> 'k \<Rightarrow> int) \<Rightarrow> 'k shared \<times> 'k reader \<Rightarrow> 'k move \<Rightarrow> 'k shared \<times> 'k reader \<Rightarrow> bool" for cmp where
  start_put: "sh_writer c = NoPut \<Longrightarrow> begin_put cmp (sh_list c) k = Some (s, w) \<Longrightarrow>
    conc_step cmp (c, r) (StartPut k) (c\<lparr>sh_list := s, sh_writer := w, sh_puts := sh_puts c @ [k]\<rparr>, r)"
| write_ptr: "write_step (sl_heap (sh_list c)) (sh_writer c) = Some (h, w) \<Longrightarrow>
    conc_step cmp (c, r) WriteStep (c\<lparr>sh_list := (sh_list c)\<lparr>sl_heap := h\<rparr>, sh_writer := w\<rparr>, r)"
| read_ptr: "read_step cmp (sl_heap (sh_list c)) r = Some r1 \<Longrightarrow> conc_step cmp (c, r) ReadStep (c, r1)"

inductive_cases conc_stepE: "conc_step cmp cr m cr1"

inductive conc_run :: "('k \<Rightarrow> 'k \<Rightarrow> int) \<Rightarrow> 'k shared \<times> 'k reader \<Rightarrow> 'k move list \<Rightarrow> 'k shared \<times> 'k reader \<Rightarrow> bool" for cmp where
  conc_refl: "conc_run cmp cr [] cr"
| conc_more: "conc_run cmp cr ms cr1 \<Longrightarrow> conc_step cmp cr1 m cr2 \<Longrightarrow> conc_run cmp cr (ms @ [m]) cr2"

text \<open>A put takes effect when the new node is linked on the lowest level.\<close>

definition done_puts :: "'k shared \<Rightarrow> 'k list" where
  "done_puts c =
     (case sh_writer c of
        Fill x prev new (0 # is) \<Rightarrow> butlast (sh_puts c)
      | Link x prev new (0 # is) \<Rightarrow> butlast (sh_puts c)
      | _ \<Rightarrow> sh_puts c)"

definition contents :: "('k \<Rightarrow> 'k \<Rightarrow> int) \<Rightarrow> 'k list \<Rightarrow> 'k shared \<Rightarrow> 'k list" where
  "contents cmp ks c = foldl (\<lambda>ks k. olist_put cmp k ks) ks (done_puts c)"

text \<open>The puts, one after the other and each in one piece.\<close>

fun put_many :: "('k \<Rightarrow> 'k \<Rightarrow> int) \<Rightarrow> 'k \<Rightarrow> 'k skip_list \<Rightarrow> 'k list \<Rightarrow> 'k skip_list option" where
  "put_many cmp dflt s [] = Some s"
| "put_many cmp dflt s (k # ks) = Option.bind (sl_put cmp dflt s k) (\<lambda>(old, s1). put_many cmp dflt s1 ks)"

lemma put_many_append: "put_many cmp dflt s (xs @ ys) = Option.bind (put_many cmp dflt s xs) (\<lambda>s1. put_many cmp dflt s1 ys)"
  by (induction xs arbitrary: s) (auto split: bind_splits prod.split)

lemma put_many_single: "put_many cmp dflt s [k] = map_option snd (sl_put cmp dflt s k)"
  by (cases "sl_put cmp dflt s k") auto

lemma puts_alone:
  assumes "conc_run cmp (c0, r0) ms (c1, r1)"
    and "map_option (\<lambda>h. (sh_list c0)\<lparr>sl_heap := h\<rparr>) (write_rest (sl_heap (sh_list c0)) (sh_writer c0)) =
         put_many cmp dflt s0 (sh_puts c0)"
  shows "map_option (\<lambda>h. (sh_list c1)\<lparr>sl_heap := h\<rparr>) (write_rest (sl_heap (sh_list c1)) (sh_writer c1)) =
         put_many cmp dflt s0 (sh_puts c1)"
  using assms(1)
proof (induction "(c0, r0)" ms "(c1, r1)" arbitrary: c1 r1 rule: conc_run.induct)
  case conc_refl
  then show ?case using assms(2) by simp
next
  case (conc_more ms cr1 m)
  obtain c r where cr: "cr1 = (c, r)" by fastforce
  note IH = conc_more(2) [OF cr]
  from conc_more(3) [unfolded cr] show ?case
  proof (cases rule: conc_step.cases)
    case (start_put k s w)
    have "put_many cmp dflt s0 (sh_puts c) = Some (sh_list c)" using IH start_put by simp
    then show ?thesis
      using start_put begin_put_rest [of cmp dflt "sh_list c" k] put_many_single [of cmp dflt "sh_list c" k]
      by (simp add: put_many_append)
  next
    case (write_ptr h w)
    then show ?thesis using IH write_step_rest [of "sl_heap (sh_list c)" "sh_writer c" h w] by simp
  next
    case (read_ptr)
    then show ?thesis using IH by simp
  qed
qed

section \<open>The invariant\<close>

text \<open>\<open>C\<close> is the set of nodes in use.\<close>

definition list_inv :: "('k \<Rightarrow> 'k \<Rightarrow> int) \<Rightarrow> 'k list \<Rightarrow> 'k shared \<Rightarrow> nat set \<Rightarrow> bool" where
  "list_inv cmp ks c C \<longleftrightarrow>
     sh_writer c = NoPut \<and>
       (\<exists>xs. sl_inv (sh_list c) xs \<and> ascending cmp (sl_heap (sh_list c)) xs \<and> keys_at (sh_list c) xs = contents cmp ks c \<and> C = set (0 # xs)) \<or>
     (\<exists>bs ds as new i st k ps.
        mid cmp (sl_heap (sh_list c)) (sl_maxHeight (sh_list c)) bs ds as new i st \<and>
        put_at (sl_heap (sh_list c)) (sh_writer c) bs ds new i st \<and> sh_puts c = ps @ [k] \<and>
        map (key_of (sl_heap (sh_list c))) (bs @ ds @ as) = foldl (\<lambda>ks k. olist_put cmp k ks) ks ps \<and>
        map (key_of (sl_heap (sh_list c))) (bs @ new # as) = olist_put cmp k (foldl (\<lambda>ks k. olist_put cmp k ks) ks ps) \<and>
        C = mid_nodes bs ds as new i)"

text \<open>A set of nodes that does not contain a new node that is not linked yet.\<close>

definition unpublished :: "writer \<Rightarrow> nat set \<Rightarrow> bool" where
  "unpublished w S \<longleftrightarrow> (\<forall>x prev new is. w = Fill x prev new (0 # is) \<or> w = Link x prev new (0 # is) \<longrightarrow> new \<notin> S)"

lemma list_inv_mid:
  assumes "mid cmp (sl_heap (sh_list c)) (sl_maxHeight (sh_list c)) bs ds as new i st"
    and "put_at (sl_heap (sh_list c)) (sh_writer c) bs ds new i st" "sh_puts c = ps @ [k]"
    and "map (key_of (sl_heap (sh_list c))) (bs @ ds @ as) = foldl (\<lambda>ks k. olist_put cmp k ks) ks ps"
    and "map (key_of (sl_heap (sh_list c))) (bs @ new # as) = olist_put cmp k (foldl (\<lambda>ks k. olist_put cmp k ks) ks ps)"
  shows "list_inv cmp ks c (mid_nodes bs ds as new i)"
  unfolding list_inv_def using assms by blast

lemma mid_contents:
  assumes "mid cmp (sl_heap (sh_list c)) H bs ds as new i st" "put_at (sl_heap (sh_list c)) (sh_writer c) bs ds new i st"
    and "sh_puts c = ps @ [k]" "map (key_of (sl_heap (sh_list c))) (bs @ ds @ as) = foldl (\<lambda>ks k. olist_put cmp k ks) ks ps"
    and "map (key_of (sl_heap (sh_list c))) (bs @ new # as) = olist_put cmp k (foldl (\<lambda>ks k. olist_put cmp k ks) ks ps)"
  shows "mid_keys (sl_heap (sh_list c)) bs ds as new i = contents cmp ks c"
    and "unpublished (sh_writer c) S \<longleftrightarrow> (i = 0 \<longrightarrow> new \<notin> S)"
proof -
  let ?n = "n_height (sl_heap (sh_list c) ! new)"
  obtain x prev where w: "sh_writer c = (if st then Link else Fill) x prev new [i..<?n]"
    using assms(2) unfolding put_at_def by blast
  note M = midD [OF assms(1)]
  have n: "0 < ?n" "i \<le> ?n" using M(1,6) M(5) [of new] by (auto simp: heap_ok_def Suc_le_eq)
  have "mid_keys (sl_heap (sh_list c)) bs ds as new i = contents cmp ks c \<and>
      (unpublished (sh_writer c) S \<longleftrightarrow> (i = 0 \<longrightarrow> new \<notin> S))"
  proof (cases "i = 0")
    case True
    have upt: "[0..<?n] = 0 # [Suc 0..<?n]" using n(1) by (rule upt_conv_Cons)
    show ?thesis
      unfolding mid_keys_def contents_def done_puts_def w True upt using assms(3,4)
      by (cases st) (simp_all add: mid_list_def unpublished_def)
  next
    case False
    then obtain i1 where i1: "i = Suc i1" by (cases i) auto
    have upt: "[i..<?n] = [] \<or> (\<exists>is. [i..<?n] = Suc i1 # is)" using i1 n(2) by (metis upt_rec)
    have dp: "done_puts c = sh_puts c" using upt w by (cases st) (auto simp: done_puts_def)
    have "unpublished (sh_writer c) S" using upt w by (cases st) (auto simp: unpublished_def)
    then show ?thesis using assms(3,5) dp False by (simp add: mid_keys_def contents_def mid_list_def)
  qed
  then show "mid_keys (sl_heap (sh_list c)) bs ds as new i = contents cmp ks c"
    and "unpublished (sh_writer c) S \<longleftrightarrow> (i = 0 \<longrightarrow> new \<notin> S)" by blast+
qed

lemma list_inv_zone:
  assumes "list_inv cmp ks c C" "comparator cmp"
  shows "zone cmp (sl_heap (sh_list c)) k {olist_find cmp k (contents cmp ks c)} C" "unpublished (sh_writer c) C" "0 \<in> C"
proof -
  have "zone cmp (sl_heap (sh_list c)) k {olist_find cmp k (contents cmp ks c)} C \<and> unpublished (sh_writer c) C \<and> 0 \<in> C"
    using assms(1) unfolding list_inv_def
  proof (elim disjE exE conjE)
    fix xs assume a: "sh_writer c = NoPut" "sl_inv (sh_list c) xs" "ascending cmp (sl_heap (sh_list c)) xs"
      "keys_at (sh_list c) xs = contents cmp ks c" "C = set (0 # xs)"
    show ?thesis using idle_zone [OF assms(2) a(2,3), of k] a(1,4,5) by (simp add: unpublished_def)
  next
    fix bs ds as new i st k1 ps
    assume a: "mid cmp (sl_heap (sh_list c)) (sl_maxHeight (sh_list c)) bs ds as new i st"
      "put_at (sl_heap (sh_list c)) (sh_writer c) bs ds new i st" "sh_puts c = ps @ [k1]"
      "map (key_of (sl_heap (sh_list c))) (bs @ ds @ as) = foldl (\<lambda>ks k. olist_put cmp k ks) ks ps"
      "map (key_of (sl_heap (sh_list c))) (bs @ new # as) = olist_put cmp k1 (foldl (\<lambda>ks k. olist_put cmp k ks) ks ps)"
      "C = mid_nodes bs ds as new i"
    have "new \<notin> set (0 # bs @ ds @ as)" using midD(4) [OF a(1)] midD(5) [OF a(1), of new] by auto
    then have "i = 0 \<longrightarrow> new \<notin> C" using a(6) by (auto simp: mid_nodes_def)
    then show ?thesis
      using mid_zone [OF a(1) assms(2), of k] mid_contents [OF a(1-5)] a(6) by (simp add: mid_nodes_def)
  qed
  then show "zone cmp (sl_heap (sh_list c)) k {olist_find cmp k (contents cmp ks c)} C" "unpublished (sh_writer c) C" "0 \<in> C"
    by blast+
qed

lemma list_inv_start:
  assumes "sl_repr cmp s ks"
  shows "\<exists>C. list_inv cmp ks \<lparr>sh_list = s, sh_writer = NoPut, sh_puts = []\<rparr> C"
proof -
  obtain xs where xs: "sl_inv s xs" "ks = keys_at s xs" "sorted_wrt (\<lambda>a b. cmp a b < 0) ks"
    using assms by (auto simp: sl_repr_def)
  then have "ascending cmp (sl_heap s) xs" by (simp add: keys_at_def sorted_wrt_map)
  then show ?thesis using xs(1,2) by (auto simp: list_inv_def contents_def done_puts_def)
qed

lemma begin_put_mid:
  assumes "comparator cmp" "sl_inv s xs" "ascending cmp (sl_heap s) xs"
  shows "\<exists>s1 w bs ds as new n. begin_put cmp s k = Some (s1, w) \<and> xs = bs @ ds @ as \<and> sl_heap s1 = sl_heap s @ [n] \<and>
           new = length (sl_heap s) \<and> mid cmp (sl_heap s1) (sl_maxHeight s1) bs ds as new 0 False \<and>
           put_at (sl_heap s1) w bs ds new 0 False \<and> key_of (sl_heap s1) new = k \<and>
           olist_put cmp k (keys_at s xs) = keys_at s bs @ k # keys_at s as"
proof -
  obtain bs ds as where b: "xs = bs @ ds @ as" "split_at cmp s k bs (ds @ as)" "\<forall>a \<in> set as. cmp k (key_of (sl_heap s) a) < 0"
    "if key_node cmp s k (ds @ as) then \<exists>a. ds = [a] \<and> cmp (key_of (sl_heap s) a) k = 0 else ds = []"
    "olist_put cmp k (keys_at s xs) = keys_at s bs @ k # keys_at s as"
    using put_split [OF assms, of k] by blast
  obtain prev where f: "findGreaterOrEqual cmp s k = Some (first_node (ds @ as), prev)" "length prev = kMaxHeight"
    "\<And>m. m < sl_maxHeight s \<Longrightarrow> prev ! m = Some (pred_at (sl_heap s) m bs)"
    using split_at_find [OF b(2)] by blast
  note I = sl_invD [OF assms(2)]
  note start = mid_start [OF assms(1) assms(2) [unfolded b(1)] assms(3) [unfolded b(1)] _ b(3)]
  have less: "\<forall>a \<in> set bs. cmp (key_of (sl_heap s) a) k < 0" using b(2) by (simp add: split_at_def)
  show ?thesis
  proof (cases "key_node cmp s k (ds @ as)")
    case True
    then obtain a where a: "ds = [a]" "cmp (key_of (sl_heap s) a) k = 0" using b(4) by auto
    let ?hgt = "n_height (sl_heap s ! a)"
    obtain new h where new: "newNode (sl_heap s) k ?hgt = (new, h)" by fastforce
    have a_in: "a < length (sl_heap s)" "?hgt \<le> sl_maxHeight s" "1 \<le> ?hgt"
      using I(1) I(5) [of a] b(1) a(1) by (auto simp: heap_ok_def)
    have ds: "\<forall>x \<in> set ds. cmp (key_of (sl_heap s) x) k = 0 \<and> n_height (sl_heap s ! x) \<le> ?hgt" using a by simp
    note m = start [OF less ds a_in(3,2) order_refl I(4) new]
    have "begin_put cmp s k = Some (s\<lparr>sl_heap := h\<rparr>, Fill (Some a) prev new [0..<?hgt])"
      using f(1) a new by (simp add: begin_put_def)
    moreover have "put_at h (Fill (Some a) prev new [0..<?hgt]) bs ds new 0 False"
      unfolding put_at_def using m(2,4,5) a(1) a_in f(3) by auto
    moreover have "h = sl_heap s @ [\<lparr>n_key = k, n_height = ?hgt, n_next = replicate ?hgt None\<rparr>]" using new by (simp add: newNode_def)
    ultimately show ?thesis using m(1,3,6) b(1,5) by fastforce
  next
    case False
    then have ds: "ds = []" using b(4) by simp
    obtain hgt rnd where r: "randomHeight (sl_rand s) = (hgt, rnd)" by fastforce
    have hb: "1 \<le> hgt" "hgt \<le> kMaxHeight" using randomHeight_bounds [of "sl_rand s"] r by simp_all
    let ?H = "if hgt > sl_maxHeight s then hgt else sl_maxHeight s"
    let ?prev = "if hgt > sl_maxHeight s then raise_prev prev (sl_maxHeight s) hgt else prev"
    obtain new h where new: "newNode (sl_heap s) k hgt = (new, h)" by fastforce
    have H: "hgt \<le> ?H" "sl_maxHeight s \<le> ?H" "?H \<le> kMaxHeight" using hb I(4) by simp_all
    have ds': "\<forall>x \<in> set ds. cmp (key_of (sl_heap s) x) k = 0 \<and> n_height (sl_heap s ! x) \<le> hgt" using ds by simp
    note m = start [OF less ds' hb(1) H new]
    have nk: "\<not> (case first_node (ds @ as) of None \<Rightarrow> False | Some a \<Rightarrow> cmp (key_of (sl_heap s) a) k = 0)"
      using False by (auto simp: key_node_def split: list.splits)
    have "begin_put cmp s k = Some (\<lparr>sl_heap = h, sl_maxHeight = ?H, sl_rand = rnd\<rparr>, Fill None ?prev new [0..<hgt])"
      unfolding begin_put_def by (simp only: f(1) bind.simps prod.case Let_def nk if_False r new)
    moreover have "?prev ! i = Some (pred_at (sl_heap s) i bs)" if "i < hgt" for i
      by (rule raised_prev [OF _ f(3,2) that hb(2)]) (use assms(2) b(1) ds in simp_all)
    then have "put_at h (Fill None ?prev new [0..<hgt]) bs ds new 0 False"
      unfolding put_at_def using m(2,4) ds by simp
    moreover have "h = sl_heap s @ [\<lparr>n_key = k, n_height = hgt, n_next = replicate hgt None\<rparr>]" using new by (simp add: newNode_def)
    ultimately show ?thesis using m(1,3,6) b(1,5)
      by (intro exI [of _ "\<lparr>sl_heap = h, sl_maxHeight = ?H, sl_rand = rnd\<rparr>"] exI [of _ "Fill None ?prev new [0..<hgt]"]
            exI [of _ bs] exI [of _ ds] exI [of _ as] exI [of _ new]
            exI [of _ "\<lparr>n_key = k, n_height = hgt, n_next = replicate hgt None\<rparr>"]) simp
  qed
qed

text \<open>What a step of a put leaves to a reader in \<open>S\<close>.\<close>

definition zones_kept :: "('k \<Rightarrow> 'k \<Rightarrow> int) \<Rightarrow> 'k list \<Rightarrow> 'k shared \<Rightarrow> 'k shared \<Rightarrow> bool" where
  "zones_kept cmp ks c c1 \<longleftrightarrow>
     (\<forall>a < length (sl_heap (sh_list c)). key_of (sl_heap (sh_list c1)) a = key_of (sl_heap (sh_list c)) a) \<and>
     (\<forall>a l. node_at (sl_heap (sh_list c)) a l \<longrightarrow> node_at (sl_heap (sh_list c1)) a l) \<and>
     (\<forall>k A S. zone cmp (sl_heap (sh_list c)) k A S \<longrightarrow> unpublished (sh_writer c) S \<longrightarrow> olist_find cmp k (contents cmp ks c1) \<in> A \<longrightarrow>
        (\<exists>S1. S \<subseteq> S1 \<and> zone cmp (sl_heap (sh_list c1)) k A S1 \<and> unpublished (sh_writer c1) S1))"

lemma put_at_busy: "\<not> put_at h NoPut bs ds new i st"
  by (simp add: put_at_def)

lemma start_put_ok:
  assumes "comparator cmp" "list_inv cmp ks c C" "sh_writer c = NoPut"
  shows "\<exists>s w. begin_put cmp (sh_list c) k = Some (s, w) \<and>
           (\<exists>C1. list_inv cmp ks (c\<lparr>sh_list := s, sh_writer := w, sh_puts := sh_puts c @ [k]\<rparr>) C1) \<and>
           zones_kept cmp ks c (c\<lparr>sh_list := s, sh_writer := w, sh_puts := sh_puts c @ [k]\<rparr>) \<and>
           length (sl_heap s) = Suc (length (sl_heap (sh_list c)))"
proof -
  obtain xs where xs: "sl_inv (sh_list c) xs" "ascending cmp (sl_heap (sh_list c)) xs" "keys_at (sh_list c) xs = contents cmp ks c"
    using assms(2) put_at_busy unfolding list_inv_def assms(3) by blast
  obtain s w bs ds as new n where b: "begin_put cmp (sh_list c) k = Some (s, w)" "xs = bs @ ds @ as"
    "sl_heap s = sl_heap (sh_list c) @ [n]" "new = length (sl_heap (sh_list c))"
    "mid cmp (sl_heap s) (sl_maxHeight s) bs ds as new 0 False" "put_at (sl_heap s) w bs ds new 0 False" "key_of (sl_heap s) new = k"
    "olist_put cmp k (keys_at (sh_list c) xs) = keys_at (sh_list c) bs @ k # keys_at (sh_list c) as"
    using begin_put_mid [OF assms(1) xs(1,2), of k] by blast
  let ?c1 = "c\<lparr>sh_list := s, sh_writer := w, sh_puts := sh_puts c @ [k]\<rparr>"
  have keys: "map (key_of (sl_heap s)) ys = keys_at (sh_list c) ys" if "set ys \<subseteq> set xs" for ys
    using that sl_invD(5) [OF xs(1)] by (auto simp: keys_at_def b(3) nth_append)
  have ps: "contents cmp ks c = foldl (\<lambda>ks k. olist_put cmp k ks) ks (sh_puts c)"
    using assms(3) by (simp add: contents_def done_puts_def)
  have k1: "map (key_of (sl_heap s)) (bs @ ds @ as) = foldl (\<lambda>ks k. olist_put cmp k ks) ks (sh_puts c)"
    using keys [of "bs @ ds @ as"] xs(3) ps b(2) by simp
  have k2: "map (key_of (sl_heap s)) (bs @ new # as) = olist_put cmp k (foldl (\<lambda>ks k. olist_put cmp k ks) ks (sh_puts c))"
  proof -
    have "set bs \<subseteq> set xs" "set as \<subseteq> set xs" using b(2) by auto
    then show ?thesis using keys b(7,8) xs(3) ps by simp
  qed
  have inv: "list_inv cmp ks ?c1 (mid_nodes bs ds as new 0)"
    by (rule list_inv_mid [where i = 0 and st = False and k = k and ps = "sh_puts c"]) (use b(5,6) k1 k2 in simp_all)
  have unp: "unpublished w S \<longleftrightarrow> new \<notin> S" for S
    using mid_contents(2) [of cmp ?c1 "sl_maxHeight s" bs ds as new 0 False "sh_puts c" k ks S] b(5,6) k1 k2 by simp
  have "\<exists>S1. S \<subseteq> S1 \<and> zone cmp (sl_heap s) q A S1 \<and> unpublished w S1" if z: "zone cmp (sl_heap (sh_list c)) q A S" for q A S
  proof -
    have "new \<notin> S" using z b(4) by (auto simp: zone_def node_at_def)
    then show ?thesis using zone_grow [OF z, of n] unp b(3) by auto
  qed
  then have "zones_kept cmp ks c ?c1" by (auto simp: zones_kept_def b(3) nth_append node_at_def)
  then show ?thesis using b(1,3) inv by auto
qed

lemma write_kept:
  assumes "comparator cmp" "mid cmp (sl_heap (sh_list c)) H bs ds as new i st" "put_at (sl_heap (sh_list c)) (sh_writer c) bs ds new i st"
    and "sh_puts c = ps @ [k]" "map (key_of (sl_heap (sh_list c))) (bs @ ds @ as) = foldl (\<lambda>ks k. olist_put cmp k ks) ks ps"
    and "map (key_of (sl_heap (sh_list c))) (bs @ new # as) = olist_put cmp k (foldl (\<lambda>ks k. olist_put cmp k ks) ks ps)"
    and "same_shape (sl_heap (sh_list c)) h" "\<And>m a. a \<noteq> p \<Longrightarrow> nx h m a = nx (sl_heap (sh_list c)) m a"
    and "mid cmp h H bs ds as new i1 st1" "put_at h w bs ds new i1 st1" "p \<in> mid_nodes bs ds as new i1 \<or> p = new \<and> i = 0"
    and "i1 = 0 \<Longrightarrow> i = 0" "H = sl_maxHeight (sh_list c)"
  shows "\<exists>C1. list_inv cmp ks (c\<lparr>sh_list := (sh_list c)\<lparr>sl_heap := h\<rparr>, sh_writer := w\<rparr>) C1"
    and "zones_kept cmp ks c (c\<lparr>sh_list := (sh_list c)\<lparr>sl_heap := h\<rparr>, sh_writer := w\<rparr>)"
proof -
  let ?h = "sl_heap (sh_list c)" and ?c1 = "c\<lparr>sh_list := (sh_list c)\<lparr>sl_heap := h\<rparr>, sh_writer := w\<rparr>"
  note M = midD [OF assms(2)]
  have key: "key_of h a = key_of ?h a" if "a < length ?h" for a using shape_keys(1) [OF assms(7) that] .
  have keys: "map (key_of h) ys = map (key_of ?h) ys" if "set ys \<subseteq> set (new # bs @ ds @ as)" for ys
  proof (rule map_cong [OF refl])
    fix a assume "a \<in> set ys"
    then have "a < length ?h" using M(5) [of a] that by blast
    then show "key_of h a = key_of ?h a" by (rule key)
  qed
  have k: "map (key_of h) (bs @ ds @ as) = foldl (\<lambda>ks k. olist_put cmp k ks) ks ps"
    "map (key_of h) (bs @ new # as) = olist_put cmp k (foldl (\<lambda>ks k. olist_put cmp k ks) ks ps)"
    by (rule trans [OF keys assms(5)], force) (rule trans [OF keys assms(6)], force)
  have inv: "list_inv cmp ks ?c1 (mid_nodes bs ds as new i1)"
    by (rule list_inv_mid [where i = i1 and st = st1 and k = k and ps = ps]) (use assms(4,9,10,13) k in simp_all)
  then show "\<exists>C1. list_inv cmp ks ?c1 C1" by blast
  have unp: "unpublished (sh_writer c) S \<longleftrightarrow> (i = 0 \<longrightarrow> new \<notin> S)" "unpublished w S \<longleftrightarrow> (i1 = 0 \<longrightarrow> new \<notin> S)" for S
    using mid_contents(2) [OF assms(2-6)] mid_contents(2) [of cmp ?c1 H bs ds as new i1 st1 ps k ks S] assms(4,9,10) k by simp_all
  note zC = list_inv_zone [OF inv assms(1)]
  have "\<exists>S1. S \<subseteq> S1 \<and> zone cmp h q A S1 \<and> unpublished w S1"
    if z: "zone cmp ?h q A S" "unpublished (sh_writer c) S" "olist_find cmp q (contents cmp ks ?c1) \<in> A" for q A S
  proof -
    have C: "zone cmp h q A (mid_nodes bs ds as new i1)" using zone_mono [OF zC(1) [of q]] z(3) by simp
    have "p \<in> mid_nodes bs ds as new i1 \<or> p \<notin> S" using assms(11) z(2) unp(1) by blast
    from zone_write [OF z(1) assms(7,8) C this]
    have "zone cmp h q A (S \<union> mid_nodes bs ds as new i1)" .
    moreover have "unpublished w (S \<union> mid_nodes bs ds as new i1)" using zC(2) z(2) assms(12) unp by simp
    ultimately show ?thesis by blast
  qed
  then show "zones_kept cmp ks c ?c1" using key node_at_shape [OF assms(7)] by (simp add: zones_kept_def)
qed

lemma write_step_ok:
  assumes "comparator cmp" "list_inv cmp ks c C" "sh_writer c \<noteq> NoPut"
  shows "\<exists>h w. write_step (sl_heap (sh_list c)) (sh_writer c) = Some (h, w) \<and>
           (\<exists>C1. list_inv cmp ks (c\<lparr>sh_list := (sh_list c)\<lparr>sl_heap := h\<rparr>, sh_writer := w\<rparr>) C1) \<and>
           zones_kept cmp ks c (c\<lparr>sh_list := (sh_list c)\<lparr>sl_heap := h\<rparr>, sh_writer := w\<rparr>) \<and>
           length h = length (sl_heap (sh_list c))"
proof -
  let ?h = "sl_heap (sh_list c)"
  obtain bs ds as new i st k ps where a: "mid cmp ?h (sl_maxHeight (sh_list c)) bs ds as new i st"
    "put_at ?h (sh_writer c) bs ds new i st" "sh_puts c = ps @ [k]"
    "map (key_of ?h) (bs @ ds @ as) = foldl (\<lambda>ks k. olist_put cmp k ks) ks ps"
    "map (key_of ?h) (bs @ new # as) = olist_put cmp k (foldl (\<lambda>ks k. olist_put cmp k ks) ks ps)"
    using assms(2,3) unfolding list_inv_def by blast
  note M = midD [OF a(1)]
  have i: "i < kMaxHeight" if "i < n_height (?h ! new)" using mid_height(1) [OF a(1)] that by simp
  consider (linking) "st" | (filling) "\<not> st" "i < n_height (?h ! new)" | (last) "\<not> st" "i = n_height (?h ! new)"
    using M(6) by linarith
  then show ?thesis
  proof cases
    case linking
    then have m: "mid cmp ?h (sl_maxHeight (sh_list c)) bs ds as new i True" "put_at ?h (sh_writer c) bs ds new i True"
      using a(1,2) by simp_all
    obtain h w where h: "write_step ?h (sh_writer c) = Some (h, w)" "same_shape ?h h"
      "\<And>m a. a \<noteq> pred_at ?h i bs \<Longrightarrow> nx h m a = nx ?h m a" "mid cmp h (sl_maxHeight (sh_list c)) bs ds as new (Suc i) False"
      "put_at h w bs ds new (Suc i) False"
      using mid_link [OF m] by blast
    have "pred_at ?h i bs \<in> set (0 # bs)" using pred_at_mid(3) [OF a(1) i] M(7) linking by blast
    then have "pred_at ?h i bs \<in> mid_nodes bs ds as new (Suc i)" unfolding mid_nodes_def by (metis UnI1 set_append append_Cons)
    then show ?thesis
      using h(1,2) write_kept [OF assms(1) a h(2,3,4,5)] by (auto simp: same_shape_def)
  next
    case filling
    then have m: "mid cmp ?h (sl_maxHeight (sh_list c)) bs ds as new i False" "put_at ?h (sh_writer c) bs ds new i False"
      using a(1,2) by simp_all
    obtain h w where h: "write_step ?h (sh_writer c) = Some (h, w)" "same_shape ?h h"
      "\<And>m a. a \<noteq> new \<Longrightarrow> nx h m a = nx ?h m a" "mid cmp h (sl_maxHeight (sh_list c)) bs ds as new i True"
      "put_at h w bs ds new i True"
      using mid_fill [OF m filling(2)] by blast
    have "new \<in> mid_nodes bs ds as new i \<or> new = new \<and> i = 0" by (simp add: mid_nodes_def)
    then show ?thesis
      using h(1,2) write_kept [OF assms(1) a h(2,3,4,5)] by (auto simp: same_shape_def)
  next
    case last
    obtain x prev where w: "sh_writer c = Fill x prev new []" using a(2) last unfolding put_at_def by auto
    let ?c1 = "c\<lparr>sh_list := (sh_list c)\<lparr>sl_heap := ?h\<rparr>, sh_writer := NoPut\<rparr>"
    have m: "mid cmp ?h (sl_maxHeight (sh_list c)) bs ds as new (n_height (?h ! new)) False" using a(1) last by simp
    have "sl_inv (sh_list c) (bs @ new # as)" using mid_done(1) [OF m, of "sl_rand (sh_list c)"] by (cases "sh_list c") simp
    moreover have con: "contents cmp ks ?c1 = contents cmp ks c" by (simp add: contents_def done_puts_def w)
    moreover have "keys_at (sh_list c) (bs @ new # as) = contents cmp ks c"
      unfolding keys_at_def a(5) by (simp add: contents_def done_puts_def w a(3))
    ultimately have inv: "list_inv cmp ks ?c1 (set (0 # bs @ new # as))"
      unfolding list_inv_def using mid_done(2) [OF m] by (intro disjI1) auto
    have "zones_kept cmp ks c ?c1" unfolding zones_kept_def con by (auto simp: unpublished_def)
    then show ?thesis using w inv by auto
  qed
qed

section \<open>The reader\<close>

definition read_inv :: "('k \<Rightarrow> 'k \<Rightarrow> int) \<Rightarrow> 'k shared \<Rightarrow> 'k option set \<Rightarrow> 'k \<Rightarrow> 'k reader \<Rightarrow> bool" where
  "read_inv cmp c A k r \<longleftrightarrow>
     (case r of
        NoGet \<Rightarrow> False
      | Find k1 x l \<Rightarrow> k1 = k \<and> node_at (sl_heap (sh_list c)) x l \<and> (x = 0 \<or> cmp (key_of (sl_heap (sh_list c)) x) k < 0) \<and>
          (\<exists>S. x \<in> S \<and> zone cmp (sl_heap (sh_list c)) k A S \<and> unpublished (sh_writer c) S)
      | Found k1 q \<Rightarrow> k1 = k \<and> answer cmp (sl_heap (sh_list c)) k q \<in> A \<and> (\<forall>a. q = Some a \<longrightarrow> a < length (sl_heap (sh_list c))))"

lemma read_inv_mono:
  assumes "read_inv cmp c A k r" "A \<subseteq> A1"
  shows "read_inv cmp c A1 k r"
proof (cases r)
  case (Find k1 x l)
  then show ?thesis using assms(1) zone_mono [OF _ assms(2)] unfolding read_inv_def by auto
qed (use assms in \<open>auto simp: read_inv_def\<close>)

lemma read_inv_start:
  assumes "list_inv cmp ks c C" "comparator cmp"
  shows "read_inv cmp c {olist_find cmp k (contents cmp ks c)} k (start_get (sh_list c) k)"
proof -
  have "heap_ok (sl_heap (sh_list c)) \<and> 1 \<le> sl_maxHeight (sh_list c) \<and> sl_maxHeight (sh_list c) \<le> kMaxHeight"
    using assms(1) unfolding list_inv_def mid_def sl_inv_def by blast
  then have "node_at (sl_heap (sh_list c)) 0 (sl_maxHeight (sh_list c) - 1)" by (intro node_at_head) auto
  then show ?thesis using list_inv_zone(1) [OF assms, of k] list_inv_zone(2,3) [OF assms]
    by (auto simp: read_inv_def start_get_def)
qed

lemma read_inv_kept:
  assumes "read_inv cmp c A k r" "zones_kept cmp ks c c1" "olist_find cmp k (contents cmp ks c1) \<in> A"
    and "length (sl_heap (sh_list c)) \<le> length (sl_heap (sh_list c1))"
  shows "read_inv cmp c1 A k r"
proof (cases r)
  case NoGet
  then show ?thesis using assms(1) by (simp add: read_inv_def)
next
  case (Find k1 x l)
  then obtain S where S: "k1 = k" "node_at (sl_heap (sh_list c)) x l" "x = 0 \<or> cmp (key_of (sl_heap (sh_list c)) x) k < 0"
    "x \<in> S" "zone cmp (sl_heap (sh_list c)) k A S" "unpublished (sh_writer c) S"
    using assms(1) by (auto simp: read_inv_def)
  have x: "key_of (sl_heap (sh_list c1)) x = key_of (sl_heap (sh_list c)) x" "node_at (sl_heap (sh_list c1)) x l"
    using assms(2) S(2) unfolding zones_kept_def node_at_def by blast+
  obtain S1 where "S \<subseteq> S1" "zone cmp (sl_heap (sh_list c1)) k A S1" "unpublished (sh_writer c1) S1"
    using assms(2) S(5,6) assms(3) unfolding zones_kept_def by blast
  then show ?thesis using Find S(1,3,4) x by (auto simp: read_inv_def)
next
  case (Found k1 q)
  then have f: "k1 = k" "answer cmp (sl_heap (sh_list c)) k q \<in> A" "\<forall>a. q = Some a \<longrightarrow> a < length (sl_heap (sh_list c))"
    using assms(1) by (simp_all add: read_inv_def)
  have "answer cmp (sl_heap (sh_list c1)) k q = answer cmp (sl_heap (sh_list c)) k q"
    using assms(2) f(3) by (auto simp: answer_def zones_kept_def split: option.split)
  then show ?thesis using Found f assms(4) by (auto simp: read_inv_def)
qed

text \<open>The steps a get has left: its level, and the nodes between its position and the key.\<close>

definition nodes_ahead :: "('k \<Rightarrow> 'k \<Rightarrow> int) \<Rightarrow> 'k heap \<Rightarrow> 'k \<Rightarrow> nat \<Rightarrow> nat set" where
  "nodes_ahead cmp h k x =
     {a. a < length h \<and> a \<noteq> 0 \<and> cmp (key_of h a) k < 0 \<and> (x \<noteq> 0 \<longrightarrow> cmp (key_of h x) (key_of h a) < 0)}"

fun get_left :: "('k \<Rightarrow> 'k \<Rightarrow> int) \<Rightarrow> 'k heap \<Rightarrow> 'k reader \<Rightarrow> nat" where
  "get_left cmp h (Find k x l) = l + card (nodes_ahead cmp h k x) + 1"
| "get_left cmp h _ = 0"

lemma nodes_ahead_finite [simp]: "finite (nodes_ahead cmp h k x)"
  by (simp add: nodes_ahead_def)

lemma read_step_ok:
  assumes "comparator cmp" "read_inv cmp c A k (Find k1 x l)"
  shows "\<exists>r1. read_step cmp (sl_heap (sh_list c)) (Find k1 x l) = Some r1 \<and> read_inv cmp c A k r1 \<and>
           get_left cmp (sl_heap (sh_list c)) r1 < get_left cmp (sl_heap (sh_list c)) (Find k1 x l)"
proof -
  let ?h = "sl_heap (sh_list c)"
  obtain S where S: "k1 = k" "node_at ?h x l" "x = 0 \<or> cmp (key_of ?h x) k < 0" "x \<in> S" "zone cmp ?h k A S" "unpublished (sh_writer c) S"
    using assms(2) by (auto simp: read_inv_def)
  have z: "\<And>l d. node_at ?h x l \<Longrightarrow> nx ?h l x = Some d \<Longrightarrow> d \<in> S \<and> node_at ?h d l \<and> d \<noteq> 0 \<and> (x \<noteq> 0 \<longrightarrow> cmp (key_of ?h x) (key_of ?h d) < 0)"
    "(\<exists>d. nx ?h 0 x = Some d \<and> cmp (key_of ?h d) k < 0) \<or> answer cmp ?h k (nx ?h 0 x) \<in> A"
    using S(3,4,5) unfolding zone_def by blast+
  note step = get_next_at [OF S(2)]
  show ?thesis
  proof (cases "keyIsAfterNode cmp ?h k (nx ?h l x)")
    case True
    then obtain d where d: "nx ?h l x = Some d" "cmp (key_of ?h d) k < 0"
      by (auto simp: keyIsAfterNode_def split: option.splits)
    note zd = z(1) [OF S(2) d(1)]
    have "nodes_ahead cmp ?h k d \<subseteq> nodes_ahead cmp ?h k x"
      using zd comparator.cmp_less_trans [OF assms(1)] by (auto simp: nodes_ahead_def)
    moreover have "d \<in> nodes_ahead cmp ?h k x" "d \<notin> nodes_ahead cmp ?h k d"
      using zd d(2) comparator.cmp_refl [OF assms(1)] by (simp_all add: nodes_ahead_def node_at_def)
    ultimately have "card (nodes_ahead cmp ?h k d) < card (nodes_ahead cmp ?h k x)"
      by (intro psubset_card_mono) auto
    then show ?thesis using True d zd S step by (auto simp: read_inv_def)
  next
    case after: False
    show ?thesis
    proof (cases "l = 0")
      case True
      have "answer cmp ?h k (nx ?h 0 x) \<in> A"
        using z(2) after True by (auto simp: keyIsAfterNode_def split: option.splits)
      then show ?thesis using after True S(1,2) step z(1) by (auto simp: read_inv_def node_at_def)
    next
      case False
      have "node_at ?h x (l - 1)" using S(2) by (auto simp: node_at_def)
      then show ?thesis using after False S step by (auto simp: read_inv_def)
    qed
  qed
qed

lemma get_left_kept:
  assumes "zones_kept cmp ks c c1" "length (sl_heap (sh_list c)) \<le> length (sl_heap (sh_list c1))" "read_inv cmp c A k r"
  shows "get_left cmp (sl_heap (sh_list c1)) r + length (sl_heap (sh_list c))
       \<le> get_left cmp (sl_heap (sh_list c)) r + length (sl_heap (sh_list c1))"
proof (cases r)
  case (Find k1 x l)
  let ?h = "sl_heap (sh_list c)" and ?h1 = "sl_heap (sh_list c1)"
  have key: "\<forall>a < length ?h. key_of ?h1 a = key_of ?h a" using assms(1) by (simp add: zones_kept_def)
  have x: "x < length ?h" using assms(3) Find by (auto simp: read_inv_def node_at_def)
  have "nodes_ahead cmp ?h1 k1 x \<subseteq> nodes_ahead cmp ?h k1 x \<union> {length ?h..<length ?h1}"
  proof
    fix a assume a: "a \<in> nodes_ahead cmp ?h1 k1 x"
    show "a \<in> nodes_ahead cmp ?h k1 x \<union> {length ?h..<length ?h1}"
      using a key x by (cases "a < length ?h") (auto simp: nodes_ahead_def)
  qed
  then have "card (nodes_ahead cmp ?h1 k1 x) \<le> card (nodes_ahead cmp ?h k1 x \<union> {length ?h..<length ?h1})"
    by (intro card_mono) auto
  also have "\<dots> \<le> card (nodes_ahead cmp ?h k1 x) + card {length ?h..<length ?h1}" by (rule card_Un_le)
  finally show ?thesis using Find assms(2) by simp
qed (use assms(2) in simp_all)

section \<open>Runs\<close>

lemma conc_step_list:
  assumes "comparator cmp" "list_inv cmp ks c C" "conc_step cmp (c, r) m (c1, r1)"
  shows "\<exists>C1. list_inv cmp ks c1 C1"
    and "m \<noteq> ReadStep \<Longrightarrow> r1 = r \<and> zones_kept cmp ks c c1 \<and> length (sl_heap (sh_list c)) \<le> length (sl_heap (sh_list c1))"
    and "m = ReadStep \<Longrightarrow> c1 = c \<and> read_step cmp (sl_heap (sh_list c)) r = Some r1"
proof -
  from assms(3) have "(\<exists>C1. list_inv cmp ks c1 C1) \<and>
      (m \<noteq> ReadStep \<longrightarrow> r1 = r \<and> zones_kept cmp ks c c1 \<and> length (sl_heap (sh_list c)) \<le> length (sl_heap (sh_list c1))) \<and>
      (m = ReadStep \<longrightarrow> c1 = c \<and> read_step cmp (sl_heap (sh_list c)) r = Some r1)"
  proof (cases rule: conc_step.cases)
    case (start_put k s w)
    then show ?thesis using start_put_ok [OF assms(1,2), of k] by auto
  next
    case (write_ptr h w)
    have "sh_writer c \<noteq> NoPut" using write_ptr by auto
    from write_step_ok [OF assms(1,2) this] show ?thesis using write_ptr by auto
  next
    case read_ptr
    then show ?thesis using assms(2) by auto
  qed
  then show "\<exists>C1. list_inv cmp ks c1 C1"
    "m \<noteq> ReadStep \<Longrightarrow> r1 = r \<and> zones_kept cmp ks c c1 \<and> length (sl_heap (sh_list c)) \<le> length (sl_heap (sh_list c1))"
    "m = ReadStep \<Longrightarrow> c1 = c \<and> read_step cmp (sl_heap (sh_list c)) r = Some r1" by blast+
qed

lemma conc_run_list:
  assumes "conc_run cmp (c0, r0) ms (c, r)" "comparator cmp" "list_inv cmp ks c0 C"
  shows "\<exists>C1. list_inv cmp ks c C1"
  using assms(1)
proof (induction "(c0, r0)" ms "(c, r)" arbitrary: c r rule: conc_run.induct)
  case conc_refl
  then show ?case using assms(3) by blast
next
  case (conc_more ms cr1 m)
  obtain c' r' where cr: "cr1 = (c', r')" by fastforce
  obtain C' where "list_inv cmp ks c' C'" using conc_more(2) [OF cr] by blast
  then show ?case using conc_step_list(1) [OF assms(2)] conc_more(3) cr by blast
qed

text \<open>What a search for \<open>k\<close> finds in the list at some moment of a run.\<close>

definition found_in :: "('k \<Rightarrow> 'k \<Rightarrow> int) \<Rightarrow> 'k list \<Rightarrow> 'k shared \<times> 'k reader \<Rightarrow> 'k move list \<Rightarrow> 'k shared \<times> 'k reader \<Rightarrow> 'k \<Rightarrow> 'k option set" where
  "found_in cmp ks cr0 ms cr k =
     {olist_find cmp k (contents cmp ks (fst crm)) | crm xs ys. ms = xs @ ys \<and> conc_run cmp cr0 xs crm \<and> conc_run cmp crm ys cr}"

lemma found_in_more:
  assumes "conc_step cmp cr m cr1" "conc_run cmp cr0 ms cr"
  shows "found_in cmp ks cr0 ms cr k \<subseteq> found_in cmp ks cr0 (ms @ [m]) cr1 k"
    and "olist_find cmp k (contents cmp ks (fst cr1)) \<in> found_in cmp ks cr0 (ms @ [m]) cr1 k"
proof
  fix v assume "v \<in> found_in cmp ks cr0 ms cr k"
  then obtain crm xs ys where v: "v = olist_find cmp k (contents cmp ks (fst crm))" "ms = xs @ ys"
    "conc_run cmp cr0 xs crm" "conc_run cmp crm ys cr"
    unfolding found_in_def by blast
  moreover have "conc_run cmp crm (ys @ [m]) cr1" by (rule conc_more [OF v(4) assms(1)])
  moreover have "ms @ [m] = xs @ (ys @ [m])" using v(2) by simp
  ultimately show "v \<in> found_in cmp ks cr0 (ms @ [m]) cr1 k" unfolding found_in_def by blast
next
  have "conc_run cmp cr0 (ms @ [m]) cr1" by (rule conc_more [OF assms(2,1)])
  moreover have "ms @ [m] = (ms @ [m]) @ []" by simp
  ultimately show "olist_find cmp k (contents cmp ks (fst cr1)) \<in> found_in cmp ks cr0 (ms @ [m]) cr1 k"
    unfolding found_in_def using conc_refl by blast
qed

lemma reading:
  assumes "conc_run cmp (c0, start_get (sh_list c0) k) ms (c, r)" "comparator cmp" "list_inv cmp ks c0 C"
  shows "(\<exists>C1. list_inv cmp ks c C1) \<and> read_inv cmp c (found_in cmp ks (c0, start_get (sh_list c0) k) ms (c, r) k) k r \<and>
         count_list ms ReadStep + get_left cmp (sl_heap (sh_list c)) r < kMaxHeight + length (sl_heap (sh_list c))"
  using assms(1)
proof (induction "(c0, start_get (sh_list c0) k)" ms "(c, r)" arbitrary: c r rule: conc_run.induct)
  case conc_refl
  have "olist_find cmp k (contents cmp ks c0) \<in> found_in cmp ks (c0, start_get (sh_list c0) k) [] (c0, start_get (sh_list c0) k) k"
    unfolding found_in_def using conc_run.conc_refl by fastforce
  then have inv: "read_inv cmp c0 (found_in cmp ks (c0, start_get (sh_list c0) k) [] (c0, start_get (sh_list c0) k) k) k (start_get (sh_list c0) k)"
    by (intro read_inv_mono [OF read_inv_start [OF assms(3,2)]]) simp
  have l: "heap_ok (sl_heap (sh_list c0))" "1 \<le> sl_maxHeight (sh_list c0)" "sl_maxHeight (sh_list c0) \<le> kMaxHeight"
    using assms(3) unfolding list_inv_def mid_def sl_inv_def by blast+
  have n: "0 < length (sl_heap (sh_list c0))" using l(1) unfolding heap_ok_def by blast
  have "nodes_ahead cmp (sl_heap (sh_list c0)) k 0 \<subseteq> {1..<length (sl_heap (sh_list c0))}" by (auto simp: nodes_ahead_def)
  then have "card (nodes_ahead cmp (sl_heap (sh_list c0)) k 0) \<le> length (sl_heap (sh_list c0)) - 1"
    using card_mono [of "{1..<length (sl_heap (sh_list c0))}"] by fastforce
  then have "get_left cmp (sl_heap (sh_list c0)) (start_get (sh_list c0) k) < kMaxHeight + length (sl_heap (sh_list c0))"
    using l(2,3) n unfolding start_get_def get_left.simps by linarith
  then show ?case using inv assms(3) by auto
next
  case (conc_more ms cr1 m)
  let ?cr0 = "(c0, start_get (sh_list c0) k)"
  obtain c' r' where cr: "cr1 = (c', r')" by fastforce
  note st = conc_more(3) [unfolded cr]
  obtain C' where IH: "list_inv cmp ks c' C'" "read_inv cmp c' (found_in cmp ks ?cr0 ms (c', r') k) k r'"
    "count_list ms ReadStep + get_left cmp (sl_heap (sh_list c')) r' < kMaxHeight + length (sl_heap (sh_list c'))"
    using conc_more(2) [OF cr] cr by blast
  note more = found_in_more [where ks = ks and k = k, OF st conc_more(1) [unfolded cr]]
  have inv: "\<exists>C1. list_inv cmp ks c C1" by (rule conc_step_list(1) [OF assms(2) IH(1) st])
  note ri = read_inv_mono [OF IH(2) more(1)]
  show ?case
  proof (cases "m = ReadStep")
    case True
    then have s: "c = c'" "read_step cmp (sl_heap (sh_list c')) r' = Some r" using conc_step_list(3) [OF assms(2) IH(1) st] by simp_all
    then obtain k1 x l where f: "r' = Find k1 x l" by (cases r') simp_all
    have "read_inv cmp c' (found_in cmp ks ?cr0 (ms @ [m]) (c, r) k) k r \<and>
        get_left cmp (sl_heap (sh_list c')) r < get_left cmp (sl_heap (sh_list c')) r'"
      using read_step_ok [OF assms(2) ri [unfolded f]] s(2) f by simp
    then show ?thesis using inv True s(1) IH(3) by simp
  next
    case False
    then have s: "r = r'" "zones_kept cmp ks c' c" "length (sl_heap (sh_list c')) \<le> length (sl_heap (sh_list c))"
      using conc_step_list(2) [OF assms(2) IH(1) st] by simp_all
    have "read_inv cmp c (found_in cmp ks ?cr0 (ms @ [m]) (c, r) k) k r"
      using read_inv_kept [OF ri s(2) _ s(3)] more(2) s(1) by simp
    moreover have "get_left cmp (sl_heap (sh_list c)) r + length (sl_heap (sh_list c'))
        \<le> get_left cmp (sl_heap (sh_list c')) r + length (sl_heap (sh_list c))"
      using get_left_kept [OF s(2,3) IH(2)] s(1) by simp
    moreover have "count_list (ms @ [m]) ReadStep = count_list ms ReadStep" using False by simp
    ultimately show ?thesis using inv IH(3) s(1,3) by simp
  qed
qed

section \<open>Properties\<close>

text \<open>C12. Reading a skip list without a lock is linearizable: in every interleaving of the single pointer accesses of
  puts and a get, for every comparison and every \<^verbatim>\<open>rand()\<close>, the get returns what a search of the list returns at some
  moment between its beginning and its end, where a put counts from the moment its node is linked on the lowest level.
  The get follows no null pointer and ends after a number of its own steps bounded by the height and the nodes, however
  the puts go on; a put is never stuck, and when no put is under way the list is the one the puts make alone.\<close>

theorem reads_linearize:
  assumes "comparator cmp" and "sl_repr cmp s ks"
    and "conc_run cmp (\<lparr>sh_list = s, sh_writer = NoPut, sh_puts = []\<rparr>, r0) ms1 (c1, r1)"
    and "conc_run cmp (c1, start_get (sh_list c1) k) ms2 (c2, r2)"
  shows "(case get_result cmp dflt (sl_heap (sh_list c2)) r2 of
            None \<Rightarrow> \<exists>r3. read_step cmp (sl_heap (sh_list c2)) r2 = Some r3
          | Some v \<Rightarrow> \<exists>cm rm xs ys. ms2 = xs @ ys \<and> conc_run cmp (c1, start_get (sh_list c1) k) xs (cm, rm) \<and>
              conc_run cmp (cm, rm) ys (c2, r2) \<and> v = found_or dflt (olist_find cmp k (contents cmp ks cm))) \<and>
         count_list ms2 ReadStep < kMaxHeight + length (sl_heap (sh_list c2)) \<and>
         (if sh_writer c2 = NoPut
          then put_many cmp dflt s (sh_puts c2) = Some (sh_list c2) \<and> (\<forall>q. begin_put cmp (sh_list c2) q \<noteq> None)
          else write_step (sl_heap (sh_list c2)) (sh_writer c2) \<noteq> None)"
proof -
  obtain C0 where "list_inv cmp ks \<lparr>sh_list = s, sh_writer = NoPut, sh_puts = []\<rparr> C0" using list_inv_start [OF assms(2)] by blast
  then obtain C1 where C1: "list_inv cmp ks c1 C1" using conc_run_list [OF assms(3,1)] by blast
  obtain C2 where C2: "list_inv cmp ks c2 C2"
    and inv: "read_inv cmp c2 (found_in cmp ks (c1, start_get (sh_list c1) k) ms2 (c2, r2) k) k r2"
    and steps: "count_list ms2 ReadStep + get_left cmp (sl_heap (sh_list c2)) r2 < kMaxHeight + length (sl_heap (sh_list c2))"
    using reading [OF assms(4,1) C1] by blast
  have "map_option (\<lambda>h. (sh_list c2)\<lparr>sl_heap := h\<rparr>) (write_rest (sl_heap (sh_list c2)) (sh_writer c2)) = put_many cmp dflt s (sh_puts c2)"
    by (rule puts_alone [OF assms(4) puts_alone [OF assms(3)]]) simp
  then have alone: "sh_writer c2 = NoPut \<Longrightarrow> put_many cmp dflt s (sh_puts c2) = Some (sh_list c2)" by simp
  have "case get_result cmp dflt (sl_heap (sh_list c2)) r2 of
            None \<Rightarrow> \<exists>r3. read_step cmp (sl_heap (sh_list c2)) r2 = Some r3
          | Some v \<Rightarrow> \<exists>cm rm xs ys. ms2 = xs @ ys \<and> conc_run cmp (c1, start_get (sh_list c1) k) xs (cm, rm) \<and>
              conc_run cmp (cm, rm) ys (c2, r2) \<and> v = found_or dflt (olist_find cmp k (contents cmp ks cm))"
  proof (cases r2)
    case (Find k1 x l)
    then show ?thesis using read_step_ok [OF assms(1) inv [unfolded Find]] by auto
  next
    case (Found k1 q)
    then have "k1 = k" "answer cmp (sl_heap (sh_list c2)) k q \<in> found_in cmp ks (c1, start_get (sh_list c1) k) ms2 (c2, r2) k"
      using inv by (auto simp: read_inv_def)
    moreover have "get_result cmp dflt (sl_heap (sh_list c2)) r2 = Some (found_or dflt (answer cmp (sl_heap (sh_list c2)) k q))"
      using Found \<open>k1 = k\<close> by (simp add: answer_def found_or_def split: option.split)
    ultimately show ?thesis unfolding found_in_def by fastforce
  qed (use inv in \<open>simp add: read_inv_def\<close>)
  moreover have "begin_put cmp (sh_list c2) q \<noteq> None" if "sh_writer c2 = NoPut" for q
    using start_put_ok [OF assms(1) C2 that, of q] by auto
  moreover have "write_step (sl_heap (sh_list c2)) (sh_writer c2) \<noteq> None" if "sh_writer c2 \<noteq> NoPut"
    using write_step_ok [OF assms(1) C2 that] by auto
  ultimately show ?thesis using steps alone by simp
qed

text \<open>A get that starts before a put and finds what it puts.\<close>

theorem reads_linearize_witness:
  "\<exists>c2 r2 cm rm xs ys. get_result kv_cmp kv_EMPTY (sl_heap (sh_list c2)) r2 = Some (mk_kv [1] [2]) \<and>
     [StartPut (mk_kv [1] [2]), WriteStep, WriteStep, ReadStep] = xs @ ys \<and>
     conc_run kv_cmp (\<lparr>sh_list = newSkipList (\<lambda>i. 3) kv_EMPTY, sh_writer = NoPut, sh_puts = []\<rparr>, Find (Key [1]) 0 0) xs (cm, rm) \<and>
     conc_run kv_cmp (cm, rm) ys (c2, r2) \<and>
     mk_kv [1] [2] = found_or kv_EMPTY (olist_find kv_cmp (Key [1]) (contents kv_cmp [] cm))"
proof -
  let ?s = "newSkipList (\<lambda>i. 3 :: nat) kv_EMPTY" and ?kv = "mk_kv [1] [2]"
  let ?head = "\<lambda>p. \<lparr>n_key = kv_EMPTY, n_height = 12, n_next = p # replicate 11 None\<rparr>"
  let ?node = "\<lparr>n_key = ?kv, n_height = 1, n_next = [None]\<rparr>"
  let ?prev = "Some 0 # replicate 11 None"
  let ?c = "\<lambda>h w. \<lparr>sh_list = \<lparr>sl_heap = h, sl_maxHeight = 1, sl_rand = \<lambda>i. 3\<rparr>, sh_writer = w, sh_puts = [?kv]\<rparr>"
  let ?start = "\<lparr>sh_list = ?s, sh_writer = NoPut, sh_puts = []\<rparr>" and ?r = "Find (Key [1]) 0 0"
  have list: "?s = \<lparr>sl_heap = [?head None], sl_maxHeight = 1, sl_rand = \<lambda>i. 3\<rparr>"
    by (simp add: newSkipList_def newNode_def kMaxHeight_def numeral_eq_Suc)
  have find: "findGreaterOrEqual kv_cmp ?s ?kv = Some (None, ?prev)"
    unfolding list findGreaterOrEqual_def
    by (subst find_loop.simps) (simp add: get_next_def keyIsAfterNode_def kMaxHeight_def numeral_eq_Suc)
  have hgt: "randomHeight (\<lambda>i. 3) = (1, \<lambda>i. 3)"
    unfolding randomHeight_def by (subst random_loop.simps) (simp add: kMaxHeight_def kBranching_def)
  have b: "begin_put kv_cmp ?s ?kv = Some (\<lparr>sl_heap = [?head None, ?node], sl_maxHeight = 1, sl_rand = \<lambda>i. 3\<rparr>, Fill None ?prev 1 [0])"
    unfolding begin_put_def find by (simp add: list hgt newNode_def)
  have w1: "write_step [?head None, ?node] (Fill None ?prev 1 [0]) = Some ([?head None, ?node], Link None ?prev 1 [0])"
    by (simp add: get_next_def set_next_def)
  have w2: "write_step [?head None, ?node] (Link None ?prev 1 [0]) = Some ([?head (Some 1), ?node], Fill None ?prev 1 [])"
    by (simp add: set_next_def)
  have r: "read_step kv_cmp [?head (Some 1), ?node] ?r = Some (Found (Key [1]) (Some 1))"
    by (simp add: get_next_def keyIsAfterNode_def kv_cmp_order)
  have "conc_run kv_cmp (?start, ?r) ([] @ [StartPut ?kv]) (?c [?head None, ?node] (Fill None ?prev 1 [0]), ?r)"
    by (rule conc_more [OF conc_refl]) (use start_put [of ?start kv_cmp ?kv] b in simp)
  then have "conc_run kv_cmp (?start, ?r) (([] @ [StartPut ?kv]) @ [WriteStep]) (?c [?head None, ?node] (Link None ?prev 1 [0]), ?r)"
    by (rule conc_more) (use write_ptr [of "?c [?head None, ?node] (Fill None ?prev 1 [0])"] w1 in simp)
  then have "conc_run kv_cmp (?start, ?r) ((([] @ [StartPut ?kv]) @ [WriteStep]) @ [WriteStep]) (?c [?head (Some 1), ?node] (Fill None ?prev 1 []), ?r)"
    by (rule conc_more) (use write_ptr [of "?c [?head None, ?node] (Link None ?prev 1 [0])"] w2 in simp)
  then have "conc_run kv_cmp (?start, ?r) (((([] @ [StartPut ?kv]) @ [WriteStep]) @ [WriteStep]) @ [ReadStep])
      (?c [?head (Some 1), ?node] (Fill None ?prev 1 []), Found (Key [1]) (Some 1))"
    by (rule conc_more) (use read_ptr [of kv_cmp "?c [?head (Some 1), ?node] (Fill None ?prev 1 [])"] r in simp)
  then have run: "conc_run kv_cmp (?start, start_get (sh_list ?start) (Key [1])) [StartPut ?kv, WriteStep, WriteStep, ReadStep]
      (?c [?head (Some 1), ?node] (Fill None ?prev 1 []), Found (Key [1]) (Some 1))"
    by (simp add: start_get_def list)
  let ?fin = "?c [?head (Some 1), ?node] (Fill None ?prev 1 [])" and ?found = "Found (Key [1]) (Some 1)"
  have res: "get_result kv_cmp kv_EMPTY (sl_heap (sh_list ?fin)) ?found = Some ?kv" by (simp add: kv_cmp_order)
  have start: "start_get (sh_list ?start) (Key [1]) = ?r" by (simp add: start_get_def list)
  note lin = conjunct1 [OF reads_linearize [OF kv.comparator_axioms newSkipList_repr conc_refl run, of kv_EMPTY]]
  then obtain cm rm xs ys where m: "[StartPut ?kv, WriteStep, WriteStep, ReadStep] = xs @ ys"
    "conc_run kv_cmp (?start, ?r) xs (cm, rm)" "conc_run kv_cmp (cm, rm) ys (?fin, ?found)"
    "?kv = found_or kv_EMPTY (olist_find kv_cmp (Key [1]) (contents kv_cmp [] cm))"
    unfolding res start option.case by blast
  show ?thesis
    by (rule exI [of _ ?fin], rule exI [of _ ?found], rule exI [of _ cm], rule exI [of _ rm], rule exI [of _ xs], rule exI [of _ ys])
       (intro conjI res m)
qed

end
