(* ===== verification/Arena.thy ===== *)
theory Arena
  imports Prelude "HOL-Library.Signed_Division"
begin

text \<open>
  \<^verbatim>\<open>include/arena.h\<close>, the bump allocator of the memory segments. The theorems: what is handed out for up to
  \<open>BLOCK_SIZE\<close> bytes lies inside its block, is aligned and does not overlap anything else; a longer request
  gets a block that is too short.
\<close>

section \<open>The arena\<close>

definition BLOCK_SIZE :: int where "BLOCK_SIZE = 4 * 1024"

text \<open>
  A block is its position in \<open>blocks\<close>, a pointer a block and an offset. \<open>arena_block\<close> is the block that small
  requests are taken from, \<open>None\<close> the null pointer.
\<close>

type_synonym pointer = "nat \<times> int"

record arena =
  arena_blocks :: nat
  arena_used :: int
  arena_block :: "nat option"

definition newArena :: arena where
  "newArena = \<lparr>arena_blocks = 0, arena_used = 0, arena_block = None\<rparr>"

definition remaining :: "arena \<Rightarrow> int" where
  "remaining a = BLOCK_SIZE - arena_used a"

definition allocate :: "arena \<Rightarrow> int \<Rightarrow> pointer \<times> arena" where
  "allocate a len =
     (if len > BLOCK_SIZE div 4
      then ((arena_blocks a, 0), a\<lparr>arena_blocks := arena_blocks a + 1\<rparr>)
      else let a1 = (if arena_block a = None \<or> len > remaining a
                     then a\<lparr>arena_block := Some (arena_blocks a), arena_used := 0, arena_blocks := arena_blocks a + 1\<rparr>
                     else a);
               slop = len smod 8
           in ((the (arena_block a1), arena_used a1),
               a1\<lparr>arena_used := arena_used a1 + (len + (if slop = 0 then 0 else 8 - slop))\<rparr>))"

text \<open>A sequence of requests: the pointers handed out, with the length asked for.\<close>

fun allocate_all :: "arena \<Rightarrow> int list \<Rightarrow> (pointer \<times> int) list \<times> arena" where
  "allocate_all a [] = ([], a)"
| "allocate_all a (len # lens) =
     (case allocate a len of (p, a1) \<Rightarrow> case allocate_all a1 lens of (ps, a2) \<Rightarrow> ((p, len) # ps, a2))"

text \<open>The bytes of an allocation.\<close>

definition bytes_of :: "pointer \<times> int \<Rightarrow> (nat \<times> int) set" where
  "bytes_of pl = (case pl of ((b, off), len) \<Rightarrow> {(b, i) | i. off \<le> i \<and> i < off + len})"

section \<open>Bounds\<close>

text \<open>
  The invariant: the offset of the current block is aligned and inside it, the current block exists, and
  everything handed out lies in blocks that exist, in the current block below the offset.
\<close>

definition arena_ok :: "arena \<Rightarrow> (pointer \<times> int) list \<Rightarrow> bool" where
  "arena_ok a out \<longleftrightarrow>
     0 \<le> arena_used a \<and> arena_used a \<le> BLOCK_SIZE \<and> 8 dvd arena_used a \<and>
     (\<forall>b. arena_block a = Some b \<longrightarrow> b < arena_blocks a) \<and>
     (\<forall>((b, off), len) \<in> set out. b < arena_blocks a \<and> 0 \<le> off \<and> off + len \<le> BLOCK_SIZE \<and> 8 dvd off \<and>
        (arena_block a = Some b \<longrightarrow> off + len \<le> arena_used a)) \<and>
     sorted_wrt (\<lambda>x y. bytes_of x \<inter> bytes_of y = {}) out"

lemma padded:
  fixes len :: int
  assumes "0 \<le> len"
  defines "p \<equiv> len + (if len smod 8 = 0 then 0 else 8 - len smod 8)"
  shows "8 dvd p" "len \<le> p" "p < len + 8"
proof -
  have s: "len smod 8 = len mod 8"
    using assms(1) by (cases "len = 0") (simp_all add: signed_modulo_int_def)
  show "8 dvd p" unfolding p_def s by presburger
  show "len \<le> p" "p < len + 8" unfolding p_def s by presburger+
qed

lemma arena_ok_new: "arena_ok newArena []"
  by (simp add: arena_ok_def newArena_def BLOCK_SIZE_def)

text \<open>An allocation is taken from a fresh block or behind everything handed out of the current one.\<close>

lemma arena_ok_snoc:
  assumes "arena_ok a out" "\<forall>((b', off'), len') \<in> set out. b' \<noteq> b \<or> off' + len' \<le> off"
    and "b < arena_blocks a'" "arena_blocks a \<le> arena_blocks a'" "0 \<le> off" "off + len \<le> BLOCK_SIZE" "8 dvd off"
    and "0 \<le> arena_used a'" "arena_used a' \<le> BLOCK_SIZE" "8 dvd arena_used a'"
    and "\<forall>c. arena_block a' = Some c \<longrightarrow> c < arena_blocks a'"
    and "arena_block a' = Some b \<longrightarrow> off + len \<le> arena_used a'"
    and "\<forall>((b', off'), len') \<in> set out. arena_block a' = Some b' \<longrightarrow> off' + len' \<le> arena_used a'"
  shows "arena_ok a' (out @ [((b, off), len)])"
proof -
  have "bytes_of x \<inter> bytes_of ((b, off), len) = {}" if x: "x \<in> set out" for x
  proof -
    obtain b' off' len' where x': "x = ((b', off'), len')" by (metis prod.exhaust)
    then have "b' \<noteq> b \<or> off' + len' \<le> off" using assms(2) x by auto
    then show ?thesis by (auto simp: bytes_of_def x')
  qed
  moreover have "\<forall>((b', off'), len') \<in> set out. b' < arena_blocks a' \<and> 0 \<le> off' \<and> off' + len' \<le> BLOCK_SIZE \<and> 8 dvd off'"
    using assms(1,4) by (fastforce simp: arena_ok_def)
  ultimately show ?thesis
    using assms(1,3,5-13) by (auto simp: arena_ok_def sorted_wrt_append)
qed

lemma allocate_ok:
  assumes "arena_ok a out" "0 \<le> len" "len \<le> BLOCK_SIZE" "allocate a len = (p, a')"
  shows "arena_ok a' (out @ [(p, len)])"
proof (cases "len > BLOCK_SIZE div 4")
  case True
  then have a': "p = (arena_blocks a, 0)" "a' = a\<lparr>arena_blocks := arena_blocks a + 1\<rparr>"
    using assms(4) by (simp_all add: allocate_def)
  have "\<forall>((b', off'), len') \<in> set out. b' \<noteq> arena_blocks a \<or> off' + len' \<le> 0"
    using assms(1) by (fastforce simp: arena_ok_def)
  then show ?thesis
    unfolding a'(1) using assms(1-3) a'(2)
    by (intro arena_ok_snoc [OF assms(1)]) (auto simp: arena_ok_def)
next
  case False
  define a1 where "a1 = (if arena_block a = None \<or> len > remaining a
      then a\<lparr>arena_block := Some (arena_blocks a), arena_used := 0, arena_blocks := arena_blocks a + 1\<rparr> else a)"
  define pad where "pad = len + (if len smod 8 = 0 then 0 else 8 - len smod 8)"
  have a': "p = (the (arena_block a1), arena_used a1)" "a' = a1\<lparr>arena_used := arena_used a1 + pad\<rparr>"
    using assms(4) False by (simp_all add: allocate_def a1_def pad_def Let_def)
  note pad = padded [OF assms(2), folded pad_def]
  obtain b where b: "arena_block a1 = Some b" "b < arena_blocks a1"
  proof (cases "arena_block a = None \<or> len > remaining a")
    case True
    then show thesis by (intro that [of "arena_blocks a"]) (simp_all add: a1_def)
  next
    case False
    then show thesis using assms(1) that by (auto simp: a1_def arena_ok_def)
  qed
  have blocks: "arena_blocks a \<le> arena_blocks a1" by (simp add: a1_def)
  have used: "0 \<le> arena_used a1" "8 dvd arena_used a1" "arena_used a1 + len \<le> BLOCK_SIZE"
    using assms(1,3) by (auto simp: a1_def arena_ok_def remaining_def)
  have pad_used: "arena_used a1 + pad \<le> BLOCK_SIZE"
  proof -
    obtain u q where "arena_used a1 = 8 * u" "pad = 8 * q" using used(2) pad(1) by (auto simp: dvd_def)
    then show ?thesis using used(3) pad(3) unfolding BLOCK_SIZE_def by presburger
  qed
  have below: "\<forall>((b', off'), len') \<in> set out. b' \<noteq> b \<or> off' + len' \<le> arena_used a1"
  proof (cases "arena_block a = None \<or> len > remaining a")
    case True
    then have "b = arena_blocks a" using b(1) by (simp add: a1_def)
    then show ?thesis using assms(1) by (fastforce simp: arena_ok_def)
  next
    case False
    then have "a1 = a" unfolding a1_def by (rule if_not_P)
    then show ?thesis using assms(1) b(1) by (fastforce simp: arena_ok_def)
  qed
  have pb: "p = (b, arena_used a1)" using a'(1) b(1) by simp
  show ?thesis
    unfolding pb
  proof (rule arena_ok_snoc [OF assms(1) below])
    show "b < arena_blocks a'" "arena_blocks a \<le> arena_blocks a'" using b(2) blocks a'(2) by simp_all
    show "0 \<le> arena_used a1" "arena_used a1 + len \<le> BLOCK_SIZE" "8 dvd arena_used a1" using used by simp_all
    show "0 \<le> arena_used a'" "arena_used a' \<le> BLOCK_SIZE" "8 dvd arena_used a'"
      using used pad pad_used assms(2) a'(2) by simp_all
    show "\<forall>c. arena_block a' = Some c \<longrightarrow> c < arena_blocks a'" using b a'(2) by simp
    show "arena_block a' = Some b \<longrightarrow> arena_used a1 + len \<le> arena_used a'" using pad(2) a'(2) by simp
    show "\<forall>((b', off'), len') \<in> set out. arena_block a' = Some b' \<longrightarrow> off' + len' \<le> arena_used a'"
      using below b(1) pad(2) a'(2) assms(2) by fastforce
  qed
qed

lemma allocate_all_ok:
  assumes "arena_ok a out" "\<forall>len \<in> set lens. 0 \<le> len \<and> len \<le> BLOCK_SIZE" "allocate_all a lens = (ps, a')"
  shows "arena_ok a' (out @ ps)"
  using assms
proof (induction lens arbitrary: a out ps)
  case (Cons len lens)
  obtain p a1 ps1 where 1: "allocate a len = (p, a1)" "allocate_all a1 lens = (ps1, a')" "ps = (p, len) # ps1"
    using Cons.prems(3) by (auto split: prod.splits)
  have "arena_ok a1 (out @ [(p, len)])" using allocate_ok [OF Cons.prems(1) _ _ 1(1)] Cons.prems(2) by simp
  from Cons.IH [OF this _ 1(2)] show ?case using Cons.prems(2) 1(3) by simp
qed simp

section \<open>Properties\<close>

text \<open>C39. Any sequence of requests of at most \<open>BLOCK_SIZE\<close> bytes gets memory that lies inside blocks that exist, is
  aligned to eight bytes and shares no byte with another request; one byte more, and a request of any larger
  size gets a fresh block of \<open>BLOCK_SIZE\<close> bytes, so its last bytes lie outside.\<close>

theorem arena_allocations:
  assumes "\<forall>len \<in> set lens. 0 \<le> len \<and> len \<le> BLOCK_SIZE" and "allocate_all newArena lens = (out, a)"
  shows "(\<forall>((b, off), len) \<in> set out. b < arena_blocks a \<and> 0 \<le> off \<and> off + len \<le> BLOCK_SIZE \<and> 8 dvd off) \<and>
         sorted_wrt (\<lambda>x y. bytes_of x \<inter> bytes_of y = {}) out \<and> map snd out = lens \<and>
         (\<forall>big > BLOCK_SIZE. \<exists>b. fst (allocate a big) = (b, 0) \<and> (b, BLOCK_SIZE) \<in> bytes_of ((b, 0), big))"
proof -
  have ok: "arena_ok a out" using allocate_all_ok [OF arena_ok_new assms] by simp
  have "map snd (fst (allocate_all c ls)) = ls" for c ls
    by (induction c ls rule: allocate_all.induct) (auto split: prod.splits)
  from this [of newArena lens] have "map snd out = lens" using assms(2) by simp
  moreover have "\<forall>big > BLOCK_SIZE. \<exists>b. fst (allocate a big) = (b, 0) \<and> (b, BLOCK_SIZE) \<in> bytes_of ((b, 0), big)"
    by (auto simp: allocate_def bytes_of_def BLOCK_SIZE_def)
  ultimately show ?thesis using ok by (auto simp: arena_ok_def)
qed

theorem arena_allocations_witness:
  "\<exists>out a. allocate_all newArena [3, 4096, 1024, 8] = (out, a) \<and>
     map fst out = [(0, 0), (1, 0), (0, 8), (0, 1032)] \<and>
     sorted_wrt (\<lambda>x y. bytes_of x \<inter> bytes_of y = {}) out \<and>
     (\<forall>big > BLOCK_SIZE. \<exists>b. fst (allocate a big) = (b, 0) \<and> (b, BLOCK_SIZE) \<in> bytes_of ((b, 0), big))"
proof -
  obtain out a where o: "allocate_all newArena [3, 4096, 1024, 8] = (out, a)" by fastforce
  have "map fst (fst (allocate_all newArena [3, 4096, 1024, 8])) = [(0, 0), (1, 0), (0, 8), (0, 1032)]"
    by code_simp
  moreover have "\<forall>len \<in> set [3, 4096, 1024, 8]. 0 \<le> len \<and> len \<le> BLOCK_SIZE" by (simp add: BLOCK_SIZE_def)
  ultimately show ?thesis using arena_allocations [OF _ o] o by auto
qed

end
