(* ===== verification/ByteBuffer.thy ===== *)
theory ByteBuffer
  imports Arena
begin

text \<open>
  \<^verbatim>\<open>include/bytebuffer.h\<close> with its storage: a pointer to uninitialised memory of the heap or of an arena, a capacity
  and a length. The theorem: after any sequence of assignments and appends the buffer holds the bytes written,
  as the abstract byte lists of the other theories do; in an arena only while it stays within a block.
\<close>

section \<open>Storage\<close>

text \<open>
  \<open>bb_room\<close> is the memory from the pointer to the end of its block of the heap or the arena. Memory that was never
  written holds what \<open>junk\<close> says.
\<close>

record byte_buffer =
  bb_inArena :: bool
  bb_room :: bytes
  bb_capacity :: int
  bb_length :: int

definition fresh_room :: "(nat \<Rightarrow> u8) \<Rightarrow> int \<Rightarrow> bytes" where
  "fresh_room junk n = map junk [0..<nat n]"

definition heap_room :: "(nat \<Rightarrow> u8) \<Rightarrow> int \<Rightarrow> bytes" where
  "heap_room junk len = fresh_room junk len"

definition arena_room :: "(nat \<Rightarrow> u8) \<Rightarrow> int \<Rightarrow> arena \<Rightarrow> bytes \<times> arena" where
  "arena_room junk len ar = (case allocate ar len of ((b, off), ar') \<Rightarrow> (fresh_room junk (BLOCK_SIZE - off), ar'))"

text \<open>\<^verbatim>\<open>realloc\<close>, which the code applies to memory from \<^verbatim>\<open>new[]\<close>; C++ leaves that undefined, here it works as on memory
  from \<^verbatim>\<open>malloc\<close>.\<close>

definition reallocate :: "(nat \<Rightarrow> u8) \<Rightarrow> bytes \<Rightarrow> int \<Rightarrow> bytes" where
  "reallocate junk old n = take (nat n) old @ map junk [length old..<nat n]"

text \<open>\<^verbatim>\<open>memcpy\<close> into the room at a position; undefined outside it.\<close>

definition copy_to :: "bytes \<Rightarrow> int \<Rightarrow> bytes \<Rightarrow> bytes res" where
  "copy_to room pos src =
     (if pos < 0 \<or> pos + int (length src) > int (length room) then Inl UndefinedBehaviour
      else Inr (take (nat pos) room @ src @ drop (nat pos + length src) room))"

section \<open>The buffer\<close>

definition newByteBuffer :: "(nat \<Rightarrow> u8) \<Rightarrow> int \<Rightarrow> byte_buffer res" where
  "newByteBuffer junk len =
     (if len < 0 then Inl (IllegalState ''length must be >=0'')
      else Inr \<lparr>bb_inArena = False, bb_room = (if len = 0 then [] else heap_room junk len), bb_capacity = len, bb_length = len\<rparr>)"

definition newByteBufferIn :: "(nat \<Rightarrow> u8) \<Rightarrow> int \<Rightarrow> arena \<Rightarrow> (byte_buffer \<times> arena) res" where
  "newByteBufferIn junk len ar =
     (if len < 0 then Inl (IllegalState ''length must be >=0'')
      else case (if len = 0 then ([], ar) else arena_room junk len ar) of (room, ar') \<Rightarrow>
        Inr (\<lparr>bb_inArena = True, bb_room = room, bb_capacity = len, bb_length = len\<rparr>, ar'))"

text \<open>The two constructors without a length.\<close>

definition emptyByteBuffer :: "(nat \<Rightarrow> u8) \<Rightarrow> byte_buffer res" where
  "emptyByteBuffer junk = bind_res (newByteBuffer junk 64) (\<lambda>bb. Inr (bb\<lparr>bb_length := 0\<rparr>))"

definition emptyByteBufferIn :: "(nat \<Rightarrow> u8) \<Rightarrow> arena \<Rightarrow> (byte_buffer \<times> arena) res" where
  "emptyByteBufferIn junk ar = bind_res (newByteBufferIn junk 64 ar) (\<lambda>(bb, ar'). Inr (bb\<lparr>bb_length := 0\<rparr>, ar'))"

text \<open>The copying constructors, to the heap and to an arena.\<close>

definition copyByteBuffer :: "(nat \<Rightarrow> u8) \<Rightarrow> bytes \<Rightarrow> byte_buffer res" where
  "copyByteBuffer junk src =
     bind_res (newByteBuffer junk (int (length src))) (\<lambda>bb.
     bind_res (copy_to (bb_room bb) 0 src) (\<lambda>room. Inr (bb\<lparr>bb_room := room\<rparr>)))"

definition copyByteBufferIn :: "(nat \<Rightarrow> u8) \<Rightarrow> bytes \<Rightarrow> arena \<Rightarrow> (byte_buffer \<times> arena) res" where
  "copyByteBufferIn junk src ar =
     bind_res (newByteBufferIn junk (int (length src)) ar) (\<lambda>(bb, ar').
     bind_res (copy_to (bb_room bb) 0 src) (\<lambda>room. Inr (bb\<lparr>bb_room := room\<rparr>, ar')))"

text \<open>The move constructor: the new buffer, and what is left of the old one.\<close>

definition moveByteBuffer :: "byte_buffer \<Rightarrow> byte_buffer \<times> byte_buffer" where
  "moveByteBuffer bb = (bb, bb\<lparr>bb_room := [], bb_length := 0, bb_capacity := 0\<rparr>)"

text \<open>\<^verbatim>\<open>operator=\<close>, with a slice of memory that is not the buffer's own.\<close>

definition bb_assign :: "(nat \<Rightarrow> u8) \<Rightarrow> bytes \<Rightarrow> byte_buffer \<times> arena \<Rightarrow> (byte_buffer \<times> arena) res" where
  "bb_assign junk other s =
     (case s of (bb, ar) \<Rightarrow>
        let n = int (length other);
            (bb1, ar1) =
              (if bb_capacity bb < n
               then case (if bb_inArena bb then arena_room junk n ar else (reallocate junk (bb_room bb) n, ar)) of (room, ar') \<Rightarrow>
                      (bb\<lparr>bb_room := room, bb_capacity := n\<rparr>, ar')
               else (bb, ar))
        in bind_res (copy_to (bb_room bb1) 0 other) (\<lambda>room. Inr (bb1\<lparr>bb_room := room, bb_length := n\<rparr>, ar1)))"

definition ensureCapacity :: "(nat \<Rightarrow> u8) \<Rightarrow> int \<Rightarrow> byte_buffer \<times> arena \<Rightarrow> (byte_buffer \<times> arena) res" where
  "ensureCapacity junk capacity s =
     (case s of (bb, ar) \<Rightarrow>
        if bb_capacity bb < capacity
        then if bb_inArena bb
             then case arena_room junk capacity ar of (newp, ar') \<Rightarrow>
                    bind_res (copy_to newp 0 (take (nat (bb_length bb)) (bb_room bb))) (\<lambda>room.
                      Inr (bb\<lparr>bb_room := room, bb_capacity := capacity\<rparr>, ar'))
             else Inr (bb\<lparr>bb_room := reallocate junk (bb_room bb) capacity, bb_capacity := capacity\<rparr>, ar)
        else Inr (bb, ar))"

text \<open>The sum of the lengths is an \<^verbatim>\<open>int\<close>.\<close>

definition bb_append :: "(nat \<Rightarrow> u8) \<Rightarrow> bytes \<Rightarrow> byte_buffer \<times> arena \<Rightarrow> (byte_buffer \<times> arena) res" where
  "bb_append junk src s =
     (let n = int (length src)
      in if bb_length (fst s) + n \<ge> 2 ^ 31 then Inl UndefinedBehaviour
         else bind_res (ensureCapacity junk (bb_length (fst s) + n) s) (\<lambda>(bb, ar).
              bind_res (copy_to (bb_room bb) (bb_length bb) src) (\<lambda>room.
                Inr (bb\<lparr>bb_room := room, bb_length := bb_length bb + n\<rparr>, ar))))"

definition bb_slice :: "byte_buffer \<Rightarrow> bytes" where
  "bb_slice bb = take (nat (bb_length bb)) (bb_room bb)"

section \<open>Contents\<close>

text \<open>
  \<open>bb_holds bb ar bs\<close>: the buffer holds the bytes \<open>bs\<close>. In an arena its capacity fits into a block.
\<close>

definition bb_holds :: "byte_buffer \<times> arena \<Rightarrow> bytes \<Rightarrow> bool" where
  "bb_holds s bs \<longleftrightarrow>
     (\<exists>out. arena_ok (snd s) out) \<and> 0 \<le> bb_length (fst s) \<and> bb_length (fst s) \<le> bb_capacity (fst s) \<and>
     bb_capacity (fst s) \<le> int (length (bb_room (fst s))) \<and> (bb_inArena (fst s) \<longrightarrow> bb_capacity (fst s) \<le> BLOCK_SIZE) \<and>
     bb_slice (fst s) = bs"

lemma arena_room_ok:
  assumes "arena_ok ar out" "0 \<le> len" "len \<le> BLOCK_SIZE" "arena_room junk len ar = (room, ar')"
  shows "\<exists>out'. arena_ok ar' out'" "len \<le> int (length room)"
proof -
  obtain b off where a: "allocate ar len = ((b, off), ar')" "room = fresh_room junk (BLOCK_SIZE - off)"
    using assms(4) by (auto simp: arena_room_def split: prod.splits)
  have ok: "arena_ok ar' (out @ [((b, off), len)])" by (rule allocate_ok [OF assms(1-3) a(1)])
  then show "\<exists>out'. arena_ok ar' out'" by blast
  have "off + len \<le> BLOCK_SIZE" using ok by (simp add: arena_ok_def)
  then show "len \<le> int (length room)" using a(2) assms(2) by (simp add: fresh_room_def)
qed

lemma copy_to_ok:
  assumes "0 \<le> pos" "pos + int (length src) \<le> int (length room)"
  shows "\<exists>room'. copy_to room pos src = Inr room' \<and> length room' = length room \<and>
           take (nat (pos + int (length src))) room' = take (nat pos) room @ src"
  using assms by (auto simp: copy_to_def nat_add_distrib)

lemma length_reallocate [simp]: "length (reallocate junk old n) = nat n"
  by (simp add: reallocate_def)

lemma bb_assign_ok:
  assumes "bb_holds s bs" "bb_inArena (fst s) \<longrightarrow> int (length other) \<le> BLOCK_SIZE"
  shows "\<exists>s'. bb_assign junk other s = Inr s' \<and> bb_holds s' other \<and> bb_inArena (fst s') = bb_inArena (fst s)"
proof -
  obtain bb ar where s: "s = (bb, ar)" by fastforce
  let ?n = "int (length other)"
  obtain bb1 ar1 where g: "(if bb_capacity bb < ?n
      then case (if bb_inArena bb then arena_room junk ?n ar else (reallocate junk (bb_room bb) ?n, ar)) of (room, ar') \<Rightarrow>
             (bb\<lparr>bb_room := room, bb_capacity := ?n\<rparr>, ar')
      else (bb, ar)) = (bb1, ar1)"
    by fastforce
  obtain out where out: "arena_ok ar out" using assms(1) s by (auto simp: bb_holds_def)
  have 1: "(\<exists>out. arena_ok ar1 out) \<and> ?n \<le> bb_capacity bb1 \<and> bb_capacity bb1 \<le> int (length (bb_room bb1)) \<and>
      bb_inArena bb1 = bb_inArena bb \<and> (bb_inArena bb1 \<longrightarrow> bb_capacity bb1 \<le> BLOCK_SIZE)"
  proof (cases "bb_capacity bb < ?n \<and> bb_inArena bb")
    case True
    obtain room ar' where r: "arena_room junk ?n ar = (room, ar')" by fastforce
    have "?n \<le> BLOCK_SIZE" using assms(2) s True by simp
    then show ?thesis using arena_room_ok [OF out _ _ r] g True r by auto
  next
    case False
    then show ?thesis using g assms(1) s out by (auto simp: bb_holds_def split: if_splits)
  qed
  then obtain room where "copy_to (bb_room bb1) 0 other = Inr room" "length room = length (bb_room bb1)"
    "take (nat ?n) room = other"
    using copy_to_ok [of 0 other "bb_room bb1"] by auto
  then show ?thesis
    using 1 g s by (simp add: bb_assign_def Let_def bb_holds_def bb_slice_def)
qed

lemma ensureCapacity_ok:
  assumes "bb_holds s bs" "bb_inArena (fst s) \<longrightarrow> capacity \<le> BLOCK_SIZE"
  shows "\<exists>s'. ensureCapacity junk capacity s = Inr s' \<and> bb_holds s' bs \<and> capacity \<le> bb_capacity (fst s') \<and>
           bb_length (fst s') = bb_length (fst s) \<and> bb_inArena (fst s') = bb_inArena (fst s)"
proof -
  obtain bb ar where s: "s = (bb, ar)" by fastforce
  have h: "0 \<le> bb_length bb" "bb_length bb \<le> bb_capacity bb" "bb_capacity bb \<le> int (length (bb_room bb))" "bb_slice bb = bs"
    using assms(1) s by (simp_all add: bb_holds_def)
  have len: "length bs = nat (bb_length bb)" using h by (auto simp: bb_slice_def)
  obtain out where out: "arena_ok ar out" using assms(1) s by (auto simp: bb_holds_def)
  consider "capacity \<le> bb_capacity bb" | "bb_capacity bb < capacity" "bb_inArena bb" | "bb_capacity bb < capacity" "\<not> bb_inArena bb"
    by linarith
  then show ?thesis
  proof cases
    case 1
    then show ?thesis using assms(1) s by (simp add: ensureCapacity_def)
  next
    case 2
    obtain newp ar' where r: "arena_room junk capacity ar = (newp, ar')" by fastforce
    have cap: "capacity \<le> BLOCK_SIZE" using assms(2) s 2 by simp
    then have a: "\<exists>out'. arena_ok ar' out'" "capacity \<le> int (length newp)"
      using arena_room_ok [OF out _ _ r] 2(1) h(1,2) by simp_all
    then obtain room where c: "copy_to newp 0 bs = Inr room" "length room = length newp" "take (length bs) room = bs"
      using copy_to_ok [of 0 bs newp] len h(1,2) 2(1) by auto
    have "ensureCapacity junk capacity s = Inr (bb\<lparr>bb_room := room, bb_capacity := capacity\<rparr>, ar')"
      using 2 s r c(1) h(4) by (simp add: ensureCapacity_def bb_slice_def)
    then show ?thesis using a c h len s 2 cap by (simp add: bb_holds_def bb_slice_def)
  next
    case 3
    let ?bb = "bb\<lparr>bb_room := reallocate junk (bb_room bb) capacity, bb_capacity := capacity\<rparr>"
    have "ensureCapacity junk capacity s = Inr (?bb, ar)" using 3 s by (simp add: ensureCapacity_def)
    moreover have "take (nat (bb_length bb)) (reallocate junk (bb_room bb) capacity) = bs"
      using h 3(1) by (auto simp: reallocate_def bb_slice_def min_def)
    ultimately show ?thesis using h 3 s out by (auto simp: bb_holds_def bb_slice_def)
  qed
qed

lemma bb_append_ok:
  assumes "bb_holds s bs" "bb_inArena (fst s) \<longrightarrow> int (length bs + length src) \<le> BLOCK_SIZE"
    and "length bs + length src < 2 ^ 31"
  shows "\<exists>s'. bb_append junk src s = Inr s' \<and> bb_holds s' (bs @ src) \<and> bb_inArena (fst s') = bb_inArena (fst s)"
proof -
  have len: "bb_length (fst s) = int (length bs)" using assms(1) by (auto simp: bb_holds_def bb_slice_def)
  obtain bb ar where e: "ensureCapacity junk (int (length bs) + int (length src)) s = Inr (bb, ar)" "bb_holds (bb, ar) bs"
    "int (length bs) + int (length src) \<le> bb_capacity bb" "bb_length bb = int (length bs)" "bb_inArena bb = bb_inArena (fst s)"
    using ensureCapacity_ok [OF assms(1), of "int (length bs) + int (length src)" junk] assms(2) len by auto
  have cap: "bb_capacity bb \<le> int (length (bb_room bb))" "bb_slice bb = bs" using e(2) by (simp_all add: bb_holds_def)
  then obtain room where c: "copy_to (bb_room bb) (int (length bs)) src = Inr room" "length room = length (bb_room bb)"
    "take (nat (int (length bs) + int (length src))) room = take (length bs) (bb_room bb) @ src"
    using copy_to_ok [of "int (length bs)" src "bb_room bb"] e(3) by auto
  have "take (length bs) (bb_room bb) = bs" using cap(2) e(4) by (simp add: bb_slice_def)
  moreover have "int (length bs + length src) < int (2 ^ 31)" using assms(3) by (simp only: of_nat_less_iff)
  then have "int (length bs) + int (length src) < 2 ^ 31" by simp
  ultimately show ?thesis
    using e c len by (simp add: bb_append_def Let_def bb_holds_def bb_slice_def)
qed

section \<open>Properties\<close>

datatype buffer_op = Assign bytes | Append bytes

fun buffer_do :: "(nat \<Rightarrow> u8) \<Rightarrow> buffer_op \<Rightarrow> byte_buffer \<times> arena \<Rightarrow> (byte_buffer \<times> arena) res" where
  "buffer_do junk (Assign src) s = bb_assign junk src s"
| "buffer_do junk (Append src) s = bb_append junk src s"

fun buffer_run :: "(nat \<Rightarrow> u8) \<Rightarrow> buffer_op list \<Rightarrow> byte_buffer \<times> arena \<Rightarrow> (byte_buffer \<times> arena) res" where
  "buffer_run junk [] s = Inr s"
| "buffer_run junk (op # ops) s = bind_res (buffer_do junk op s) (buffer_run junk ops)"

fun buffer_step :: "bytes \<Rightarrow> buffer_op \<Rightarrow> bytes" where
  "buffer_step bs (Assign src) = src"
| "buffer_step bs (Append src) = bs @ src"

text \<open>A buffer made without a length, on the heap or in a new arena.\<close>

definition buffer_start :: "bool \<Rightarrow> (nat \<Rightarrow> u8) \<Rightarrow> (byte_buffer \<times> arena) res" where
  "buffer_start in_arena junk =
     (if in_arena then emptyByteBufferIn junk newArena
      else bind_res (emptyByteBuffer junk) (\<lambda>bb. Inr (bb, newArena)))"

definition buffer_limit :: "bool \<Rightarrow> nat" where
  "buffer_limit in_arena = (if in_arena then 4097 else 2 ^ 31)"

lemma buffer_start_ok: "\<exists>s. buffer_start in_arena junk = Inr s \<and> bb_holds s [] \<and> bb_inArena (fst s) = in_arena"
proof (cases in_arena)
  case True
  obtain room ar where r: "arena_room junk 64 newArena = (room, ar)" by fastforce
  have "\<exists>out. arena_ok ar out" "64 \<le> int (length room)"
    using arena_room_ok [OF arena_ok_new _ _ r] by (simp_all add: BLOCK_SIZE_def)
  then show ?thesis
    using True r by (simp add: buffer_start_def emptyByteBufferIn_def newByteBufferIn_def bb_holds_def bb_slice_def BLOCK_SIZE_def)
next
  case False
  then show ?thesis
    using arena_ok_new
    by (auto simp: buffer_start_def emptyByteBuffer_def newByteBuffer_def bb_holds_def bb_slice_def heap_room_def fresh_room_def)
qed

lemma buffer_do_ok:
  assumes "bb_holds s bs" "length (buffer_step bs op) < buffer_limit (bb_inArena (fst s))"
  shows "\<exists>s'. buffer_do junk op s = Inr s' \<and> bb_holds s' (buffer_step bs op) \<and> bb_inArena (fst s') = bb_inArena (fst s)"
proof (cases op)
  case (Assign src)
  have "bb_inArena (fst s) \<longrightarrow> int (length src) \<le> BLOCK_SIZE" using assms(2) Assign by (auto simp: buffer_limit_def BLOCK_SIZE_def)
  then show ?thesis using bb_assign_ok [OF assms(1)] Assign by simp
next
  case (Append src)
  have "bb_inArena (fst s) \<longrightarrow> int (length bs + length src) \<le> BLOCK_SIZE" "length bs + length src < 2 ^ 31"
    using assms(2) Append by (auto simp: buffer_limit_def BLOCK_SIZE_def split: if_splits)
  then show ?thesis using bb_append_ok [OF assms(1)] Append by simp
qed

lemma buffer_run_ok:
  assumes "bb_holds s bs" "bb_inArena (fst s) = in_arena"
    and "\<forall>ops1 ops2. ops = ops1 @ ops2 \<longrightarrow> length (foldl buffer_step bs ops1) < buffer_limit in_arena"
  shows "\<exists>s'. buffer_run junk ops s = Inr s' \<and> bb_holds s' (foldl buffer_step bs ops)"
  using assms
proof (induction ops arbitrary: s bs)
  case (Cons op ops)
  have lim: "length (buffer_step bs op) < buffer_limit (bb_inArena (fst s))"
    using Cons.prems(3) [rule_format, of "[op]" ops] Cons.prems(2) by simp
  obtain s1 where s1: "buffer_do junk op s = Inr s1" "bb_holds s1 (buffer_step bs op)" "bb_inArena (fst s1) = in_arena"
    using buffer_do_ok [OF Cons.prems(1) lim, of junk] Cons.prems(2) by blast
  have "length (foldl buffer_step (buffer_step bs op) ops1) < buffer_limit in_arena" if "ops = ops1 @ ops2" for ops1 ops2
    using Cons.prems(3) [rule_format, of "op # ops1" ops2] that by simp
  then show ?case using Cons.IH [OF s1(2,3)] s1(1) by simp
qed simp

text \<open>C40. A byte buffer holds what was written: from an empty buffer on the heap or in an arena, after any
  assignments and appends whose contents stay below the limit of its kind, the buffer's slice is the bytes
  written and lies within its capacity. In an arena the limit is a block: appending more writes outside it.\<close>

theorem buffer_holds_writes:
  assumes "\<forall>ops1 ops2. ops = ops1 @ ops2 \<longrightarrow> length (foldl buffer_step [] ops1) < buffer_limit in_arena"
  shows "(\<exists>s s'. buffer_start in_arena junk = Inr s \<and> buffer_run junk ops s = Inr s' \<and>
            bb_slice (fst s') = foldl buffer_step [] ops \<and> bb_length (fst s') \<le> bb_capacity (fst s')) \<and>
         (\<forall>big. 4096 < length big \<longrightarrow>
            bind_res (buffer_start True junk) (buffer_run junk [Append big]) = Inl UndefinedBehaviour)"
proof -
  obtain s where s: "buffer_start in_arena junk = Inr s" "bb_holds s []" "bb_inArena (fst s) = in_arena"
    using buffer_start_ok by blast
  obtain s' where s': "buffer_run junk ops s = Inr s'" "bb_holds s' (foldl buffer_step [] ops)"
    using buffer_run_ok [OF s(2,3) assms] by blast
  have big: "bind_res (buffer_start True junk) (buffer_run junk [Append big]) = Inl UndefinedBehaviour"
    if "4096 < length big" for big
  proof -
    obtain s0 where s0: "buffer_start True junk = Inr s0" "bb_holds s0 []" "bb_inArena (fst s0)"
      using buffer_start_ok [of True junk] by blast
    obtain bb ar where bb: "s0 = (bb, ar)" by fastforce
    have len: "bb_length bb = 0" "bb_capacity bb \<le> BLOCK_SIZE" "0 \<le> bb_capacity bb"
      using s0(2,3) bb by (auto simp: bb_holds_def bb_slice_def BLOCK_SIZE_def)
    have cap: "bb_capacity bb < int (length big)" using len that by (simp add: BLOCK_SIZE_def)
    have "arena_room junk (int (length big)) ar = (fresh_room junk BLOCK_SIZE, ar\<lparr>arena_blocks := arena_blocks ar + 1\<rparr>)"
      using that by (simp add: arena_room_def allocate_def BLOCK_SIZE_def)
    then have "bb_append junk big s0 = Inl UndefinedBehaviour"
      using cap len(1) s0(3) bb that
      by (simp add: bb_append_def Let_def ensureCapacity_def copy_to_def fresh_room_def BLOCK_SIZE_def)
    then show ?thesis using s0(1) by simp
  qed
  have "bb_slice (fst s') = foldl buffer_step [] ops" "bb_length (fst s') \<le> bb_capacity (fst s')"
    using s'(2) by (simp_all add: bb_holds_def)
  then show ?thesis using s(1) s'(1) big by blast
qed

theorem buffer_holds_writes_witness:
  "(\<exists>s s'. buffer_start True (\<lambda>i. 7) = Inr s \<and> buffer_run (\<lambda>i. 7) [Append [1, 2], Assign [3], Append [4]] s = Inr s' \<and>
      bb_slice (fst s') = [3, 4] \<and> bb_length (fst s') \<le> bb_capacity (fst s')) \<and>
   bind_res (buffer_start True (\<lambda>i. 7)) (buffer_run (\<lambda>i. 7) [Append (replicate 5000 0)]) = Inl UndefinedBehaviour"
proof -
  have "length (foldl buffer_step [] ops1) < buffer_limit True"
    if "[Append [1, 2], Assign [3], Append [4]] = ops1 @ ops2" for ops1 ops2 :: "buffer_op list"
    using that by (auto simp: Cons_eq_append_conv buffer_limit_def)
  from buffer_holds_writes [of "[Append [1, 2], Assign [3], Append [4]]" True "\<lambda>i. 7"] this
  show ?thesis by simp
qed

end
