(* ===== verification/Views.thy ===== *)
theory Views
  imports ByteBuffer Slice
begin

text \<open>
  \<^verbatim>\<open>include/slice.h\<close> and the buffers of \<^verbatim>\<open>include/bytebuffer.h\<close> as the pointers they are. A \<^verbatim>\<open>Slice\<close> does not own
  what it points to: assigning to its buffer, growing or destroying it takes the slice with it. The other theories
  model slices and buffers by their bytes; the theorem here says when that is what the pointers do.
\<close>

section \<open>Blocks of the heap\<close>

text \<open>No block gets the number of an older one, so a pointer to memory that was freed stays one.\<close>

record blocks =
  bl_fresh :: nat
  bl_bytes :: "nat \<rightharpoonup> bytes"

definition allocated :: "bytes \<Rightarrow> blocks \<Rightarrow> nat \<times> blocks" where
  "allocated bs st = (bl_fresh st, st\<lparr>bl_fresh := Suc (bl_fresh st), bl_bytes := (bl_bytes st)(bl_fresh st \<mapsto> bs)\<rparr>)"

definition freed :: "nat option \<Rightarrow> blocks \<Rightarrow> blocks" where
  "freed p st = (case p of None \<Rightarrow> st | Some k \<Rightarrow> st\<lparr>bl_bytes := (bl_bytes st)(k := None)\<rparr>)"

section \<open>Slices\<close>

record view =
  vw_ptr :: "(nat \<times> nat) option"
  vw_length :: int

definition null_view :: view where
  "null_view = \<lparr>vw_ptr = None, vw_length = 0\<rparr>"

text \<open>The move constructor: the new slice, and what is left of the old one. Offsets are not negative here; a length is
  negative where the offset given to \<^verbatim>\<open>slice(offset)\<close> is too large.\<close>

definition view_move :: "view \<Rightarrow> view \<times> view" where
  "view_move v = (v, null_view)"

definition view_from :: "view \<Rightarrow> nat \<Rightarrow> view" where
  "view_from v off = v\<lparr>vw_ptr := map_option (\<lambda>(k, o1). (k, o1 + off)) (vw_ptr v), vw_length := vw_length v - int off\<rparr>"

definition view_sub :: "view \<Rightarrow> nat \<Rightarrow> nat \<Rightarrow> view" where
  "view_sub v off len = v\<lparr>vw_ptr := map_option (\<lambda>(k, o1). (k, o1 + off)) (vw_ptr v), vw_length := int len\<rparr>"

definition view_empty :: "view \<Rightarrow> bool" where
  "view_empty v \<longleftrightarrow> vw_ptr v = None \<or> vw_length v = 0"

text \<open>The bytes a slice shows.\<close>

definition view_bytes :: "blocks \<Rightarrow> view \<Rightarrow> bytes res" where
  "view_bytes st v =
     (if vw_length v < 0 then Inl UndefinedBehaviour
      else if vw_length v = 0 then Inr []
      else bind_res (access (vw_ptr v)) (\<lambda>(k, off).
           bind_res (access (bl_bytes st k)) (\<lambda>bs. slice_sub bs off (nat (vw_length v)))))"

text \<open>\<^verbatim>\<open>compareTo\<close>, which does not read two slices that begin at one place and are equally long.\<close>

definition view_compareTo :: "blocks \<Rightarrow> view \<Rightarrow> view \<Rightarrow> int res" where
  "view_compareTo st v w =
     (if vw_ptr v = vw_ptr w \<and> (vw_ptr v = None \<or> vw_length v = vw_length w) then Inr 0
      else let n = min (vw_length v) (vw_length w)
           in bind_res (view_bytes st (v\<lparr>vw_length := n\<rparr>)) (\<lambda>x.
              bind_res (view_bytes st (w\<lparr>vw_length := n\<rparr>)) (\<lambda>y.
                let result = memcmp x y (nat n)
                in Inr (if result \<noteq> 0 then result else vw_length v - vw_length w))))"

text \<open>\<^verbatim>\<open>Slice(const std::string s)\<close>: the parameter is a copy that is destroyed when the constructor returns.\<close>

definition view_of_string :: "bytes \<Rightarrow> blocks \<Rightarrow> view \<times> blocks" where
  "view_of_string s st =
     (case allocated (s @ [0]) st of (k, st1) \<Rightarrow>
        (\<lparr>vw_ptr = Some (k, 0), vw_length = int (length (slice_of_cstr s))\<rparr>, freed (Some k) st1))"

lemma view_of_string_dangles:
  "view_of_string s st = (v, st1) \<Longrightarrow> slice_of_cstr s \<noteq> [] \<Longrightarrow> view_bytes st1 v = Inl UndefinedBehaviour"
  by (auto simp: view_of_string_def allocated_def freed_def view_bytes_def)

lemma view_bytes_length: "view_bytes st v = Inr x \<Longrightarrow> vw_length v = int (length x)"
  by (auto simp: view_bytes_def bind_res_eq_Inr access_eq_Inr slice_sub_def split: if_splits prod.splits)

lemma view_bytes_prefix:
  "view_bytes st v = Inr x \<Longrightarrow> 0 \<le> n \<Longrightarrow> n \<le> vw_length v \<Longrightarrow> view_bytes st (v\<lparr>vw_length := n\<rparr>) = Inr (take (nat n) x)"
  by (auto simp: view_bytes_def bind_res_eq_Inr access_eq_Inr slice_sub_def split: if_splits prod.splits)

lemma memcmp_take: "memcmp (take n x) (take n y) n = memcmp x y n"
  by (induction x y n rule: memcmp.induct) simp_all

text \<open>On slices that can be read, it compares what they show.\<close>

lemma view_compareTo_bytes:
  assumes "view_bytes st v = Inr x" "view_bytes st w = Inr y"
  shows "view_compareTo st v w = Inr (compareTo x y)"
proof (cases "vw_ptr v = vw_ptr w \<and> (vw_ptr v = None \<or> vw_length v = vw_length w)")
  case True
  then have "x = y" using assms by (auto simp: view_bytes_def bind_res_eq_Inr access_eq_Inr slice_sub_def split: if_splits prod.splits)
  then show ?thesis unfolding view_compareTo_def if_P [OF True] by (simp add: compareTo_eq_iff)
next
  case False
  have l: "vw_length v = int (length x)" "vw_length w = int (length y)" using assms view_bytes_length by blast+
  let ?n = "min (vw_length v) (vw_length w)"
  have "view_bytes st (v\<lparr>vw_length := ?n\<rparr>) = Inr (take (nat ?n) x)" "view_bytes st (w\<lparr>vw_length := ?n\<rparr>) = Inr (take (nat ?n) y)"
    using view_bytes_prefix assms l by simp_all
  moreover have "nat ?n = min (length x) (length y)" using l by simp
  ultimately show ?thesis using False l unfolding view_compareTo_def compareTo_def if_not_P [OF False]
    by (simp add: memcmp_take Let_def)
qed

section \<open>Buffers\<close>

text \<open>A buffer on the heap. Its block has the bytes up to the capacity.\<close>

record buffer_obj =
  bo_block :: "nat option"
  bo_capacity :: nat
  bo_length :: nat

definition bo_bytes :: "blocks \<Rightarrow> buffer_obj \<Rightarrow> bytes option" where
  "bo_bytes st o1 = (case bo_block o1 of None \<Rightarrow> Some [] | Some k \<Rightarrow> bl_bytes st k)"

definition new_buffer :: "(nat \<Rightarrow> u8) \<Rightarrow> nat \<Rightarrow> blocks \<Rightarrow> buffer_obj \<times> blocks" where
  "new_buffer junk len st =
     (if len = 0 then (\<lparr>bo_block = None, bo_capacity = 0, bo_length = 0\<rparr>, st)
      else case allocated (map junk [0..<len]) st of (k, st1) \<Rightarrow> (\<lparr>bo_block = Some k, bo_capacity = len, bo_length = len\<rparr>, st1))"

text \<open>The destructor.\<close>

definition destroy_buffer :: "buffer_obj \<Rightarrow> blocks \<Rightarrow> blocks" where
  "destroy_buffer o1 st = freed (bo_block o1) st"

text \<open>
  \<^verbatim>\<open>operator Slice\<close> and \<^verbatim>\<open>slice()\<close>; \<^verbatim>\<open>slice(offset)\<close> and \<^verbatim>\<open>slice(offset,length)\<close>, whose sum is one of two
  \<^verbatim>\<open>int\<close>s.
\<close>

definition buffer_view :: "buffer_obj \<Rightarrow> view" where
  "buffer_view o1 = \<lparr>vw_ptr = map_option (\<lambda>k. (k, 0)) (bo_block o1), vw_length = int (bo_length o1)\<rparr>"

definition buffer_view_from :: "buffer_obj \<Rightarrow> nat \<Rightarrow> view" where
  "buffer_view_from o1 off = view_from (buffer_view o1) off"

definition buffer_view_sub :: "buffer_obj \<Rightarrow> nat \<Rightarrow> nat \<Rightarrow> view res" where
  "buffer_view_sub o1 off len =
     (if off + len \<ge> 2 ^ 31 then Inl UndefinedBehaviour
      else if off + len > bo_length o1 then Inl (IllegalState ''slice outside of bounds'')
      else Inr (view_sub (buffer_view o1) off len))"

text \<open>
  \<^verbatim>\<open>realloc\<close> moves the bytes to a new block and frees the old one. The first block is from \<^verbatim>\<open>new[]\<close>, where C++ leaves
  \<^verbatim>\<open>realloc\<close> and \<^verbatim>\<open>free\<close> undefined; here they work as on memory from \<^verbatim>\<open>malloc\<close>.
\<close>

definition grow_buffer :: "(nat \<Rightarrow> u8) \<Rightarrow> nat \<Rightarrow> buffer_obj \<times> blocks \<Rightarrow> (buffer_obj \<times> blocks) res" where
  "grow_buffer junk capacity s =
     (case s of (o1, st) \<Rightarrow>
        if bo_capacity o1 < capacity
        then bind_res (access (bo_bytes st o1)) (\<lambda>old.
             case allocated (reallocate junk old (int capacity)) (freed (bo_block o1) st) of (k, st1) \<Rightarrow>
               Inr (o1\<lparr>bo_block := Some k, bo_capacity := capacity\<rparr>, st1))
        else Inr (o1, st))"

text \<open>\<^verbatim>\<open>memcpy\<close> from a slice into the block of a buffer; undefined where the two overlap.\<close>

definition copy_view :: "nat option \<Rightarrow> nat \<Rightarrow> view \<Rightarrow> blocks \<Rightarrow> blocks res" where
  "copy_view p pos v st =
     (if vw_length v = 0 then Inr st
      else bind_res (view_bytes st v) (\<lambda>src.
           bind_res (access p) (\<lambda>k.
           if (case vw_ptr v of None \<Rightarrow> False
               | Some (k', off) \<Rightarrow> k' = k \<and> int off < int pos + vw_length v \<and> int pos < int off + vw_length v) then Inl UndefinedBehaviour
           else bind_res (access (bl_bytes st k)) (\<lambda>room.
                bind_res (copy_to room (int pos) src) (\<lambda>room'.
                  Inr (st\<lparr>bl_bytes := (bl_bytes st)(k \<mapsto> room')\<rparr>))))))"

text \<open>The new length is a sum of two \<^verbatim>\<open>int\<close>s.\<close>

definition append_view :: "(nat \<Rightarrow> u8) \<Rightarrow> view \<Rightarrow> buffer_obj \<times> blocks \<Rightarrow> (buffer_obj \<times> blocks) res" where
  "append_view junk v s =
     (if int (bo_length (fst s)) + vw_length v \<ge> 2 ^ 31 then Inl UndefinedBehaviour
      else bind_res (grow_buffer junk (nat (int (bo_length (fst s)) + vw_length v)) s) (\<lambda>(o1, st1).
     bind_res (copy_view (bo_block o1) (bo_length o1) v st1) (\<lambda>st2.
       Inr (o1\<lparr>bo_length := nat (int (bo_length o1) + vw_length v)\<rparr>, st2))))"

definition assign_view :: "(nat \<Rightarrow> u8) \<Rightarrow> view \<Rightarrow> buffer_obj \<times> blocks \<Rightarrow> (buffer_obj \<times> blocks) res" where
  "assign_view junk v s =
     bind_res (grow_buffer junk (nat (vw_length v)) s) (\<lambda>(o1, st1).
     bind_res (copy_view (bo_block o1) 0 v st1) (\<lambda>st2. Inr (o1\<lparr>bo_length := nat (vw_length v)\<rparr>, st2)))"

text \<open>The comparisons of buffers.\<close>

definition buffer_compareTo :: "blocks \<Rightarrow> buffer_obj \<Rightarrow> buffer_obj \<Rightarrow> int res" where
  "buffer_compareTo st o1 o2 = view_compareTo st (buffer_view o1) (buffer_view o2)"

definition buffer_eq :: "blocks \<Rightarrow> buffer_obj \<Rightarrow> buffer_obj \<Rightarrow> bool res" where
  "buffer_eq st o1 o2 = bind_res (buffer_compareTo st o1 o2) (\<lambda>i. Inr (i = 0))"

definition buffer_less :: "blocks \<Rightarrow> buffer_obj \<Rightarrow> buffer_obj \<Rightarrow> bool res" where
  "buffer_less st o1 o2 = bind_res (buffer_compareTo st o1 o2) (\<lambda>i. Inr (i < 0))"

section \<open>A program with buffers and slices\<close>

text \<open>
  The operations on named buffers and slices. A slice is taken from a buffer, or from a slice. A number that is given
  to an operation is an \<^verbatim>\<open>int\<close> and not negative.
\<close>

datatype view_op = New nat nat | Destroy nat | Append nat nat | Assign nat nat | Take nat nat nat nat | Rest nat nat nat
  | Narrow nat nat nat nat | Tail nat nat nat | Move nat nat

record pointers =
  pt_blocks :: blocks
  pt_buffers :: "nat \<rightharpoonup> buffer_obj"
  pt_views :: "nat \<rightharpoonup> view"

definition update_buffer :: "nat \<Rightarrow> (buffer_obj \<times> blocks) res \<Rightarrow> pointers \<Rightarrow> pointers res" where
  "update_buffer b r p =
     bind_res r (\<lambda>(o1, st). Inr (p\<lparr>pt_blocks := st, pt_buffers := (pt_buffers p)(b \<mapsto> o1)\<rparr>))"

fun run_op :: "(nat \<Rightarrow> u8) \<Rightarrow> view_op \<Rightarrow> pointers \<Rightarrow> pointers res" where
  "run_op junk (New b len) p = update_buffer b (Inr (new_buffer junk len (pt_blocks p))) p"
| "run_op junk (Destroy b) p =
     bind_res (access (pt_buffers p b)) (\<lambda>o1.
       Inr (p\<lparr>pt_blocks := destroy_buffer o1 (pt_blocks p), pt_buffers := (pt_buffers p)(b := None)\<rparr>))"
| "run_op junk (Append b v) p =
     bind_res (access (pt_buffers p b)) (\<lambda>o1.
     bind_res (access (pt_views p v)) (\<lambda>w. update_buffer b (append_view junk w (o1, pt_blocks p)) p))"
| "run_op junk (Assign b v) p =
     bind_res (access (pt_buffers p b)) (\<lambda>o1.
     bind_res (access (pt_views p v)) (\<lambda>w. update_buffer b (assign_view junk w (o1, pt_blocks p)) p))"
| "run_op junk (Take v b off len) p =
     bind_res (access (pt_buffers p b)) (\<lambda>o1.
     bind_res (buffer_view_sub o1 off len) (\<lambda>w. Inr (p\<lparr>pt_views := (pt_views p)(v \<mapsto> w)\<rparr>)))"
| "run_op junk (Narrow v u off len) p =
     bind_res (access (pt_views p u)) (\<lambda>w. Inr (p\<lparr>pt_views := (pt_views p)(v \<mapsto> view_sub w off len)\<rparr>))"
| "run_op junk (Rest v b off) p =
     bind_res (access (pt_buffers p b)) (\<lambda>o1. Inr (p\<lparr>pt_views := (pt_views p)(v \<mapsto> buffer_view_from o1 off)\<rparr>))"
| "run_op junk (Tail v u off) p =
     bind_res (access (pt_views p u)) (\<lambda>w. Inr (p\<lparr>pt_views := (pt_views p)(v \<mapsto> view_from w off)\<rparr>))"
| "run_op junk (Move v u) p =
     bind_res (access (pt_views p u)) (\<lambda>w. case view_move w of (w1, w2) \<Rightarrow>
       Inr (p\<lparr>pt_views := (pt_views p)(u \<mapsto> w2, v \<mapsto> w1)\<rparr>))"

fun run_ops :: "(nat \<Rightarrow> u8) \<Rightarrow> view_op list \<Rightarrow> pointers \<Rightarrow> pointers res" where
  "run_ops junk [] p = Inr p"
| "run_ops junk (x # xs) p = bind_res (run_op junk x p) (run_ops junk xs)"

section \<open>The same program with bytes\<close>

text \<open>
  A buffer is its bytes with its capacity, and a slice is the bytes it shows, with the buffer and the offset it shows them
  at. The operations that move or overwrite the bytes of a buffer forget the slices of it, no operation takes
  a slice that was forgotten, and no buffer gets \<open>2 ^ 31\<close> bytes or more.
\<close>

record contents =
  ct_buffers :: "nat \<rightharpoonup> bytes \<times> nat"
  ct_views :: "nat \<rightharpoonup> nat \<times> nat \<times> bytes"

definition forget :: "nat \<Rightarrow> (nat \<rightharpoonup> nat \<times> nat \<times> bytes) \<Rightarrow> nat \<rightharpoonup> nat \<times> nat \<times> bytes" where
  "forget b vs = (\<lambda>v. case vs v of None \<Rightarrow> None | Some (b', off, x) \<Rightarrow> if b' = b then None else Some (b', off, x))"

fun ideal_op :: "(nat \<Rightarrow> u8) \<Rightarrow> view_op \<Rightarrow> contents \<Rightarrow> contents option" where
  "ideal_op junk (New b len) c =
     (if ct_buffers c b \<noteq> None \<or> len \<ge> 2 ^ 31 then None
      else Some (c\<lparr>ct_buffers := (ct_buffers c)(b \<mapsto> (map junk [0..<len], len))\<rparr>))"
| "ideal_op junk (Destroy b) c =
     (case ct_buffers c b of None \<Rightarrow> None
      | Some _ \<Rightarrow> Some (c\<lparr>ct_buffers := (ct_buffers c)(b := None), ct_views := forget b (ct_views c)\<rparr>))"
| "ideal_op junk (Append b v) c =
     (case (ct_buffers c b, ct_views c v) of
        (Some (bs, capacity), Some (b', off, x)) \<Rightarrow>
          if length bs + length x \<ge> 2 ^ 31 then None
          else if length bs + length x \<le> capacity then Some (c\<lparr>ct_buffers := (ct_buffers c)(b \<mapsto> (bs @ x, capacity))\<rparr>)
          else if b' = b \<and> x \<noteq> [] then None
          else Some (c\<lparr>ct_buffers := (ct_buffers c)(b \<mapsto> (bs @ x, length bs + length x)), ct_views := forget b (ct_views c)\<rparr>)
      | _ \<Rightarrow> None)"
| "ideal_op junk (Assign b v) c =
     (case (ct_buffers c b, ct_views c v) of
        (Some (bs, capacity), Some (b', off, x)) \<Rightarrow>
          if b' = b \<and> x \<noteq> [] then None
          else Some (c\<lparr>ct_buffers := (ct_buffers c)(b \<mapsto> (x, max capacity (length x))), ct_views := forget b (ct_views c)\<rparr>)
      | _ \<Rightarrow> None)"
| "ideal_op junk (Take v b off len) c =
     (case ct_buffers c b of None \<Rightarrow> None
      | Some (bs, capacity) \<Rightarrow>
          if off + len \<le> length bs then Some (c\<lparr>ct_views := (ct_views c)(v \<mapsto> (b, off, take len (drop off bs)))\<rparr>) else None)"
| "ideal_op junk (Narrow v u off len) c =
     (case ct_views c u of None \<Rightarrow> None
      | Some (b, off0, x) \<Rightarrow>
          if off + len \<le> length x then Some (c\<lparr>ct_views := (ct_views c)(v \<mapsto> (b, off0 + off, take len (drop off x)))\<rparr>) else None)"
| "ideal_op junk (Rest v b off) c =
     (case ct_buffers c b of None \<Rightarrow> None
      | Some (bs, capacity) \<Rightarrow> if off \<le> length bs then Some (c\<lparr>ct_views := (ct_views c)(v \<mapsto> (b, off, drop off bs))\<rparr>) else None)"
| "ideal_op junk (Tail v u off) c =
     (case ct_views c u of None \<Rightarrow> None
      | Some (b, off0, x) \<Rightarrow> if off \<le> length x then Some (c\<lparr>ct_views := (ct_views c)(v \<mapsto> (b, off0 + off, drop off x))\<rparr>) else None)"
| "ideal_op junk (Move v u) c =
     (case ct_views c u of None \<Rightarrow> None
      | Some e \<Rightarrow> if u = v then None else Some (c\<lparr>ct_views := (ct_views c)(u := None, v \<mapsto> e)\<rparr>))"

fun ideal_ops :: "(nat \<Rightarrow> u8) \<Rightarrow> view_op list \<Rightarrow> contents \<Rightarrow> contents option" where
  "ideal_ops junk [] c = Some c"
| "ideal_ops junk (x # xs) c = Option.bind (ideal_op junk x c) (ideal_ops junk xs)"

section \<open>The relation\<close>

definition holds :: "blocks \<Rightarrow> buffer_obj \<Rightarrow> bytes \<times> nat \<Rightarrow> bool" where
  "holds st o1 x \<longleftrightarrow>
     bo_capacity o1 = snd x \<and> bo_length o1 = length (fst x) \<and> length (fst x) \<le> snd x \<and> snd x < 2 ^ 31 \<and>
     (\<exists>room. bo_bytes st o1 = Some room \<and> length room = snd x \<and> fst x = take (length (fst x)) room) \<and>
     (\<forall>k. bo_block o1 = Some k \<longrightarrow> k < bl_fresh st)"

definition displays :: "pointers \<Rightarrow> contents \<Rightarrow> nat \<Rightarrow> nat \<times> nat \<times> bytes \<Rightarrow> bool" where
  "displays p c v e \<longleftrightarrow> (case e of (b, off, x) \<Rightarrow>
     \<exists>bs capacity o1. ct_buffers c b = Some (bs, capacity) \<and> pt_buffers p b = Some o1 \<and>
       pt_views p v = Some \<lparr>vw_ptr = map_option (\<lambda>k. (k, off)) (bo_block o1), vw_length = int (length x)\<rparr> \<and>
       off + length x \<le> length bs \<and> x = take (length x) (drop off bs))"

definition apart :: "pointers \<Rightarrow> contents \<Rightarrow> bool" where
  "apart p c \<longleftrightarrow>
     (\<forall>b1 b2 o1 o2 k. b1 \<noteq> b2 \<longrightarrow> ct_buffers c b1 \<noteq> None \<longrightarrow> ct_buffers c b2 \<noteq> None \<longrightarrow>
        pt_buffers p b1 = Some o1 \<longrightarrow> pt_buffers p b2 = Some o2 \<longrightarrow> bo_block o1 = Some k \<longrightarrow> bo_block o2 \<noteq> Some k)"

definition agree :: "pointers \<Rightarrow> contents \<Rightarrow> bool" where
  "agree p c \<longleftrightarrow>
     (\<forall>b x. ct_buffers c b = Some x \<longrightarrow> (\<exists>o1. pt_buffers p b = Some o1 \<and> holds (pt_blocks p) o1 x)) \<and>
     apart p c \<and> (\<forall>v e. ct_views c v = Some e \<longrightarrow> displays p c v e)"

lemma agree_buffer: "agree p c \<Longrightarrow> ct_buffers c b = Some x \<Longrightarrow> \<exists>o1. pt_buffers p b = Some o1 \<and> holds (pt_blocks p) o1 x"
  unfolding agree_def by blast

lemma agree_view: "agree p c \<Longrightarrow> ct_views c v = Some e \<Longrightarrow> displays p c v e"
  unfolding agree_def by blast

lemma holds_frame:
  assumes "holds st o1 x" "\<forall>k. bo_block o1 = Some k \<longrightarrow> bl_bytes st1 k = bl_bytes st k" "bl_fresh st \<le> bl_fresh st1"
  shows "holds st1 o1 x"
proof -
  have "bo_bytes st1 o1 = bo_bytes st o1" using assms(2) by (cases "bo_block o1") (simp_all add: bo_bytes_def)
  then show ?thesis using assms(1,3) unfolding holds_def by fastforce
qed

text \<open>A slice that is shown can be read.\<close>

lemma displays_bytes:
  assumes "agree p c" "ct_views c v = Some (b, off, x)"
  obtains w where "pt_views p v = Some w" "vw_length w = int (length x)" "view_bytes (pt_blocks p) w = Inr x"
    "\<exists>o1. pt_buffers p b = Some o1 \<and> vw_ptr w = map_option (\<lambda>k. (k, off)) (bo_block o1)"
proof -
  obtain bs capacity o1 where s: "ct_buffers c b = Some (bs, capacity)" "pt_buffers p b = Some o1"
    "pt_views p v = Some \<lparr>vw_ptr = map_option (\<lambda>k. (k, off)) (bo_block o1), vw_length = int (length x)\<rparr>"
    "off + length x \<le> length bs" "x = take (length x) (drop off bs)"
    using agree_view [OF assms] by (auto simp: displays_def)
  let ?w = "\<lparr>vw_ptr = map_option (\<lambda>k. (k, off)) (bo_block o1), vw_length = int (length x)\<rparr>"
  have h: "holds (pt_blocks p) o1 (bs, capacity)" using agree_buffer [OF assms(1) s(1)] s(2) by simp
  then obtain room where r: "bo_bytes (pt_blocks p) o1 = Some room" "bs = take (length bs) room" "length bs \<le> length room"
    by (auto simp: holds_def)
  have "view_bytes (pt_blocks p) ?w = Inr x"
  proof (cases "x = []")
    case False
    then have "bs \<noteq> []" using s(4) by auto
    then obtain k where k: "bo_block o1 = Some k" "bl_bytes (pt_blocks p) k = Some room"
      using r(1,3) by (cases "bo_block o1") (auto simp: bo_bytes_def)
    have "take (length x) (drop off (take (length bs) room)) = take (length x) (drop off room)"
      using s(4) by (simp add: drop_take)
    then have "x = take (length x) (drop off room)" using s(5) unfolding r(2) [symmetric] by simp
    then show ?thesis using False k s(4) r(3) by (simp add: view_bytes_def slice_sub_def)
  qed (simp add: view_bytes_def)
  then show thesis using s(2,3) by (intro that [of ?w]) simp_all
qed

lemma view_bytes_frame:
  assumes "view_bytes st w = Inr x" "\<forall>k off. vw_ptr w = Some (k, off) \<longrightarrow> bl_bytes st1 k = bl_bytes st k"
  shows "view_bytes st1 w = Inr x"
  using assms by (auto simp: view_bytes_def bind_res_eq_Inr access_eq_Inr split: if_splits prod.splits)

section \<open>Growing and copying\<close>

lemma grow_ok:
  assumes "holds st o1 (bs, capacity)" "n < 2 ^ 31"
  shows "\<exists>o2 st2. grow_buffer junk n (o1, st) = Inr (o2, st2) \<and> holds st2 o2 (bs, max capacity n) \<and>
           (if capacity < n
            then bo_block o2 = Some (bl_fresh st) \<and> bl_fresh st2 = Suc (bl_fresh st) \<and>
              (\<forall>k. k \<noteq> bl_fresh st \<and> bo_block o1 \<noteq> Some k \<longrightarrow> bl_bytes st2 k = bl_bytes st k)
            else o2 = o1 \<and> st2 = st)"
proof (cases "capacity < n")
  case True
  obtain room where r: "bo_bytes st o1 = Some room" "length room = capacity" "bs = take (length bs) room" "length bs \<le> capacity"
    "bo_capacity o1 = capacity" "bo_length o1 = length bs" using assms(1) by (auto simp: holds_def)
  let ?new = "reallocate junk room (int n)"
  obtain st2 where g: "grow_buffer junk n (o1, st) = Inr (o1\<lparr>bo_block := Some (bl_fresh st), bo_capacity := n\<rparr>, st2)"
    "bl_fresh st2 = Suc (bl_fresh st)" "bl_bytes st2 (bl_fresh st) = Some ?new"
    "\<forall>k. k \<noteq> bl_fresh st \<and> bo_block o1 \<noteq> Some k \<longrightarrow> bl_bytes st2 k = bl_bytes st k"
    using True r(1,5) by (auto simp: grow_buffer_def allocated_def freed_def split: option.split)
  have "length ?new = n" using True r(2) by (simp add: reallocate_def)
  moreover have "take (length bs) ?new = take (length bs) room" using True r(2,4) by (simp add: reallocate_def)
  ultimately have "holds st2 (o1\<lparr>bo_block := Some (bl_fresh st), bo_capacity := n\<rparr>) (bs, n)"
    using True r(3,4,6) g(2,3) assms(2) by (simp add: holds_def bo_bytes_def)
  then show ?thesis using True g by (intro exI conjI) (auto simp: max_def)
next
  case False
  then have "max capacity n = capacity" by simp
  then show ?thesis using False assms by (auto simp: grow_buffer_def holds_def)
qed

lemma copy_ok:
  assumes "holds st o1 (bs, capacity)" "view_bytes st w = Inr x" "vw_length w = int (length x)" "pos \<le> length bs" "pos + length x \<le> capacity"
    and "x \<noteq> [] \<Longrightarrow> \<forall>k off. vw_ptr w = Some (k, off) \<longrightarrow> bo_block o1 = Some k \<longrightarrow> off + length x \<le> pos"
  shows "\<exists>st2. copy_view (bo_block o1) pos w st = Inr st2 \<and> holds st2 (o1\<lparr>bo_length := pos + length x\<rparr>) (take pos bs @ x, capacity) \<and>
           bl_fresh st2 = bl_fresh st \<and> (\<forall>k. bo_block o1 \<noteq> Some k \<longrightarrow> bl_bytes st2 k = bl_bytes st k)"
proof -
  obtain room where r: "bo_bytes st o1 = Some room" "length room = capacity" "bs = take (length bs) room" "length bs \<le> capacity"
    "bo_capacity o1 = capacity" "bo_length o1 = length bs" "\<forall>k. bo_block o1 = Some k \<longrightarrow> k < bl_fresh st" "capacity < 2 ^ 31"
    using assms(1) by (auto simp: holds_def)
  have bs: "take pos room = take pos bs" using r(3) assms(4) by (metis min.absorb1 take_take)
  show ?thesis
  proof (cases "x = []")
    case True
    have "copy_view (bo_block o1) pos w st = Inr st" using True assms(3) by (simp add: copy_view_def)
    moreover have "holds st (o1\<lparr>bo_length := pos + length x\<rparr>) (take pos bs @ x, capacity)"
      using True r bs assms(4) by (simp add: holds_def bo_bytes_def min_def)
    ultimately show ?thesis by blast
  next
    case False
    then have "capacity > 0" using assms(5) by (cases x) auto
    then obtain k where k: "bo_block o1 = Some k" "bl_bytes st k = Some room"
      using r(1,2) by (cases "bo_block o1") (auto simp: bo_bytes_def)
    let ?room = "take pos room @ x @ drop (pos + length x) room"
    let ?st = "st\<lparr>bl_bytes := (bl_bytes st)(k \<mapsto> ?room)\<rparr>"
    have c: "copy_to room (int pos) x = Inr ?room" using assms(5) r(2) by (simp add: copy_to_def)
    have no: "\<not> (case vw_ptr w of None \<Rightarrow> False | Some (k', off) \<Rightarrow> k' = k \<and> int off < int pos + vw_length w \<and> int pos < int off + vw_length w)"
      using assms(6) [OF False] k(1) assms(3) by (auto split: option.splits)
    have "copy_view (bo_block o1) pos w st = Inr ?st"
      unfolding copy_view_def using False assms(2,3) k c no by simp
    moreover have "holds ?st (o1\<lparr>bo_length := pos + length x\<rparr>) (take pos bs @ x, capacity)"
      using assms(4,5) r(2,4,5,7,8) k bs by (simp add: holds_def bo_bytes_def min_def)
    ultimately show ?thesis using k(1) by (intro exI [of _ ?st]) simp
  qed
qed

section \<open>One operation\<close>

text \<open>A buffer is changed: it keeps its block, or has a new one or none, and the other blocks stay.\<close>

lemma apartD:
  assumes "apart p c" "b1 \<noteq> b2" "ct_buffers c b1 \<noteq> None" "ct_buffers c b2 \<noteq> None"
    "pt_buffers p b1 = Some o1" "pt_buffers p b2 = Some o2" "bo_block o1 = Some k"
  shows "bo_block o2 \<noteq> Some k"
  using assms(1) [unfolded apart_def, rule_format, OF assms(2-7)] .

lemma forget_Some: "forget b vs v = Some (b1, off, y) \<longleftrightarrow> vs v = Some (b1, off, y) \<and> b1 \<noteq> b"
  by (auto simp: forget_def split: option.splits)

lemma others_stay:
  assumes "agree p c" "b1 \<noteq> b" "ct_buffers c b1 = Some x1"
    and "ct_buffers c b \<noteq> None \<longrightarrow> (\<exists>o1. pt_buffers p b = Some o1 \<and> ob = bo_block o1)" "ct_buffers c b = None \<longrightarrow> ob = None"
  obtains o1 where "pt_buffers p b1 = Some o1" "holds (pt_blocks p) o1 x1"
    "\<forall>k. bo_block o1 = Some k \<longrightarrow> k < bl_fresh (pt_blocks p) \<and> ob \<noteq> Some k"
proof -
  obtain o1 where o1: "pt_buffers p b1 = Some o1" "holds (pt_blocks p) o1 x1" using agree_buffer [OF assms(1,3)] by blast
  have "ob \<noteq> Some k" if "bo_block o1 = Some k" for k
  proof (cases "ct_buffers c b = None")
    case False
    then obtain o2 where "pt_buffers p b = Some o2" "ob = bo_block o2" using assms(4) by blast
    moreover have "apart p c" using assms(1) by (simp add: agree_def)
    ultimately show ?thesis using apartD [of p c b1 b o1 o2 k] False assms(2,3) o1(1) that by simp
  qed (use assms(5) in simp)
  then show thesis using o1 by (intro that [of o1]) (auto simp: holds_def)
qed

lemma agree_update:
  assumes "agree p c" "ct_buffers c b \<noteq> None \<longrightarrow> (\<exists>o1. pt_buffers p b = Some o1 \<and> ob = bo_block o1)" "ct_buffers c b = None \<longrightarrow> ob = None"
    and "holds st o2 x" "bo_block o2 = ob \<or> bo_block o2 = None \<or> bo_block o2 = Some (bl_fresh (pt_blocks p))"
    and "\<forall>k. k < bl_fresh (pt_blocks p) \<and> ob \<noteq> Some k \<longrightarrow> bl_bytes st k = bl_bytes (pt_blocks p) k" "bl_fresh (pt_blocks p) \<le> bl_fresh st"
    and "vs = forget b (ct_views c) \<or>
      vs = ct_views c \<and> bo_block o2 = ob \<and> (\<exists>bs capacity y. ct_buffers c b = Some (bs, capacity) \<and> fst x = bs @ y)"
  shows "agree (p\<lparr>pt_blocks := st, pt_buffers := (pt_buffers p)(b \<mapsto> o2)\<rparr>) (c\<lparr>ct_buffers := (ct_buffers c)(b \<mapsto> x), ct_views := vs\<rparr>)"
    (is "agree ?p ?c")
proof -
  note stay = others_stay [OF assms(1) _ _ assms(2,3)]
  have "\<exists>o1. pt_buffers ?p b1 = Some o1 \<and> holds (pt_blocks ?p) o1 x1" if "ct_buffers ?c b1 = Some x1" for b1 x1
  proof (cases "b1 = b")
    case True
    then show ?thesis using that assms(4) by simp
  next
    case False
    then have "ct_buffers c b1 = Some x1" using that by simp
    then obtain o1 where o1: "pt_buffers p b1 = Some o1" "holds (pt_blocks p) o1 x1"
      "\<forall>k. bo_block o1 = Some k \<longrightarrow> k < bl_fresh (pt_blocks p) \<and> ob \<noteq> Some k"
      by (rule stay [OF False])
    have "\<forall>k. bo_block o1 = Some k \<longrightarrow> bl_bytes st k = bl_bytes (pt_blocks p) k" using o1(3) assms(6) by blast
    then have "holds st o1 x1" by (rule holds_frame [OF o1(2) _ assms(7)])
    then show ?thesis using o1(1) False by simp
  qed
  moreover have "apart ?p ?c"
    unfolding apart_def
  proof (intro allI impI)
    fix b1 b2 o1 o3 k
    assume a: "b1 \<noteq> b2" "ct_buffers ?c b1 \<noteq> None" "ct_buffers ?c b2 \<noteq> None" "pt_buffers ?p b1 = Some o1" "pt_buffers ?p b2 = Some o3"
      "bo_block o1 = Some k"
    have new: "bo_block o2 = Some k \<Longrightarrow> ob = Some k \<or> k = bl_fresh (pt_blocks p)" for k using assms(5) by auto
    have sep: "bo_block o4 = Some k' \<Longrightarrow> bo_block o2 \<noteq> Some k'" if b3: "b3 \<noteq> b" "ct_buffers c b3 \<noteq> None" "pt_buffers p b3 = Some o4" for b3 o4 k'
    proof -
      assume k': "bo_block o4 = Some k'"
      obtain x3 where "ct_buffers c b3 = Some x3" using b3(2) by blast
      then obtain o5 where "pt_buffers p b3 = Some o5" "\<forall>k. bo_block o5 = Some k \<longrightarrow> k < bl_fresh (pt_blocks p) \<and> ob \<noteq> Some k"
        by (rule stay [OF b3(1)])
      then show ?thesis using b3(3) k' new [of k'] by auto
    qed
    consider "b1 = b" | "b2 = b" "b1 \<noteq> b" | "b1 \<noteq> b" "b2 \<noteq> b" by blast
    then show "bo_block o3 \<noteq> Some k"
    proof cases
      case 1
      then show ?thesis using a sep [of b2 o3 k] by auto
    next
      case 2
      then show ?thesis using a sep [of b1 o1 k] by auto
    next
      case 3
      moreover have "apart p c" using assms(1) by (simp add: agree_def)
      ultimately show ?thesis using a apartD [of p c b1 b2 o1 o3 k] by simp
    qed
  qed
  moreover have "displays ?p ?c v e" if "ct_views ?c v = Some e" for v e
  proof -
    obtain b1 off y where e: "e = (b1, off, y)" by (cases e) auto
    have vs: "vs v = Some (b1, off, y)" using that e by simp
    have cv: "ct_views c v = Some e"
      using assms(8)
    proof
      assume "vs = forget b (ct_views c)"
      then show ?thesis using vs e by (simp add: forget_Some)
    qed (use vs e in simp)
    have b1: "bo_block o2 = ob \<and> (\<exists>bs capacity y. ct_buffers c b = Some (bs, capacity) \<and> fst x = bs @ y)" if "b1 = b"
      using assms(8)
    proof
      assume "vs = forget b (ct_views c)"
      then show ?thesis using vs that by (simp add: forget_Some)
    qed simp
    obtain bs capacity o1 where d: "ct_buffers c b1 = Some (bs, capacity)" "pt_buffers p b1 = Some o1"
      "pt_views p v = Some \<lparr>vw_ptr = map_option (\<lambda>k. (k, off)) (bo_block o1), vw_length = int (length y)\<rparr>"
      "off + length y \<le> length bs" "y = take (length y) (drop off bs)"
      using agree_view [OF assms(1) cv] unfolding e displays_def by auto
    show ?thesis
    proof (cases "b1 = b")
      case False
      then show ?thesis using d unfolding e displays_def by simp
    next
      case True
      then obtain y1 where x: "bo_block o2 = ob" "fst x = bs @ y1" using b1 d(1) by auto
      have "ob = bo_block o1" using assms(2) d(1,2) True by auto
      moreover obtain cap where "x = (bs @ y1, cap)" using x(2) by (cases x) auto
      moreover have "take (length y) (drop off (bs @ y1)) = take (length y) (drop off bs)" using d(4) by simp
      ultimately show ?thesis using True d x(1) unfolding e displays_def by simp
    qed
  qed
  ultimately show ?thesis unfolding agree_def by blast
qed

lemma displays_source:
  assumes "agree p c" "ct_buffers c b = Some (bs, capacity)" "ct_views c v = Some (b', off, x)"
  obtains o1 w where "pt_buffers p b = Some o1" "holds (pt_blocks p) o1 (bs, capacity)" "pt_views p v = Some w"
    "vw_length w = int (length x)" "view_bytes (pt_blocks p) w = Inr x"
    "\<forall>k off1. vw_ptr w = Some (k, off1) \<longrightarrow>
       (b' \<noteq> b \<longrightarrow> bo_block o1 \<noteq> Some k \<and> k < bl_fresh (pt_blocks p)) \<and> (b' = b \<longrightarrow> off1 + length x \<le> length bs)"
proof -
  obtain o1 where o1: "pt_buffers p b = Some o1" "holds (pt_blocks p) o1 (bs, capacity)" using agree_buffer [OF assms(1,2)] by blast
  obtain w where w: "pt_views p v = Some w" "vw_length w = int (length x)" "view_bytes (pt_blocks p) w = Inr x"
    by (rule displays_bytes [OF assms(1,3)])
  obtain bs' capacity' o2 where d: "ct_buffers c b' = Some (bs', capacity')" "pt_buffers p b' = Some o2"
    "vw_ptr w = map_option (\<lambda>k. (k, off)) (bo_block o2)" "off + length x \<le> length bs'"
    using agree_view [OF assms(1,3)] w(1) unfolding displays_def by auto
  have h: "holds (pt_blocks p) o2 (bs', capacity')" using agree_buffer [OF assms(1) d(1)] d(2) by simp
  have a: "apart p c" using assms(1) by (simp add: agree_def)
  have "(b' \<noteq> b \<longrightarrow> bo_block o1 \<noteq> Some k \<and> k < bl_fresh (pt_blocks p)) \<and> (b' = b \<longrightarrow> off1 + length x \<le> length bs)"
    if k: "vw_ptr w = Some (k, off1)" for k off1
  proof -
    have k2: "bo_block o2 = Some k" "off1 = off" using k d(3) by auto
    have "k < bl_fresh (pt_blocks p)" using h k2(1) by (simp add: holds_def)
    moreover have "b' \<noteq> b \<Longrightarrow> bo_block o1 \<noteq> Some k" using apartD [OF a _ _ _ d(2) o1(1) k2(1)] assms(2) d(1) by simp
    ultimately show ?thesis using d(1,4) assms(2) k2(2) by auto
  qed
  then show thesis using o1 w by (intro that [of o1 w]) blast+
qed

lemma displays_small:
  assumes "agree p c" "ct_views c v = Some (b, off, x)"
  shows "length x < 2 ^ 31"
proof -
  obtain bs capacity o1 where d: "ct_buffers c b = Some (bs, capacity)" "off + length x \<le> length bs"
    using agree_view [OF assms] by (auto simp: displays_def)
  then show ?thesis using agree_buffer [OF assms(1) d(1)] by (auto simp: holds_def)
qed

lemma grow_copy:
  assumes "agree p c" "ct_buffers c b = Some (bs, capacity)" "ct_views c v = Some (b', off, x)" "pos \<le> length bs" "n = pos + length x"
    and "n < 2 ^ 31" and "b' \<noteq> b \<or> x = [] \<or> pos = length bs \<and> n \<le> capacity"
  obtains o1 w o2 st1 st2 where "pt_buffers p b = Some o1" "pt_views p v = Some w" "vw_length w = int (length x)" "bo_length o1 = length bs"
    "grow_buffer junk n (o1, pt_blocks p) = Inr (o2, st1)" "bo_length o2 = length bs" "copy_view (bo_block o2) pos w st1 = Inr st2"
    "holds st2 (o2\<lparr>bo_length := n\<rparr>) (take pos bs @ x, max capacity n)"
    "bo_block o2 = bo_block o1 \<or> bo_block o2 = Some (bl_fresh (pt_blocks p))" "n \<le> capacity \<longrightarrow> bo_block o2 = bo_block o1"
    "\<forall>k. k < bl_fresh (pt_blocks p) \<and> bo_block o1 \<noteq> Some k \<longrightarrow> bl_bytes st2 k = bl_bytes (pt_blocks p) k"
    "bl_fresh (pt_blocks p) \<le> bl_fresh st2"
proof -
  let ?st = "pt_blocks p"
  obtain o1 w where s: "pt_buffers p b = Some o1" "holds ?st o1 (bs, capacity)" "pt_views p v = Some w"
    "vw_length w = int (length x)" "view_bytes ?st w = Inr x"
    "\<forall>k off1. vw_ptr w = Some (k, off1) \<longrightarrow>
       (b' \<noteq> b \<longrightarrow> bo_block o1 \<noteq> Some k \<and> k < bl_fresh ?st) \<and> (b' = b \<longrightarrow> off1 + length x \<le> length bs)"
    by (rule displays_source [OF assms(1-3)])
  obtain o2 st1 where g: "grow_buffer junk n (o1, ?st) = Inr (o2, st1)" "holds st1 o2 (bs, max capacity n)"
    "if capacity < n
     then bo_block o2 = Some (bl_fresh ?st) \<and> bl_fresh st1 = Suc (bl_fresh ?st) \<and>
       (\<forall>k. k \<noteq> bl_fresh ?st \<and> bo_block o1 \<noteq> Some k \<longrightarrow> bl_bytes st1 k = bl_bytes ?st k)
     else o2 = o1 \<and> st1 = ?st"
    using grow_ok [OF s(2) assms(6), of junk] by blast
  have src: "view_bytes st1 w = Inr x"
  proof (cases "x = []")
    case True
    then show ?thesis using s(4) by (simp add: view_bytes_def)
  next
    case False
    then have "capacity < n \<Longrightarrow> b' \<noteq> b" using assms(7) by auto
    then show ?thesis using s(5,6) g(3) by (intro view_bytes_frame [OF s(5)]) (auto split: if_splits)
  qed
  have clash: "\<forall>k off1. vw_ptr w = Some (k, off1) \<longrightarrow> bo_block o2 = Some k \<longrightarrow> off1 + length x \<le> pos" if "x \<noteq> []"
  proof (cases "b' = b")
    case True
    then show ?thesis using s(6) assms(7) that by auto
  next
    case False
    then show ?thesis using s(6) g(3) by (auto split: if_splits)
  qed
  obtain st2 where c: "copy_view (bo_block o2) pos w st1 = Inr st2"
    "holds st2 (o2\<lparr>bo_length := pos + length x\<rparr>) (take pos bs @ x, max capacity n)"
    "bl_fresh st2 = bl_fresh st1" "\<forall>k. bo_block o2 \<noteq> Some k \<longrightarrow> bl_bytes st2 k = bl_bytes st1 k"
    using copy_ok [OF g(2) src s(4) assms(4) _ clash] assms(5) by auto
  have l: "bo_length o1 = length bs" "bo_length o2 = length bs" using s(2) g(2) by (simp_all add: holds_def)
  have f: "\<forall>k. k < bl_fresh ?st \<and> bo_block o1 \<noteq> Some k \<longrightarrow> bl_bytes st2 k = bl_bytes ?st k" "bl_fresh ?st \<le> bl_fresh st2"
    "bo_block o2 = bo_block o1 \<or> bo_block o2 = Some (bl_fresh ?st)" "n \<le> capacity \<longrightarrow> bo_block o2 = bo_block o1"
    using g(3) c(3,4) by (auto split: if_splits)
  show thesis using that [OF s(1,3,4) l(1) g(1) l(2) c(1) _ f(3,4,1,2)] c(2) assms(5) by simp
qed

lemma forget_unused: "agree p c \<Longrightarrow> ct_buffers c b = None \<Longrightarrow> forget b (ct_views c) = ct_views c"
proof (rule ext)
  fix v
  assume a: "agree p c" "ct_buffers c b = None"
  show "forget b (ct_views c) v = ct_views c v"
  proof (cases "ct_views c v")
    case (Some e)
    then show ?thesis using agree_view [OF a(1) Some] a(2) by (auto simp: forget_def displays_def split: prod.splits)
  qed (simp add: forget_def)
qed

lemma new_ok:
  assumes "agree p c" "ideal_op junk (New b len) c = Some c'"
  shows "\<exists>p'. run_op junk (New b len) p = Inr p' \<and> agree p' c'"
proof -
  let ?st = "pt_blocks p"
  have b: "ct_buffers c b = None" and len: "len < 2 ^ 31" and c': "c' = c\<lparr>ct_buffers := (ct_buffers c)(b \<mapsto> (map junk [0..<len], len))\<rparr>"
    using assms(2) by (cases "ct_buffers c b"; simp split: if_splits)+
  obtain o2 st2 where n: "new_buffer junk len ?st = (o2, st2)" by (cases "new_buffer junk len ?st") auto
  have h: "holds st2 o2 (map junk [0..<len], len)" and k: "bo_block o2 = None \<or> bo_block o2 = Some (bl_fresh ?st)"
    and f: "\<forall>k. k < bl_fresh ?st \<longrightarrow> bl_bytes st2 k = bl_bytes ?st k" "bl_fresh ?st \<le> bl_fresh st2"
    using n len by (auto simp: new_buffer_def allocated_def holds_def bo_bytes_def split: if_splits)
  have "agree (p\<lparr>pt_blocks := st2, pt_buffers := (pt_buffers p)(b \<mapsto> o2)\<rparr>)
      (c\<lparr>ct_buffers := (ct_buffers c)(b \<mapsto> (map junk [0..<len], len)), ct_views := ct_views c\<rparr>)"
    by (rule agree_update [OF assms(1), where ob = None]) (use b h k f forget_unused [OF assms(1) b] in auto)
  then show ?thesis using n c' by (simp add: update_buffer_def)
qed

lemma append_ok:
  assumes "agree p c" "ideal_op junk (Append b v) c = Some c'"
  shows "\<exists>p'. run_op junk (Append b v) p = Inr p' \<and> agree p' c'"
proof -
  obtain bs capacity b' off x where i: "ct_buffers c b = Some (bs, capacity)" "ct_views c v = Some (b', off, x)"
    using assms(2) by (auto split: option.splits prod.splits)
  let ?n = "length bs + length x"
  have small: "?n < 2 ^ 31" and ok: "b' \<noteq> b \<or> x = [] \<or> length bs = length bs \<and> ?n \<le> capacity"
    and c': "c' = c\<lparr>ct_buffers := (ct_buffers c)(b \<mapsto> (bs @ x, max capacity ?n)),
      ct_views := if ?n \<le> capacity then ct_views c else forget b (ct_views c)\<rparr>"
    using assms(2) i by (auto simp: max_def split: if_splits)
  obtain o1 w o2 st1 st2 where g: "pt_buffers p b = Some o1" "pt_views p v = Some w" "vw_length w = int (length x)" "bo_length o1 = length bs"
    "grow_buffer junk ?n (o1, pt_blocks p) = Inr (o2, st1)" "bo_length o2 = length bs" "copy_view (bo_block o2) (length bs) w st1 = Inr st2"
    "holds st2 (o2\<lparr>bo_length := ?n\<rparr>) (take (length bs) bs @ x, max capacity ?n)"
    "bo_block o2 = bo_block o1 \<or> bo_block o2 = Some (bl_fresh (pt_blocks p))" "?n \<le> capacity \<longrightarrow> bo_block o2 = bo_block o1"
    "\<forall>k. k < bl_fresh (pt_blocks p) \<and> bo_block o1 \<noteq> Some k \<longrightarrow> bl_bytes st2 k = bl_bytes (pt_blocks p) k"
    "bl_fresh (pt_blocks p) \<le> bl_fresh st2"
    by (rule grow_copy [OF assms(1) i order_refl refl small ok, where junk = junk])
  have "append_view junk w (o1, pt_blocks p) = Inr (o2\<lparr>bo_length := ?n\<rparr>, st2)" using g(3-7) small by (simp add: append_view_def nat_int_add)
  then have "run_op junk (Append b v) p =
      Inr (p\<lparr>pt_blocks := st2, pt_buffers := (pt_buffers p)(b \<mapsto> o2\<lparr>bo_length := ?n\<rparr>)\<rparr>)"
    using g(1,2) by (simp add: update_buffer_def)
  moreover have "agree (p\<lparr>pt_blocks := st2, pt_buffers := (pt_buffers p)(b \<mapsto> o2\<lparr>bo_length := ?n\<rparr>)\<rparr>) c'"
    unfolding c' by (rule agree_update [OF assms(1), where ob = "bo_block o1"]) (use i(1) g in auto)
  ultimately show ?thesis by blast
qed

lemma assign_ok:
  assumes "agree p c" "ideal_op junk (Assign b v) c = Some c'"
  shows "\<exists>p'. run_op junk (Assign b v) p = Inr p' \<and> agree p' c'"
proof -
  obtain bs capacity b' off x where i: "ct_buffers c b = Some (bs, capacity)" "ct_views c v = Some (b', off, x)"
    using assms(2) by (auto split: option.splits prod.splits)
  have ok: "b' \<noteq> b \<or> x = [] \<or> 0 = length bs \<and> length x \<le> capacity"
    and c': "c' = c\<lparr>ct_buffers := (ct_buffers c)(b \<mapsto> (x, max capacity (length x))), ct_views := forget b (ct_views c)\<rparr>"
    using assms(2) i by (auto split: if_splits)
  obtain o1 w o2 st1 st2 where g: "pt_buffers p b = Some o1" "pt_views p v = Some w" "vw_length w = int (length x)" "bo_length o1 = length bs"
    "grow_buffer junk (length x) (o1, pt_blocks p) = Inr (o2, st1)" "bo_length o2 = length bs" "copy_view (bo_block o2) 0 w st1 = Inr st2"
    "holds st2 (o2\<lparr>bo_length := length x\<rparr>) (take 0 bs @ x, max capacity (length x))"
    "bo_block o2 = bo_block o1 \<or> bo_block o2 = Some (bl_fresh (pt_blocks p))" "length x \<le> capacity \<longrightarrow> bo_block o2 = bo_block o1"
    "\<forall>k. k < bl_fresh (pt_blocks p) \<and> bo_block o1 \<noteq> Some k \<longrightarrow> bl_bytes st2 k = bl_bytes (pt_blocks p) k"
    "bl_fresh (pt_blocks p) \<le> bl_fresh st2"
    by (rule grow_copy [OF assms(1) i _ _ displays_small [OF assms(1) i(2)] ok, where junk = junk]) simp_all
  have "assign_view junk w (o1, pt_blocks p) = Inr (o2\<lparr>bo_length := length x\<rparr>, st2)" using g(3,5,7) by (simp add: assign_view_def)
  then have "run_op junk (Assign b v) p =
      Inr (p\<lparr>pt_blocks := st2, pt_buffers := (pt_buffers p)(b \<mapsto> o2\<lparr>bo_length := length x\<rparr>)\<rparr>)"
    using g(1,2) by (simp add: update_buffer_def)
  moreover have "agree (p\<lparr>pt_blocks := st2, pt_buffers := (pt_buffers p)(b \<mapsto> o2\<lparr>bo_length := length x\<rparr>)\<rparr>) c'"
    unfolding c' by (rule agree_update [OF assms(1), where ob = "bo_block o1"]) (use i(1) g in auto)
  ultimately show ?thesis by blast
qed

lemma destroy_ok:
  assumes "agree p c" "ideal_op junk (Destroy b) c = Some c'"
  shows "\<exists>p'. run_op junk (Destroy b) p = Inr p' \<and> agree p' c'"
proof -
  obtain x where x: "ct_buffers c b = Some x" and c': "c' = c\<lparr>ct_buffers := (ct_buffers c)(b := None), ct_views := forget b (ct_views c)\<rparr>"
    using assms(2) by (cases "ct_buffers c b") simp_all
  obtain o2 where o2: "pt_buffers p b = Some o2" using agree_buffer [OF assms(1) x] by blast
  let ?st = "destroy_buffer o2 (pt_blocks p)"
  let ?p = "p\<lparr>pt_blocks := ?st, pt_buffers := (pt_buffers p)(b := None)\<rparr>"
  have f: "\<forall>k. bo_block o2 \<noteq> Some k \<longrightarrow> bl_bytes ?st k = bl_bytes (pt_blocks p) k" "bl_fresh ?st = bl_fresh (pt_blocks p)"
    by (auto simp: destroy_buffer_def freed_def split: option.splits)
  note stay = others_stay [OF assms(1), where b = b and ob = "bo_block o2"]
  have "\<exists>o1. pt_buffers ?p b1 = Some o1 \<and> holds (pt_blocks ?p) o1 x1" if a: "ct_buffers c' b1 = Some x1" for b1 x1
  proof -
    have b1: "b1 \<noteq> b" "ct_buffers c b1 = Some x1" using a c' by (auto split: if_splits)
    obtain o1 where o1: "pt_buffers p b1 = Some o1" "holds (pt_blocks p) o1 x1"
      "\<forall>k. bo_block o1 = Some k \<longrightarrow> k < bl_fresh (pt_blocks p) \<and> bo_block o2 \<noteq> Some k"
      by (rule stay [OF b1]) (use o2 x in auto)
    have "holds ?st o1 x1" by (rule holds_frame [OF o1(2)]) (use o1(3) f in auto)
    then show ?thesis using o1(1) b1(1) by simp
  qed
  moreover have "apart ?p c'"
    unfolding apart_def
  proof (intro allI impI)
    fix b1 b2 o1 o3 k
    assume a: "b1 \<noteq> b2" "ct_buffers c' b1 \<noteq> None" "ct_buffers c' b2 \<noteq> None" "pt_buffers ?p b1 = Some o1" "pt_buffers ?p b2 = Some o3"
      "bo_block o1 = Some k"
    have "ct_buffers c b1 \<noteq> None" "ct_buffers c b2 \<noteq> None" "pt_buffers p b1 = Some o1" "pt_buffers p b2 = Some o3"
      using a(2-5) c' by (auto split: if_splits)
    moreover have "apart p c" using assms(1) by (simp add: agree_def)
    ultimately show "bo_block o3 \<noteq> Some k" using apartD a(1,6) by blast
  qed
  moreover have "displays ?p c' v e" if a: "ct_views c' v = Some e" for v e
  proof -
    obtain b1 off y where e: "e = (b1, off, y)" by (cases e) auto
    have "forget b (ct_views c) v = Some (b1, off, y)" using a c' e by simp
    then have "ct_views c v = Some e" "b1 \<noteq> b" using e by (simp_all add: forget_Some)
    then show ?thesis using agree_view [OF assms(1)] unfolding e c' displays_def by fastforce
  qed
  ultimately have "agree ?p c'" unfolding agree_def by blast
  moreover have "run_op junk (Destroy b) p = Inr ?p" using o2 by simp
  ultimately show ?thesis by blast
qed

text \<open>A slice is remembered.\<close>

lemma agree_remember:
  assumes "agree p c" "ct_buffers c b = Some (bs, capacity)" "pt_buffers p b = Some o1"
    and "off + length x \<le> length bs" "x = take (length x) (drop off bs)"
  shows "agree (p\<lparr>pt_views := (pt_views p)(v \<mapsto> \<lparr>vw_ptr = map_option (\<lambda>k. (k, off)) (bo_block o1), vw_length = int (length x)\<rparr>)\<rparr>)
     (c\<lparr>ct_views := (ct_views c)(v \<mapsto> (b, off, x))\<rparr>)" (is "agree ?p ?c")
proof -
  have "displays ?p ?c u e" if a: "ct_views ?c u = Some e" for u e
  proof (cases "u = v")
    case True
    then have "e = (b, off, x)" using a by simp
    then show ?thesis using assms(2-) True by (simp add: displays_def)
  next
    case False
    then have "ct_views c u = Some e" using a by simp
    then have "displays p c u e" by (rule agree_view [OF assms(1)])
    then show ?thesis using False by (simp add: displays_def split: prod.splits)
  qed
  moreover have "apart ?p ?c" using assms(1) by (simp add: agree_def apart_def)
  moreover have "\<exists>o1. pt_buffers ?p b1 = Some o1 \<and> holds (pt_blocks ?p) o1 x1" if "ct_buffers ?c b1 = Some x1" for b1 x1
    using agree_buffer [OF assms(1), of b1 x1] that by simp
  ultimately show ?thesis unfolding agree_def by blast
qed

lemma take_ok:
  assumes "agree p c" "ideal_op junk (Take v b off len) c = Some c'"
  shows "\<exists>p'. run_op junk (Take v b off len) p = Inr p' \<and> agree p' c'"
proof -
  obtain bs capacity where i: "ct_buffers c b = Some (bs, capacity)" "off + len \<le> length bs"
    "c' = c\<lparr>ct_views := (ct_views c)(v \<mapsto> (b, off, take len (drop off bs)))\<rparr>"
    using assms(2) by (auto split: option.splits if_splits)
  obtain o1 where o1: "pt_buffers p b = Some o1" "holds (pt_blocks p) o1 (bs, capacity)" using agree_buffer [OF assms(1) i(1)] by blast
  let ?x = "take len (drop off bs)"
  have l: "length ?x = len" using i(2) by simp
  have "run_op junk (Take v b off len) p =
      Inr (p\<lparr>pt_views := (pt_views p)(v \<mapsto> \<lparr>vw_ptr = map_option (\<lambda>k. (k, off)) (bo_block o1), vw_length = int (length ?x)\<rparr>)\<rparr>)"
    using o1 i(2) by (simp add: buffer_view_sub_def buffer_view_def view_sub_def holds_def option.map_comp comp_def)
  moreover have "agree (p\<lparr>pt_views := (pt_views p)(v \<mapsto> \<lparr>vw_ptr = map_option (\<lambda>k. (k, off)) (bo_block o1), vw_length = int (length ?x)\<rparr>)\<rparr>) c'"
    unfolding i(3) by (rule agree_remember [OF assms(1) i(1) o1(1)]) (use i(2) l in simp_all)
  ultimately show ?thesis by blast
qed

lemma narrow_ok:
  assumes "agree p c" "ideal_op junk (Narrow v u off len) c = Some c'"
  shows "\<exists>p'. run_op junk (Narrow v u off len) p = Inr p' \<and> agree p' c'"
proof -
  obtain b off0 y where i: "ct_views c u = Some (b, off0, y)" "off + len \<le> length y"
    "c' = c\<lparr>ct_views := (ct_views c)(v \<mapsto> (b, off0 + off, take len (drop off y)))\<rparr>"
    using assms(2) by (auto split: option.splits if_splits)
  obtain bs capacity o1 where d: "ct_buffers c b = Some (bs, capacity)" "pt_buffers p b = Some o1"
    "pt_views p u = Some \<lparr>vw_ptr = map_option (\<lambda>k. (k, off0)) (bo_block o1), vw_length = int (length y)\<rparr>"
    "off0 + length y \<le> length bs" "y = take (length y) (drop off0 bs)"
    using agree_view [OF assms(1) i(1)] by (auto simp: displays_def)
  let ?x = "take len (drop off y)"
  have l: "length ?x = len" using i(2) by simp
  have "?x = take len (drop off (take (length y) (drop off0 bs)))" using d(5) by simp
  also have "\<dots> = take len (drop (off0 + off) bs)" using i(2) by (simp add: drop_take add.commute min_def)
  finally have x: "?x = take (length ?x) (drop (off0 + off) bs)" using l by simp
  have "run_op junk (Narrow v u off len) p =
      Inr (p\<lparr>pt_views := (pt_views p)(v \<mapsto> \<lparr>vw_ptr = map_option (\<lambda>k. (k, off0 + off)) (bo_block o1), vw_length = int (length ?x)\<rparr>)\<rparr>)"
    using d(3) i(2) by (simp add: view_sub_def option.map_comp comp_def)
  moreover have "agree (p\<lparr>pt_views := (pt_views p)(v \<mapsto> \<lparr>vw_ptr = map_option (\<lambda>k. (k, off0 + off)) (bo_block o1), vw_length = int (length ?x)\<rparr>)\<rparr>) c'"
    unfolding i(3) by (rule agree_remember [OF assms(1) d(1,2)]) (use i(2) d(4) l x in simp_all)
  ultimately show ?thesis by blast
qed

text \<open>The slices to the end are slices with the length that is left.\<close>

lemma rest_ok:
  assumes "agree p c" "ideal_op junk (Rest v b off) c = Some c'"
  shows "\<exists>p'. run_op junk (Rest v b off) p = Inr p' \<and> agree p' c'"
proof -
  obtain bs capacity where i: "ct_buffers c b = Some (bs, capacity)" "off \<le> length bs"
    "c' = c\<lparr>ct_views := (ct_views c)(v \<mapsto> (b, off, drop off bs))\<rparr>"
    using assms(2) by (auto split: option.splits if_splits)
  obtain o1 where o1: "pt_buffers p b = Some o1" "holds (pt_blocks p) o1 (bs, capacity)" using agree_buffer [OF assms(1) i(1)] by blast
  have "ideal_op junk (Take v b off (length bs - off)) c = Some c'" using i by simp
  then obtain p' where p': "run_op junk (Take v b off (length bs - off)) p = Inr p'" "agree p' c'" using take_ok [OF assms(1)] by blast
  have "run_op junk (Rest v b off) p = Inr p'"
    using p'(1) o1 i(2) by (simp add: buffer_view_sub_def buffer_view_from_def buffer_view_def view_sub_def view_from_def holds_def)
  then show ?thesis using p'(2) by blast
qed

lemma tail_ok:
  assumes "agree p c" "ideal_op junk (Tail v u off) c = Some c'"
  shows "\<exists>p'. run_op junk (Tail v u off) p = Inr p' \<and> agree p' c'"
proof -
  obtain b off0 x where i: "ct_views c u = Some (b, off0, x)" "off \<le> length x"
    "c' = c\<lparr>ct_views := (ct_views c)(v \<mapsto> (b, off0 + off, drop off x))\<rparr>"
    using assms(2) by (auto split: option.splits if_splits)
  obtain w where w: "pt_views p u = Some w" "vw_length w = int (length x)" by (rule displays_bytes [OF assms(1) i(1)])
  have "ideal_op junk (Narrow v u off (length x - off)) c = Some c'" using i by simp
  then obtain p' where p': "run_op junk (Narrow v u off (length x - off)) p = Inr p'" "agree p' c'" using narrow_ok [OF assms(1)] by blast
  have "run_op junk (Tail v u off) p = Inr p'" using p'(1) w i(2) by (simp add: view_sub_def view_from_def of_nat_diff)
  then show ?thesis using p'(2) by blast
qed

lemma move_ok:
  assumes "agree p c" "ideal_op junk (Move v u) c = Some c'"
  shows "\<exists>p'. run_op junk (Move v u) p = Inr p' \<and> agree p' c'"
proof -
  obtain e where i: "ct_views c u = Some e" "u \<noteq> v" "c' = c\<lparr>ct_views := (ct_views c)(u := None, v \<mapsto> e)\<rparr>"
    using assms(2) by (auto split: option.splits if_splits)
  obtain b off x where e: "e = (b, off, x)" by (cases e) auto
  obtain w where w: "pt_views p u = Some w" using displays_bytes [OF assms(1) i(1) [unfolded e]] by blast
  let ?p = "p\<lparr>pt_views := (pt_views p)(u \<mapsto> null_view, v \<mapsto> w)\<rparr>"
  have "displays ?p c' z e1" if a: "ct_views c' z = Some e1" for z e1
  proof (cases "z = v")
    case True
    then have "e1 = e" using a i(3) by simp
    then show ?thesis using agree_view [OF assms(1) i(1)] True w i(3) by (simp add: displays_def split: prod.splits)
  next
    case False
    then have z: "z \<noteq> u" "ct_views c z = Some e1" using a i(3) by (auto split: if_splits)
    then show ?thesis using agree_view [OF assms(1) z(2)] False i(3) by (simp add: displays_def split: prod.splits)
  qed
  moreover have "apart ?p c'" using assms(1) i(3) by (simp add: agree_def apart_def)
  moreover have "\<exists>o1. pt_buffers ?p b1 = Some o1 \<and> holds (pt_blocks ?p) o1 x1" if "ct_buffers c' b1 = Some x1" for b1 x1
    using agree_buffer [OF assms(1), of b1 x1] that i(3) by simp
  ultimately have "agree ?p c'" unfolding agree_def by blast
  then show ?thesis using w by (simp add: view_move_def)
qed

lemma op_ok: "agree p c \<Longrightarrow> ideal_op junk x c = Some c' \<Longrightarrow> \<exists>p'. run_op junk x p = Inr p' \<and> agree p' c'"
  by (cases x) (simp_all only: new_ok destroy_ok append_ok assign_ok take_ok narrow_ok rest_ok tail_ok move_ok)

lemma ops_ok: "agree p c \<Longrightarrow> ideal_ops junk xs c = Some c' \<Longrightarrow> \<exists>p'. run_ops junk xs p = Inr p' \<and> agree p' c'"
proof (induction xs arbitrary: p c)
  case (Cons x xs)
  obtain c1 where c1: "ideal_op junk x c = Some c1" "ideal_ops junk xs c1 = Some c'"
    using Cons.prems(2) by (auto simp: bind_eq_Some_conv)
  obtain p1 where "run_op junk x p = Inr p1" "agree p1 c1" using op_ok [OF Cons.prems(1) c1(1)] by blast
  then show ?case using Cons.IH [OF _ c1(2)] by simp
qed simp

lemma agree_shows:
  assumes "agree p c" "ct_buffers c b = Some (bs, capacity)"
  shows "\<exists>o1. pt_buffers p b = Some o1 \<and> view_bytes (pt_blocks p) (buffer_view o1) = Inr bs"
proof -
  obtain o1 where o1: "pt_buffers p b = Some o1" "holds (pt_blocks p) o1 (bs, capacity)" using agree_buffer [OF assms] by blast
  have "view_bytes (pt_blocks p) (buffer_view o1) = Inr bs"
  proof (cases "bo_block o1")
    case None
    then show ?thesis using o1(2) by (auto simp: holds_def bo_bytes_def view_bytes_def buffer_view_def)
  next
    case (Some k)
    then show ?thesis using o1(2) by (auto simp: holds_def bo_bytes_def view_bytes_def buffer_view_def slice_sub_def)
  qed
  then show ?thesis using o1(1) by blast
qed

section \<open>The refinement\<close>

definition no_pointers :: pointers where
  "no_pointers = \<lparr>pt_blocks = \<lparr>bl_fresh = 0, bl_bytes = Map.empty\<rparr>, pt_buffers = Map.empty, pt_views = Map.empty\<rparr>"

definition no_contents :: contents where
  "no_contents = \<lparr>ct_buffers = Map.empty, ct_views = Map.empty\<rparr>"

lemma agree_start: "agree no_pointers no_contents"
  by (simp add: agree_def apart_def no_pointers_def no_contents_def)

text \<open>C35. A program that keeps its buffers below \<open>2 ^ 31\<close> bytes, and uses no slice of a buffer after the buffer was assigned,
  destroyed or grown, does with its pointers what it would do with copies of the bytes: no operation is undefined, no \<^verbatim>\<open>int\<close>
  overflows, every buffer shows its bytes, every slice
  that was not forgotten shows the bytes it was taken with, however its buffer was appended to since, and two such
  slices compare as their bytes do, as do two buffers.\<close>

theorem views_refine:
  assumes "ideal_ops junk xs no_contents = Some c"
  shows "\<exists>p. run_ops junk xs no_pointers = Inr p \<and>
    (\<forall>b bs capacity. ct_buffers c b = Some (bs, capacity) \<longrightarrow> length bs \<le> capacity \<and> capacity < 2 ^ 31 \<and>
       (\<exists>o1. pt_buffers p b = Some o1 \<and> view_bytes (pt_blocks p) (buffer_view o1) = Inr bs \<and>
         (\<forall>b' bs' capacity' o2. ct_buffers c b' = Some (bs', capacity') \<longrightarrow> pt_buffers p b' = Some o2 \<longrightarrow>
            buffer_eq (pt_blocks p) o1 o2 = Inr (bs = bs') \<and> buffer_less (pt_blocks p) o1 o2 = Inr (compareTo bs bs' < 0)))) \<and>
    (\<forall>v b off x. ct_views c v = Some (b, off, x) \<longrightarrow>
       (\<exists>w. pt_views p v = Some w \<and> view_bytes (pt_blocks p) w = Inr x \<and>
         (\<forall>v' b' off' y w'. ct_views c v' = Some (b', off', y) \<longrightarrow> pt_views p v' = Some w' \<longrightarrow>
            view_compareTo (pt_blocks p) w w' = Inr (compareTo x y))))"
proof -
  obtain p where p: "run_ops junk xs no_pointers = Inr p" "agree p c" using ops_ok [OF agree_start assms] by blast
  have v: "\<exists>w. pt_views p v = Some w \<and> view_bytes (pt_blocks p) w = Inr x" if "ct_views c v = Some (b, off, x)" for v b off x
    using displays_bytes [OF p(2) that] by blast
  have cmp: "view_compareTo (pt_blocks p) w w' = Inr (compareTo x y)"
    if "view_bytes (pt_blocks p) w = Inr x" "ct_views c v' = Some (b', off', y)" "pt_views p v' = Some w'" for w x v' b' off' y w'
    using view_compareTo_bytes [OF that(1)] v [OF that(2)] that(3) by auto
  have buf: "length bs \<le> capacity \<and> capacity < 2 ^ 31 \<and> (\<exists>o1. pt_buffers p b = Some o1 \<and> view_bytes (pt_blocks p) (buffer_view o1) = Inr bs \<and>
       (\<forall>b' bs' capacity' o2. ct_buffers c b' = Some (bs', capacity') \<longrightarrow> pt_buffers p b' = Some o2 \<longrightarrow>
          buffer_eq (pt_blocks p) o1 o2 = Inr (bs = bs') \<and> buffer_less (pt_blocks p) o1 o2 = Inr (compareTo bs bs' < 0)))"
    if i: "ct_buffers c b = Some (bs, capacity)" for b bs capacity
  proof -
    obtain o1 where o1: "pt_buffers p b = Some o1" "view_bytes (pt_blocks p) (buffer_view o1) = Inr bs" using agree_shows [OF p(2) i] by blast
    have "buffer_compareTo (pt_blocks p) o1 o2 = Inr (compareTo bs bs')"
      if "ct_buffers c b' = Some (bs', capacity')" "pt_buffers p b' = Some o2" for b' bs' capacity' o2
      unfolding buffer_compareTo_def by (rule view_compareTo_bytes [OF o1(2)]) (use agree_shows [OF p(2) that(1)] that(2) in simp)
    moreover have "length bs \<le> capacity \<and> capacity < 2 ^ 31" using agree_buffer [OF p(2) i] by (auto simp: holds_def)
    ultimately show ?thesis using o1 by (intro conjI exI [of _ o1]) (simp_all add: buffer_eq_def buffer_less_def compareTo_eq_iff)
  qed
  show ?thesis
  proof (intro exI [of _ p] conjI allI impI)
    fix v b off x
    assume x: "ct_views c v = Some (b, off, x)"
    obtain w where w: "pt_views p v = Some w" "view_bytes (pt_blocks p) w = Inr x" using v [OF x] by blast
    show "\<exists>w. pt_views p v = Some w \<and> view_bytes (pt_blocks p) w = Inr x \<and>
       (\<forall>v' b' off' y w'. ct_views c v' = Some (b', off', y) \<longrightarrow> pt_views p v' = Some w' \<longrightarrow>
          view_compareTo (pt_blocks p) w w' = Inr (compareTo x y))"
      using w cmp [OF w(2)] by (intro exI [of _ w]) simp
  qed (use p(1) buf in simp_all)
qed

text \<open>A slice of a buffer is appended to another, and a slice of that one compares as equal.\<close>

lemma views_refine_witness:
  "\<exists>p w w'. run_ops of_nat [New 0 3, Take 5 0 1 2, New 7 0, Append 7 5, Take 6 7 0 2] no_pointers = Inr p \<and>
     pt_views p 5 = Some w \<and> pt_views p 6 = Some w' \<and> view_bytes (pt_blocks p) w = Inr [1, 2] \<and>
     view_compareTo (pt_blocks p) w w' = Inr 0"
proof -
  let ?xs = "[New 0 3, Take 5 0 1 2, New 7 0, Append 7 5, Take 6 7 0 2]"
  have u: "[0..<3] = [0, 1, 2 :: nat]" by (simp add: upt_rec)
  have "\<exists>c. ideal_ops of_nat ?xs no_contents = Some c \<and> ct_views c 5 = Some (0, 1, [1, 2]) \<and> ct_views c 6 = Some (7, 0, [1, 2])"
    using u by (simp add: no_contents_def forget_def)
  then obtain c where c: "ideal_ops of_nat ?xs no_contents = Some c" "ct_views c 5 = Some (0, 1, [1, 2])"
    "ct_views c 6 = Some (7, 0, [1, 2])" by blast
  obtain p where p: "run_ops of_nat ?xs no_pointers = Inr p"
    "\<forall>v b off x. ct_views c v = Some (b, off, x) \<longrightarrow>
       (\<exists>w. pt_views p v = Some w \<and> view_bytes (pt_blocks p) w = Inr x \<and>
         (\<forall>v' b' off' y w'. ct_views c v' = Some (b', off', y) \<longrightarrow> pt_views p v' = Some w' \<longrightarrow>
            view_compareTo (pt_blocks p) w w' = Inr (compareTo x y)))"
    using views_refine [OF c(1)] by blast
  obtain w where w: "pt_views p 5 = Some w" "view_bytes (pt_blocks p) w = Inr [1, 2]"
    "\<And>v' b' off' y w'. ct_views c v' = Some (b', off', y) \<Longrightarrow> pt_views p v' = Some w' \<Longrightarrow>
      view_compareTo (pt_blocks p) w w' = Inr (compareTo [1, 2] y)"
    using p(2) c(2) by blast
  obtain w' where w': "pt_views p 6 = Some w'" using p(2) c(3) by blast
  have "view_compareTo (pt_blocks p) w w' = Inr 0" using w(3) [OF c(3) w'] by (simp add: compareTo_eq_iff)
  then show ?thesis using p(1) w(1,2) w' by blast
qed

end
