(* ===== verification/Spec2Isabelle.thy ===== *)
theory Spec2Isabelle
  imports Crash Limits LockFree LogClose Purge Soundness LogFaults SkipListReaders ByteBuffer Views ThreadPool
begin

text \<open>
  A model of cpp_leveldb, a key/value store in the manner of a log-structured merge tree, translated from the
  C++ sources under \<^verbatim>\<open>src/\<close> and \<^verbatim>\<open>src/include/\<close>, with the properties that make its parts correct.

  \<^bold>\<open>The program.\<close> A database is a directory. Writes go to a memory segment, a skip list with a log file beside
  it; when it is large enough it is put behind the other segments and a new one is started. A merging thread
  replaces neighbouring segments by one disk segment (a key file of blocks with compressed keys and a data file);
  closing the database merges and writes the memory segments, and opening it loads the segments its directory
  holds. Reading looks through the segments, the newest first; an iterator merges the iterators of all segments.

  \<^bold>\<open>The theories\<close>, in the order in which they build on each other, with the files they model.

  \<^item> \<^verbatim>\<open>Prelude\<close>: the types, the exceptions (\<^verbatim>\<open>exceptions.h\<close>) as the values \<open>error\<close>, results \<open>'a res\<close> that may fail,
    \<^verbatim>\<open>constants.h\<close>, shared lemmas and the collection \<open>res_simps\<close>.
  \<^item> \<^verbatim>\<open>Slice\<close> (\<^verbatim>\<open>slice.h\<close>), \<^verbatim>\<open>KeyValue\<close> (\<^verbatim>\<open>keyvalue.h\<close>, \<^verbatim>\<open>options.h\<close>, \<^verbatim>\<open>writebatch.h\<close>), \<^verbatim>\<open>LookupIterator\<close>
    (\<^verbatim>\<open>lookupiterator.h\<close>; the locales \<open>kv_source\<close> and \<open>lookup_iterator\<close> are the contract of every iterator).
  \<^item> \<^verbatim>\<open>LittleEndian\<close>, \<^verbatim>\<open>DiskIO\<close>, \<^verbatim>\<open>KeyFile\<close> (\<^verbatim>\<open>diskio.cpp\<close>: numbers, key compression, the writer of segment files and
    the layout it produces), \<^verbatim>\<open>DiskSegment\<close>, \<^verbatim>\<open>DiskGet\<close>, \<^verbatim>\<open>DiskIterator\<close>, \<^verbatim>\<open>DiskLookup\<close> (\<^verbatim>\<open>disksegment.cpp\<close>,
    \<^verbatim>\<open>disksegment.h\<close>, \<^verbatim>\<open>memorymapped.h\<close>: search, look-up, iteration, index).
  \<^item> \<^verbatim>\<open>SkipList\<close>, \<^verbatim>\<open>SkipListCorrect\<close>, \<^verbatim>\<open>SkipListSpec\<close>, \<^verbatim>\<open>SkipListItr\<close> (\<^verbatim>\<open>skiplist.h\<close>, \<^verbatim>\<open>skiplistitr.h\<close>): nodes with pointers,
    their invariant, the refinement of an ordered list, the iterator; \<^verbatim>\<open>SkipListReaders\<close>: a get without a lock beside
    puts, one pointer access at a time.
  \<^item> \<^verbatim>\<open>MultiSegment\<close> (\<^verbatim>\<open>multisegment.h\<close>): the merging iterator over iterators that meet the contract.
  \<^item> \<^verbatim>\<open>LogFile\<close>, \<^verbatim>\<open>LogRecovery\<close> (\<^verbatim>\<open>logfile.cpp\<close>, \<^verbatim>\<open>fdfilebuf.h\<close>), \<^verbatim>\<open>MemorySegment\<close> (\<^verbatim>\<open>memorysegment.h\<close>, \<^verbatim>\<open>memorysegment.cpp\<close>,
    \<^verbatim>\<open>logsegment.h\<close>): writing logs, reading them back whole or cut off, segments in memory. \<^verbatim>\<open>LogFaults\<close>: a write of the
    log that takes fewer bytes than it is given, and closing the log afterwards.
  \<^item> \<^verbatim>\<open>Names\<close>, \<^verbatim>\<open>Segments\<close> (\<^verbatim>\<open>segment.h\<close>: the kinds of segment as one type), \<^verbatim>\<open>Directory\<close> (\<^verbatim>\<open>deleter.h\<close>, the
    directory part of \<^verbatim>\<open>diskio.cpp\<close> and \<^verbatim>\<open>disksegment.cpp\<close>): names of files, writing a segment under its name, deleting
    later, loading a directory.
  \<^item> \<^verbatim>\<open>Database\<close> (\<^verbatim>\<open>databaseops.cpp\<close>, \<^verbatim>\<open>snapshot.cpp\<close>, \<^verbatim>\<open>database.h\<close>): get, put, remove, write, lookup, snapshots.
    \<^verbatim>\<open>Soundness\<close>: the operations with the lock of the database, which requests are refused, and that nothing else
    goes wrong but the second unlock in put and remove. \<^verbatim>\<open>LockFree\<close>: a get, which takes no lock, beside the
    steps of the other operations. \<^verbatim>\<open>Limits\<close>: keys the database accepts and cannot keep.
  \<^item> \<^verbatim>\<open>Merger\<close>, \<^verbatim>\<open>MergeLoop\<close>, \<^verbatim>\<open>Purge\<close> (\<^verbatim>\<open>merger.cpp\<close>): one merge, the loop, the loop beside the writers, and a merge that
    leaves nothing. \<^verbatim>\<open>AutoMerge\<close> (\<^verbatim>\<open>merger.cpp\<close>, \<^verbatim>\<open>merger.h\<close>): the merging thread with its mutex, its condition variable and the
    wait group, beside the clients and a close.
  \<^item> \<^verbatim>\<open>LockFile\<close> (\<^verbatim>\<open>lockfile.h\<close>), \<^verbatim>\<open>Lifecycle\<close>, \<^verbatim>\<open>Reopen\<close>, \<^verbatim>\<open>Session\<close>, \<^verbatim>\<open>Crash\<close> (\<^verbatim>\<open>database.cpp\<close>): opening, closing, and what is
    there after a close or a crash, between the steps of the system or while a merge writes its files. \<^verbatim>\<open>CloseTasks\<close>: the tasks of a close in every order. \<^verbatim>\<open>LogLife\<close>, \<^verbatim>\<open>LogClose\<close>: the logs in the
    directory, the references to memory segments and their destructors, and sessions one after the other.
  \<^item> \<^verbatim>\<open>Arena\<close>, \<^verbatim>\<open>ByteBuffer\<close> (\<^verbatim>\<open>arena.h\<close>, \<^verbatim>\<open>bytebuffer.h\<close>): memory and its bounds; \<^verbatim>\<open>Views\<close>: slices and buffers as pointers, and when
    they show what the models by bytes say. \<^verbatim>\<open>ThreadPool\<close> (\<^verbatim>\<open>threadpool.h\<close>,
    \<^verbatim>\<open>waitgroup.h\<close>).

  \<^bold>\<open>State and operations.\<close> A class with state is a record with the members of the class; a method is a function
  from the state to a result and the new state. An exception is \<open>Inl\<close> of its constructor; \<open>Inl UndefinedBehaviour\<close> is an
  access the language leaves undefined, \<open>Inl NoReturn\<close> a loop that does not end. A loop that may not end is a
  \<open>partial_function\<close>, where \<open>None\<close> means that it does not; the theorems show the cases in which it does end. Integers of
  the code are words of their width where they can wrap around, and \<open>int\<close> or \<open>nat\<close> where a bound that is proved or
  assumed by name excludes it. No loop has fuel.

  What a segment holds is a \<^emph>\<open>run\<close>, a list of pairs sorted by key: \<open>seg_repr s r\<close> relates the segment \<open>s\<close> to its run, for
  every kind of segment; \<open>seg_lists\<close> also admits a disk segment with an empty key file, which can be iterated but not
  searched. \<open>db_shape\<close> does the same for a database and its layers of runs. The value a full lookup returns under a key
  is \<open>shown\<close>, the value \<^verbatim>\<open>get\<close> returns is \<open>visible\<close>; they differ where a removed key has an older value. \<open>files_ok\<close> relates
  the directory to the segments, \<open>openable\<close> is what loading needs of it, \<open>files_inv\<close> and \<open>sys_inv\<close> are the invariants of
  the steps of the system.

  \<^bold>\<open>What comes from outside\<close> is an argument of the definitions that use it: the numbers \<^verbatim>\<open>rand()\<close> returns (a sequence
  \<open>rnd\<close>), the contents of memory that was not initialised (\<open>junk\<close>, \<open>env\<close>), the order in which a directory is listed
  (\<open>names\<close>), and whether the system makes a directory.

  \<^bold>\<open>What the theorems show.\<close> Each layer is related to the one below, up to the whole program: the skip list is an ordered
  list, also under a get without a lock; a get of a key that is not removed needs no lock; what is written to disk is found and iterated again; a look-up is the sorted
  union of the segments with the newest value of each key; a database is a map, also beside merges; closing and opening it
  again, any number of times, gives what its operations made of each key. The logs and the disk segments in the directory
  always hold everything written, if logs are flushed; what opening makes of the directory after a crash is what its disk
  segments hold, or an error if a temporary file is there, since the code does not load the logs. The loops end, and the locks, the wait group and the thread pool do what they are there for. Where
  the code does not do what it is meant to, a theorem shows what it does, from removed keys that are visible again to keys the
  database accepts and cannot keep.

  \<^bold>\<open>Assumptions.\<close> System calls other than locking and, in \<open>LogFaults\<close>, the writes of the log succeed. The operands of the sum in
  the stream readers of \<^verbatim>\<open>diskio.cpp\<close>, whose order C++ does not fix, are evaluated from left to right. Each operation that
  writes runs under the lock of the database, and unlocking that recursive mutex once too often, as put and remove do, has no
  effect (\<open>Soundness\<close> has it as an argument); it is one step, or in \<open>LockFree\<close> the steps a get can come between, and a
  search of the skip list is one step there, as \<open>SkipListReaders\<close> justifies. Writing the files of a merge, with the
  renames and the scheduling of the old ones, is one step (the points inside it are in \<open>Crash\<close>); the commit is another, and its
  comparison of segment pointers is equality of the segments. A buffer on the heap grows by \<^verbatim>\<open>realloc\<close>, taken to keep the bytes
  although the memory comes from \<^verbatim>\<open>new[]\<close>. \<open>Lifecycle\<close>, \<open>Reopen\<close>, \<open>Session\<close> and \<open>Crash\<close> keep the log of a memory
  segment with the segment; \<open>LogLife\<close> and \<open>LogClose\<close> put it into the directory. What an exception leaves in the directory
  is not modelled, and the process does not run inside the database directory. A pool of threads is not used after its
  destructor starts, and tasks do not throw. A lock file is \<^verbatim>\<open>flock\<close> on an open file of the process table; copies of a lock
  object share its descriptor. The bounds in the theorems: keys of at most 1000 bytes in a disk segment and
  values shorter than \<open>2 ^ 31\<close>, less than \<open>2 ^ 63\<close> bytes of values and less than \<open>2 ^ 50\<close> pairs in one (\<open>run_ok\<close>,
  \<open>runs_fit\<close>; \<open>room\<close> asks it of everything a run of operations writes), and fewer than \<open>2 ^ 64\<close> segment ids. Theorems on loading
  are for paths without a dot, since the code reads the ids from the whole path.

  \<^bold>\<open>Not modelled.\<close> Times: a timed wait may end at any point. The mapping of files into memory other than as their
  contents; printing to streams; the memory a reader keeps alive other than the memory segments with their logs; the
  test programs and benchmarks.
\<close>

end
